(* ===== verification/Prelude.thy ===== *)
theory Prelude
  imports Main "HOL-Library.Word" "HOL-Library.Multiset"
begin

unbundle bit_operations_syntax

text \<open>
  Types and generic lemmas the component theories share: the machine integers of the code, the ways
  a C++ call can end other than by returning a value, and the small facts about lists, sums and
  words that every component needs.
\<close>

section \<open>Machine integers and addresses\<close>

text \<open>\<open>size_t\<close> and pointers are 64 bits wide on the platforms the build supports; \<open>0\<close> is the null
  pointer.\<close>

type_synonym size_t = "64 word"
type_synonym addr = "64 word"

abbreviation nullptr :: addr where "nullptr \<equiv> 0"

definition INT_MAX :: int where "INT_MAX = 2 ^ 31 - 1"
definition INT_MIN :: int where "INT_MIN = - (2 ^ 31)"

text \<open>Conversion of an integer to \<open>int\<close> (32 bits, two's complement, modulo \<open>2 ^ 32\<close>).\<close>

definition to_int32 :: "int \<Rightarrow> int" where
  "to_int32 v = signed_take_bit 31 v"

section \<open>How a call can end\<close>

text \<open>
  \<open>Exn\<close> is a C++ exception, \<open>UB\<close> an execution the language gives no meaning to (an out of range
  access, a signed overflow), \<open>Deadlock\<close> a lock that can never be taken, \<open>No_Return\<close> a call that
  has not returned within the fuel it was given, \<open>Assert_Fail\<close> that the program aborts, in an \<open>assert\<close> that does
  not hold or in \<open>std::terminate\<close>,
  \<open>Ill_Formed\<close> a program the compiler rejects (a failed \<open>static_assert\<close>).  Each is a value, so that every such branch of the
  code is a branch of the model.  \<open>ctype\<close> is what \<open>typeid\<close> distinguishes: \<open>void\<close> (the type of an empty
  \<open>nstd::any\<close>), \<open>std::nullopt_t\<close>, a named type, a \<open>std::vector\<close> and a shared pointer to a queue.
\<close>

datatype ctype =
    TVoid
  | TNullopt
  | TClass string
  | TVector ctype
  | TQueue ctype

datatype exn =
    Invalid_Argument string
  | Out_Of_Range string
  | Runtime_Error string
  | Bad_Any_Cast ctype ctype
  | Bad_Alloc
  | Unordered_Sources
  | Unknown_Flow_Object ctype
  | User_Exn nat

datatype error = Exn exn | UB | Deadlock | No_Return | Assert_Fail | Ill_Formed

type_synonym 'a result = "error + 'a"

fun rbind :: "'a result \<Rightarrow> ('a \<Rightarrow> 'b result) \<Rightarrow> 'b result" where
  "rbind (Inl e) f = Inl e"
| "rbind (Inr a) f = f a"

fun rmap :: "('a \<Rightarrow> 'b) \<Rightarrow> 'a result \<Rightarrow> 'b result" where
  "rmap f (Inl e) = Inl e"
| "rmap f (Inr a) = Inr (f a)"

lemma rbind_Inr_conv: "rbind r f = Inr b \<longleftrightarrow> (\<exists>a. r = Inr a \<and> f a = Inr b)"
  by (cases r) auto

lemma rbind_Inl_conv: "rbind r f = Inl e \<longleftrightarrow> r = Inl e \<or> (\<exists>a. r = Inr a \<and> f a = Inl e)"
  by (cases r) auto

lemma rmap_Inr_conv: "rmap f r = Inr b \<longleftrightarrow> (\<exists>a. r = Inr a \<and> b = f a)"
  by (cases r) auto

text \<open>Sequencing of calls that return a result and change a state: the first that fails ends it.\<close>

fun and_then :: "'a result \<times> 's \<Rightarrow> ('a \<Rightarrow> 's \<Rightarrow> 'b result \<times> 's) \<Rightarrow> 'b result \<times> 's" where
  "and_then (Inl e, s) f = (Inl e, s)"
| "and_then (Inr a, s) f = f a s"

lemma and_then_split: "and_then r f = (case r of (Inl e, s) \<Rightarrow> (Inl e, s) | (Inr a, s) \<Rightarrow> f a s)"
  by (cases "(r, f)" rule: and_then.cases) auto

text \<open>\<open>std::lock_guard\<close> on a \<open>std::mutex\<close>, given how the state holds the mutex: taking a mutex that is
  held never returns, and the mutex is released when the body ends, normally or not.\<close>

definition lock_guard ::
  "('s \<Rightarrow> bool) \<Rightarrow> (bool \<Rightarrow> 's \<Rightarrow> 's) \<Rightarrow> ('s \<Rightarrow> 'a result \<times> 's) \<Rightarrow> 's \<Rightarrow> 'a result \<times> 's" where
  "lock_guard held hold body s =
     (if held s then (Inl Deadlock, s)
      else let (r, s) = body (hold True s) in (r, hold False s))"

lemma lock_guard_free: "\<not> held s \<Longrightarrow> body (hold True s) = (r, s') \<Longrightarrow> lock_guard held hold body s = (r, hold False s')"
  by (simp add: lock_guard_def)

section \<open>Collections of facts\<close>

text \<open>\<open>word_size\<close>: how word operations read as naturals; \<open>unfold_ops\<close>: the definitions of the
  operations of the component at hand.\<close>

named_theorems size_simps
named_theorems op_defs

section \<open>Lists\<close>

lemma takeWhile_all: "(\<And>x. x \<in> set xs \<Longrightarrow> P x) \<Longrightarrow> takeWhile P xs = xs"
  by (induction xs) auto

lemma takeWhile_append_stop:
  "(\<And>x. x \<in> set xs \<Longrightarrow> P x) \<Longrightarrow> \<not> P y \<Longrightarrow> takeWhile P (xs @ y # ys) = xs"
  by (induction xs) auto

lemma dropWhile_append_stop:
  "(\<And>x. x \<in> set xs \<Longrightarrow> P x) \<Longrightarrow> \<not> P y \<Longrightarrow> dropWhile P (xs @ y # ys) = y # ys"
  by (induction xs) auto

lemma butlast_mset_last: "xs \<noteq> [] \<Longrightarrow> add_mset (last xs) (mset (butlast xs)) = mset xs"
  by (metis append_butlast_last_id mset.simps mset_append union_mset_add_mset_right add.right_neutral)

lemma map_butlast_last: "xs \<noteq> [] \<Longrightarrow> map f (butlast xs) @ [f (last xs)] = map f xs"
  by (induction xs) auto

section \<open>Words\<close>

lemma unat_below_2p: "unat (x :: size_t) < 2 ^ 64"
  using unsigned_less [of x] by simp

lemma unat_add_small [size_simps]:
  fixes a b :: size_t
  shows "unat a + unat b < 2 ^ 64 \<Longrightarrow> unat (a + b) = unat a + unat b"
  by (simp add: unat_word_ariths)

lemma unat_mult_small [size_simps]:
  fixes a b :: size_t
  shows "unat a * unat b < 2 ^ 64 \<Longrightarrow> unat (a * b) = unat a * unat b"
  by (simp add: unat_word_ariths)

lemma unat_of_nat_small [size_simps]: "n < 2 ^ 64 \<Longrightarrow> unat (of_nat n :: size_t) = n"
  by (simp add: unat_of_nat)

lemma unat_and_mask [size_simps]: "unat (x AND mask k :: size_t) = unat x mod 2 ^ k"
  by (metis take_bit_eq_mask take_bit_eq_mod unsigned_take_bit_eq)

section \<open>Rotations\<close>

lemma mod_add_if: "g < n \<Longrightarrow> j < n \<Longrightarrow> (g + j) mod n = (if g + j < n then g + j else g + j - n)" for g j n :: nat
  by (auto simp: mod_if [of "g + j"])

lemma mod_add_inj:
  fixes a i j n :: nat
  assumes "i < n" "j < n"
  shows "(a + j) mod n = (a + i) mod n \<longleftrightarrow> j = i"
proof -
  have "a mod n < n" using assms by simp
  then have "(a mod n + j) mod n = (a mod n + i) mod n \<longleftrightarrow> j = i"
    using assms by (auto simp: mod_add_if split: if_splits)
  then show ?thesis by (simp add: mod_add_left_eq)
qed

lemma rotate_update:
  assumes "i < length xs"
  shows "rotate f (xs[(f + i) mod length xs := v]) = (rotate f xs)[i := v]"
proof (rule nth_equalityI)
  fix j assume "j < length (rotate f (xs[(f + i) mod length xs := v]))"
  then have j: "j < length xs" by simp
  have "(f + j) mod length xs = (f + i) mod length xs \<longleftrightarrow> j = i"
    using j assms by (simp add: mod_add_inj)
  moreover have "(f + i) mod length xs < length xs" using assms by (intro mod_less_divisor) auto
  ultimately show "rotate f (xs[(f + i) mod length xs := v]) ! j = (rotate f xs)[i := v] ! j"
    using j assms by (auto simp: nth_rotate nth_list_update)
qed simp

lemma rotate_nth0: "f < length xs \<Longrightarrow> rotate f xs ! 0 = xs ! f"
  by (cases "xs = []") (simp_all add: nth_rotate)

lemma rotate_mod_Suc: "rotate (Suc f mod length xs) xs = rotate1 (rotate f xs)"
  by (metis rotate_Suc rotate_conv_mod)

end
