(* ===== verification/IQueue.thy ===== *)
theory IQueue
  imports Prelude
begin

text \<open>
  The interface \<open>core/src/utils/queues/IQueue.hpp\<close> as a contract, and its two clients
  \<open>modules/io/queue/QueueSource.hpp\<close> and \<open>QueueSink.hpp\<close>.  \<open>repr q xs\<close> says that the queue object \<open>q\<close>
  holds the elements \<open>xs\<close>, first out first.  Every law is proved for the queue classes in their own
  theories; what is proved here holds for all of them.
\<close>

section \<open>Clients\<close>

text \<open>\<open>QueueSink::process\<close> ignores the boolean that \<open>push\<close> returns.\<close>

definition queue_sink_process :: "('a \<Rightarrow> 's \<Rightarrow> bool result \<times> 's) \<Rightarrow> 'a \<Rightarrow> 's \<Rightarrow> unit result \<times> 's" where
  "queue_sink_process push input q = and_then (push input q) (\<lambda>_ q. (Inr (), q))"

text \<open>\<open>QueueSource::process\<close>; \<open>pop\<close> gives the element it assigned to its argument, or \<open>None\<close> where it
  returns \<open>false\<close>.\<close>

definition queue_source_process :: "('s \<Rightarrow> 'a option result \<times> 's) \<Rightarrow> 's \<Rightarrow> 'a option result \<times> 's" where
  "queue_source_process pop q =
     and_then (pop q) (\<lambda>r q. case r of None \<Rightarrow> (Inr None, q) | Some out \<Rightarrow> (Inr (Some out), q))"

text \<open>A history of a queue: pushes and pops in the order they happen, with the elements accepted by the
  pushes and the elements delivered by the pops.\<close>

datatype 'a queue_op = Push_Op 'a | Pop_Op

fun run_queue ::
  "('a \<Rightarrow> 's \<Rightarrow> bool result \<times> 's) \<Rightarrow> ('s \<Rightarrow> 'a option result \<times> 's) \<Rightarrow> 'a queue_op list \<Rightarrow> 's \<Rightarrow>
   ('a list \<times> 'a list) result \<times> 's" where
  "run_queue push pop [] q = (Inr ([], []), q)"
| "run_queue push pop (Push_Op x # ops) q =
     and_then (push x q) (\<lambda>b q. and_then (run_queue push pop ops q) (\<lambda>(acc, out) q.
       (Inr (if b then x # acc else acc, out), q)))"
| "run_queue push pop (Pop_Op # ops) q =
     and_then (pop q) (\<lambda>r q. and_then (run_queue push pop ops q) (\<lambda>(acc, out) q.
       (Inr (acc, case r of None \<Rightarrow> out | Some x \<Rightarrow> x # out), q)))"

section \<open>The contract\<close>

locale iqueue =
  fixes repr :: "'s \<Rightarrow> 'a list \<Rightarrow> bool"
    and push :: "'a \<Rightarrow> 's \<Rightarrow> bool result \<times> 's"
    and pop :: "'s \<Rightarrow> 'a option result \<times> 's"
    and peek :: "'s \<Rightarrow> 'a result \<times> 's"
  assumes push_law: "repr q xs \<Longrightarrow> \<exists>b q'. push x q = (Inr b, q') \<and> repr q' (if b then xs @ [x] else xs)"
    and pop_none: "repr q [] \<Longrightarrow> \<exists>q'. pop q = (Inr None, q') \<and> repr q' []"
    and pop_some: "repr q (x # xs) \<Longrightarrow> \<exists>q'. pop q = (Inr (Some x), q') \<and> repr q' xs"
    and peek_law: "repr q (x # xs) \<Longrightarrow> \<exists>q'. peek q = (Inr x, q') \<and> repr q' (x # xs)"
begin

lemma pop_cases:
  assumes "repr q xs"
  shows "\<exists>r q'. pop q = (Inr r, q') \<and> (case r of None \<Rightarrow> xs = [] \<and> repr q' [] | Some x \<Rightarrow> \<exists>ys. xs = x # ys \<and> repr q' ys)"
proof (cases xs)
  case Nil
  then show ?thesis using pop_none assms by fastforce
next
  case (Cons x ys)
  then show ?thesis using pop_some assms by fastforce
qed

text \<open>First in, first out: whatever the history, the elements delivered and then the elements left are the
  elements that were there and then the elements accepted.\<close>

lemma run_fifo:
  "repr q xs \<Longrightarrow> \<exists>acc out ys q'. run_queue push pop ops q = (Inr (acc, out), q') \<and> repr q' ys \<and> xs @ acc = out @ ys"
proof (induction ops arbitrary: q xs)
  case (Cons op ops)
  show ?case
  proof (cases op)
    case (Push_Op x)
    obtain b q1 where 1: "push x q = (Inr b, q1)" "repr q1 (if b then xs @ [x] else xs)"
      using push_law [OF Cons.prems] by blast
    from Cons.IH [OF 1(2)] obtain acc out ys q' where
      "run_queue push pop ops q1 = (Inr (acc, out), q')" "repr q' ys" "(if b then xs @ [x] else xs) @ acc = out @ ys"
      by blast
    then show ?thesis using Push_Op 1(1) by (cases b) auto
  next
    case Pop_Op
    obtain r q1 where 1: "pop q = (Inr r, q1)"
      "case r of None \<Rightarrow> xs = [] \<and> repr q1 [] | Some x \<Rightarrow> \<exists>ys. xs = x # ys \<and> repr q1 ys"
      using pop_cases [OF Cons.prems] by blast
    obtain zs where zs: "repr q1 zs" "xs = (case r of None \<Rightarrow> [] | Some x \<Rightarrow> [x]) @ zs"
      using 1(2) by (auto split: option.splits)
    from Cons.IH [OF zs(1)] obtain acc out ys q' where
      "run_queue push pop ops q1 = (Inr (acc, out), q')" "repr q' ys" "zs @ acc = out @ ys"
      by blast
    then show ?thesis using Pop_Op 1(1) zs(2) by (cases r) auto
  qed
qed auto

text \<open>What a sink accepted reaches the source behind the same queue.\<close>

lemma sink_then_source:
  assumes "repr q []" "push x q = (Inr True, q1)"
  shows "\<exists>q2. queue_sink_process push x q = (Inr (), q1) \<and>
    queue_source_process pop q1 = (Inr (Some x), q2) \<and> repr q2 []"
proof -
  have "repr q1 [x]" using push_law [OF assms(1), of x] assms(2) by auto
  then obtain q2 where "pop q1 = (Inr (Some x), q2)" "repr q2 []" using pop_some by blast
  then show ?thesis using assms(2) by (simp add: queue_sink_process_def queue_source_process_def)
qed

lemma source_on_empty:
  assumes "repr q []"
  shows "\<exists>q'. queue_source_process pop q = (Inr None, q') \<and> repr q' []"
  using pop_none [OF assms] by (auto simp: queue_source_process_def)

end

text \<open>A queue that never refuses an element.\<close>

locale unbounded_queue = iqueue +
  assumes push_accepts: "repr q xs \<Longrightarrow> fst (push x q) = Inr True"
begin

lemma push_all:
  "repr q xs \<Longrightarrow> \<exists>q'. run_queue push pop (map Push_Op ys) q = (Inr (ys, []), q') \<and> repr q' (xs @ ys)"
proof (induction ys arbitrary: q xs)
  case (Cons y ys)
  obtain b q1 where 1: "push y q = (Inr b, q1)" "repr q1 (if b then xs @ [y] else xs)"
    using push_law [OF Cons.prems] by blast
  have b: "b" using push_accepts [OF Cons.prems, of y] 1(1) by simp
  with 1(2) have "repr q1 (xs @ [y])" by simp
  then obtain q' where "run_queue push pop (map Push_Op ys) q1 = (Inr (ys, []), q')" "repr q' ((xs @ [y]) @ ys)"
    using Cons.IH by blast
  then show ?case using 1(1) b by simp
qed simp

end

text \<open>A queue of a fixed capacity: it refuses an element exactly when it is full.\<close>

locale bounded_queue = iqueue +
  fixes capacity :: nat
  assumes push_bounded: "repr q xs \<Longrightarrow> fst (push x q) = Inr (length xs < capacity)"
begin

lemma push_full:
  assumes "repr q xs" "capacity \<le> length xs"
  shows "\<exists>q'. queue_sink_process push x q = (Inr (), q') \<and> repr q' xs"
proof -
  obtain b q1 where 1: "push x q = (Inr b, q1)" "repr q1 (if b then xs @ [x] else xs)"
    using push_law [OF assms(1)] by blast
  then have "\<not> b" using push_bounded [OF assms(1), of x] assms(2) by simp
  then show ?thesis using 1 by (simp add: queue_sink_process_def)
qed

text \<open>Of a burst of pushes exactly the ones that fit are kept.\<close>

lemma push_burst:
  "repr q xs \<Longrightarrow> length xs \<le> capacity \<Longrightarrow>
   \<exists>q'. run_queue push pop (map Push_Op ys) q = (Inr (take (capacity - length xs) ys, []), q') \<and>
     repr q' (xs @ take (capacity - length xs) ys)"
proof (induction ys arbitrary: q xs)
  case (Cons y ys)
  obtain b q1 where 1: "push y q = (Inr b, q1)" "repr q1 (if b then xs @ [y] else xs)"
    using push_law [OF Cons.prems(1)] by blast
  have b: "b \<longleftrightarrow> length xs < capacity" using push_bounded [OF Cons.prems(1), of y] 1(1) by simp
  let ?xs = "if b then xs @ [y] else xs"
  have "length ?xs \<le> capacity" using b Cons.prems(2) by auto
  then obtain q' where "run_queue push pop (map Push_Op ys) q1 = (Inr (take (capacity - length ?xs) ys, []), q')"
    "repr q' (?xs @ take (capacity - length ?xs) ys)"
    using Cons.IH [OF 1(2)] by blast
  moreover have "b \<Longrightarrow> capacity - length xs = Suc (capacity - length ?xs)" using b by simp
  ultimately show ?case using 1(1) b Cons.prems(2) by (cases b) auto
qed simp

end

end
