(* ===== verification/RW_Queue.thy ===== *)
theory RW_Queue
  imports IQueue
begin

text \<open>
  \<open>core/src/utils/queues/moodycamel/readerwriterqueue.h\<close>: \<open>ReaderWriterQueue\<close>, a ring of blocks, each a
  circular buffer.  Blocks live in a heap and are linked by pointers as in the code; a slot of a
  block's buffer is \<open>None\<close> while no object is alive in it.  The operations run one at a time (fences and
  the re-entrancy guards of debug builds have no effect then).  \<open>MAX_BLOCK_SIZE\<close> has its default value.
\<close>

section \<open>Blocks and the queue\<close>

record 'a block =
  front :: size_t
  localTail :: size_t
  tail :: size_t
  localFront :: size_t
  next_block :: "nat option"
  data :: "'a option list"
  sizeMask :: size_t

text \<open>\<open>mallocs\<close> counts the calls of \<open>malloc\<close>, so that a block's address is the number of its call.\<close>

record 'a rwq =
  blocks :: "nat \<Rightarrow> 'a block option"
  frontBlock :: nat
  tailBlock :: nat
  largestBlockSize :: size_t
  mallocs :: nat

definition MAX_BLOCK_SIZE :: size_t where "MAX_BLOCK_SIZE = 512"

text \<open>\<open>for (i = 1; i < sizeof(size_t); i <<= 1) x |= x >> (i << 3)\<close> runs for \<open>i = 1, 2, 4\<close>.\<close>

definition smear :: "nat \<Rightarrow> size_t \<Rightarrow> size_t" where
  "smear k x = x OR drop_bit k x"

definition ceilToPow2 :: "size_t \<Rightarrow> size_t" where
  "ceilToPow2 x = fold (\<lambda>i. smear (i * 8)) [1, 2, 4] (smear 4 (smear 2 (smear 1 (x - 1)))) + 1"

text \<open>The constructor of \<open>Block\<close> over a buffer of \<open>_size\<close> raw slots.\<close>

definition new_block :: "size_t \<Rightarrow> 'a block" where
  "new_block capacity = \<lparr>front = 0, localTail = 0, tail = 0, localFront = 0, next_block = None,
     data = replicate (unat capacity) None, sizeMask = capacity - 1\<rparr>"

text \<open>\<open>malloc\<close> is a parameter: whether its n-th call gives memory.\<close>

definition make_block :: "(nat \<Rightarrow> bool) \<Rightarrow> size_t \<Rightarrow> 'a rwq \<Rightarrow> nat option \<times> 'a rwq" where
  "make_block malloc capacity q =
     (let p = mallocs q; q = q\<lparr>mallocs := Suc p\<rparr> in
      if malloc p then (Some p, q\<lparr>blocks := (blocks q)(p \<mapsto> new_block capacity)\<rparr>) else (None, q))"

definition set_block :: "nat \<Rightarrow> 'a block \<Rightarrow> 'a rwq \<Rightarrow> 'a rwq" where
  "set_block p b q = q\<lparr>blocks := (blocks q)(p \<mapsto> b)\<rparr>"

lemma set_block_simps [simp]:
  "blocks (set_block p b q) = (blocks q)(p \<mapsto> b)" "frontBlock (set_block p b q) = frontBlock q"
  "tailBlock (set_block p b q) = tailBlock q" "largestBlockSize (set_block p b q) = largestBlockSize q"
  "mallocs (set_block p b q) = mallocs q"
  by (simp_all add: set_block_def)

section \<open>Construction\<close>

text \<open>The loop that allocates the initial blocks and links them into a ring.\<close>

primrec link_blocks ::
  "nat \<Rightarrow> (nat \<Rightarrow> bool) \<Rightarrow> size_t \<Rightarrow> nat option \<Rightarrow> nat option \<Rightarrow> 'a rwq \<Rightarrow> nat option result \<times> 'a rwq" where
  "link_blocks 0 malloc sz firstBlock lastBlock q = (Inr firstBlock, q)"
| "link_blocks (Suc n) malloc sz firstBlock lastBlock q =
     (case make_block malloc sz q of
        (None, q) \<Rightarrow> (Inl (Exn Bad_Alloc), q)
      | (Some block, q) \<Rightarrow>
          let q = (case (firstBlock, lastBlock) of
                     (Some f, Some l) \<Rightarrow>
                       (case blocks q l of None \<Rightarrow> q | Some b \<Rightarrow> set_block l (b\<lparr>next_block := Some block\<rparr>) q)
                   | _ \<Rightarrow> q);
              firstBlock = (case firstBlock of None \<Rightarrow> block | Some f \<Rightarrow> f);
              q = (case blocks q block of None \<Rightarrow> q | Some b \<Rightarrow> set_block block (b\<lparr>next_block := Some firstBlock\<rparr>) q) in
          link_blocks n malloc sz (Some firstBlock) (Some block) q)"

definition empty_heap :: "'a rwq" where
  "empty_heap = \<lparr>blocks = Map.empty, frontBlock = 0, tailBlock = 0, largestBlockSize = 0, mallocs = 0\<rparr>"

definition rwq_new :: "(nat \<Rightarrow> bool) \<Rightarrow> size_t \<Rightarrow> unit result \<times> 'a rwq" where
  "rwq_new malloc sz =
     (let largest = ceilToPow2 (sz + 1); many = MAX_BLOCK_SIZE * 2 < largest;
          initialBlockCount = (if many then (sz + MAX_BLOCK_SIZE * 2 - 3) div (MAX_BLOCK_SIZE - 1) else 1);
          largest = (if many then MAX_BLOCK_SIZE else largest) in
      and_then (link_blocks (unat initialBlockCount) malloc largest None None empty_heap)
        (\<lambda>firstBlock q. case firstBlock of
            None \<Rightarrow> (Inl UB, q)
          | Some f \<Rightarrow> (Inr (), q\<lparr>frontBlock := f, tailBlock := f, largestBlockSize := largest\<rparr>)))"

section \<open>Enqueue\<close>

text \<open>Construct and destroy an object in a block's buffer; a slot outside the buffer, or an object that
  is not alive, has no meaning.\<close>

definition construct_at :: "size_t \<Rightarrow> 'a \<Rightarrow> 'a block \<Rightarrow> 'a block result" where
  "construct_at i x b = (if unat i < length (data b) then Inr (b\<lparr>data := (data b)[unat i := Some x]\<rparr>) else Inl UB)"

definition object_at :: "size_t \<Rightarrow> 'a block \<Rightarrow> 'a result" where
  "object_at i b =
     (if unat i < length (data b) then (case data b ! unat i of None \<Rightarrow> Inl UB | Some x \<Rightarrow> Inr x) else Inl UB)"

definition destroy_at :: "size_t \<Rightarrow> 'a block \<Rightarrow> 'a block" where
  "destroy_at i b = b\<lparr>data := (data b)[unat i := None]\<rparr>"

definition inner_enqueue :: "bool \<Rightarrow> (nat \<Rightarrow> bool) \<Rightarrow> 'a \<Rightarrow> 'a rwq \<Rightarrow> bool result \<times> 'a rwq" where
  "inner_enqueue canAlloc malloc x q =
     (case blocks q (tailBlock q) of
        None \<Rightarrow> (Inl UB, q)
      | Some tb \<Rightarrow>
          let blockTail = tail tb;
              nextBlockTail = (blockTail + 1) AND sizeMask tb;
              reload = (nextBlockTail = localFront tb);
              tb = (if reload then tb\<lparr>localFront := front tb\<rparr> else tb) in
          if \<not> reload \<or> nextBlockTail \<noteq> localFront tb
          then case construct_at blockTail x tb of
                 Inl e \<Rightarrow> (Inl e, q)
               | Inr tb \<Rightarrow> (Inr True, set_block (tailBlock q) (tb\<lparr>tail := nextBlockTail\<rparr>) q)
          else let q = set_block (tailBlock q) tb q in
            if next_block tb \<noteq> Some (frontBlock q)
            then case next_block tb of
                   None \<Rightarrow> (Inl UB, q)
                 | Some n \<Rightarrow>
                     case blocks q n of
                       None \<Rightarrow> (Inl UB, q)
                     | Some nb \<Rightarrow>
                         let nextBlockFront = front nb; nextBlockTail = tail nb in
                         if nextBlockFront \<noteq> nextBlockTail then (Inl Assert_Fail, q)
                         else case construct_at nextBlockTail x (nb\<lparr>localFront := nextBlockFront\<rparr>) of
                                Inl e \<Rightarrow> (Inl e, q)
                              | Inr nb \<Rightarrow>
                                  (Inr True, (set_block n (nb\<lparr>tail := (nextBlockTail + 1) AND sizeMask nb\<rparr>) q)
                                               \<lparr>tailBlock := n\<rparr>)
            else if canAlloc
            then let newBlockSize = (if MAX_BLOCK_SIZE \<le> largestBlockSize q then largestBlockSize q
                                     else largestBlockSize q * 2) in
                 case make_block malloc newBlockSize q of
                   (None, q) \<Rightarrow> (Inr False, q)
                 | (Some n, q) \<Rightarrow>
                     let q = q\<lparr>largestBlockSize := newBlockSize\<rparr> in
                     case rbind (case blocks q n of None \<Rightarrow> Inl UB | Some nb \<Rightarrow> Inr nb) (construct_at 0 x) of
                       Inl e \<Rightarrow> (Inl e, q)
                     | Inr nb \<Rightarrow>
                         if front nb \<noteq> 0 then (Inl Assert_Fail, q)
                         else (Inr True,
                               (set_block (tailBlock q) (tb\<lparr>next_block := Some n\<rparr>)
                                 (set_block n (nb\<lparr>localTail := 1, tail := 1, next_block := next_block tb\<rparr>) q))
                               \<lparr>tailBlock := n\<rparr>)
            else (Inr False, q))"

definition try_enqueue :: "'a \<Rightarrow> 'a rwq \<Rightarrow> bool result \<times> 'a rwq" where
  "try_enqueue element q = inner_enqueue False (\<lambda>_. False) element q"

definition enqueue :: "(nat \<Rightarrow> bool) \<Rightarrow> 'a \<Rightarrow> 'a rwq \<Rightarrow> bool result \<times> 'a rwq" where
  "enqueue malloc element q = inner_enqueue True malloc element q"

section \<open>Dequeue\<close>

text \<open>The label \<open>non_empty_front_block\<close>, and the same steps on the block advanced to.\<close>

definition dequeue_from :: "nat \<Rightarrow> 'a block \<Rightarrow> 'a rwq \<Rightarrow> 'a option result \<times> 'a rwq" where
  "dequeue_from p b q =
     (let blockFront = front b in
      case object_at blockFront b of
        Inl e \<Rightarrow> (Inl e, q)
      | Inr x \<Rightarrow>
          (Inr (Some x), set_block p ((destroy_at blockFront b)\<lparr>front := (blockFront + 1) AND sizeMask b\<rparr>) q))"

definition try_dequeue :: "'a rwq \<Rightarrow> 'a option result \<times> 'a rwq" where
  "try_dequeue q =
     (case blocks q (frontBlock q) of
        None \<Rightarrow> (Inl UB, q)
      | Some fb \<Rightarrow>
          let blockFront = front fb;
              reload = (blockFront = localTail fb);
              fb = (if reload then fb\<lparr>localTail := tail fb\<rparr> else fb) in
          if \<not> reload \<or> blockFront \<noteq> localTail fb then dequeue_from (frontBlock q) fb q
          else if frontBlock q \<noteq> tailBlock q
          then let fb = fb\<lparr>localTail := tail fb\<rparr>; q = set_block (frontBlock q) fb q in
               if front fb \<noteq> localTail fb then dequeue_from (frontBlock q) fb q
               else case next_block fb of
                      None \<Rightarrow> (Inl UB, q)
                    | Some n \<Rightarrow>
                        case blocks q n of
                          None \<Rightarrow> (Inl UB, q)
                        | Some nb \<Rightarrow>
                            let nb = nb\<lparr>localTail := tail nb\<rparr> in
                            if front nb = localTail nb then (Inl Assert_Fail, q)
                            else dequeue_from n nb (q\<lparr>frontBlock := n\<rparr>)
          else (Inr None, set_block (frontBlock q) fb q))"

text \<open>\<open>peek\<close> repeats the search without taking the element; \<open>None\<close> is the null pointer.\<close>

definition rwq_peek :: "'a rwq \<Rightarrow> 'a option result \<times> 'a rwq" where
  "rwq_peek q =
     (case blocks q (frontBlock q) of
        None \<Rightarrow> (Inl UB, q)
      | Some fb \<Rightarrow>
          let blockFront = front fb;
              reload = (blockFront = localTail fb);
              fb = (if reload then fb\<lparr>localTail := tail fb\<rparr> else fb);
              q = set_block (frontBlock q) fb q in
          if \<not> reload \<or> blockFront \<noteq> localTail fb then (rmap Some (object_at blockFront fb), q)
          else if frontBlock q \<noteq> tailBlock q
          then let fb = fb\<lparr>localTail := tail fb\<rparr>; q = set_block (frontBlock q) fb q in
               if front fb \<noteq> localTail fb then (rmap Some (object_at (front fb) fb), q)
               else case next_block fb of
                      None \<Rightarrow> (Inl UB, q)
                    | Some n \<Rightarrow>
                        case blocks q n of
                          None \<Rightarrow> (Inl UB, q)
                        | Some nb \<Rightarrow>
                            if front nb = tail nb then (Inl Assert_Fail, q)
                            else (rmap Some (object_at (front nb) nb), q)
          else (Inr None, q))"

text \<open>\<open>pop\<close>: the same search, the element is destroyed without being moved out.\<close>

definition pop_from :: "nat \<Rightarrow> 'a block \<Rightarrow> 'a rwq \<Rightarrow> bool result \<times> 'a rwq" where
  "pop_from p b q =
     (let blockFront = front b in
      case object_at blockFront b of
        Inl e \<Rightarrow> (Inl e, q)
      | Inr x \<Rightarrow> (Inr True, set_block p ((destroy_at blockFront b)\<lparr>front := (blockFront + 1) AND sizeMask b\<rparr>) q))"

definition rwq_pop :: "'a rwq \<Rightarrow> bool result \<times> 'a rwq" where
  "rwq_pop q =
     (case blocks q (frontBlock q) of
        None \<Rightarrow> (Inl UB, q)
      | Some fb \<Rightarrow>
          let blockFront = front fb;
              reload = (blockFront = localTail fb);
              fb = (if reload then fb\<lparr>localTail := tail fb\<rparr> else fb) in
          if \<not> reload \<or> blockFront \<noteq> localTail fb then pop_from (frontBlock q) fb q
          else if frontBlock q \<noteq> tailBlock q
          then let fb = fb\<lparr>localTail := tail fb\<rparr>; q = set_block (frontBlock q) fb q in
               if front fb \<noteq> localTail fb then pop_from (frontBlock q) fb q
               else case next_block fb of
                      None \<Rightarrow> (Inl UB, q)
                    | Some n \<Rightarrow>
                        case blocks q n of
                          None \<Rightarrow> (Inl UB, q)
                        | Some nb \<Rightarrow>
                            let nb = nb\<lparr>localTail := tail nb\<rparr> in
                            if front nb = localTail nb then (Inl Assert_Fail, q)
                            else pop_from n nb (q\<lparr>frontBlock := n\<rparr>)
          else (Inr False, set_block (frontBlock q) fb q))"

section \<open>Walks around the ring\<close>

text \<open>The \<open>do ... while (block != frontBlock_)\<close> loops, with the number of blocks still to visit as fuel:
  the visited blocks' addresses, in order.\<close>

primrec ring_walk :: "nat \<Rightarrow> 'a rwq \<Rightarrow> nat \<Rightarrow> (nat \<times> 'a block) list result" where
  "ring_walk 0 q p = Inl No_Return"
| "ring_walk (Suc fuel) q p =
     (case blocks q p of
        None \<Rightarrow> Inl UB
      | Some b \<Rightarrow>
          case next_block b of
            None \<Rightarrow> Inl UB
          | Some n \<Rightarrow> if n = frontBlock q then Inr [(p, b)] else rmap ((#) (p, b)) (ring_walk fuel q n))"

definition size_approx :: "nat \<Rightarrow> 'a rwq \<Rightarrow> size_t result" where
  "size_approx fuel q =
     rmap (\<lambda>bs. fold (\<lambda>(p, b) res. res + ((tail b - front b) AND sizeMask b)) bs 0) (ring_walk fuel q (frontBlock q))"

definition max_capacity :: "nat \<Rightarrow> 'a rwq \<Rightarrow> size_t result" where
  "max_capacity fuel q = rmap (\<lambda>bs. fold (\<lambda>(p, b) res. res + sizeMask b) bs 0) (ring_walk fuel q (frontBlock q))"

text \<open>The destructor: the objects it destroys and the blocks it frees, in order.  The inner loop runs from a
  block's front to its tail.\<close>

primrec destroy_elements :: "nat \<Rightarrow> 'a block \<Rightarrow> size_t \<Rightarrow> 'a list result" where
  "destroy_elements 0 b i = Inl No_Return"
| "destroy_elements (Suc fuel) b i =
     (if i = tail b then Inr []
      else rbind (object_at i b) (\<lambda>x. rmap ((#) x) (destroy_elements fuel b ((i + 1) AND sizeMask b))))"

fun destroy_blocks :: "nat \<Rightarrow> (nat \<times> 'a block) list \<Rightarrow> ('a list \<times> nat list) result" where
  "destroy_blocks fuel [] = Inr ([], [])"
| "destroy_blocks fuel ((p, b) # bs) =
     rbind (destroy_elements fuel b (front b)) (\<lambda>xs.
       rmap (\<lambda>(ys, freed). (xs @ ys, p # freed)) (destroy_blocks fuel bs))"

definition rwq_destroy :: "nat \<Rightarrow> 'a rwq \<Rightarrow> ('a list \<times> nat list) result" where
  "rwq_destroy fuel q = rbind (ring_walk fuel q (frontBlock q)) (destroy_blocks fuel)"

end
