(* ===== verification/RW_Queue_Props.thy ===== *)
theory RW_Queue_Props
  imports RW_Queue
begin

text \<open>
  What the ring of blocks represents.  \<open>block_rel j b xs\<close>: block \<open>b\<close> has \<open>2 ^ j\<close> slots and holds \<open>xs\<close>.
  \<open>rwq_rel q bs xss k\<close>: the ring is \<open>bs\<close>, starting at the front block, block number \<open>i\<close> holds \<open>xss ! i\<close> and
  the tail block is number \<open>k\<close>.  Every operation keeps the relation and does to the concatenation of
  the contents what a queue does.
\<close>

section \<open>One block\<close>

text \<open>The producer's copy of \<open>front\<close> and the consumer's copy of \<open>tail\<close> may lag behind, but never overtake.\<close>

definition block_rel :: "nat \<Rightarrow> 'a block \<Rightarrow> 'a list \<Rightarrow> bool" where
  "block_rel j b xs \<longleftrightarrow>
     0 < j \<and> j < 64 \<and> sizeMask b = mask j \<and> length (data b) = 2 ^ j \<and> length xs < 2 ^ j \<and> unat (front b) < 2 ^ j \<and>
     rotate (unat (front b)) (data b) = map Some xs @ replicate (2 ^ j - length xs) None \<and>
     unat (tail b) = (unat (front b) + length xs) mod 2 ^ j \<and>
     (\<exists>l \<le> length xs. unat (localTail b) = (unat (front b) + l) mod 2 ^ j) \<and>
     (\<exists>m \<le> 2 ^ j - 1 - length xs. unat (localFront b) = (unat (tail b) + 1 + m) mod 2 ^ j)"

lemma block_rel_next [simp]: "block_rel j (b\<lparr>next_block := n\<rparr>) xs = block_rel j b xs"
  by (simp add: block_rel_def)

lemma unat_step: "j < 64 \<Longrightarrow> unat ((i + 1 :: size_t) AND mask j) = (unat i + 1) mod 2 ^ j"
proof -
  assume j: "j < 64"
  have "(2::nat) ^ j dvd 2 ^ 64" using j by (intro le_imp_power_dvd) simp
  then show ?thesis by (simp add: unat_and_mask unat_word_ariths mod_mod_cancel)
qed

lemma word_eq_unat: "(a :: size_t) = b \<longleftrightarrow> unat a = unat b"
  by (simp add: word_unat_eq_iff)

lemma block_rel_unique: "block_rel j b xs \<Longrightarrow> block_rel j' b ys \<Longrightarrow> j = j'"
  by (auto simp: block_rel_def)

lemma block_empty_iff:
  assumes "block_rel j b xs"
  shows "front b = tail b \<longleftrightarrow> xs = []"
proof -
  have "unat (front b) < 2 ^ j" "length xs < 2 ^ j" "unat (tail b) = (unat (front b) + length xs) mod 2 ^ j"
    using assms by (simp_all add: block_rel_def)
  then show ?thesis unfolding word_eq_unat using mod_add_inj [of 0 "2 ^ j" "length xs" "unat (front b)"] by auto
qed

lemma block_local_tail:
  assumes "block_rel j b xs" "front b \<noteq> localTail b"
  shows "xs \<noteq> []"
proof
  assume "xs = []"
  then have "unat (localTail b) = unat (front b)" using assms(1) by (auto simp: block_rel_def)
  with assms(2) show False by (simp add: word_eq_unat)
qed

lemma block_reload_tail: "block_rel j b xs \<Longrightarrow> block_rel j (b\<lparr>localTail := tail b\<rparr>) xs"
  by (auto simp: block_rel_def)

lemma block_front_of_tail:
  assumes "block_rel j b xs"
  shows "unat (front b) = (unat (tail b) + 1 + (2 ^ j - 1 - length xs)) mod 2 ^ j"
proof -
  have b: "unat (front b) < 2 ^ j" "length xs < 2 ^ j" "unat (tail b) = (unat (front b) + length xs) mod 2 ^ j"
    using assms by (simp_all add: block_rel_def)
  have "(unat (tail b) + 1 + (2 ^ j - 1 - length xs)) mod 2 ^ j =
      (unat (front b) + length xs + (1 + (2 ^ j - 1 - length xs))) mod 2 ^ j"
    unfolding b(3) by (simp only: add.assoc mod_add_left_eq)
  also have "unat (front b) + length xs + (1 + (2 ^ j - 1 - length xs)) = unat (front b) + 2 ^ j"
    using b(2) by simp
  finally show ?thesis using b(1) by simp
qed

lemma block_reload_front:
  assumes "block_rel j b xs"
  shows "block_rel j (b\<lparr>localFront := front b\<rparr>) xs"
proof -
  have "\<exists>m \<le> 2 ^ j - 1 - length xs. unat (front b) = (unat (tail b) + 1 + m) mod 2 ^ j"
    using block_front_of_tail [OF assms] by blast
  then show ?thesis using assms by (simp add: block_rel_def)
qed

text \<open>The test for room, on the producer's copy and on the front itself.\<close>

lemma block_room:
  assumes "block_rel j b xs"
  shows "(tail b + 1) AND sizeMask b \<noteq> localFront b \<Longrightarrow> Suc (length xs) < 2 ^ j"
    and "(tail b + 1) AND sizeMask b = front b \<longleftrightarrow> Suc (length xs) = 2 ^ j"
proof -
  have b: "j < 64" "sizeMask b = mask j" "length xs < 2 ^ j"
    using assms by (simp_all add: block_rel_def)
  obtain m where m: "m \<le> 2 ^ j - 1 - length xs" "unat (localFront b) = (unat (tail b) + 1 + m) mod 2 ^ j"
    using assms by (auto simp: block_rel_def)
  have step: "unat ((tail b + 1) AND sizeMask b) = (unat (tail b) + 1 + 0) mod 2 ^ j"
    using b by (simp add: unat_step)
  show "Suc (length xs) < 2 ^ j" if "(tail b + 1) AND sizeMask b \<noteq> localFront b"
  proof -
    have "m \<noteq> 0" using that m(2) step unfolding word_eq_unat by (intro notI) simp
    then show ?thesis using m(1) b(3) by simp
  qed
  have "(tail b + 1) AND sizeMask b = front b \<longleftrightarrow> 0 = (2 ^ j - 1 - length xs)"
    unfolding word_eq_unat step block_front_of_tail [OF assms] using b(3) by (intro mod_add_inj) simp_all
  then show "(tail b + 1) AND sizeMask b = front b \<longleftrightarrow> Suc (length xs) = 2 ^ j"
    using b(3) by auto
qed

lemma replicate_split: "m < n \<Longrightarrow> replicate (n - m) x = x # replicate (n - Suc m) x"
  by (metis Suc_diff_Suc replicate_Suc)

lemma mod_shift: "(a mod n + 1 + m) mod n = (a + (1 + m)) mod (n :: nat)"
  by (simp only: add.assoc mod_add_left_eq)

lemma block_construct:
  assumes "block_rel j b xs" "(tail b + 1) AND sizeMask b \<noteq> localFront b"
  obtains b' where "construct_at (tail b) x b = Inr b'" "next_block b' = next_block b" "front b' = front b"
    "sizeMask b' = sizeMask b"
    "block_rel j (b'\<lparr>tail := (tail b + 1) AND sizeMask b\<rparr>) (xs @ [x])"
proof -
  let ?n = "2 ^ j :: nat"
  let ?b = "b\<lparr>data := (data b)[unat (tail b) := Some x]\<rparr>"
  have b: "j < 64" "sizeMask b = mask j" "length (data b) = ?n" "unat (front b) < ?n"
    "rotate (unat (front b)) (data b) = map Some xs @ replicate (?n - length xs) None"
    "unat (tail b) = (unat (front b) + length xs) mod ?n"
    using assms(1) by (simp_all add: block_rel_def)
  have j0: "0 < j" using assms(1) by (simp add: block_rel_def)
  have room: "Suc (length xs) < ?n" using block_room(1) [OF assms] .
  have t: "unat (tail b) < length (data b)" using b(3,6) by simp
  have "rotate (unat (front b)) ((data b)[unat (tail b) := Some x]) =
      (map Some xs @ replicate (?n - length xs) None)[length xs := Some x]"
    using rotate_update [of "length xs" "data b" "unat (front b)" "Some x"] room b(3,5,6) by simp
  also have "\<dots> = map Some (xs @ [x]) @ replicate (?n - Suc (length xs)) None"
    using room by (simp add: list_update_append replicate_split)
  finally have rot: "rotate (unat (front b)) ((data b)[unat (tail b) := Some x]) =
      map Some (xs @ [x]) @ replicate (?n - length (xs @ [x])) None" by simp
  have step: "unat ((tail b + 1) AND sizeMask b) = (unat (tail b) + 1) mod ?n"
    using b(1,2) by (simp add: unat_step)
  then have tail': "unat ((tail b + 1) AND sizeMask b) = (unat (front b) + length (xs @ [x])) mod ?n"
    using b(6) by (simp add: mod_Suc_eq)
  obtain l where l: "l \<le> length xs" "unat (localTail b) = (unat (front b) + l) mod ?n"
    using assms(1) by (auto simp: block_rel_def)
  obtain m where m: "m \<le> ?n - 1 - length xs" "unat (localFront b) = (unat (tail b) + 1 + m) mod ?n"
    using assms(1) by (auto simp: block_rel_def)
  have "m \<noteq> 0" using assms(2) m(2) step unfolding word_eq_unat by (intro notI) simp
  then obtain m' where m': "m = Suc m'" by (cases m) auto
  have "unat (localFront b) = (unat ((tail b + 1) AND sizeMask b) + 1 + m') mod ?n"
    unfolding step mod_shift using m(2) m' by (simp add: add.assoc)
  moreover have "m' \<le> ?n - 1 - length (xs @ [x])" using m(1) m' by simp
  ultimately have lf: "\<exists>m \<le> ?n - 1 - length (xs @ [x]).
      unat (localFront b) = (unat ((tail b + 1) AND sizeMask b) + 1 + m) mod ?n" by blast
  have lt: "\<exists>l \<le> length (xs @ [x]). unat (localTail b) = (unat (front b) + l) mod ?n"
    using l by (intro exI [of _ l]) simp
  show thesis
  proof (rule that [of ?b])
    show "block_rel j (?b\<lparr>tail := (tail b + 1) AND sizeMask b\<rparr>) (xs @ [x])"
      unfolding block_rel_def using j0 b(1-4) room rot tail' lt lf by (intro conjI) simp_all
  qed (use t in \<open>simp_all add: construct_at_def\<close>)
qed

text \<open>Taking the first element out.\<close>

lemma block_take:
  assumes "block_rel j b (x # xs)" "front b \<noteq> localTail b"
  shows "object_at (front b) b = Inr x"
    and "block_rel j ((destroy_at (front b) b)\<lparr>front := (front b + 1) AND sizeMask b\<rparr>) xs"
proof -
  let ?n = "2 ^ j :: nat"
  have b: "j < 64" "sizeMask b = mask j" "length (data b) = ?n" "unat (front b) < ?n" "Suc (length xs) < ?n"
    "rotate (unat (front b)) (data b) = Some x # map Some xs @ replicate (?n - Suc (length xs)) None"
    "unat (tail b) = (unat (front b) + Suc (length xs)) mod ?n"
    using assms(1) by (simp_all add: block_rel_def)
  have j0: "0 < j" using assms(1) by (simp add: block_rel_def)
  have "data b ! unat (front b) = Some x"
    using rotate_nth0 [of "unat (front b)" "data b"] b(3,4,6) by simp
  then show "object_at (front b) b = Inr x" using b(3,4) by (simp add: object_at_def)
  have step: "unat ((front b + 1) AND sizeMask b) = Suc (unat (front b)) mod ?n"
    using b(1,2) by (simp add: unat_step)
  have "rotate (unat (front b)) ((data b)[unat (front b) := None]) = (rotate (unat (front b)) (data b))[0 := None]"
    using rotate_update [of 0 "data b" "unat (front b)" None] b(3,4) by simp
  also have "\<dots> = None # map Some xs @ replicate (?n - Suc (length xs)) None" unfolding b(6) by simp
  finally have "rotate (Suc (unat (front b)) mod ?n) ((data b)[unat (front b) := None]) =
      map Some xs @ replicate (?n - Suc (length xs)) None @ [None]"
    using rotate_mod_Suc [of "unat (front b)" "(data b)[unat (front b) := None]"] b(3) by simp
  moreover have "replicate (?n - Suc (length xs)) None @ [None] = replicate (?n - length xs) (None :: 'a option)"
    using b(5) by (simp add: replicate_split [of "length xs" ?n] replicate_append_same)
  ultimately have rot: "rotate (unat ((front b + 1) AND sizeMask b)) ((data b)[unat (front b) := None]) =
      map Some xs @ replicate (?n - length xs) None"
    unfolding step by simp
  have tl: "unat (tail b) = (unat ((front b + 1) AND sizeMask b) + length xs) mod ?n"
    unfolding step b(7) mod_add_left_eq by simp
  obtain l where l: "l \<le> Suc (length xs)" "unat (localTail b) = (unat (front b) + l) mod ?n"
    using assms(1) by (auto simp: block_rel_def)
  have "l \<noteq> 0" using assms(2) l(2) b(4) unfolding word_eq_unat by (intro notI) simp
  then obtain l' where l': "l = Suc l'" by (cases l) auto
  have lt: "\<exists>l \<le> length xs. unat (localTail b) = (unat ((front b + 1) AND sizeMask b) + l) mod ?n"
    unfolding step mod_add_left_eq using l l' by (intro exI [of _ l']) simp
  obtain m where m: "m \<le> ?n - 1 - Suc (length xs)" "unat (localFront b) = (unat (tail b) + 1 + m) mod ?n"
    using assms(1) by (auto simp: block_rel_def)
  then have lf: "\<exists>m \<le> ?n - 1 - length xs. unat (localFront b) = (unat (tail b) + 1 + m) mod ?n"
    by (intro exI [of _ m]) simp
  have f: "unat ((front b + 1) AND sizeMask b) < ?n" unfolding step by simp
  show "block_rel j ((destroy_at (front b) b)\<lparr>front := (front b + 1) AND sizeMask b\<rparr>) xs"
    unfolding block_rel_def destroy_at_def using j0 b(1-3,5) f rot tl lt lf by (intro conjI) simp_all
qed

lemma unat_pow2: "j < 64 \<Longrightarrow> unat (2 ^ j :: size_t) = 2 ^ j"
  using unat_of_nat_small [of "2 ^ j"] power_strict_increasing [of j 64 "2::nat"] by simp

lemma block_new:
  assumes "0 < j" "j < 64"
  shows "block_rel j (new_block (2 ^ j)) []"
proof -
  have "(2 ^ j :: size_t) - 1 = mask j" by (simp add: mask_eq_exp_minus_1)
  then show ?thesis using assms unat_pow2 [OF assms(2)]
    by (auto simp: block_rel_def new_block_def intro!: exI [of _ "2 ^ j - Suc 0"])
qed

section \<open>The ring\<close>

text \<open>Block number \<open>i\<close> of the ring, counted from the front block: blocks behind the tail block are empty, the
  blocks from the second to the tail block are not, and the blocks between the front and the tail
  block are full.\<close>

definition slot :: "'a rwq \<Rightarrow> nat list \<Rightarrow> 'a list list \<Rightarrow> nat \<Rightarrow> nat \<Rightarrow> bool" where
  "slot q bs xss k i \<longleftrightarrow>
     (\<exists>b j. blocks q (bs ! i) = Some b \<and> next_block b = Some (bs ! (Suc i mod length bs)) \<and> block_rel j b (xss ! i) \<and>
        (0 < i \<and> i \<le> k \<longrightarrow> xss ! i \<noteq> []) \<and> (k < i \<longrightarrow> xss ! i = []) \<and> (0 < i \<and> i < k \<longrightarrow> Suc (length (xss ! i)) = 2 ^ j))"

definition rwq_rel :: "'a rwq \<Rightarrow> nat list \<Rightarrow> 'a list list \<Rightarrow> nat \<Rightarrow> bool" where
  "rwq_rel q bs xss k \<longleftrightarrow>
     distinct bs \<and> length xss = length bs \<and> k < length bs \<and> frontBlock q = bs ! 0 \<and> tailBlock q = bs ! k \<and>
     (\<forall>p \<in> set bs. p < mallocs q) \<and> (\<forall>i < length bs. slot q bs xss k i) \<and>
     (\<exists>j. 0 < j \<and> j \<le> 10 \<and> largestBlockSize q = 2 ^ j)"

definition rwq_repr :: "'a rwq \<Rightarrow> 'a list \<Rightarrow> bool" where
  "rwq_repr q xs \<longleftrightarrow> (\<exists>bs xss k. rwq_rel q bs xss k \<and> xs = concat xss)"

lemma rwq_relD:
  assumes "rwq_rel q bs xss k"
  shows "distinct bs" "length xss = length bs" "k < length bs" "0 < length bs" "frontBlock q = bs ! 0"
    "tailBlock q = bs ! k" "\<And>i. i < length bs \<Longrightarrow> slot q bs xss k i" "\<And>p. p \<in> set bs \<Longrightarrow> p < mallocs q"
    "\<exists>j. 0 < j \<and> j \<le> 10 \<and> largestBlockSize q = 2 ^ j"
  using assms by (auto simp: rwq_rel_def)

lemma slotE:
  assumes "slot q bs xss k i"
  obtains b j where "blocks q (bs ! i) = Some b" "next_block b = Some (bs ! (Suc i mod length bs))"
    "block_rel j b (xss ! i)" "0 < i \<Longrightarrow> i \<le> k \<Longrightarrow> xss ! i \<noteq> []" "k < i \<Longrightarrow> xss ! i = []"
    "0 < i \<Longrightarrow> i < k \<Longrightarrow> Suc (length (xss ! i)) = 2 ^ j"
  using assms by (auto simp: slot_def)

lemma slot_blocks: "blocks q' = blocks q \<Longrightarrow> slot q' bs xss k i = slot q bs xss k i"
  by (simp add: slot_def)

text \<open>Writing one block leaves the other slots as they are.\<close>

lemma slot_other:
  assumes "distinct bs" "m < length bs" "i < length bs" "i \<noteq> m"
  shows "slot (set_block (bs ! m) b q) bs (xss[m := ys]) k i = slot q bs xss k i"
  using assms by (simp add: slot_def nth_eq_iff_index_eq)

lemma slot_shadow:
  assumes "distinct bs" "m < length bs" "i < length bs" "i \<noteq> m"
  shows "slot (set_block (bs ! m) b q) bs xss k i = slot q bs xss k i"
  using assms by (simp add: slot_def nth_eq_iff_index_eq)

lemma slotI:
  assumes "blocks q (bs ! i) = Some b" "next_block b = Some (bs ! (Suc i mod length bs))" "block_rel j b (xss ! i)"
    "0 < i \<Longrightarrow> i \<le> k \<Longrightarrow> xss ! i \<noteq> []" "k < i \<Longrightarrow> xss ! i = []" "0 < i \<Longrightarrow> i < k \<Longrightarrow> Suc (length (xss ! i)) = 2 ^ j"
  shows "slot q bs xss k i"
  using assms by (auto simp: slot_def)

text \<open>Replace the contents of one block.\<close>

lemma rwq_rel_write:
  assumes rel: "rwq_rel q bs xss k" and m: "m < length bs" "blocks q (bs ! m) = Some b"
    and b': "next_block b' = next_block b" "block_rel j b' ys" "0 < m \<and> m \<le> k \<longrightarrow> ys \<noteq> []" "k < m \<longrightarrow> ys = []"
      "0 < m \<and> m < k \<longrightarrow> Suc (length ys) = 2 ^ j"
  shows "rwq_rel (set_block (bs ! m) b' q) bs (xss[m := ys]) k"
proof -
  note r = rwq_relD [OF rel]
  have "slot (set_block (bs ! m) b' q) bs (xss[m := ys]) k i" if i: "i < length bs" for i
  proof (cases "i = m")
    case True
    from r(7) [OF m(1)] obtain b1 where "blocks q (bs ! m) = Some b1" "next_block b1 = Some (bs ! (Suc m mod length bs))"
      by (rule slotE)
    with m(2) have "next_block b = Some (bs ! (Suc m mod length bs))" by simp
    then show ?thesis using True b' m(1) r(2) by (intro slotI [of _ _ _ b' j]) simp_all
  next
    case False
    then show ?thesis using slot_other [OF r(1) m(1) i, of b' q xss ys k] r(7) [OF i] by simp
  qed
  then show ?thesis using rel by (simp add: rwq_rel_def)
qed

text \<open>Refreshing the private copies changes no contents.\<close>

lemma rwq_rel_refresh:
  assumes rel: "rwq_rel q bs xss k" and m: "m < length bs" "blocks q (bs ! m) = Some b"
    and b': "next_block b' = next_block b" "\<And>j. block_rel j b (xss ! m) \<Longrightarrow> block_rel j b' (xss ! m)"
  shows "rwq_rel (set_block (bs ! m) b' q) bs xss k"
proof -
  have "slot q bs xss k m" by (rule rwq_relD(7) [OF rel m(1)])
  then obtain b1 j where b1: "blocks q (bs ! m) = Some b1" "block_rel j b1 (xss ! m)"
    and c: "0 < m \<Longrightarrow> m \<le> k \<Longrightarrow> xss ! m \<noteq> []" "k < m \<Longrightarrow> xss ! m = []"
      "0 < m \<Longrightarrow> m < k \<Longrightarrow> Suc (length (xss ! m)) = 2 ^ j"
    by (rule slotE) blast
  have "block_rel j b' (xss ! m)" using b1 m(2) by (intro b'(2)) simp
  then have "rwq_rel (set_block (bs ! m) b' q) bs (xss[m := xss ! m]) k"
    using c by (intro rwq_rel_write [OF rel m b'(1)]) auto
  then show ?thesis by simp
qed

lemma concat_snoc_at:
  assumes "k < length xss" "\<And>i. k < i \<Longrightarrow> i < length xss \<Longrightarrow> xss ! i = []"
  shows "concat (xss[k := ys]) = concat (take k xss) @ ys"
proof -
  have "concat (drop (Suc k) xss) = []"
    using assms by (auto simp: in_set_conv_nth)
  then show ?thesis using assms(1) by (simp add: upd_conv_take_nth_drop)
qed

lemma concat_upto:
  assumes "k < length xss" "\<And>i. k < i \<Longrightarrow> i < length xss \<Longrightarrow> xss ! i = []"
  shows "concat xss = concat (take k xss) @ xss ! k"
  using concat_snoc_at [OF assms, where ys = "xss ! k"] by simp

section \<open>Enqueue\<close>

text \<open>Room in the tail block.\<close>

lemma enqueue_here:
  assumes rel: "rwq_rel q bs xss k" and b: "blocks q (tailBlock q) = Some b" "next_block tb = next_block b"
    "block_rel j tb (xss ! k)" "(tail tb + 1) AND sizeMask tb \<noteq> localFront tb"
    "construct_at (tail tb) x tb = Inr tb'"
  shows "rwq_rel (set_block (tailBlock q) (tb'\<lparr>tail := (tail tb + 1) AND sizeMask tb\<rparr>) q) bs (xss[k := xss ! k @ [x]]) k"
proof -
  note r = rwq_relD [OF rel]
  obtain b' where b': "construct_at (tail tb) x tb = Inr b'" "next_block b' = next_block tb" "front b' = front tb"
    "sizeMask b' = sizeMask tb"
    "block_rel j (b'\<lparr>tail := (tail tb + 1) AND sizeMask tb\<rparr>) (xss ! k @ [x])"
    using b(3,4) by (rule block_construct)
  then have "tb' = b'" using b(5) by simp
  have bk: "blocks q (bs ! k) = Some b" using b(1) r(6) by simp
  show ?thesis unfolding r(6)
    by (rule rwq_rel_write [OF rel r(3) bk]) (use b(2) b' \<open>tb' = b'\<close> in simp_all)
qed

text \<open>The tail block moves on to an empty block.\<close>

lemma advance_tail:
  assumes rel: "rwq_rel q bs xss k" and k: "Suc k < length bs" "blocks q (bs ! Suc k) = Some b"
    and b': "next_block b' = next_block b" "block_rel j b' [x]"
    and full: "blocks q (bs ! k) = Some tb" "block_rel jt tb (xss ! k)" "0 < k \<Longrightarrow> Suc (length (xss ! k)) = 2 ^ jt"
  shows "rwq_rel ((set_block (bs ! Suc k) b' q)\<lparr>tailBlock := bs ! Suc k\<rparr>) bs (xss[Suc k := [x]]) (Suc k)"
proof -
  note r = rwq_relD [OF rel]
  let ?q = "(set_block (bs ! Suc k) b' q)\<lparr>tailBlock := bs ! Suc k\<rparr>"
  have "slot ?q bs (xss[Suc k := [x]]) (Suc k) i" if i: "i < length bs" for i
  proof (cases "i = Suc k")
    case True
    from r(7) [OF k(1)] obtain b1 where "blocks q (bs ! Suc k) = Some b1"
      "next_block b1 = Some (bs ! (Suc (Suc k) mod length bs))"
      by (rule slotE)
    with k(2) have "next_block b' = Some (bs ! (Suc (Suc k) mod length bs))" using b'(1) by simp
    then show ?thesis using True b'(2) k(1) r(2) by (intro slotI [of _ _ _ b' j]) simp_all
  next
    case False
    from r(7) [OF i] obtain b1 j1 where b1: "blocks q (bs ! i) = Some b1" "next_block b1 = Some (bs ! (Suc i mod length bs))"
      "block_rel j1 b1 (xss ! i)" "0 < i \<Longrightarrow> i \<le> k \<Longrightarrow> xss ! i \<noteq> []" "k < i \<Longrightarrow> xss ! i = []"
      "0 < i \<Longrightarrow> i < k \<Longrightarrow> Suc (length (xss ! i)) = 2 ^ j1"
      by (rule slotE) blast
    have "bs ! i \<noteq> bs ! Suc k" using r(1) i k(1) False by (simp add: nth_eq_iff_index_eq)
    moreover have "0 < k \<Longrightarrow> i = k \<Longrightarrow> Suc (length (xss ! i)) = 2 ^ j1"
      using full b1(1,3) block_rel_unique [of jt tb "xss ! k" j1] by simp
    ultimately show ?thesis
      using b1 False by (intro slotI [of _ _ _ b1 j1]) (auto simp: less_Suc_eq)
  qed
  then show ?thesis using r k(1) by (auto simp: rwq_rel_def)
qed

text \<open>A new block behind the tail block.\<close>

lemma nth_insert:
  assumes "k < length xs" "i \<le> length xs"
  shows "(take (Suc k) xs @ y # drop (Suc k) xs) ! i = (if i \<le> k then xs ! i else if i = Suc k then y else xs ! (i - 1))"
  using assms by (auto simp: nth_append nth_Cons' min_def intro!: arg_cong [where f = "nth xs"])

lemma insert_block:
  assumes rel: "rwq_rel q bs xss k" and tb: "blocks q (bs ! k) = Some tb" "block_rel jt tb (xss ! k)"
      "0 < k \<Longrightarrow> Suc (length (xss ! k)) = 2 ^ jt"
    and nb: "block_rel j nb [x]" "next_block nb = next_block tb"
    and n: "n \<notin> set bs" "n < mallocs q'" "mallocs q \<le> mallocs q'"
    and sz: "0 < js \<and> js \<le> 10" "largestBlockSize q' = 2 ^ js"
    and q': "blocks q' = (blocks q)(n \<mapsto> nb, bs ! k \<mapsto> tb\<lparr>next_block := Some n\<rparr>)"
      "frontBlock q' = frontBlock q" "tailBlock q' = n"
  shows "rwq_rel q' (take (Suc k) bs @ n # drop (Suc k) bs) (take (Suc k) xss @ [x] # drop (Suc k) xss) (Suc k)"
proof -
  note r = rwq_relD [OF rel]
  let ?bs = "take (Suc k) bs @ n # drop (Suc k) bs" and ?xss = "take (Suc k) xss @ [x] # drop (Suc k) xss"
  have len: "length ?bs = Suc (length bs)" "length ?xss = Suc (length xss)" using r(2,3) by simp_all
  have bn: "?bs ! i = (if i \<le> k then bs ! i else if i = Suc k then n else bs ! (i - 1))" if "i \<le> length bs" for i
    by (rule nth_insert [OF r(3) that])
  have xn: "?xss ! i = (if i \<le> k then xss ! i else if i = Suc k then [x] else xss ! (i - 1))" if "i \<le> length bs" for i
    by (rule nth_insert) (use r(2,3) that in simp_all)
  have ne: "bs ! i \<noteq> n" if "i < length bs" for i using n(1) that nth_mem by metis
  have nk: "bs ! i \<noteq> bs ! k" if "i < length bs" "i \<noteq> k" for i using r(1,3) that by (simp add: nth_eq_iff_index_eq)
  have nxt_k: "next_block tb = Some (bs ! (Suc k mod length bs))" using r(7) [OF r(3)] tb(1) by (auto simp: slot_def)
  have "slot q' ?bs ?xss (Suc k) i" if i: "i < length ?bs" for i
  proof -
    have il: "i \<le> length bs" using i len by simp
    have after: "bs ! (i mod length bs) = ?bs ! (Suc i mod length ?bs)" if "Suc k \<le> i"
      using bn [of "Suc i mod Suc (length bs)"] that il r(3,4) len(1) by (cases "i = length bs") auto
    consider "i < k" | "i = k" | "i = Suc k" | "Suc k < i" by linarith
    then show ?thesis
    proof cases
      case 1
      then have i': "i < length bs" using r(3) by simp
      from r(7) [OF i'] obtain b1 j1 where b1: "blocks q (bs ! i) = Some b1" "next_block b1 = Some (bs ! (Suc i mod length bs))"
        "block_rel j1 b1 (xss ! i)" "0 < i \<Longrightarrow> i \<le> k \<Longrightarrow> xss ! i \<noteq> []" "0 < i \<Longrightarrow> i < k \<Longrightarrow> Suc (length (xss ! i)) = 2 ^ j1"
        by (rule slotE) blast
      show ?thesis
        by (rule slotI [of _ _ _ b1 j1]) (use 1 b1 bn [of i] bn [of "Suc i"] xn [of i] ne [OF i'] nk [OF i'] q'(1) r(3) len in \<open>simp_all\<close>)
    next
      case 2
      have "0 < k \<Longrightarrow> xss ! k \<noteq> []" using r(7) [OF r(3)] by (auto simp: slot_def)
      then show ?thesis using 2 tb bn [of k] bn [of "Suc k"] xn [of k] q'(1) r(3) len
        by (intro slotI [of _ _ _ "tb\<lparr>next_block := Some n\<rparr>" jt]) (auto intro: Nat.gr0I)
    next
      case 3
      have "blocks q' n = Some nb" using q'(1) ne [OF r(3)] by simp
      then show ?thesis using 3 nb nxt_k after bn [OF il] xn [OF il]
        by (intro slotI [of _ _ _ nb j]) simp_all
    next
      case 4
      then have i': "i - 1 < length bs" using il r(3) by simp
      from r(7) [OF i'] obtain b1 j1 where b1: "blocks q (bs ! (i - 1)) = Some b1"
        "next_block b1 = Some (bs ! (Suc (i - 1) mod length bs))" "block_rel j1 b1 (xss ! (i - 1))" "k < i - 1 \<Longrightarrow> xss ! (i - 1) = []"
        by (rule slotE) blast
      have "Suc (i - 1) = i" using 4 by simp
      then show ?thesis using 4 b1 after bn [OF il] xn [OF il] ne [OF i'] nk [OF i'] q'(1)
        by (intro slotI [of _ _ _ b1 j1]) simp_all
    qed
  qed
  moreover have "distinct ?bs"
    using r(1) n(1) distinct_append [of "take (Suc k) bs" "drop (Suc k) bs"] by (auto dest: in_set_takeD in_set_dropD)
  moreover have "\<forall>p \<in> set ?bs. p < mallocs q'"
    using r(8) n(2,3) by (auto dest!: in_set_takeD in_set_dropD intro: less_le_trans)
  moreover have "frontBlock q' = ?bs ! 0" "tailBlock q' = ?bs ! Suc k" using q' r bn [of 0] bn [of "Suc k"] by simp_all
  moreover have "\<exists>j. 0 < j \<and> j \<le> 10 \<and> largestBlockSize q' = 2 ^ j" using sz by blast
  ultimately show ?thesis unfolding rwq_rel_def using len r(2,3) by simp
qed

lemma grow_ring:
  assumes rel: "rwq_rel q bs xss k" and k: "Suc k = length bs" "blocks q (bs ! k) = Some tb"
    and tb': "block_rel jt tb (xss ! k)" "Suc (length (xss ! k)) = 2 ^ jt"
    and nb: "block_rel j nb [x]" "next_block nb = next_block tb"
    and sz: "0 < js \<and> js \<le> 10" "largestBlockSize q' = 2 ^ js"
    and q': "blocks q' = (blocks q)(mallocs q \<mapsto> nb, bs ! k \<mapsto> tb\<lparr>next_block := Some (mallocs q)\<rparr>)"
      "frontBlock q' = frontBlock q" "tailBlock q' = mallocs q" "mallocs q' = Suc (mallocs q)"
  shows "rwq_rel q' (bs @ [mallocs q]) (xss @ [[x]]) (Suc k)"
proof -
  note r = rwq_relD [OF rel]
  have fresh: "mallocs q \<notin> set bs" using r(8) by blast
  have "rwq_rel q' (take (Suc k) bs @ mallocs q # drop (Suc k) bs) (take (Suc k) xss @ [x] # drop (Suc k) xss) (Suc k)"
    by (rule insert_block [OF rel k(2) tb' nb fresh _ _ sz q'(1-3)]) (simp_all add: q'(4))
  then show ?thesis using k(1) r(2) by simp
qed

text \<open>The whole operation: it fails only where the tail block is full, the next block is the front block, and
  no block may be, or could be, allocated.\<close>

definition ring_full :: "'a rwq \<Rightarrow> nat list \<Rightarrow> 'a list list \<Rightarrow> nat \<Rightarrow> bool" where
  "ring_full q bs xss k \<longleftrightarrow> Suc k = length bs \<and>
     (\<exists>b j. blocks q (bs ! k) = Some b \<and> block_rel j b (xss ! k) \<and> Suc (length (xss ! k)) = 2 ^ j)"

lemma new_block_size:
  assumes "\<exists>j. 0 < j \<and> j \<le> 10 \<and> sz = (2 :: size_t) ^ j"
  shows "\<exists>j. 0 < j \<and> j \<le> 10 \<and> (if MAX_BLOCK_SIZE \<le> sz then sz else sz * 2) = 2 ^ j"
proof -
  obtain j where j: "0 < j" "j \<le> 10" "sz = 2 ^ j" using assms by blast
  show ?thesis
  proof (cases "9 \<le> j")
    case True
    have "(512 :: nat) \<le> 2 ^ j" using power_increasing [OF True, of "2 :: nat"] by simp
    then have "MAX_BLOCK_SIZE \<le> sz" using j by (simp add: MAX_BLOCK_SIZE_def word_le_nat_alt unat_pow2)
    then show ?thesis using j by auto
  next
    case False
    have "sz * 2 = 2 ^ Suc j" using j by simp
    then show ?thesis using j False by (cases "MAX_BLOCK_SIZE \<le> sz") (auto intro: exI [of _ "Suc j"] exI [of _ j])
  qed
qed

lemma first_in_new_block:
  assumes "0 < j" "j \<le> 10"
  obtains nb where "construct_at 0 x (new_block (2 ^ j)) = Inr nb" "front nb = 0"
    "block_rel j (nb\<lparr>localTail := 1, tail := 1, next_block := n\<rparr>) [x]"
proof -
  let ?b = "new_block (2 ^ j) :: 'a block"
  have new: "block_rel j ?b []" using assms by (simp add: block_new)
  have one: "(tail ?b + 1) AND sizeMask ?b = 1"
    using assms unat_step [of j 0] one_less_power [of "2::nat" j]
    by (simp add: new_block_def word_eq_unat flip: mask_eq_exp_minus_1)
  then have room: "(tail ?b + 1) AND sizeMask ?b \<noteq> localFront ?b" by (simp add: new_block_def)
  obtain b' where b': "construct_at (tail ?b) x ?b = Inr b'" "front b' = front ?b"
    "block_rel j (b'\<lparr>tail := (tail ?b + 1) AND sizeMask ?b\<rparr>) ([] @ [x])"
    using new room by (rule block_construct) blast
  from block_reload_tail [OF b'(3)] have "block_rel j (b'\<lparr>tail := 1, localTail := 1\<rparr>) [x]"
    unfolding one by simp
  moreover have "b'\<lparr>tail := 1, localTail := 1\<rparr> = b'\<lparr>localTail := 1, tail := 1\<rparr>" by simp
  ultimately have "block_rel j (b'\<lparr>localTail := 1, tail := 1\<rparr>) [x]" by simp
  then have "block_rel j (b'\<lparr>localTail := 1, tail := 1, next_block := n\<rparr>) [x]" by simp
  then show thesis using b' by (intro that [of b']) (simp_all add: new_block_def)
qed

lemma inner_enqueue_rel:
  assumes rel: "rwq_rel q bs xss k"
  shows "\<exists>r q' bs' xss' k'. inner_enqueue canAlloc malloc x q = (Inr r, q') \<and> rwq_rel q' bs' xss' k' \<and>
    concat xss' = concat xss @ (if r then [x] else []) \<and> (\<not> canAlloc \<longrightarrow> bs' = bs) \<and>
    (\<not> r \<longrightarrow> ring_full q bs xss k \<and> (canAlloc \<longrightarrow> \<not> malloc (mallocs q)))"
proof -
  note r = rwq_relD [OF rel]
  have empties: "xss ! i = []" if "k < i" "i < length xss" for i
    using r(7) [of i] that r(2) by (auto simp: slot_def)
  note cat = concat_upto [OF r(3) [folded r(2)], OF empties] concat_snoc_at [OF r(3) [folded r(2)], OF empties]
  obtain b j where b: "blocks q (bs ! k) = Some b" "next_block b = Some (bs ! (Suc k mod length bs))"
    "block_rel j b (xss ! k)"
    using r(7) [OF r(3)] by (auto simp: slot_def)
  define reload where "reload = ((tail b + 1) AND sizeMask b = localFront b)"
  define tb where "tb = (if reload then b\<lparr>localFront := front b\<rparr> else b)"
  have tb: "next_block tb = next_block b" "block_rel j tb (xss ! k)" "tail tb = tail b" "sizeMask tb = sizeMask b"
    "front tb = front b"
    using b(3) by (auto simp: tb_def block_reload_front)
  show ?thesis
  proof (cases "\<not> reload \<or> (tail b + 1) AND sizeMask b \<noteq> localFront tb")
    case True
    then have room: "(tail tb + 1) AND sizeMask tb \<noteq> localFront tb"
      using tb by (auto simp: tb_def reload_def)
    obtain tb' where c: "construct_at (tail tb) x tb = Inr tb'" using tb(2) room by (rule block_construct) blast
    let ?q = "set_block (tailBlock q) (tb'\<lparr>tail := (tail tb + 1) AND sizeMask tb\<rparr>) q"
    have bt: "blocks q (tailBlock q) = Some b" using b(1) r(6) by simp
    have "rwq_rel ?q bs (xss[k := xss ! k @ [x]]) k"
      by (rule enqueue_here [OF rel bt tb(1,2) room c])
    moreover have "inner_enqueue canAlloc malloc x q = (Inr True, ?q)"
      unfolding inner_enqueue_def using True bt c tb by (simp add: Let_def tb_def reload_def)
    moreover have "concat (xss[k := xss ! k @ [x]]) = concat xss @ [x]" using cat by simp
    ultimately show ?thesis by (intro exI [of _ True]) auto
  next
    case False
    have no_room: "(tail b + 1) AND sizeMask b = front b" "localFront b = front b" "tb = b\<lparr>localFront := front b\<rparr>"
      using False by (auto simp: tb_def reload_def split: if_splits)
    then have full: "Suc (length (xss ! k)) = 2 ^ j" using block_room(2) [OF b(3)] by simp
    have bt: "blocks q (tailBlock q) = Some b" using b(1) r(6) by simp
    define q1 where "q1 = set_block (tailBlock q) tb q"
    have q1: "set_block (tailBlock q) (b\<lparr>localFront := front b\<rparr>) q = q1"
      using no_room by (simp add: q1_def)
    have rel1: "rwq_rel q1 bs xss k"
      unfolding q1_def r(6) by (rule rwq_rel_refresh [OF rel r(3) b(1) tb(1)])
        (simp add: tb_def block_reload_front)
    have tk: "blocks q1 (bs ! k) = Some tb" "mallocs q1 = mallocs q" "frontBlock q1 = bs ! 0" "tailBlock q1 = bs ! k"
      using r(5,6) by (simp_all add: q1_def)
    show ?thesis
    proof (cases "Suc k < length bs")
      case True
      let ?n = "bs ! Suc k"
      have next_k: "next_block tb = Some ?n" "?n \<noteq> frontBlock q"
        using tb(1) b(2) True r(1,4,5) by (simp_all add: nth_eq_iff_index_eq)
      obtain nb jn where nb: "blocks q1 ?n = Some nb" "block_rel jn nb (xss ! Suc k)"
        using rwq_relD(7) [OF rel1 True] by (auto simp: slot_def)
      have e: "xss ! Suc k = []" using empties [of "Suc k"] True r(2) by simp
      then have fe: "front nb = tail nb" using block_empty_iff [OF nb(2)] by simp
      let ?nb = "nb\<lparr>localFront := front nb\<rparr>"
      have nb': "block_rel jn ?nb []" using block_reload_front [OF nb(2)] e by simp
      have "(1 :: nat) < 2 ^ jn" using nb(2) by (intro one_less_power) (simp_all add: block_rel_def)
      then have room: "(tail ?nb + 1) AND sizeMask ?nb \<noteq> localFront ?nb"
        using block_room(2) [OF nb'] by simp
      obtain nb2 where c: "construct_at (tail ?nb) x ?nb = Inr nb2" "next_block nb2 = next_block ?nb"
        "sizeMask nb2 = sizeMask ?nb"
        "block_rel jn (nb2\<lparr>tail := (tail ?nb + 1) AND sizeMask ?nb\<rparr>) ([] @ [x])"
        using nb' room by (rule block_construct) blast
      let ?nb2 = "nb2\<lparr>tail := (tail nb + 1) AND sizeMask nb\<rparr>"
      let ?q = "(set_block ?n ?nb2 q1)\<lparr>tailBlock := ?n\<rparr>"
      have "rwq_rel ?q bs (xss[Suc k := [x]]) (Suc k)"
        by (rule advance_tail [OF rel1 True nb(1) _ _ tk(1) tb(2) full]) (use c in \<open>simp_all\<close>)
      moreover have "inner_enqueue canAlloc malloc x q = (Inr True, ?q)"
        unfolding inner_enqueue_def using bt c(1,3) nb(1) next_k fe no_room tb(1) tk(3) r(5)
        by (simp add: Let_def q1)
      moreover have "concat (xss[Suc k := [x]]) = concat xss @ [x]"
        using concat_snoc_at [of "Suc k" xss "[x]"] empties True r(2) cat(1) by (simp add: take_Suc_conv_app_nth)
      ultimately show ?thesis by (intro exI [of _ True]) auto
    next
      case False
      then have k: "Suc k = length bs" using r(3) by simp
      then have next_k: "next_block tb = Some (frontBlock q)" using tb(1) b(2) r(5) by simp
      have rf: "ring_full q bs xss k" using k b full by (auto simp: ring_full_def)
      define sz where "sz = (if MAX_BLOCK_SIZE \<le> largestBlockSize q then largestBlockSize q else largestBlockSize q * 2)"
      have sz1: "(if MAX_BLOCK_SIZE \<le> largestBlockSize q1 then largestBlockSize q1 else largestBlockSize q1 * 2) = sz"
        by (simp add: sz_def q1_def)
      obtain js where js: "0 < js" "js \<le> 10" "sz = 2 ^ js" using new_block_size [OF r(9)] by (auto simp: sz_def)
      obtain nb where nb: "construct_at 0 x (new_block sz) = Inr nb" "front nb = 0"
        "block_rel js (nb\<lparr>localTail := 1, tail := 1, next_block := next_block tb\<rparr>) [x]"
        using js(1,2) unfolding js(3) by (rule first_in_new_block)
      show ?thesis
      proof (cases "canAlloc \<and> malloc (mallocs q)")
        case True
        let ?nb = "nb\<lparr>localTail := 1, tail := 1, next_block := next_block tb\<rparr>"
        let ?q = "(set_block (bs ! k) (tb\<lparr>next_block := Some (mallocs q)\<rparr>)
          (set_block (mallocs q) ?nb (q1\<lparr>mallocs := Suc (mallocs q), blocks := (blocks q1)(mallocs q \<mapsto> new_block sz),
            largestBlockSize := sz\<rparr>)))\<lparr>tailBlock := mallocs q\<rparr>"
        have "rwq_rel ?q (bs @ [mallocs q1]) (xss @ [[x]]) (Suc k)"
          by (rule grow_ring [OF rel1 k tk(1) tb(2) full nb(3), of js]) (use js tk r(6) in \<open>simp_all\<close>)
        moreover have "inner_enqueue canAlloc malloc x q = (Inr True, ?q)"
          unfolding inner_enqueue_def using bt next_k True nb(1,2) no_room tb(1) tk(3) r(5)
          by (simp add: Let_def q1 sz1 make_block_def tk)
        ultimately show ?thesis using True
          by (intro exI [of _ True] exI [of _ ?q] exI [of _ "bs @ [mallocs q1]"] exI [of _ "xss @ [[x]]"] exI [of _ "Suc k"]) simp
      next
        case False
        let ?q = "if canAlloc then q1\<lparr>mallocs := Suc (mallocs q)\<rparr> else q1"
        have "rwq_rel ?q bs xss k"
          using rel1 tk(2) by (auto simp: rwq_rel_def slot_def intro: less_SucI)
        moreover have "inner_enqueue canAlloc malloc x q = (Inr False, ?q)"
          unfolding inner_enqueue_def using bt next_k False no_room tb(1) tk(3) r(5)
          by (simp add: Let_def q1 make_block_def tk)
        ultimately show ?thesis using rf False
          by (intro exI [of _ False] exI [of _ ?q] exI [of _ bs] exI [of _ xss] exI [of _ k]) auto
      qed
    qed
  qed
qed

section \<open>Dequeue\<close>

text \<open>The element in front of a block that is not empty.\<close>

lemma dequeue_block:
  assumes rel: "rwq_rel q bs xss k" and b: "blocks q (bs ! 0) = Some b" "next_block fb = next_block b"
    "block_rel j fb (x # xs)" "front fb \<noteq> localTail fb" and xs: "xss ! 0 = x # xs"
  shows "\<exists>q'. dequeue_from (frontBlock q) fb q = (Inr (Some x), q') \<and> pop_from (frontBlock q) fb q = (Inr True, q') \<and>
    rwq_rel q' bs (xss[0 := xs]) k"
proof -
  note r = rwq_relD [OF rel]
  let ?b = "(destroy_at (front fb) fb)\<lparr>front := (front fb + 1) AND sizeMask fb\<rparr>"
  have "rwq_rel (set_block (bs ! 0) ?b q) bs (xss[0 := xs]) k"
    by (rule rwq_rel_write [OF rel r(4) b(1) _ block_take(2) [OF b(3,4)]])
      (use b(2) in \<open>simp_all add: destroy_at_def\<close>)
  then show ?thesis
    using block_take(1) [OF b(3,4)] r(5) by (simp add: dequeue_from_def pop_from_def Let_def)
qed

text \<open>The consumer moves on to the next block: the empty front block becomes the last of the ring.\<close>

lemma rotate_slot:
  assumes len: "length xss = length bs" "0 < k" "k < length bs" and e: "xss ! 0 = []"
    and sl: "\<And>i. i < length bs \<Longrightarrow> slot q bs xss k i" and i: "i < length bs"
  shows "slot q (rotate1 bs) (rotate1 xss) (k - 1) i"
proof -
  let ?i = "Suc i mod length bs"
  have i': "?i < length bs" using i by (intro mod_less_divisor) auto
  obtain b j where b: "blocks q (bs ! ?i) = Some b" "next_block b = Some (bs ! (Suc ?i mod length bs))"
    "block_rel j b (xss ! ?i)" "0 < ?i \<and> ?i \<le> k \<longrightarrow> xss ! ?i \<noteq> []" "k < ?i \<longrightarrow> xss ! ?i = []"
    "0 < ?i \<and> ?i < k \<longrightarrow> Suc (length (xss ! ?i)) = 2 ^ j"
    using sl [OF i'] unfolding slot_def by blast
  have nth: "rotate1 bs ! i = bs ! ?i" "rotate1 xss ! i = xss ! ?i" "rotate1 bs ! ?i = bs ! (Suc ?i mod length bs)"
    using i i' len(1) by (simp_all add: nth_rotate1)
  have idx: "?i = (if Suc i = length bs then 0 else Suc i)" using i by auto
  show ?thesis
  proof (rule slotI [of _ _ _ b j])
    show "blocks q (rotate1 bs ! i) = Some b" "block_rel j b (rotate1 xss ! i)"
      "next_block b = Some (rotate1 bs ! (Suc i mod length (rotate1 bs)))"
      using b nth by simp_all
    show "rotate1 xss ! i \<noteq> []" if "0 < i" "i \<le> k - 1"
    proof -
      have "?i = Suc i" using idx that len by simp
      then show ?thesis using b(4) that len(2) nth(2) by simp
    qed
    show "rotate1 xss ! i = []" if "k - 1 < i"
    proof (cases "Suc i = length bs")
      case True
      then show ?thesis using idx nth(2) e by simp
    next
      case False
      then have "?i = Suc i" using idx by simp
      then show ?thesis using b(5) that len(2) nth(2) by simp
    qed
    show "Suc (length (rotate1 xss ! i)) = 2 ^ j" if "0 < i" "i < k - 1"
    proof -
      have "?i = Suc i" using idx that len by simp
      then show ?thesis using b(6) that nth(2) by simp
    qed
  qed
qed

lemma advance_front:
  assumes rel: "rwq_rel q bs xss k" and k: "0 < k" "xss ! 0 = []"
  shows "rwq_rel (q\<lparr>frontBlock := bs ! 1\<rparr>) (rotate1 bs) (rotate1 xss) (k - 1)"
    and "concat (rotate1 xss) = concat xss"
proof -
  note r = rwq_relD [OF rel]
  have "1 < length bs" using k(1) r(3) by simp
  then have "rotate1 bs ! 0 = bs ! 1" "rotate1 bs ! (k - 1) = bs ! k"
    using r(3,4) k(1) nth_rotate1 [of 0 bs] nth_rotate1 [of "k - 1" bs] by auto
  moreover have "slot (q\<lparr>frontBlock := bs ! 1\<rparr>) (rotate1 bs) (rotate1 xss) (k - 1) i" if "i < length bs" for i
    using rotate_slot [OF r(2) k(1) r(3) k(2) r(7) that] by (simp add: slot_def)
  ultimately show "rwq_rel (q\<lparr>frontBlock := bs ! 1\<rparr>) (rotate1 bs) (rotate1 xss) (k - 1)"
    using r k(1) by (auto simp: rwq_rel_def)
  show "concat (rotate1 xss) = concat xss" using k(2) by (cases xss) simp_all
qed

text \<open>\<open>try_dequeue\<close>, \<open>pop\<close> and \<open>peek\<close> search for the first element the same way: in the front block, else in
  the next block, unless the front block is also the tail block.\<close>

lemma front_slot:
  assumes "rwq_rel q bs xss k"
  obtains b j where "blocks q (bs ! 0) = Some b" "next_block b = Some (bs ! (Suc 0 mod length bs))" "block_rel j b (xss ! 0)"
  using rwq_relD(7) [OF assms rwq_relD(4) [OF assms]] by (auto simp: slot_def)

lemma dequeue_front:
  assumes rel: "rwq_rel q bs xss k" and xs: "xss ! 0 = x # ys"
  shows "\<exists>q'. try_dequeue q = (Inr (Some x), q') \<and> rwq_pop q = (Inr True, q') \<and> rwq_rel q' bs (xss[0 := ys]) k"
    and "\<exists>q'. rwq_peek q = (Inr (Some x), q') \<and> rwq_rel q' bs xss k"
proof -
  note r = rwq_relD [OF rel]
  obtain b j where b: "blocks q (bs ! 0) = Some b" "block_rel j b (xss ! 0)" using rel by (rule front_slot) blast
  define fb where "fb = (if front b = localTail b then b\<lparr>localTail := tail b\<rparr> else b)"
  have fb: "next_block fb = next_block b" "block_rel j fb (x # ys)" "front fb = front b"
    using b(2) xs by (auto simp: fb_def block_reload_tail)
  have ne: "front b \<noteq> tail b" using block_empty_iff [OF b(2)] xs by simp
  then have lt: "front fb \<noteq> localTail fb" by (auto simp: fb_def)
  have bf: "blocks q (frontBlock q) = Some b" using b(1) r(5) by simp
  have "try_dequeue q = dequeue_from (frontBlock q) fb q" "rwq_pop q = pop_from (frontBlock q) fb q"
    unfolding try_dequeue_def rwq_pop_def using bf ne
    by (cases "front b = localTail b"; simp add: Let_def fb_def)+
  then show "\<exists>q'. try_dequeue q = (Inr (Some x), q') \<and> rwq_pop q = (Inr True, q') \<and> rwq_rel q' bs (xss[0 := ys]) k"
    using dequeue_block [OF rel b(1) fb(1,2) lt xs] by simp
  have "rwq_peek q = (Inr (Some x), set_block (frontBlock q) fb q)"
    unfolding rwq_peek_def using bf ne block_take(1) [OF fb(2) lt] fb(3)
    by (cases "front b = localTail b") (simp_all add: Let_def fb_def)
  moreover have "rwq_rel (set_block (frontBlock q) fb q) bs xss k"
    unfolding r(5) by (rule rwq_rel_refresh [OF rel r(4) b(1) fb(1)]) (simp add: fb_def block_reload_tail)
  ultimately show "\<exists>q'. rwq_peek q = (Inr (Some x), q') \<and> rwq_rel q' bs xss k" by blast
qed

text \<open>An empty front block: the copy of the tail is refreshed.\<close>

lemma empty_front:
  assumes rel: "rwq_rel q bs xss k" and xs: "xss ! 0 = []" and b: "blocks q (bs ! 0) = Some b"
  shows "localTail b = front b" "tail b = front b"
    "rwq_rel (set_block (bs ! 0) (b\<lparr>localTail := tail b\<rparr>) q) bs xss k"
proof -
  note r = rwq_relD [OF rel]
  obtain b1 j where "blocks q (bs ! 0) = Some b1" "block_rel j b1 (xss ! 0)" using rel by (rule front_slot) blast
  with b have b2: "block_rel j b (xss ! 0)" by simp
  show "localTail b = front b" using block_local_tail [OF b2] xs by metis
  show "tail b = front b" using block_empty_iff [OF b2] xs by simp
  show "rwq_rel (set_block (bs ! 0) (b\<lparr>localTail := tail b\<rparr>) q) bs xss k"
    by (rule rwq_rel_refresh [OF rel r(4) b]) (simp_all add: block_reload_tail)
qed

lemma dequeue_none:
  assumes rel: "rwq_rel q bs xss 0" and xs: "xss ! 0 = []"
  shows "\<exists>q'. try_dequeue q = (Inr None, q') \<and> rwq_pop q = (Inr False, q') \<and> rwq_peek q = (Inr None, q') \<and>
    rwq_rel q' bs xss 0"
proof -
  note r = rwq_relD [OF rel]
  obtain b where b: "blocks q (bs ! 0) = Some b" using rel by (rule front_slot) blast
  note e = empty_front [OF rel xs b]
  let ?q = "set_block (frontBlock q) (b\<lparr>localTail := tail b\<rparr>) q"
  have "try_dequeue q = (Inr None, ?q)" "rwq_pop q = (Inr False, ?q)" "rwq_peek q = (Inr None, ?q)"
    unfolding try_dequeue_def rwq_pop_def rwq_peek_def using b r(5,6) e(1,2) by (simp_all add: Let_def)
  then show ?thesis using e(3) r(5) by auto
qed

lemma dequeue_next:
  assumes rel: "rwq_rel q bs xss k" and k: "0 < k" and xs: "xss ! 0 = []" "xss ! 1 = x # ys"
  shows "\<exists>q'. try_dequeue q = (Inr (Some x), q') \<and> rwq_pop q = (Inr True, q') \<and>
      rwq_rel q' (rotate1 bs) ((rotate1 xss)[0 := ys]) (k - 1)"
    and "\<exists>q'. rwq_peek q = (Inr (Some x), q') \<and> rwq_rel q' bs xss k"
proof -
  note r = rwq_relD [OF rel]
  have l1: "1 < length bs" using k r(3) by simp
  obtain b where b: "blocks q (bs ! 0) = Some b" "next_block b = Some (bs ! 1)"
    using rel by (rule front_slot) (use l1 in auto)
  note e = empty_front [OF rel xs(1) b(1)]
  let ?fb = "b\<lparr>localTail := tail b\<rparr>"
  define q1 where "q1 = set_block (bs ! 0) ?fb q"
  have rel1: "rwq_rel q1 bs xss k" unfolding q1_def by (rule e(3))
  obtain nb j where nb: "blocks q1 (bs ! 1) = Some nb" "block_rel j nb (xss ! 1)"
    using rwq_relD(7) [OF rel1 l1] by (auto simp: slot_def)
  have ne: "front nb \<noteq> tail nb" using block_empty_iff [OF nb(2)] xs(2) by simp
  let ?nb = "nb\<lparr>localTail := tail nb\<rparr>" and ?q2 = "q1\<lparr>frontBlock := bs ! 1\<rparr>"
  have nb': "block_rel j ?nb (x # ys)" using block_reload_tail [OF nb(2)] xs(2) by simp
  have lt: "front ?nb \<noteq> localTail ?nb" using ne by simp
  have dist: "frontBlock q \<noteq> tailBlock q" using r(1,3-6) k by (simp add: nth_eq_iff_index_eq)
  have bf: "blocks q (frontBlock q) = Some b" using b(1) r(5) by simp
  have q1: "set_block (frontBlock q) (b\<lparr>localTail := front b\<rparr>) q = q1" using r(5) e(2) by (simp add: q1_def)
  have n: "bs ! 1 \<noteq> frontBlock q" using r(1,4,5) l1 by (simp add: nth_eq_iff_index_eq)
  then have nbq: "blocks q (bs ! 1) = Some nb" using nb(1) r(5) by (simp add: q1_def)
  have rot: "rotate1 bs ! 0 = bs ! 1" "rotate1 xss ! 0 = x # ys"
    using l1 r(2,4) xs(2) nth_rotate1 [of 0 bs] nth_rotate1 [of 0 xss] by auto
  have rel2: "rwq_rel ?q2 (rotate1 bs) (rotate1 xss) (k - 1)"
    by (rule advance_front(1) [OF rel1 k xs(1)])
  have f2: "frontBlock ?q2 = bs ! 1" by simp
  have nb2: "blocks ?q2 (rotate1 bs ! 0) = Some nb" using nb(1) rot(1) by simp
  have "try_dequeue q = dequeue_from (frontBlock ?q2) ?nb ?q2" "rwq_pop q = pop_from (frontBlock ?q2) ?nb ?q2"
    unfolding try_dequeue_def rwq_pop_def using bf b(2) e(1,2) dist n nb(1) nbq ne by (simp_all add: Let_def q1)
  then show "\<exists>q'. try_dequeue q = (Inr (Some x), q') \<and> rwq_pop q = (Inr True, q') \<and>
      rwq_rel q' (rotate1 bs) ((rotate1 xss)[0 := ys]) (k - 1)"
    using dequeue_block [OF rel2 nb2 _ nb' lt rot(2)] by simp
  have "object_at (front nb) ?nb = object_at (front nb) nb" by (simp add: object_at_def)
  then have "object_at (front nb) nb = Inr x" using block_take(1) [OF nb' lt] by simp
  moreover have "frontBlock q1 = bs ! 0" "tailBlock q1 = tailBlock q" "set_block (bs ! 0) (b\<lparr>localTail := front b\<rparr>) q1 = q1"
    using r(5) e(2) by (simp_all add: q1_def set_block_def)
  ultimately have "rwq_peek q = (Inr (Some x), q1)"
    unfolding rwq_peek_def using bf b(2) e(1,2) dist n nb(1) nbq ne r(5) q1 by (simp add: Let_def)
  then show "\<exists>q'. rwq_peek q = (Inr (Some x), q') \<and> rwq_rel q' bs xss k" using rel1 by blast
qed

section \<open>The operations on what the queue represents\<close>

lemma try_dequeue_repr:
  assumes "rwq_rel q bs xss k"
  shows "case concat xss of
     [] \<Rightarrow> \<exists>q'. try_dequeue q = (Inr None, q') \<and> rwq_pop q = (Inr False, q') \<and> rwq_peek q = (Inr None, q') \<and> rwq_rel q' bs xss k
   | x # xs \<Rightarrow> (\<exists>q' xss' k' n. try_dequeue q = (Inr (Some x), q') \<and> rwq_pop q = (Inr True, q') \<and>
         rwq_rel q' (rotate n bs) xss' k' \<and> concat xss' = xs) \<and>
       (\<exists>q'. rwq_peek q = (Inr (Some x), q') \<and> rwq_rel q' bs xss k)"
proof (cases "xss ! 0")
  case (Cons x ys)
  note r = rwq_relD [OF assms]
  obtain zss where z: "xss = (x # ys) # zss" using Cons r(2,4) by (cases xss) auto
  obtain q' where q': "try_dequeue q = (Inr (Some x), q')" "rwq_pop q = (Inr True, q')" "rwq_rel q' bs (xss[0 := ys]) k"
    using dequeue_front(1) [OF assms Cons] by blast
  have "rwq_rel q' (rotate 0 bs) (ys # zss) k" using q'(3) z by simp
  then have "\<exists>q' xss' k' n. try_dequeue q = (Inr (Some x), q') \<and> rwq_pop q = (Inr True, q') \<and>
      rwq_rel q' (rotate n bs) xss' k' \<and> concat xss' = ys @ concat zss"
    using q'(1,2) by (intro exI [of _ q'] exI [of _ "ys # zss"] exI [of _ k] exI [of _ 0]) simp
  then show ?thesis using dequeue_front(2) [OF assms Cons] z by simp
next
  case Nil
  note r = rwq_relD [OF assms]
  show ?thesis
  proof (cases "k = 0")
    case True
    have "xss ! i = []" if "i < length xss" for i
      using r(7) [of i] that r(2) True Nil by (cases "i = 0") (auto simp: slot_def)
    then have c: "concat xss = []" by (auto simp: in_set_conv_nth)
    show ?thesis unfolding c using dequeue_none [of q bs xss] assms True Nil by simp
  next
    case False
    then have k: "0 < k" by simp
    then have l1: "1 < length bs" using r(3) by simp
    have "xss ! 1 \<noteq> []" using r(7) [OF l1] k by (auto simp: slot_def)
    then obtain x ys where xs1: "xss ! 1 = x # ys" by (cases "xss ! 1") auto
    then obtain zss where z: "xss = [] # (x # ys) # zss"
      using Nil r(2) l1 by (cases xss; cases "tl xss") auto
    obtain q' where q': "try_dequeue q = (Inr (Some x), q')" "rwq_pop q = (Inr True, q')"
      "rwq_rel q' (rotate1 bs) ((rotate1 xss)[0 := ys]) (k - 1)"
      using dequeue_next(1) [OF assms k Nil xs1] by blast
    have "rwq_rel q' (rotate 1 bs) (ys # zss @ [[]]) (k - 1)" using q'(3) z by simp
    then have "\<exists>q' xss' k' n. try_dequeue q = (Inr (Some x), q') \<and> rwq_pop q = (Inr True, q') \<and>
        rwq_rel q' (rotate n bs) xss' k' \<and> concat xss' = ys @ concat zss"
      using q'(1,2) by (intro exI [of _ q'] exI [of _ "ys # zss @ [[]]"] exI [of _ "k - 1"] exI [of _ 1]) simp
    then show ?thesis using dequeue_next(2) [OF assms k Nil xs1] z by simp
  qed
qed

section \<open>Rounding up to a power of two\<close>

text \<open>After smearing by \<open>1, 2, 4, 8, 16, 32\<close> a bit is set when any bit at or above it was.\<close>

definition smeared :: "nat \<Rightarrow> size_t \<Rightarrow> size_t \<Rightarrow> bool" where
  "smeared s x y \<longleftrightarrow> (\<forall>i. bit y i \<longleftrightarrow> (\<exists>d < s. bit x (i + d)))"

lemma smeared_step: "smeared s x y \<Longrightarrow> smeared (s + s) x (smear s y)"
proof -
  assume sm: "smeared s x y"
  have "(\<exists>d < s + s. bit x (i + d)) \<longleftrightarrow> (\<exists>d < s. bit x (i + d)) \<or> (\<exists>d < s. bit x (i + s + d))" for i
  proof
    assume "\<exists>d < s + s. bit x (i + d)"
    then obtain d where "d < s + s" "bit x (i + d)" by blast
    then show "(\<exists>d < s. bit x (i + d)) \<or> (\<exists>d < s. bit x (i + s + d))"
    proof (cases "d < s")
      case False
      have "i + s + (d - s) = i + d" "d - s < s" using False \<open>d < s + s\<close> by simp_all
      then show ?thesis using \<open>bit x (i + d)\<close> by metis
    qed (use \<open>bit x (i + d)\<close> in blast)
  next
    assume "(\<exists>d < s. bit x (i + d)) \<or> (\<exists>d < s. bit x (i + s + d))"
    then show "\<exists>d < s + s. bit x (i + d)"
    proof (elim disjE exE conjE)
      fix d assume "d < s" "bit x (i + d)"
      then show ?thesis by (intro exI [of _ d]) simp
    next
      fix d assume "d < s" "bit x (i + s + d)"
      then show ?thesis by (intro exI [of _ "s + d"]) (simp add: add.assoc)
    qed
  qed
  note split = this
  have y: "bit y i \<longleftrightarrow> (\<exists>d < s. bit x (i + d))" for i using sm by (simp add: smeared_def)
  have "bit (smear s y) i \<longleftrightarrow> bit y i \<or> bit y (i + s)" for i
    by (simp add: smear_def bit_or_iff bit_drop_bit_eq add.commute)
  then show ?thesis unfolding smeared_def split y by simp
qed

lemma smear_all:
  "smeared 64 x (fold (\<lambda>i. smear (i * 8)) [1, 2, 4] (smear 4 (smear 2 (smear 1 x))))"
proof -
  have "smeared 1 x x" by (simp add: smeared_def)
  from smeared_step [OF this] have "smeared 2 x (smear 1 x)" unfolding one_add_one .
  from smeared_step [OF this] have "smeared 4 x (smear 2 (smear 1 x))" by simp
  from smeared_step [OF this] have "smeared 8 x (smear 4 (smear 2 (smear 1 x)))" by simp
  from smeared_step [OF this] have "smeared 16 x (smear 8 (smear 4 (smear 2 (smear 1 x))))" by simp
  from smeared_step [OF this] have "smeared 32 x (smear 16 (smear 8 (smear 4 (smear 2 (smear 1 x)))))" by simp
  from smeared_step [OF this] show ?thesis by simp
qed

lemma smeared_mask:
  assumes "smeared 64 x y" "unat x < 2 ^ k" "k = 0 \<or> 2 ^ (k - 1) \<le> unat x" "k \<le> 64"
  shows "y = mask k"
proof (rule bit_word_eqI)
  fix i assume i: "i < LENGTH(64)"
  have hi: "\<not> bit x n" if "k \<le> n" for n
  proof -
    have "take_bit k x = x"
      using assms(2) by (simp add: word_eq_unat unsigned_take_bit_eq take_bit_nat_eq_self_iff)
    then show ?thesis using that by (metis bit_take_bit_iff not_le)
  qed
  show "bit y i = bit (mask k :: size_t) i"
  proof (cases "i < k")
    case True
    have "bit x (k - 1)"
    proof (rule ccontr)
      assume n: "\<not> bit x (k - 1)"
      have "take_bit (k - 1) x = x"
      proof (rule bit_eqI)
        fix m
        have "k - 1 \<le> m \<Longrightarrow> \<not> bit x m" using n hi [of m] by (cases "m = k - 1") auto
        then show "bit (take_bit (k - 1) x) m = bit x m" by (metis bit_take_bit_iff not_le)
      qed
      then have "unat x < 2 ^ (k - 1)"
        by (metis take_bit_nat_less_exp unsigned_take_bit_eq)
      then show False using assms(3) True by auto
    qed
    then have "bit y i" using assms(1,4) True unfolding smeared_def by (auto intro!: exI [of _ "k - 1 - i"])
    then show ?thesis using True i by (simp add: bit_mask_iff)
  next
    case False
    then have "\<not> bit y i" using assms(1) hi by (auto simp: smeared_def)
    then show ?thesis using False by (simp add: bit_mask_iff)
  qed
qed

lemma ceilToPow2_eq:
  assumes "0 < x" "unat x \<le> 2 ^ k" "k = 0 \<or> 2 ^ (k - 1) < unat x" "k < 64"
  shows "ceilToPow2 x = 2 ^ k"
proof -
  have "1 \<le> unat x" using assms(1) by (simp add: word_less_nat_alt)
  then have x1: "unat (x - 1) = unat x - 1" by (simp add: unat_sub word_le_nat_alt)
  have "fold (\<lambda>i. smear (i * 8)) [1, 2, 4] (smear 4 (smear 2 (smear 1 (x - 1)))) = mask k"
    by (rule smeared_mask [OF smear_all]) (use assms x1 \<open>1 \<le> unat x\<close> in auto)
  then show ?thesis by (simp add: ceilToPow2_def mask_eq_exp_minus_1)
qed

end
