(* ===== verification/RW_Queue_Capacity.thy ===== *)
theory RW_Queue_Capacity
  imports RW_Queue_Props
begin

text \<open>
  The constructor of \<open>ReaderWriterQueue\<close> and how many elements its blocks can hold.
\<close>

section \<open>Sizes of blocks\<close>

text \<open>The number of slots of each block; no operation changes it.\<close>

definition block_sizes :: "'a rwq \<Rightarrow> nat \<Rightarrow> nat option" where
  "block_sizes q p = map_option (\<lambda>b. length (data b)) (blocks q p)"

lemma construct_at_length: "construct_at i x b = Inr b' \<Longrightarrow> length (data b') = length (data b)"
  by (auto simp: construct_at_def split: if_splits)

lemma block_sizes_set_block:
  "blocks q p = Some b \<Longrightarrow> length (data b') = length (data b) \<Longrightarrow> block_sizes (set_block p b' q) = block_sizes q"
  by (auto simp: block_sizes_def fun_eq_iff)

lemma block_sizes_fields [simp]:
  "block_sizes (q\<lparr>frontBlock := f\<rparr>) = block_sizes q" "block_sizes (q\<lparr>tailBlock := f\<rparr>) = block_sizes q"
  by (simp_all add: block_sizes_def fun_eq_iff)

lemma dequeue_from_sizes:
  assumes "blocks q p = Some b" "length (data b') = length (data b)"
  shows "block_sizes (snd (dequeue_from p b' q)) = block_sizes q"
  using assms by (auto simp: dequeue_from_def Let_def destroy_at_def split: sum.split intro!: block_sizes_set_block)

lemma try_dequeue_sizes: "block_sizes (snd (try_dequeue q)) = block_sizes q"
proof (cases "blocks q (frontBlock q)")
  case None
  then show ?thesis by (simp add: try_dequeue_def)
next
  case (Some b)
  let ?b = "b\<lparr>localTail := tail b\<rparr>"
  have 1: "block_sizes (set_block (frontBlock q) ?b q) = block_sizes q"
    using Some by (intro block_sizes_set_block) simp_all
  have 2: "block_sizes (snd (dequeue_from (frontBlock q) b q)) = block_sizes q"
    "block_sizes (snd (dequeue_from (frontBlock q) ?b q)) = block_sizes q"
    using Some by (simp_all add: dequeue_from_sizes)
  have 3: "block_sizes (snd (dequeue_from (frontBlock q) ?b (set_block (frontBlock q) ?b q))) = block_sizes q"
    using 1 dequeue_from_sizes [of "set_block (frontBlock q) ?b q" "frontBlock q" ?b ?b] by simp
  have 4: "block_sizes (snd (dequeue_from n (nb\<lparr>localTail := tail nb\<rparr>)
      ((set_block (frontBlock q) ?b q)\<lparr>frontBlock := n\<rparr>))) = block_sizes q"
    if "blocks (set_block (frontBlock q) ?b q) n = Some nb" for n nb
    using 1 that dequeue_from_sizes [of "(set_block (frontBlock q) ?b q)\<lparr>frontBlock := n\<rparr>" n nb] by simp
  show ?thesis
  proof (cases "front b = localTail b \<and> front b = tail b \<and> frontBlock q \<noteq> tailBlock q")
    case True
    then have t: "localTail b = front b" "tail b = front b" "frontBlock q \<noteq> tailBlock q" by auto
    show ?thesis
    proof (cases "next_block b")
      case None
      then show ?thesis using t Some 1 by (simp add: try_dequeue_def Let_def)
    next
      case n: (Some n)
      show ?thesis
      proof (cases "blocks (set_block (frontBlock q) ?b q) n")
        case None
        then show ?thesis using t Some 1 n by (simp add: try_dequeue_def Let_def)
      next
        case nb: (Some nb)
        then show ?thesis using t Some 1 n 4 [OF nb] by (simp add: try_dequeue_def Let_def)
      qed
    qed
  next
    case False
    then show ?thesis using Some 1 2 3 by (auto simp: try_dequeue_def Let_def)
  qed
qed

lemma try_enqueue_sizes: "block_sizes (snd (try_enqueue x q)) = block_sizes q"
proof (cases "blocks q (tailBlock q)")
  case None
  then show ?thesis by (simp add: try_enqueue_def inner_enqueue_def)
next
  case (Some b)
  have w: "block_sizes (set_block (tailBlock q) (tb\<lparr>tail := t\<rparr>) q) = block_sizes q"
    if "construct_at i x b' = Inr tb" "length (data b') = length (data b)" for tb t i b'
    using Some that by (intro block_sizes_set_block) (simp_all add: construct_at_length)
  show ?thesis
  proof (cases "(tail b + 1) AND sizeMask b = localFront b")
    case False
    then show ?thesis using Some w [of "tail b" b]
      by (cases "construct_at (tail b) x b") (auto simp: try_enqueue_def inner_enqueue_def Let_def)
  next
    case reload: True
    let ?tb = "b\<lparr>localFront := front b\<rparr>"
    let ?q = "set_block (tailBlock q) ?tb q"
    have 1: "block_sizes ?q = block_sizes q" using Some by (intro block_sizes_set_block) simp_all
    show ?thesis
    proof (cases "localFront b = front b")
      case False
      then show ?thesis using Some reload w [of "tail b" ?tb]
        by (cases "construct_at (tail b) x ?tb") (auto simp: try_enqueue_def inner_enqueue_def Let_def)
    next
      case full: True
      show ?thesis
      proof (cases "next_block b = Some (frontBlock q) \<or> next_block b = None")
        case True
        then show ?thesis using Some reload full 1 by (auto simp: try_enqueue_def inner_enqueue_def Let_def)
      next
        case False
        then obtain n where n: "next_block b = Some n" "n \<noteq> frontBlock q" by auto
        show ?thesis
        proof (cases "blocks ?q n")
          case None
          then show ?thesis using Some reload full 1 n by (simp add: try_enqueue_def inner_enqueue_def Let_def)
        next
          case nb: (Some nb)
          have "block_sizes (set_block n (nb'\<lparr>tail := t\<rparr>) ?q) = block_sizes q"
            if "construct_at i x (nb\<lparr>localFront := f\<rparr>) = Inr nb'" for i f nb' t
            using 1 nb construct_at_length [OF that] block_sizes_set_block [of ?q n nb "nb'\<lparr>tail := t\<rparr>"] by simp
          then show ?thesis using Some reload full 1 n nb
            by (cases "construct_at (tail nb) x (nb\<lparr>localFront := tail nb\<rparr>)")
              (auto simp: try_enqueue_def inner_enqueue_def Let_def)
        qed
      qed
    qed
  qed
qed

lemma rwq_peek_sizes: "block_sizes (snd (rwq_peek q)) = block_sizes q"
proof (cases "blocks q (frontBlock q)")
  case None
  then show ?thesis by (simp add: rwq_peek_def)
next
  case (Some b)
  have 1: "block_sizes (set_block (frontBlock q) b' q) = block_sizes q" if "length (data b') = length (data b)" for b'
    using Some that by (intro block_sizes_set_block) simp_all
  have 2: "block_sizes (set_block (frontBlock q) b'' (set_block (frontBlock q) b' q)) = block_sizes q"
    if "length (data b') = length (data b)" "length (data b'') = length (data b)" for b' b''
    using 1 that by (simp add: set_block_def)
  show ?thesis using Some 1 2 by (auto simp: rwq_peek_def Let_def split: option.split)
qed

section \<open>The constructor\<close>

text \<open>The first \<open>m\<close> blocks have been allocated and linked into a ring.\<close>

definition ring_built :: "nat \<Rightarrow> size_t \<Rightarrow> 'a rwq \<Rightarrow> bool" where
  "ring_built m sz q \<longleftrightarrow> mallocs q = m \<and>
     (\<forall>i < m. blocks q i = Some ((new_block sz)\<lparr>next_block := Some (Suc i mod m)\<rparr>))"

lemma link_blocks_step:
  assumes "ring_built m sz q" "malloc m"
  shows "\<exists>q'. ring_built (Suc m) sz q' \<and>
    link_blocks (Suc n) malloc sz (if m = 0 then None else Some 0) (if m = 0 then None else Some (m - 1)) q =
    link_blocks n malloc sz (Some 0) (Some m) q'"
proof (cases m)
  case 0
  let ?q = "set_block 0 ((new_block sz)\<lparr>next_block := Some 0\<rparr>) (q\<lparr>mallocs := 1, blocks := (blocks q)(0 \<mapsto> new_block sz)\<rparr>)"
  have "ring_built (Suc m) sz ?q" using assms(1) 0 by (simp add: ring_built_def)
  then show ?thesis using assms 0 by (intro exI [of _ ?q]) (simp add: ring_built_def make_block_def Let_def)
next
  case (Suc l)
  let ?q1 = "q\<lparr>mallocs := Suc m, blocks := (blocks q)(m \<mapsto> new_block sz)\<rparr>"
  let ?q2 = "set_block l ((new_block sz)\<lparr>next_block := Some m\<rparr>) ?q1"
  let ?q = "set_block m ((new_block sz)\<lparr>next_block := Some 0\<rparr>) ?q2"
  have q: "mallocs q = m" "\<And>i. i < m \<Longrightarrow> blocks q i = Some ((new_block sz)\<lparr>next_block := Some (Suc i mod m)\<rparr>)"
    using assms(1) by (simp_all add: ring_built_def)
  have "blocks ?q i = Some ((new_block sz)\<lparr>next_block := Some (Suc i mod Suc m)\<rparr>)" if "i < Suc m" for i
  proof -
    have "i = m \<or> i = l \<or> i < l" using that Suc by auto
    then consider "i = m" | "i = l" | "i < l" by blast
    then show ?thesis using q(2) [of i] Suc by cases auto
  qed
  then have "ring_built (Suc m) sz ?q" using Suc by (simp add: ring_built_def)
  moreover have "blocks q l = Some ((new_block sz)\<lparr>next_block := Some 0\<rparr>)" using q(2) [of l] Suc by simp
  ultimately show ?thesis using assms(2) q(1) Suc by (intro exI [of _ ?q]) (simp add: make_block_def Let_def)
qed

lemma link_blocks_ring:
  assumes "ring_built m sz q" "\<And>p. p < m + n \<Longrightarrow> malloc p" "0 < m + n"
  shows "\<exists>q'. ring_built (m + n) sz q' \<and>
    link_blocks n malloc sz (if m = 0 then None else Some 0) (if m = 0 then None else Some (m - 1)) q = (Inr (Some 0), q')"
  using assms
proof (induction n arbitrary: m q)
  case (Suc n)
  have mm: "malloc m" using Suc.prems(2) by simp
  obtain q1 where q1: "ring_built (Suc m) sz q1"
    "link_blocks (Suc n) malloc sz (if m = 0 then None else Some 0) (if m = 0 then None else Some (m - 1)) q =
     link_blocks n malloc sz (Some 0) (Some m) q1"
    using link_blocks_step [of m sz q malloc n, OF Suc.prems(1) mm] by blast
  have "\<exists>q'. ring_built (Suc m + n) sz q' \<and>
    link_blocks n malloc sz (if Suc m = 0 then None else Some 0) (if Suc m = 0 then None else Some (Suc m - 1)) q1 = (Inr (Some 0), q')"
    by (rule Suc.IH [OF q1(1)]) (use Suc.prems(2) in simp_all)
  then show ?case unfolding q1(2) by simp
qed simp

lemma ceil_pow2_exists: "\<exists>k. (n :: nat) \<le> 2 ^ k \<and> (k = 0 \<or> 2 ^ (k - 1) < n)"
proof -
  have "n \<le> 2 ^ n" by (simp add: less_imp_le)
  then have l: "n \<le> 2 ^ (LEAST k. n \<le> 2 ^ k)" by (rule LeastI)
  moreover have "2 ^ (k - 1) < n" if "k = (LEAST k. n \<le> 2 ^ k)" "k \<noteq> 0" for k
    using not_less_Least [of "k - 1" "\<lambda>k. n \<le> 2 ^ k"] that by simp
  ultimately show ?thesis by blast
qed

text \<open>How many blocks, of how many slots, the constructor allocates.\<close>

definition initial_blocks :: "nat \<Rightarrow> nat" where
  "initial_blocks n = (if n \<le> 1023 then 1 else (n + 1021) div 511)"

lemma rwq_new_ring:
  assumes "0 < sz" "unat sz < 2 ^ 62" "\<And>p. p < initial_blocks (unat sz) \<Longrightarrow> malloc p"
  obtains q :: "'a rwq" and j where "rwq_new malloc sz = (Inr (), q)" "0 < j" "j \<le> 10" "ring_built (initial_blocks (unat sz)) (2 ^ j) q"
    "frontBlock q = 0" "tailBlock q = 0" "largestBlockSize q = 2 ^ j"
    "unat sz \<le> 1023 \<longrightarrow> 2 ^ (j - 1) \<le> unat sz \<and> unat sz < 2 ^ j" "1023 < unat sz \<longrightarrow> j = 9"
proof -
  let ?n = "Suc (unat sz)"
  have pos: "0 < unat sz" using assms(1) by (simp add: word_less_nat_alt)
  have sz1: "unat (sz + 1) = ?n" using assms(2) by (simp add: unat_add_small)
  obtain k where k: "?n \<le> 2 ^ k" "k = 0 \<or> 2 ^ (k - 1) < ?n" using ceil_pow2_exists by blast
  have k0: "k \<noteq> 0" using k(1) pos by (intro notI) simp
  have "(2 :: nat) ^ (k - 1) < 2 ^ 63" using k(2) k0 assms(2) by simp
  then have k64: "k < 64" using power_less_imp_less_exp [of "2 :: nat" "k - 1" 63] by simp
  have "0 < sz + 1" using sz1 by (simp add: word_less_nat_alt)
  then have ceil: "ceilToPow2 (sz + 1) = 2 ^ k" using k k64 by (intro ceilToPow2_eq) (simp_all add: sz1)
  have big: "MAX_BLOCK_SIZE * 2 < (2 ^ k :: size_t) \<longleftrightarrow> 1023 < unat sz"
  proof -
    have "MAX_BLOCK_SIZE * 2 < (2 ^ k :: size_t) \<longleftrightarrow> (2::nat) ^ 10 < 2 ^ k"
      using k64 by (simp add: MAX_BLOCK_SIZE_def word_less_nat_alt unat_pow2)
    also have "\<dots> \<longleftrightarrow> 10 < k" by (rule power_strict_increasing_iff) simp
    also have "\<dots> \<longleftrightarrow> 1023 < unat sz"
    proof
      assume "10 < k"
      then have "(2::nat) ^ 10 \<le> 2 ^ (k - 1)" by (intro power_increasing) simp_all
      then show "1023 < unat sz" using k(2) k0 by simp
    next
      assume "1023 < unat sz"
      then have "(2::nat) ^ 10 < 2 ^ k" using k(1) by simp
      then show "10 < k" by (rule power_less_imp_less_exp [rotated]) simp
    qed
    finally show ?thesis .
  qed
  let ?many = "1023 < unat sz"
  let ?j = "if ?many then 9 else k"
  let ?c = "if ?many then (sz + MAX_BLOCK_SIZE * 2 - 3) div (MAX_BLOCK_SIZE - 1) else 1"
  have "sz + MAX_BLOCK_SIZE * 2 - 3 = sz + 1021" by (simp add: MAX_BLOCK_SIZE_def)
  moreover have "unat (sz + 1021) = unat sz + 1021" using assms(2) by (simp add: unat_add_small)
  moreover have "MAX_BLOCK_SIZE - 1 = 511" by (simp add: MAX_BLOCK_SIZE_def)
  ultimately have "unat ?c = (if ?many then (unat sz + 1021) div 511 else 1)"
    by (simp only: unat_div_distrib if_distrib [of unat] unat_1) simp
  then have cnt: "unat ?c = initial_blocks (unat sz)" by (simp add: initial_blocks_def)
  have largest: "(if ?many then MAX_BLOCK_SIZE else 2 ^ k) = (2 :: size_t) ^ ?j" by (simp add: MAX_BLOCK_SIZE_def)
  have "0 < initial_blocks (unat sz)" by (auto simp: initial_blocks_def)
  moreover have "ring_built 0 (2 ^ ?j) (empty_heap :: 'a rwq)" by (simp add: ring_built_def empty_heap_def)
  ultimately obtain q0 :: "'a rwq" where q0: "ring_built (initial_blocks (unat sz)) (2 ^ ?j) q0"
    "link_blocks (initial_blocks (unat sz)) malloc (2 ^ ?j) None None empty_heap = (Inr (Some 0), q0)"
    using link_blocks_ring [of 0 "2 ^ ?j" empty_heap "initial_blocks (unat sz)" malloc] assms(3) by auto
  let ?q = "q0\<lparr>frontBlock := 0, tailBlock := 0, largestBlockSize := 2 ^ ?j\<rparr>"
  show thesis
  proof (rule that [of ?q ?j])
    show "rwq_new malloc sz = (Inr (), ?q)"
      unfolding rwq_new_def ceil big Let_def largest cnt q0(2) by simp
    show "?j \<le> 10"
    proof (cases ?many)
      case False
      then have "(2::nat) ^ (k - 1) < 2 ^ 10" using k(2) k0 by simp
      then have "k - 1 < 10" by (rule power_less_imp_less_exp [rotated]) simp
      then show ?thesis using False by simp
    qed simp
    show "ring_built (initial_blocks (unat sz)) (2 ^ ?j) ?q" using q0(1) by (simp add: ring_built_def)
  qed (use k k0 in auto)
qed

lemma rwq_new_rel:
  assumes "0 < sz" "unat sz < 2 ^ 62" "\<And>p. p < initial_blocks (unat sz) \<Longrightarrow> malloc p"
  obtains q :: "'a rwq" and j where "rwq_new malloc sz = (Inr (), q)"
    "rwq_rel q [0..<initial_blocks (unat sz)] (replicate (initial_blocks (unat sz)) []) 0"
    "\<And>p. p < initial_blocks (unat sz) \<Longrightarrow> block_sizes q p = Some (2 ^ j)"
    "unat sz \<le> 1023 \<longrightarrow> 2 ^ (j - 1) \<le> unat sz \<and> unat sz < 2 ^ j" "1023 < unat sz \<longrightarrow> j = 9"
proof -
  let ?n = "initial_blocks (unat sz)"
  obtain q :: "'a rwq" and j where q: "rwq_new malloc sz = (Inr (), q)" "0 < j" "j \<le> 10" "ring_built ?n (2 ^ j) q"
    "frontBlock q = 0" "tailBlock q = 0" "largestBlockSize q = 2 ^ j"
    "unat sz \<le> 1023 \<longrightarrow> 2 ^ (j - 1) \<le> unat sz \<and> unat sz < 2 ^ j" "1023 < unat sz \<longrightarrow> j = 9"
    by (rule rwq_new_ring [where malloc = malloc, OF assms]) auto
  have pos: "0 < ?n" by (auto simp: initial_blocks_def)
  have blk: "blocks q i = Some ((new_block (2 ^ j))\<lparr>next_block := Some (Suc i mod ?n)\<rparr>)" if "i < ?n" for i
    using q(4) that by (simp add: ring_built_def)
  have "slot q [0..<?n] (replicate ?n []) 0 i" if "i < ?n" for i
    by (rule slotI [of _ _ _ "(new_block (2 ^ j))\<lparr>next_block := Some (Suc i mod ?n)\<rparr>" j])
      (use blk [OF that] block_new [of j] q(2,3) that pos in simp_all)
  then have r1: "rwq_rel q [0..<?n] (replicate ?n []) 0"
    using q pos by (auto simp: rwq_rel_def ring_built_def)
  have r2: "block_sizes q p = Some (2 ^ j)" if "p < ?n" for p
    using blk [OF that] q(2,3) unat_pow2 [of j] by (simp add: block_sizes_def new_block_def)
  show thesis by (rule that [OF q(1) r1 r2 q(8,9)])
qed

section \<open>Capacity\<close>

text \<open>What the queue promises to a producer that never allocates: \<open>n\<close> elements fit at any time.  With several
  blocks, one block more than needed is kept, for the consumer to be in.\<close>

definition rwq_holds :: "nat \<Rightarrow> 'a rwq \<Rightarrow> 'a list \<Rightarrow> bool" where
  "rwq_holds n q xs \<longleftrightarrow> (\<exists>bs xss k c. rwq_rel q bs xss k \<and> xs = concat xss \<and> (\<forall>p \<in> set bs. block_sizes q p = Some c) \<and>
     (if length bs = 1 then n < c else n \<le> (length bs - 1) * (c - 1)))"

lemma rwq_holdsI:
  assumes "rwq_rel q bs xss k" "\<forall>p \<in> set bs. block_sizes q p = Some c"
    "if length bs = 1 then n < c else n \<le> (length bs - 1) * (c - 1)"
  shows "rwq_holds n q (concat xss)"
  using assms unfolding rwq_holds_def by blast

lemma full_ring_length:
  assumes rel: "rwq_rel q bs xss k" and full: "ring_full q bs xss k" and c: "\<forall>p \<in> set bs. block_sizes q p = Some c"
  shows "if length bs = 1 then length (concat xss) = c - 1 else (length bs - 1) * (c - 1) \<le> length (concat xss)"
proof -
  note r = rwq_relD [OF rel]
  have len: "length (xss ! i) = c - 1" if "i < length bs" "0 < i \<or> i = k" for i
  proof -
    obtain b j where b: "blocks q (bs ! i) = Some b" "block_rel j b (xss ! i)" "Suc (length (xss ! i)) = 2 ^ j"
    proof (cases "i = k")
      case True
      then show thesis using full that by (auto simp: ring_full_def)
    next
      case False
      have "Suc k = length bs" using full by (simp add: ring_full_def)
      then have "0 < i" "i < k" using \<open>i < length bs\<close> \<open>0 < i \<or> i = k\<close> False by simp_all
      then show thesis using r(7) [OF \<open>i < length bs\<close>] that by (auto simp: slot_def)
    qed
    have "block_sizes q (bs ! i) = Some c" using c that(1) by simp
    then show ?thesis using b by (simp add: block_sizes_def block_rel_def)
  qed
  have k: "Suc k = length bs" using full by (simp add: ring_full_def)
  show ?thesis
  proof (cases "length bs = 1")
    case True
    then obtain xs where "xss = [xs]" using r(2) by (cases xss) auto
    then show ?thesis using len [of 0] True k by simp
  next
    case False
    then obtain ys yss where x: "xss = ys # yss" using r(2,4) by (cases xss) auto
    have "length ys' = c - 1" if ys': "ys' \<in> set yss" for ys'
    proof -
      obtain i where "i < length yss" "ys' = yss ! i" using ys' by (metis in_set_conv_nth)
      then show ?thesis using len [of "Suc i"] r(2) x by simp
    qed
    then have "map length yss = replicate (length yss) (c - 1)" by (intro replicate_eqI) auto
    then have "length (concat yss) = length yss * (c - 1)"
      by (simp add: length_concat sum_list_replicate)
    moreover have "length yss = length bs - 1" using r(2) x by simp
    ultimately show ?thesis using False x by simp
  qed
qed

lemma rwq_rel_length:
  assumes rel: "rwq_rel q [p] [zs] 0" and c: "block_sizes q p = Some c"
  shows "length zs < c"
proof -
  have "slot q [p] [zs] 0 0" using rwq_relD(7) [OF rel, of 0] by simp
  then obtain b j where "blocks q p = Some b" "block_rel j b zs" by (auto simp: slot_def)
  then show ?thesis using c by (simp add: block_sizes_def block_rel_def)
qed

lemma try_enqueue_rel:
  assumes rel: "rwq_rel q bs xss k"
  shows "\<exists>r q' xss' k'. try_enqueue x q = (Inr r, q') \<and> rwq_rel q' bs xss' k' \<and> block_sizes q' = block_sizes q \<and>
    concat xss' = concat xss @ (if r then [x] else []) \<and> (\<not> r \<longrightarrow> ring_full q bs xss k)"
proof -
  obtain r q' bs' xss' k' where e: "inner_enqueue False (\<lambda>_. False) x q = (Inr r, q')" "rwq_rel q' bs' xss' k'"
    "concat xss' = concat xss @ (if r then [x] else [])" "\<not> False \<longrightarrow> bs' = bs"
    "\<not> r \<longrightarrow> ring_full q bs xss k \<and> (False \<longrightarrow> \<not> False)"
    using inner_enqueue_rel [OF rel, of False "\<lambda>_. False" x] by blast
  then have "block_sizes q' = block_sizes q" using try_enqueue_sizes [of x q] by (simp add: try_enqueue_def)
  then show ?thesis using e unfolding try_enqueue_def by blast
qed

lemma rwq_holds_enqueue:
  assumes "rwq_holds n q xs"
  shows "\<exists>r q'. try_enqueue x q = (Inr r, q') \<and> rwq_holds n q' (if r then xs @ [x] else xs) \<and> (\<not> r \<longrightarrow> n \<le> length xs)"
proof -
  obtain bs xss k c where h: "rwq_rel q bs xss k" "xs = concat xss" "\<forall>p \<in> set bs. block_sizes q p = Some c"
    "if length bs = 1 then n < c else n \<le> (length bs - 1) * (c - 1)"
    using assms unfolding rwq_holds_def by blast
  obtain r q' xss' k' where e: "try_enqueue x q = (Inr r, q')" "rwq_rel q' bs xss' k'" "block_sizes q' = block_sizes q"
    "concat xss' = concat xss @ (if r then [x] else [])" "\<not> r \<longrightarrow> ring_full q bs xss k"
    using try_enqueue_rel [OF h(1), of x] by blast
  have "(if r then xs @ [x] else xs) = concat xss'" using e(4) h(2) by simp
  moreover have "rwq_holds n q' (concat xss')"
    by (rule rwq_holdsI [OF e(2), where c = c]) (use e(3) h(3,4) in \<open>auto split: if_splits\<close>)
  moreover have "n \<le> length xs" if "\<not> r"
  proof -
    from that e(5) have "ring_full q bs xss k" by simp
    from full_ring_length [OF h(1) this h(3)] h(2,4) show ?thesis by (cases "length bs = 1") auto
  qed
  ultimately show ?thesis using e(1) by (intro exI [of _ r] exI [of _ q']) auto
qed

lemma rwq_holds_dequeue:
  assumes "rwq_holds n q xs"
  shows "\<exists>r q'. try_dequeue q = (Inr r, q') \<and>
    (case xs of [] \<Rightarrow> r = None \<and> rwq_holds n q' [] | y # ys \<Rightarrow> r = Some y \<and> rwq_holds n q' ys)"
proof -
  obtain bs xss k c where h: "rwq_rel q bs xss k" "xs = concat xss" "\<forall>p \<in> set bs. block_sizes q p = Some c"
    "if length bs = 1 then n < c else n \<le> (length bs - 1) * (c - 1)"
    using assms unfolding rwq_holds_def by blast
  show ?thesis
  proof (cases xs)
    case Nil
    then have c: "concat xss = []" using h(2) by simp
    obtain q' where q': "try_dequeue q = (Inr None, q')" "rwq_rel q' bs xss k"
      using try_dequeue_repr [OF h(1)] unfolding c list.case by blast
    have "block_sizes q' = block_sizes q" using try_dequeue_sizes [of q] q'(1) by simp
    then have "rwq_holds n q' (concat xss)"
      by (intro rwq_holdsI [OF q'(2), where c = c]) (use h(3,4) in \<open>auto split: if_splits\<close>)
    then show ?thesis using q'(1) Nil c by simp
  next
    case (Cons y ys)
    then have c: "concat xss = y # ys" using h(2) by simp
    obtain q' xss' k' m where q': "try_dequeue q = (Inr (Some y), q')" "rwq_rel q' (rotate m bs) xss' k'" "concat xss' = ys"
      using try_dequeue_repr [OF h(1)] unfolding c list.case by blast
    have "block_sizes q' = block_sizes q" using try_dequeue_sizes [of q] q'(1) by simp
    then have "rwq_holds n q' (concat xss')"
      by (intro rwq_holdsI [OF q'(2), where c = c]) (use h(3,4) in \<open>auto split: if_splits\<close>)
    then show ?thesis using q'(1,3) Cons by simp
  qed
qed

lemma initial_blocks_enough: "1023 < n \<Longrightarrow> 1 < initial_blocks n \<and> n \<le> (initial_blocks n - 1) * 511"
proof -
  assume n: "1023 < n"
  let ?d = "(n + 1021) div 511"
  have "?d * 511 + (n + 1021) mod 511 = n + 1021" by (rule div_mult_mod_eq)
  moreover have "(n + 1021) mod 511 < 511" by simp
  ultimately have "n + 1021 < ?d * 511 + 511" by linarith
  moreover have "initial_blocks n = ?d" using n by (simp add: initial_blocks_def)
  ultimately show ?thesis using n by (simp add: diff_mult_distrib)
qed

lemma rwq_new_holds:
  assumes "0 < sz" "unat sz < 2 ^ 62" "\<And>p. p < initial_blocks (unat sz) \<Longrightarrow> malloc p"
  shows "\<exists>q :: 'a rwq. rwq_new malloc sz = (Inr (), q) \<and> rwq_holds (unat sz) q []"
proof -
  let ?n = "initial_blocks (unat sz)"
  obtain q :: "'a rwq" and j where q: "rwq_new malloc sz = (Inr (), q)" "rwq_rel q [0..<?n] (replicate ?n []) 0"
    "\<And>p. p < ?n \<Longrightarrow> block_sizes q p = Some (2 ^ j)"
    "unat sz \<le> 1023 \<longrightarrow> 2 ^ (j - 1) \<le> unat sz \<and> unat sz < 2 ^ j" "1023 < unat sz \<longrightarrow> j = 9"
    by (rule rwq_new_rel [where malloc = malloc, OF assms]) auto
  have "rwq_holds (unat sz) q (concat (replicate ?n []))"
  proof (rule rwq_holdsI [OF q(2), where c = "2 ^ j"])
    show "\<forall>p \<in> set [0..<?n]. block_sizes q p = Some (2 ^ j)" using q(3) by simp
    show "if length [0..<?n] = 1 then unat sz < 2 ^ j else unat sz \<le> (length [0..<?n] - 1) * (2 ^ j - 1)"
    proof (cases "1023 < unat sz")
      case True
      then show ?thesis using initial_blocks_enough [OF True] q(5) by simp
    next
      case False
      then show ?thesis using q(4) by (simp add: initial_blocks_def)
    qed
  qed
  then show ?thesis using q(1) by simp
qed

text \<open>A queue of one block, such as the default constructor makes, holds exactly one element fewer than it
  has slots.\<close>

definition rwq_single :: "nat \<Rightarrow> 'a rwq \<Rightarrow> 'a list \<Rightarrow> bool" where
  "rwq_single c q xs \<longleftrightarrow> (\<exists>p. rwq_rel q [p] [xs] 0 \<and> block_sizes q p = Some c)"

lemma single_list: "length xss = length [p] \<Longrightarrow> xss = [concat xss]"
  by (cases xss) auto

lemma rwq_single_enqueue:
  assumes "rwq_single c q xs"
  shows "\<exists>q'. try_enqueue x q = (Inr (Suc (length xs) < c), q') \<and> rwq_single c q' (if Suc (length xs) < c then xs @ [x] else xs)"
proof -
  obtain p where p: "rwq_rel q [p] [xs] 0" "block_sizes q p = Some c" using assms by (auto simp: rwq_single_def)
  obtain r q' xss' k' where e: "try_enqueue x q = (Inr r, q')" "rwq_rel q' [p] xss' k'" "block_sizes q' = block_sizes q"
    "concat xss' = concat [xs] @ (if r then [x] else [])" "\<not> r \<longrightarrow> ring_full q [p] [xs] 0"
    using try_enqueue_rel [OF p(1), of x] by blast
  have "k' = 0" using rwq_relD(3) [OF e(2)] by simp
  moreover have "xss' = [xs @ (if r then [x] else [])]"
    using single_list [OF rwq_relD(2) [OF e(2)]] e(4) by simp
  ultimately have rel': "rwq_rel q' [p] [xs @ (if r then [x] else [])] 0" using e(2) by simp
  have "length (xs @ (if r then [x] else [])) < c" using rwq_rel_length [OF rel'] e(3) p(2) by simp
  moreover have "length xs = c - 1" if "\<not> r" using full_ring_length [OF p(1), of c] e(5) that p(2) by simp
  ultimately have "r \<longleftrightarrow> Suc (length xs) < c" by (cases r) auto
  then show ?thesis using e(1,3) rel' p(2) by (intro exI [of _ q']) (auto simp: rwq_single_def)
qed

lemma rwq_single_dequeue:
  assumes "rwq_single c q xs"
  shows "\<exists>r q'. try_dequeue q = (Inr r, q') \<and>
    (case xs of [] \<Rightarrow> r = None \<and> rwq_single c q' [] | y # ys \<Rightarrow> r = Some y \<and> rwq_single c q' ys)"
    and "xs = y # ys \<Longrightarrow> \<exists>q'. rwq_peek q = (Inr (Some y), q') \<and> rwq_single c q' xs"
proof -
  obtain p where p: "rwq_rel q [p] [xs] 0" "block_sizes q p = Some c" using assms by (auto simp: rwq_single_def)
  note d = try_dequeue_repr [OF p(1)]
  show "\<exists>r q'. try_dequeue q = (Inr r, q') \<and>
    (case xs of [] \<Rightarrow> r = None \<and> rwq_single c q' [] | y # ys \<Rightarrow> r = Some y \<and> rwq_single c q' ys)"
  proof (cases xs)
    case Nil
    then show ?thesis using d p try_dequeue_sizes [of q] by (auto simp: rwq_single_def)
  next
    case (Cons y ys)
    then obtain q' xss' k' m where q': "try_dequeue q = (Inr (Some y), q')" "rwq_rel q' (rotate m [p]) xss' k'" "concat xss' = ys"
      using d by auto
    have "rotate m [p] = [p]" by (induction m) auto
    then have "rwq_rel q' [p] [ys] 0"
      using q'(2,3) single_list [of xss' p] rwq_relD(2,3) [OF q'(2)] by simp
    then show ?thesis using q'(1) Cons p(2) try_dequeue_sizes [of q] by (auto simp: rwq_single_def)
  qed
  show "\<exists>q'. rwq_peek q = (Inr (Some y), q') \<and> rwq_single c q' xs" if "xs = y # ys"
  proof -
    have c: "concat [xs] = y # ys" using that by simp
    obtain q' where "rwq_peek q = (Inr (Some y), q')" "rwq_rel q' [p] [xs] 0"
      using d unfolding c list.case by blast
    then show ?thesis using p(2) rwq_peek_sizes [of q] by (auto simp: rwq_single_def)
  qed
qed

end
