(* ===== verification/RW_Queue_SPSC.thy ===== *)
theory RW_Queue_SPSC
  imports RW_Queue_Capacity
begin

text \<open>
  \<open>ReaderWriterQueue\<close> shared by two threads: one calls \<open>enqueue\<close> and \<open>try_enqueue\<close>, the other
  \<open>try_dequeue\<close>.  Each call is cut into steps, and any number of steps of one thread may come between two
  steps of the other.  A step reads or writes at most one location the other thread writes; the
  locations only one thread writes (\<open>tailBlock\<close>, \<open>tail\<close>, \<open>localFront\<close>, \<open>next\<close> and \<open>largestBlockSize\<close> the
  producer, \<open>frontBlock\<close>, \<open>front\<close> and \<open>localTail\<close> the consumer) it may read along the way.  Memory is
  sequentially consistent: the fences, which are there to make it so for these accesses, have no
  effect in the model.
\<close>

section \<open>Where a thread is\<close>

text \<open>
  The program points of \<open>inner_enqueue\<close> with the local variables that are live there: the mode and
  the element, the address of the block, its tail and the tail after it.  \<open>P_Done\<close> is the point behind
  the call for an element that returned a boolean.
\<close>

datatype 'a producer_pc =
    P_Idle
  | P_Enter bool 'a
  | P_Reload bool 'a nat size_t size_t
  | P_Construct 'a nat size_t size_t
  | P_Publish 'a nat size_t size_t
  | P_Check_Next bool 'a nat
  | P_Next 'a nat
  | P_Construct_Next 'a nat size_t
  | P_Publish_Next 'a nat size_t
  | P_Advance 'a nat size_t
  | P_Alloc 'a nat
  | P_Link 'a nat nat
  | P_Advance_New 'a nat nat
  | P_Done 'a bool
  | P_Error error

text \<open>The program points of \<open>try_dequeue\<close>: the address of the block, its front, the element moved out.\<close>

datatype 'a consumer_pc =
    C_Idle
  | C_Enter
  | C_Reload nat size_t
  | C_Check_Tail nat
  | C_Recheck
  | C_Next nat
  | C_Next_Read nat
  | C_Advance nat size_t
  | C_Take nat size_t
  | C_Publish nat size_t 'a
  | C_Done "'a option"
  | C_Error error

definition with_block :: "(error \<Rightarrow> 'pc) \<Rightarrow> nat \<Rightarrow> 'a rwq \<Rightarrow> ('a block \<Rightarrow> 'pc \<times> 'a rwq) \<Rightarrow> 'pc \<times> 'a rwq" where
  "with_block err p q f = (case blocks q p of None \<Rightarrow> (err UB, q) | Some b \<Rightarrow> f b)"

section \<open>The steps of \<open>inner_enqueue\<close>\<close>

fun prod_step :: "(nat \<Rightarrow> bool) \<Rightarrow> 'a producer_pc \<Rightarrow> 'a rwq \<Rightarrow> 'a producer_pc \<times> 'a rwq" where
  "prod_step malloc (P_Enter canAlloc x) q =
     with_block P_Error (tailBlock q) q (\<lambda>tb.
       let nextBlockTail = (tail tb + 1) AND sizeMask tb in
       (if nextBlockTail \<noteq> localFront tb then P_Construct x (tailBlock q) (tail tb) nextBlockTail
        else P_Reload canAlloc x (tailBlock q) (tail tb) nextBlockTail, q))"
| "prod_step malloc (P_Reload canAlloc x p blockTail nextBlockTail) q =
     with_block P_Error p q (\<lambda>tb.
       (if nextBlockTail \<noteq> front tb then P_Construct x p blockTail nextBlockTail else P_Check_Next canAlloc x p,
        set_block p (tb\<lparr>localFront := front tb\<rparr>) q))"
| "prod_step malloc (P_Construct x p blockTail nextBlockTail) q =
     with_block P_Error p q (\<lambda>tb.
       case construct_at blockTail x tb of
         Inl e \<Rightarrow> (P_Error e, q)
       | Inr tb \<Rightarrow> (P_Publish x p blockTail nextBlockTail, set_block p tb q))"
| "prod_step malloc (P_Publish x p blockTail nextBlockTail) q =
     with_block P_Error p q (\<lambda>tb. (P_Done x True, set_block p (tb\<lparr>tail := nextBlockTail\<rparr>) q))"
| "prod_step malloc (P_Check_Next canAlloc x p) q =
     with_block P_Error p q (\<lambda>tb.
       (if next_block tb \<noteq> Some (frontBlock q) then P_Next x p
        else if canAlloc then P_Alloc x p else P_Done x False, q))"
| "prod_step malloc (P_Next x p) q =
     with_block P_Error p q (\<lambda>tb.
       case next_block tb of
         None \<Rightarrow> (P_Error UB, q)
       | Some n \<Rightarrow>
           with_block P_Error n q (\<lambda>nb.
             (if front nb \<noteq> tail nb then P_Error Assert_Fail else P_Construct_Next x n (tail nb),
              set_block n (nb\<lparr>localFront := front nb\<rparr>) q)))"
| "prod_step malloc (P_Construct_Next x n nextBlockTail) q =
     with_block P_Error n q (\<lambda>nb.
       case construct_at nextBlockTail x nb of
         Inl e \<Rightarrow> (P_Error e, q)
       | Inr nb \<Rightarrow> (P_Publish_Next x n nextBlockTail, set_block n nb q))"
| "prod_step malloc (P_Publish_Next x n nextBlockTail) q =
     with_block P_Error n q (\<lambda>nb.
       (P_Advance x n nextBlockTail, set_block n (nb\<lparr>tail := (nextBlockTail + 1) AND sizeMask nb\<rparr>) q))"
| "prod_step malloc (P_Advance x n nextBlockTail) q = (P_Done x True, q\<lparr>tailBlock := n\<rparr>)"
| "prod_step malloc (P_Alloc x p) q =
     with_block P_Error p q (\<lambda>tb.
       let newBlockSize = (if MAX_BLOCK_SIZE \<le> largestBlockSize q then largestBlockSize q
                           else largestBlockSize q * 2) in
       case make_block malloc newBlockSize q of
         (None, q) \<Rightarrow> (P_Done x False, q)
       | (Some n, q) \<Rightarrow>
           let q = q\<lparr>largestBlockSize := newBlockSize\<rparr> in
           with_block P_Error n q (\<lambda>nb.
             case construct_at 0 x nb of
               Inl e \<Rightarrow> (P_Error e, q)
             | Inr nb \<Rightarrow>
                 if front nb \<noteq> 0 then (P_Error Assert_Fail, q)
                 else (P_Link x p n,
                       set_block n (nb\<lparr>localTail := 1, tail := 1, next_block := next_block tb\<rparr>) q)))"
| "prod_step malloc (P_Link x p n) q =
     with_block P_Error p q (\<lambda>tb. (P_Advance_New x p n, set_block p (tb\<lparr>next_block := Some n\<rparr>) q))"
| "prod_step malloc (P_Advance_New x p n) q = (P_Done x True, q\<lparr>tailBlock := n\<rparr>)"
| "prod_step malloc P_Idle q = (P_Idle, q)"
| "prod_step malloc (P_Done x r) q = (P_Done x r, q)"
| "prod_step malloc (P_Error e) q = (P_Error e, q)"

section \<open>The steps of \<open>try_dequeue\<close>\<close>

fun cons_step :: "'a consumer_pc \<Rightarrow> 'a rwq \<Rightarrow> 'a consumer_pc \<times> 'a rwq" where
  "cons_step C_Enter q =
     with_block C_Error (frontBlock q) q (\<lambda>fb.
       (if front fb \<noteq> localTail fb then C_Take (frontBlock q) (front fb)
        else C_Reload (frontBlock q) (front fb), q))"
| "cons_step (C_Reload p blockFront) q =
     with_block C_Error p q (\<lambda>fb.
       (if blockFront \<noteq> tail fb then C_Take p blockFront else C_Check_Tail p,
        set_block p (fb\<lparr>localTail := tail fb\<rparr>) q))"
| "cons_step (C_Check_Tail p) q = (if p \<noteq> tailBlock q then C_Recheck else C_Done None, q)"
| "cons_step C_Recheck q =
     with_block C_Error (frontBlock q) q (\<lambda>fb.
       (if front fb \<noteq> tail fb then C_Take (frontBlock q) (front fb) else C_Next (frontBlock q),
        set_block (frontBlock q) (fb\<lparr>localTail := tail fb\<rparr>) q))"
| "cons_step (C_Next p) q =
     with_block C_Error p q (\<lambda>fb. (case next_block fb of None \<Rightarrow> C_Error UB | Some n \<Rightarrow> C_Next_Read n, q))"
| "cons_step (C_Next_Read n) q =
     with_block C_Error n q (\<lambda>nb.
       (if front nb = tail nb then C_Error Assert_Fail else C_Advance n (front nb),
        set_block n (nb\<lparr>localTail := tail nb\<rparr>) q))"
| "cons_step (C_Advance n nextBlockFront) q = (C_Take n nextBlockFront, q\<lparr>frontBlock := n\<rparr>)"
| "cons_step (C_Take p blockFront) q =
     with_block C_Error p q (\<lambda>fb.
       case object_at blockFront fb of
         Inl e \<Rightarrow> (C_Error e, q)
       | Inr x \<Rightarrow> (C_Publish p blockFront x, set_block p (destroy_at blockFront fb) q))"
| "cons_step (C_Publish p blockFront x) q =
     with_block C_Error p q (\<lambda>fb.
       (C_Done (Some x), set_block p (fb\<lparr>front := (blockFront + 1) AND sizeMask fb\<rparr>) q))"
| "cons_step C_Idle q = (C_Idle, q)"
| "cons_step (C_Done r) q = (C_Done r, q)"
| "cons_step (C_Error e) q = (C_Error e, q)"

section \<open>The two threads\<close>

text \<open>
  Beside the memory and the two program points the state records what an observer sees: the elements
  whose \<open>enqueue\<close> has returned true and those \<open>try_dequeue\<close> has returned, in order; the highest number of
  elements in the queue since the current call of the producer began, and the lowest since the
  current call of the consumer began.
\<close>

record 'a spsc =
  mem :: "'a rwq"
  prod :: "'a producer_pc"
  cons :: "'a consumer_pc"
  sent :: "'a list"
  received :: "'a list"
  high :: nat
  low :: nat

definition spsc_new :: "'a rwq \<Rightarrow> 'a spsc" where
  "spsc_new q = \<lparr>mem = q, prod = P_Idle, cons = C_Idle, sent = [], received = [], high = 0, low = 0\<rparr>"

abbreviation in_queue :: "'a spsc \<Rightarrow> nat" where
  "in_queue s \<equiv> length (sent s) - length (received s)"

definition observe :: "'a spsc \<Rightarrow> 'a spsc" where
  "observe s = s\<lparr>high := max (high s) (in_queue s), low := min (low s) (in_queue s)\<rparr>"

fun prod_returned :: "'a producer_pc \<Rightarrow> bool" where
  "prod_returned P_Idle = True" | "prod_returned (P_Done x r) = True" | "prod_returned _ = False"

fun cons_returned :: "'a consumer_pc \<Rightarrow> bool" where
  "cons_returned C_Idle = True" | "cons_returned (C_Done r) = True" | "cons_returned _ = False"

fun accepted :: "'a producer_pc \<Rightarrow> 'a list" where
  "accepted (P_Done x True) = [x]" | "accepted _ = []"

fun delivered :: "'a consumer_pc \<Rightarrow> 'a list" where
  "delivered (C_Done (Some x)) = [x]" | "delivered _ = []"

text \<open>What may happen next: a thread between two calls begins one, a thread within a call takes a step.\<close>

datatype 'a action = Call_Enqueue bool 'a | Call_Dequeue | Step_Producer | Step_Consumer

fun spsc_step :: "(nat \<Rightarrow> bool) \<Rightarrow> 'a action \<Rightarrow> 'a spsc \<Rightarrow> 'a spsc" where
  "spsc_step malloc (Call_Enqueue canAlloc x) s =
     (if prod_returned (prod s) then s\<lparr>prod := P_Enter canAlloc x, high := in_queue s\<rparr> else s)"
| "spsc_step malloc Call_Dequeue s =
     (if cons_returned (cons s) then s\<lparr>cons := C_Enter, low := in_queue s\<rparr> else s)"
| "spsc_step malloc Step_Producer s =
     (if prod_returned (prod s) then s
      else let (pc, q) = prod_step malloc (prod s) (mem s) in
           observe (s\<lparr>mem := q, prod := pc, sent := sent s @ accepted pc\<rparr>))"
| "spsc_step malloc Step_Consumer s =
     (if cons_returned (cons s) then s
      else let (pc, q) = cons_step (cons s) (mem s) in
           observe (s\<lparr>mem := q, cons := pc, received := received s @ delivered pc\<rparr>))"

definition spsc_run :: "(nat \<Rightarrow> bool) \<Rightarrow> 'a action list \<Rightarrow> 'a spsc \<Rightarrow> 'a spsc" where
  "spsc_run malloc = fold (spsc_step malloc)"

end
