(* ===== verification/RW_Queue_SPSC_Props.thy ===== *)
theory RW_Queue_SPSC_Props
  imports RW_Queue_SPSC
begin

text \<open>
  What \<open>ReaderWriterQueue\<close> promises two threads.  The memory between two steps is a queue as the
  operations run one at a time would leave it, with what the threads have written and not yet
  published laid over it (\<open>overlay\<close>); every step keeps this, so no interleaving leads to an error,
  elements come out in the order they went in, a refused element or an empty answer is justified by
  a moment of the call, and each call returns after a bounded number of its own steps.
\<close>

section \<open>Unpublished writes\<close>

fun pend :: "'a producer_pc \<Rightarrow> nat \<Rightarrow> 'a block \<Rightarrow> 'a block" where
  "pend (P_Publish x p t t') r b = (if r = p then b\<lparr>data := (data b)[unat t := Some x]\<rparr> else b)"
| "pend (P_Publish_Next x p t) r b = (if r = p then b\<lparr>data := (data b)[unat t := Some x]\<rparr> else b)"
| "pend (P_Advance x p t) r b =
     (if r = p then b\<lparr>data := (data b)[unat t := Some x], tail := (t + 1) AND sizeMask b\<rparr> else b)"
| "pend (P_Advance_New x p n) r b = (if r = p then b\<lparr>next_block := Some n\<rparr> else b)"
| "pend _ r b = b"

fun taken :: "'a consumer_pc \<Rightarrow> nat \<Rightarrow> 'a block \<Rightarrow> 'a block" where
  "taken (C_Publish p f x) r b = (if r = p then destroy_at f b else b)"
| "taken _ r b = b"

definition overlay :: "'a producer_pc \<Rightarrow> 'a consumer_pc \<Rightarrow> 'a rwq \<Rightarrow> 'a rwq" where
  "overlay P C q = q\<lparr>blocks := \<lambda>r. map_option (\<lambda>b. taken C r (pend P r b)) (blocks q r)\<rparr>"

lemma overlay_fields [simp]:
  "frontBlock (overlay P C q) = frontBlock q" "tailBlock (overlay P C q) = tailBlock q"
  "largestBlockSize (overlay P C q) = largestBlockSize q" "mallocs (overlay P C q) = mallocs q"
  by (simp_all add: overlay_def)

lemma overlay_blocks: "blocks (overlay P C q) r = map_option (\<lambda>b. taken C r (pend P r b)) (blocks q r)"
  by (simp add: overlay_def)

lemma overlay_upd [simp]:
  "overlay P C (q\<lparr>frontBlock := f\<rparr>) = (overlay P C q)\<lparr>frontBlock := f\<rparr>"
  "overlay P C (q\<lparr>tailBlock := f\<rparr>) = (overlay P C q)\<lparr>tailBlock := f\<rparr>"
  "overlay P C (q\<lparr>mallocs := m\<rparr>) = (overlay P C q)\<lparr>mallocs := m\<rparr>"
  "overlay P C (q\<lparr>largestBlockSize := sz\<rparr>) = (overlay P C q)\<lparr>largestBlockSize := sz\<rparr>"
  by (simp_all add: overlay_def)

lemma taken_fields [simp]:
  "front (taken C r b) = front b" "localTail (taken C r b) = localTail b" "tail (taken C r b) = tail b"
  "localFront (taken C r b) = localFront b" "next_block (taken C r b) = next_block b"
  "sizeMask (taken C r b) = sizeMask b" "length (data (taken C r b)) = length (data b)"
  by (cases C; simp add: destroy_at_def)+

lemma taken_upd [simp]:
  "taken C r (b\<lparr>front := y\<rparr>) = (taken C r b)\<lparr>front := y\<rparr>"
  "taken C r (b\<lparr>localTail := y\<rparr>) = (taken C r b)\<lparr>localTail := y\<rparr>"
  "taken C r (b\<lparr>tail := y\<rparr>) = (taken C r b)\<lparr>tail := y\<rparr>"
  "taken C r (b\<lparr>localFront := y\<rparr>) = (taken C r b)\<lparr>localFront := y\<rparr>"
  "taken C r (b\<lparr>next_block := n\<rparr>) = (taken C r b)\<lparr>next_block := n\<rparr>"
  by (cases C; simp add: destroy_at_def)+

lemma pend_fields [simp]:
  "front (pend P r b) = front b" "localTail (pend P r b) = localTail b" "localFront (pend P r b) = localFront b"
  "sizeMask (pend P r b) = sizeMask b" "length (data (pend P r b)) = length (data b)"
  by (cases P; simp)+

lemma pend_upd [simp]:
  "pend P r (b\<lparr>front := y\<rparr>) = (pend P r b)\<lparr>front := y\<rparr>"
  "pend P r (b\<lparr>localTail := y\<rparr>) = (pend P r b)\<lparr>localTail := y\<rparr>"
  "pend P r (b\<lparr>localFront := y\<rparr>) = (pend P r b)\<lparr>localFront := y\<rparr>"
  by (cases P; simp)+

text \<open>A write to one block, together with a change of what is laid over that block.\<close>

lemma overlay_write:
  assumes "\<And>r b. r \<noteq> p \<Longrightarrow> taken C' r (pend P' r b) = taken C r (pend P r b)"
  shows "set_block p (taken C' p (pend P' p b)) (overlay P C q) = overlay P' C' (set_block p b q)"
  using assms by (auto simp: overlay_def set_block_def fun_eq_iff)

lemma set_block_same: "blocks q p = Some b \<Longrightarrow> set_block p b q = q"
  by (simp add: set_block_def fun_upd_idem)

lemma overlay_same:
  assumes "\<And>r b. taken C' r (pend P' r b) = taken C r (pend P r b)"
  shows "overlay P' C' q = overlay P C q"
  using assms by (simp add: overlay_def)

section \<open>The invariant\<close>

text \<open>Room for an element in the block at \<open>p\<close>, an element in front of it, and a tail block that is full unless
  the consumer takes elements out of it.\<close>

definition room :: "'a rwq \<Rightarrow> nat \<Rightarrow> size_t \<Rightarrow> bool" where
  "room q p t \<longleftrightarrow> (\<exists>b. blocks q p = Some b \<and> t = tail b \<and> (t + 1) AND sizeMask b \<noteq> localFront b)"

definition elem :: "'a rwq \<Rightarrow> nat \<Rightarrow> size_t \<Rightarrow> bool" where
  "elem q p f \<longleftrightarrow> (\<exists>b. blocks q p = Some b \<and> f = front b \<and> f \<noteq> localTail b)"

definition tail_full :: "'a rwq \<Rightarrow> nat list \<Rightarrow> 'a list list \<Rightarrow> nat \<Rightarrow> bool" where
  "tail_full q bs xss k \<longleftrightarrow> (0 < k \<longrightarrow> block_sizes q (bs ! k) = Some (Suc (length (xss ! k))))"

definition next_tail :: "'a rwq \<Rightarrow> nat \<Rightarrow> size_t \<Rightarrow> size_t \<Rightarrow> bool" where
  "next_tail q p t t' \<longleftrightarrow> (\<exists>b. blocks q p = Some b \<and> t = tail b \<and> t' = (t + 1) AND sizeMask b)"

definition linked_to :: "'a rwq \<Rightarrow> nat list \<Rightarrow> nat \<Rightarrow> nat \<Rightarrow> 'a \<Rightarrow> bool" where
  "linked_to q bs p n x \<longleftrightarrow> n \<notin> set bs \<and> n < mallocs q \<and>
     (\<exists>b nb j. blocks q p = Some b \<and> blocks q n = Some nb \<and> block_rel j nb [x] \<and> next_block nb = next_block b)"

fun prod_ok :: "'a producer_pc \<Rightarrow> 'a rwq \<Rightarrow> nat list \<Rightarrow> 'a list list \<Rightarrow> nat \<Rightarrow> bool" where
  "prod_ok (P_Reload a x p t t') q bs xss k \<longleftrightarrow> p = bs ! k \<and> next_tail q p t t'"
| "prod_ok (P_Construct x p t t') q bs xss k \<longleftrightarrow> p = bs ! k \<and> next_tail q p t t' \<and> room q p t"
| "prod_ok (P_Publish x p t t') q bs xss k \<longleftrightarrow> p = bs ! k \<and> next_tail q p t t' \<and> room q p t"
| "prod_ok (P_Check_Next a x p) q bs xss k \<longleftrightarrow> p = bs ! k \<and> tail_full q bs xss k"
| "prod_ok (P_Next x p) q bs xss k \<longleftrightarrow> p = bs ! k \<and> Suc k < length bs \<and> tail_full q bs xss k"
| "prod_ok (P_Construct_Next x n t) q bs xss k \<longleftrightarrow> n = bs ! Suc k \<and> Suc k < length bs \<and> tail_full q bs xss k \<and> room q n t"
| "prod_ok (P_Publish_Next x n t) q bs xss k \<longleftrightarrow> n = bs ! Suc k \<and> Suc k < length bs \<and> tail_full q bs xss k \<and> room q n t"
| "prod_ok (P_Advance x n t) q bs xss k \<longleftrightarrow> n = bs ! Suc k \<and> Suc k < length bs \<and> tail_full q bs xss k \<and> room q n t"
| "prod_ok (P_Alloc x p) q bs xss k \<longleftrightarrow> p = bs ! k \<and> tail_full q bs xss k"
| "prod_ok (P_Link x p n) q bs xss k \<longleftrightarrow> p = bs ! k \<and> tail_full q bs xss k \<and> linked_to q bs p n x"
| "prod_ok (P_Advance_New x p n) q bs xss k \<longleftrightarrow> p = bs ! k \<and> tail_full q bs xss k \<and> linked_to q bs p n x"
| "prod_ok (P_Error e) q bs xss k \<longleftrightarrow> False"
| "prod_ok _ q bs xss k \<longleftrightarrow> True"

text \<open>\<open>l\<close> is the lowest number of elements since the call began.\<close>

fun cons_ok :: "nat \<Rightarrow> 'a consumer_pc \<Rightarrow> 'a rwq \<Rightarrow> nat list \<Rightarrow> 'a list list \<Rightarrow> nat \<Rightarrow> bool" where
  "cons_ok l (C_Reload p f) q bs xss k \<longleftrightarrow> p = bs ! 0 \<and> (\<exists>b. blocks q p = Some b \<and> f = front b)"
| "cons_ok l (C_Check_Tail p) q bs xss k \<longleftrightarrow> p = bs ! 0 \<and> (k = 0 \<longrightarrow> l = 0)"
| "cons_ok l C_Recheck q bs xss k \<longleftrightarrow> 0 < k"
| "cons_ok l (C_Next p) q bs xss k \<longleftrightarrow> p = bs ! 0 \<and> 0 < k \<and> xss ! 0 = []"
| "cons_ok l (C_Next_Read n) q bs xss k \<longleftrightarrow> n = bs ! 1 \<and> 0 < k \<and> xss ! 0 = []"
| "cons_ok l (C_Advance n f) q bs xss k \<longleftrightarrow> n = bs ! 1 \<and> 0 < k \<and> xss ! 0 = [] \<and> elem q n f"
| "cons_ok l (C_Take p f) q bs xss k \<longleftrightarrow> p = bs ! 0 \<and> xss ! 0 \<noteq> [] \<and> elem q p f"
| "cons_ok l (C_Publish p f x) q bs xss k \<longleftrightarrow> p = bs ! 0 \<and> xss ! 0 \<noteq> [] \<and> hd (xss ! 0) = x \<and> elem q p f"
| "cons_ok l (C_Done None) q bs xss k \<longleftrightarrow> l = 0"
| "cons_ok l (C_Error e) q bs xss k \<longleftrightarrow> False"
| "cons_ok l _ q bs xss k \<longleftrightarrow> True"

text \<open>For a producer that never allocates (\<open>na\<close>): the ring has room for \<open>n\<close> elements, and \<open>h\<close>, the highest
  number of elements since the call began, has reached \<open>n\<close> when the call is about to be refused.\<close>

fun allocating :: "'a producer_pc \<Rightarrow> bool" where
  "allocating (P_Enter a x) = a" | "allocating (P_Reload a x p t t') = a" | "allocating (P_Check_Next a x p) = a"
| "allocating (P_Alloc x p) = True" | "allocating (P_Link x p n) = True" | "allocating (P_Advance_New x p n) = True"
| "allocating _ = False"

fun refusing :: "'a producer_pc \<Rightarrow> nat list \<Rightarrow> nat \<Rightarrow> bool" where
  "refusing (P_Check_Next a x p) bs k \<longleftrightarrow> Suc k = length bs" | "refusing (P_Done x r) bs k \<longleftrightarrow> \<not> r" | "refusing _ bs k \<longleftrightarrow> False"

definition reserves :: "nat \<Rightarrow> 'a rwq \<Rightarrow> nat list \<Rightarrow> bool" where
  "reserves n q bs \<longleftrightarrow> (\<exists>c. (\<forall>p \<in> set bs. block_sizes q p = Some c) \<and>
     (if length bs = 1 then n < c else n \<le> (length bs - 1) * (c - 1)))"

definition bounded_ok :: "bool \<Rightarrow> nat \<Rightarrow> nat \<Rightarrow> 'a producer_pc \<Rightarrow> 'a rwq \<Rightarrow> nat list \<Rightarrow> nat \<Rightarrow> bool" where
  "bounded_ok na n h P q bs k \<longleftrightarrow> (na \<longrightarrow> \<not> allocating P \<and> (refusing P bs k \<longrightarrow> n \<le> h) \<and> reserves n q bs)"

definition state_ok ::
  "bool \<Rightarrow> nat \<Rightarrow> nat \<Rightarrow> nat \<Rightarrow> 'a producer_pc \<Rightarrow> 'a consumer_pc \<Rightarrow> 'a rwq \<Rightarrow> 'a list \<Rightarrow> bool" where
  "state_ok na n h l P C m ys \<longleftrightarrow>
     (\<exists>q bs xss k. rwq_rel q bs xss k \<and> m = overlay P C q \<and> prod_ok P q bs xss k \<and> cons_ok l C q bs xss k \<and>
        ys = concat xss \<and> bounded_ok na n h P q bs k)"

lemma state_okI:
  assumes "rwq_rel q bs xss k" "m = overlay P C q" "prod_ok P q bs xss k" "cons_ok l C q bs xss k" "ys = concat xss"
    "bounded_ok na n h P q bs k"
  shows "state_ok na n h l P C m ys"
  using assms unfolding state_ok_def by blast

lemma state_okE:
  assumes "state_ok na n h l P C m ys"
  obtains q bs xss k where "rwq_rel q bs xss k" "m = overlay P C q" "prod_ok P q bs xss k" "cons_ok l C q bs xss k"
    "ys = concat xss" "bounded_ok na n h P q bs k"
  using assms unfolding state_ok_def by blast

lemma cons_ok_mono: "cons_ok l C q bs xss k \<Longrightarrow> l' \<le> l \<Longrightarrow> cons_ok l' C q bs xss k"
  by (induction l C q bs xss k rule: cons_ok.induct) auto

lemma state_ok_mono:
  assumes "state_ok na n h l P C m ys" "h \<le> h'" "l' \<le> l"
  shows "state_ok na n h' l' P C m ys"
proof -
  obtain q bs xss k where i: "rwq_rel q bs xss k" "m = overlay P C q" "prod_ok P q bs xss k" "cons_ok l C q bs xss k"
    "ys = concat xss" "bounded_ok na n h P q bs k"
    using assms(1) by (rule state_okE)
  have "bounded_ok na n h' P q bs k" using i(6) assms(2) by (auto simp: bounded_ok_def)
  then show ?thesis using i cons_ok_mono [OF i(4) assms(3)] by (intro state_okI)
qed

text \<open>A block of the ring.\<close>

lemma ring_block:
  assumes "rwq_rel q bs xss k" "i < length bs"
  obtains b j where "blocks q (bs ! i) = Some b" "next_block b = Some (bs ! (Suc i mod length bs))"
    "block_rel j b (xss ! i)" "k < i \<Longrightarrow> xss ! i = []" "0 < i \<Longrightarrow> i \<le> k \<Longrightarrow> xss ! i \<noteq> []"
  using rwq_relD(7) [OF assms] by (auto simp: slot_def)

lemma block_rel_size: "block_rel j b xs \<Longrightarrow> length (data b) = 2 ^ j"
  by (simp add: block_rel_def)

section \<open>What one thread does leaves the other where it is\<close>

lemma cons_ok_stable:
  assumes ok: "cons_ok l C q bs xss k" and rel: "rwq_rel q bs xss k"
    and bs: "bs' ! 0 = bs ! 0" "k \<le> k'" "0 < k \<longrightarrow> bs' ! 1 = bs ! 1 \<and> xss' ! 0 = xss ! 0"
    and xs: "xss ! 0 \<noteq> [] \<longrightarrow> xss' ! 0 \<noteq> [] \<and> hd (xss' ! 0) = hd (xss ! 0)"
    and bl: "\<forall>p b. p \<in> set bs \<longrightarrow> blocks q p = Some b \<longrightarrow>
      (\<exists>b'. blocks q' p = Some b' \<and> front b' = front b \<and> localTail b' = localTail b)"
  shows "cons_ok l C q' bs' xss' k'"
proof -
  note r = rwq_relD [OF rel]
  have el: "elem q' p f" if "elem q p f" "p \<in> set bs" for p f
  proof -
    obtain b where b: "blocks q p = Some b" "f = front b" "f \<noteq> localTail b"
      using \<open>elem q p f\<close> unfolding elem_def by blast
    obtain b' where "blocks q' p = Some b'" "front b' = front b" "localTail b' = localTail b"
      using bl b(1) \<open>p \<in> set bs\<close> by blast
    then show ?thesis using b by (simp add: elem_def)
  qed
  have fr: "\<exists>b'. blocks q' p = Some b' \<and> front b = front b'" if "blocks q p = Some b" "p \<in> set bs" for p b
  proof -
    obtain b' where "blocks q' p = Some b'" "front b' = front b" using bl \<open>blocks q p = Some b\<close> \<open>p \<in> set bs\<close> by blast
    then show ?thesis by simp
  qed
  have in0: "bs ! 0 \<in> set bs" using r(4) nth_mem by blast
  have in1: "bs ! 1 \<in> set bs" if "0 < k" using r(3) that by (intro nth_mem) simp
  show ?thesis
    using ok bs xs el fr in0 in1 by (induction l C q bs xss k rule: cons_ok.induct) auto
qed

definition same_prod_fields :: "'a block \<Rightarrow> 'a block \<Rightarrow> bool" where
  "same_prod_fields b b' \<longleftrightarrow> tail b' = tail b \<and> localFront b' = localFront b \<and> sizeMask b' = sizeMask b \<and>
     next_block b' = next_block b \<and> length (data b') = length (data b)"

lemma prod_ok_stable:
  assumes ok: "prod_ok P q bs xss k" and bs: "bs' ! k' = bs ! k" "set bs' = set bs" "length bs' = length bs" "k' \<le> k"
    and nxt: "Suc k < length bs \<longrightarrow> bs' ! Suc k' = bs ! Suc k" and xs: "0 < k' \<longrightarrow> xss' ! k' = xss ! k"
    and bl: "\<forall>p b. blocks q p = Some b \<longrightarrow> (\<exists>b'. blocks q' p = Some b' \<and> same_prod_fields b b' \<and> (p \<notin> set bs \<longrightarrow> b' = b))"
    and m: "mallocs q' = mallocs q"
  shows "prod_ok P q' bs' xss' k'"
proof -
  have get: thesis if "blocks q p = Some b" "\<And>b'. blocks q' p = Some b' \<Longrightarrow> same_prod_fields b b' \<Longrightarrow> (p \<notin> set bs \<longrightarrow> b' = b) \<Longrightarrow> thesis"
    for p b thesis
    using bl that by blast
  have r: "room q' p t" if "room q p t" for p t
  proof -
    obtain b where b: "blocks q p = Some b" "t = tail b" "(t + 1) AND sizeMask b \<noteq> localFront b"
      using \<open>room q p t\<close> unfolding room_def by blast
    from b(1) obtain b' where "blocks q' p = Some b'" "same_prod_fields b b'" by (rule get)
    then show ?thesis using b by (simp add: room_def same_prod_fields_def)
  qed
  have n: "next_tail q' p t t'" if "next_tail q p t t'" for p t t'
  proof -
    obtain b where b: "blocks q p = Some b" "t = tail b" "t' = (t + 1) AND sizeMask b"
      using \<open>next_tail q p t t'\<close> unfolding next_tail_def by blast
    from b(1) obtain b' where "blocks q' p = Some b'" "same_prod_fields b b'" by (rule get)
    then show ?thesis using b by (simp add: next_tail_def same_prod_fields_def)
  qed
  have f: "tail_full q' bs' xss' k'" if "tail_full q bs xss k"
    unfolding tail_full_def
  proof
    assume "0 < k'"
    then have "0 < k" "xss' ! k' = xss ! k" using bs(4) xs by simp_all
    then obtain b where b: "blocks q (bs ! k) = Some b" "length (data b) = Suc (length (xss ! k))"
      using \<open>tail_full q bs xss k\<close> by (auto simp: tail_full_def block_sizes_def)
    from b(1) obtain b' where "blocks q' (bs ! k) = Some b'" "same_prod_fields b b'" by (rule get)
    then show "block_sizes q' (bs' ! k') = Some (Suc (length (xss' ! k')))"
      using b(2) bs(1) \<open>xss' ! k' = xss ! k\<close> by (simp add: block_sizes_def same_prod_fields_def)
  qed
  have li: "linked_to q' bs' p n x" if "linked_to q bs p n x" for p n x
  proof -
    obtain b nb j where b: "n \<notin> set bs" "n < mallocs q" "blocks q p = Some b" "blocks q n = Some nb" "block_rel j nb [x]"
      "next_block nb = next_block b"
      using \<open>linked_to q bs p n x\<close> unfolding linked_to_def by blast
    from b(3) obtain b' where b': "blocks q' p = Some b'" "same_prod_fields b b'" by (rule get)
    from b(4) obtain nb' where "blocks q' n = Some nb'" "n \<notin> set bs \<longrightarrow> nb' = nb" by (rule get)
    then show ?thesis using b b' bs(2) m unfolding linked_to_def same_prod_fields_def by auto
  qed
  show ?thesis
    using ok bs nxt r n f li by (induction P q bs xss k rule: prod_ok.induct) auto
qed

section \<open>The producer's steps\<close>

lemma tail_full_sizes: "block_sizes q' = block_sizes q \<Longrightarrow> tail_full q' bs xss k = tail_full q bs xss k"
  by (simp add: tail_full_def)

lemma reserves_sizes: "block_sizes q' = block_sizes q \<Longrightarrow> reserves n q' bs = reserves n q bs"
  by (simp add: reserves_def)

lemma bounded_okI:
  assumes "bounded_ok na n h P q bs k" "h \<le> h'" "block_sizes q' = block_sizes q"
    "na \<Longrightarrow> \<not> allocating P \<Longrightarrow> \<not> allocating P'" "na \<Longrightarrow> reserves n q bs \<Longrightarrow> refusing P' bs k' \<Longrightarrow> refusing P bs k \<or> n \<le> h'"
  shows "bounded_ok na n h' P' q' bs k'"
  using assms reserves_sizes [OF assms(3)] by (auto simp: bounded_ok_def)

lemma bounded_ok_alloc: "bounded_ok na n h P q bs k \<Longrightarrow> allocating P \<Longrightarrow> bounded_ok na n h' P' q' bs' k'"
  by (auto simp: bounded_ok_def)

text \<open>The block of the memory that lies over a block of the clean queue.\<close>

lemma with_block_overlay:
  assumes "blocks q p = Some b"
  shows "with_block err p (overlay P C q) f = f (taken C p (pend P p b))"
  using assms by (simp add: with_block_def overlay_blocks)

lemma overlay_quiet:
  assumes "\<And>r b. pend P' r b = pend P r b"
  shows "overlay P' C q = overlay P C q"
  by (rule overlay_same) (simp add: assms)

lemma prod_enter:
  assumes ok: "state_ok na n h l (P_Enter a x) C m ys" and h: "h \<le> h'" "length ys \<le> h'"
    and step: "prod_step malloc (P_Enter a x) m = (P', m')"
  shows "state_ok na n h' l P' C m' (ys @ accepted P')"
proof -
  obtain q bs xss k where i: "rwq_rel q bs xss k" "m = overlay (P_Enter a x) C q" "cons_ok l C q bs xss k"
    "ys = concat xss" "bounded_ok na n h (P_Enter a x) q bs k"
    using ok by (rule state_okE)
  note r = rwq_relD [OF i(1)]
  obtain b j where b: "blocks q (bs ! k) = Some b" "block_rel j b (xss ! k)" using i(1) r(3) by (rule ring_block)
  let ?t' = "(tail b + 1) AND sizeMask b"
  have e: "P' = (if ?t' \<noteq> localFront b then P_Construct x (bs ! k) (tail b) ?t' else P_Reload a x (bs ! k) (tail b) ?t')"
    "m' = m"
    using step [symmetric] b(1) i(2) r(6) by (simp_all add: with_block_overlay Let_def)
  have m': "m' = overlay P' C q" unfolding e(2) i(2) by (rule overlay_quiet) (simp add: e(1))
  have p: "prod_ok P' q bs xss k" using b(1) by (auto simp: e(1) next_tail_def room_def)
  have bo: "bounded_ok na n h' P' q bs k" by (rule bounded_okI [OF i(5) h(1)]) (simp_all add: e(1) split: if_splits)
  show ?thesis by (rule state_okI [OF i(1) m' p i(3) _ bo]) (simp add: i(4) e(1))
qed

lemma cons_ok_write:
  assumes "cons_ok l C q bs xss k" "rwq_rel q bs xss k" "blocks q p = Some b" "front b' = front b" "localTail b' = localTail b"
  shows "cons_ok l C (set_block p b' q) bs xss k"
  using assms by (intro cons_ok_stable [OF assms(1,2)]) auto

lemma refresh_local_front:
  assumes rel: "rwq_rel q bs xss k" and i: "i < length bs" "blocks q (bs ! i) = Some b"
  defines "q' \<equiv> set_block (bs ! i) (b\<lparr>localFront := front b\<rparr>) q"
  shows "rwq_rel q' bs xss k" "block_sizes q' = block_sizes q" "cons_ok l C q bs xss k \<Longrightarrow> cons_ok l C q' bs xss k"
proof -
  show "rwq_rel q' bs xss k"
    unfolding q'_def by (rule rwq_rel_refresh [OF rel i]) (simp_all add: block_reload_front)
  show "block_sizes q' = block_sizes q" unfolding q'_def by (rule block_sizes_set_block [OF i(2)]) simp
  show "cons_ok l C q' bs xss k" if "cons_ok l C q bs xss k"
    unfolding q'_def by (rule cons_ok_write [OF that rel i(2)]) simp_all
qed

lemma reserved_reached:
  assumes rel: "rwq_rel q bs xss k" and rs: "reserves n q bs" and k: "Suc k = length bs"
    and full: "blocks q (bs ! k) = Some b" "block_rel j b (xss ! k)" "Suc (length (xss ! k)) = 2 ^ j"
  shows "n \<le> length (concat xss)"
proof -
  obtain c where c: "\<forall>p \<in> set bs. block_sizes q p = Some c" "if length bs = 1 then n < c else n \<le> (length bs - 1) * (c - 1)"
    using rs unfolding reserves_def by blast
  have "ring_full q bs xss k" using k full unfolding ring_full_def by blast
  from full_ring_length [OF rel this c(1)] show ?thesis using c(2) by (cases "length bs = 1") simp_all
qed

lemma prod_reload:
  assumes ok: "state_ok na n h l (P_Reload a x p t t') C m ys" and h: "h \<le> h'" "length ys \<le> h'"
    and step: "prod_step malloc (P_Reload a x p t t') m = (P', m')"
  shows "state_ok na n h' l P' C m' (ys @ accepted P')"
proof -
  let ?P = "P_Reload a x p t t'"
  obtain q bs xss k where i: "rwq_rel q bs xss k" "m = overlay ?P C q" "prod_ok ?P q bs xss k" "cons_ok l C q bs xss k"
    "ys = concat xss" "bounded_ok na n h ?P q bs k"
    using ok by (rule state_okE)
  note r = rwq_relD [OF i(1)]
  obtain b j where b: "blocks q (bs ! k) = Some b" "block_rel j b (xss ! k)" using i(1) r(3) by (rule ring_block)
  have p: "p = bs ! k" "t = tail b" "t' = (t + 1) AND sizeMask b" using i(3) b(1) by (auto simp: next_tail_def)
  let ?q = "set_block (bs ! k) (b\<lparr>localFront := front b\<rparr>) q"
  note q' = refresh_local_front [OF i(1) r(3) b(1)]
  have e: "P' = (if t' \<noteq> front b then P_Construct x p t t' else P_Check_Next a x p)"
    "m' = set_block p ((taken C p b)\<lparr>localFront := front b\<rparr>) m"
    using step [symmetric] b(1) p(1) i(2) by (simp_all add: with_block_overlay)
  have quiet: "pend P' r b = b" for r b by (simp add: e(1))
  have m': "m' = overlay P' C ?q"
    using overlay_write [of p C P' C ?P "b\<lparr>localFront := front b\<rparr>" q] quiet by (simp add: e(2) i(2) p(1))
  have full: "Suc (length (xss ! k)) = 2 ^ j" if "t' = front b" using block_room(2) [OF b(2)] p that by simp
  have tf: "tail_full ?q bs xss k" if "t' = front b"
    using full [OF that] b block_rel_size [OF b(2)] by (simp add: tail_full_def block_sizes_def)
  have ok': "prod_ok P' ?q bs xss k"
    using p tf b(1) by (auto simp: e(1) next_tail_def room_def)
  have bo: "bounded_ok na n h' P' ?q bs k"
  proof (rule bounded_okI [OF i(6) h(1) q'(2)])
    assume "reserves n q bs" "refusing P' bs k"
    then have "t' = front b" "Suc k = length bs" by (auto simp: e(1) split: if_splits)
    then have "n \<le> length ys" unfolding i(5)
      using reserved_reached [OF i(1) \<open>reserves n q bs\<close> _ b full] by simp
    then show "refusing ?P bs k \<or> n \<le> h'" using h(2) by simp
  qed (simp add: e(1))
  show ?thesis by (rule state_okI [OF q'(1) m' ok' q'(3) [OF i(4)] _ bo]) (simp add: i(5) e(1))
qed

text \<open>The slot the producer fills is not the one the consumer is emptying.\<close>

definition apart :: "'a consumer_pc \<Rightarrow> nat \<Rightarrow> size_t \<Rightarrow> bool" where
  "apart C p t \<longleftrightarrow> (\<forall>f y. C = C_Publish p f y \<longrightarrow> f \<noteq> t)"

lemma taken_construct:
  assumes "apart C p t"
  shows "taken C p (b\<lparr>data := (data b)[unat t := Some x]\<rparr>) =
    (taken C p b)\<lparr>data := (data (taken C p b))[unat t := Some x]\<rparr>"
proof (cases "\<exists>f y. C = C_Publish p f y")
  case True
  then obtain f y where C: "C = C_Publish p f y" by blast
  then have "unat t \<noteq> unat f" using assms by (auto simp: apart_def word_eq_unat)
  from list_update_swap [OF this, of "data b" "Some x" None] show ?thesis by (simp add: C destroy_at_def)
next
  case False
  then show ?thesis by (cases C) auto
qed

lemma apart_tail:
  assumes rel: "rwq_rel q bs xss k" and C: "cons_ok l C q bs xss k"
    and i: "i < length bs" "blocks q (bs ! i) = Some b" "block_rel j b (xss ! i)"
  shows "apart C (bs ! i) (tail b)"
  unfolding apart_def
proof (intro allI impI)
  fix f y
  assume "C = C_Publish (bs ! i) f y"
  then have c: "bs ! i = bs ! 0" "xss ! 0 \<noteq> []" "f = front b" using C i(2) by (auto simp: elem_def)
  have "i = 0" using c(1) rwq_relD(1,4) [OF rel] i(1) by (simp add: nth_eq_iff_index_eq)
  then show "f \<noteq> tail b" using c(2,3) block_empty_iff [OF i(3)] by simp
qed

lemma construct_over:
  assumes rel: "rwq_rel q bs xss k" and C: "cons_ok l C q bs xss k"
    and i: "i < length bs" "blocks q (bs ! i) = Some b" "block_rel j b (xss ! i)"
    and P: "\<And>r b. pend P r b = b" "\<And>r b. pend P' r b = (if r = bs ! i then b\<lparr>data := (data b)[unat t := Some x]\<rparr> else b)"
    and t: "t = tail b"
  shows "\<exists>B. construct_at t x (taken C (bs ! i) b) = Inr B \<and> set_block (bs ! i) B (overlay P C q) = overlay P' C q"
proof -
  let ?p = "bs ! i"
  have "unat (tail b) < 2 ^ j" using i(3) by (simp add: block_rel_def)
  then have "unat t < length (data b)" using i(3) t block_rel_size by metis
  then have c: "construct_at t x (taken C ?p b) = Inr ((taken C ?p b)\<lparr>data := (data (taken C ?p b))[unat t := Some x]\<rparr>)"
    by (simp add: construct_at_def)
  have "apart C ?p t" unfolding t by (rule apart_tail [OF rel C i])
  note tk = taken_construct [OF this, of b x]
  have "set_block ?p (taken C ?p (pend P' ?p b)) (overlay P C q) = overlay P' C (set_block ?p b q)"
    by (rule overlay_write) (simp add: P)
  then show ?thesis using c tk i(2) by (simp add: P(2) set_block_same)
qed

lemma prod_construct:
  assumes ok: "state_ok na n h l (P_Construct x p t t') C m ys" and h: "h \<le> h'" "length ys \<le> h'"
    and step: "prod_step malloc (P_Construct x p t t') m = (P', m')"
  shows "state_ok na n h' l P' C m' (ys @ accepted P')"
proof -
  let ?P = "P_Construct x p t t'" and ?P' = "P_Publish x p t t'"
  obtain q bs xss k where i: "rwq_rel q bs xss k" "m = overlay ?P C q" "prod_ok ?P q bs xss k" "cons_ok l C q bs xss k"
    "ys = concat xss" "bounded_ok na n h ?P q bs k"
    using ok by (rule state_okE)
  note r = rwq_relD [OF i(1)]
  obtain b j where b: "blocks q (bs ! k) = Some b" "block_rel j b (xss ! k)" using i(1) r(3) by (rule ring_block)
  have p: "p = bs ! k" "t = tail b" using i(3) b(1) by (auto simp: next_tail_def)
  obtain B where B: "construct_at t x (taken C p b) = Inr B" "set_block p B (overlay ?P C q) = overlay ?P' C q"
    using construct_over [OF i(1,4) r(3) b, of ?P ?P' t x] p by auto
  have e: "P' = ?P'" "m' = overlay ?P' C q"
    using step [symmetric] b(1) p(1) i(2) B by (simp_all add: with_block_overlay)
  have bo: "bounded_ok na n h' P' q bs k" by (rule bounded_okI [OF i(6) h(1)]) (simp_all add: e(1))
  show ?thesis unfolding e(1)
    by (rule state_okI [OF i(1) e(2) _ i(4) _ bo [unfolded e(1)]]) (use i(3,5) in auto)
qed

lemma concat_at_tail:
  assumes rel: "rwq_rel q bs xss k"
  shows "concat (xss[k := xss ! k @ [x]]) = concat xss @ [x]"
    and "Suc k < length bs \<Longrightarrow> concat (xss[Suc k := [x]]) = concat xss @ [x]"
proof -
  note r = rwq_relD [OF rel]
  have empties: "xss ! i = []" if "k < i" "i < length xss" for i
    using r(7) [of i] that r(2) by (auto simp: slot_def)
  note cat = concat_upto [OF r(3) [folded r(2)], OF empties] concat_snoc_at [OF r(3) [folded r(2)], OF empties]
  show "concat (xss[k := xss ! k @ [x]]) = concat xss @ [x]" using cat by simp
  show "concat (xss[Suc k := [x]]) = concat xss @ [x]" if "Suc k < length bs"
    using concat_snoc_at [of "Suc k" xss "[x]"] empties that r(2) cat(1) by (simp add: take_Suc_conv_app_nth)
qed

lemma prod_publish:
  assumes ok: "state_ok na n h l (P_Publish x p t t') C m ys" and h: "h \<le> h'" "length ys \<le> h'"
    and step: "prod_step malloc (P_Publish x p t t') m = (P', m')"
  shows "state_ok na n h' l P' C m' (ys @ accepted P')"
proof -
  let ?P = "P_Publish x p t t'"
  obtain q bs xss k where i: "rwq_rel q bs xss k" "m = overlay ?P C q" "prod_ok ?P q bs xss k" "cons_ok l C q bs xss k"
    "ys = concat xss" "bounded_ok na n h ?P q bs k"
    using ok by (rule state_okE)
  note r = rwq_relD [OF i(1)]
  obtain b j where b: "blocks q (bs ! k) = Some b" "block_rel j b (xss ! k)" using i(1) r(3) by (rule ring_block)
  have p: "p = bs ! k" "t = tail b" "t' = (tail b + 1) AND sizeMask b" "(tail b + 1) AND sizeMask b \<noteq> localFront b"
    using i(3) b(1) by (auto simp: next_tail_def room_def)
  have "unat (tail b) < length (data b)" using b(2) by (simp add: block_rel_def)
  then have c: "construct_at (tail b) x b = Inr (b\<lparr>data := (data b)[unat t := Some x]\<rparr>)"
    by (simp add: construct_at_def p(2))
  let ?b = "b\<lparr>data := (data b)[unat t := Some x], tail := t'\<rparr>" and ?xss = "xss[k := xss ! k @ [x]]"
  let ?q = "set_block p ?b q"
  have rel: "rwq_rel ?q bs ?xss k"
    using enqueue_here [OF i(1) _ refl b(2) p(4) c] b(1) r(6) by (simp add: p)
  have e: "P' = P_Done x True" "m' = set_block p ((taken C p (pend ?P p b))\<lparr>tail := t'\<rparr>) m"
    using step [symmetric] b(1) p(1) i(2) by (simp_all add: with_block_overlay)
  have "taken C p (pend P' p ?b) = (taken C p (pend ?P p b))\<lparr>tail := t'\<rparr>"
    by (simp add: e(1) flip: taken_upd)
  then have m': "m' = overlay P' C ?q"
    using overlay_write [of p C P' C ?P ?b q] by (simp add: e i(2))
  have first: "?xss ! 0 = (if k = 0 then xss ! 0 @ [x] else xss ! 0)" using r(2,4) by simp
  have co: "cons_ok l C ?q bs ?xss k"
    by (rule cons_ok_stable [OF i(4,1)]) (use b(1) p(1) in \<open>simp_all add: first\<close>)
  have sz: "block_sizes ?q = block_sizes q" by (rule block_sizes_set_block) (use b(1) p(1) in simp_all)
  have bo: "bounded_ok na n h' P' ?q bs k" by (rule bounded_okI [OF i(6) h(1) sz]) (simp_all add: e(1))
  show ?thesis by (rule state_okI [OF rel m' _ co _ bo]) (simp_all add: e(1) i(5) concat_at_tail(1) [OF i(1)])
qed

lemma prod_check_next:
  assumes ok: "state_ok na n h l (P_Check_Next a x p) C m ys" and h: "h \<le> h'" "length ys \<le> h'"
    and step: "prod_step malloc (P_Check_Next a x p) m = (P', m')"
  shows "state_ok na n h' l P' C m' (ys @ accepted P')"
proof -
  let ?P = "P_Check_Next a x p"
  obtain q bs xss k where i: "rwq_rel q bs xss k" "m = overlay ?P C q" "prod_ok ?P q bs xss k" "cons_ok l C q bs xss k"
    "ys = concat xss" "bounded_ok na n h ?P q bs k"
    using ok by (rule state_okE)
  note r = rwq_relD [OF i(1)]
  obtain b where b: "blocks q (bs ! k) = Some b" "next_block b = Some (bs ! (Suc k mod length bs))"
    using i(1) r(3) by (rule ring_block)
  have "bs ! (Suc k mod length bs) = bs ! 0 \<longleftrightarrow> Suc k = length bs"
    using r(1,3,4) by (cases "Suc k = length bs") (simp_all add: nth_eq_iff_index_eq)
  then have e: "P' = (if Suc k < length bs then P_Next x p else if a then P_Alloc x p else P_Done x False)" "m' = m"
    using step [symmetric] b i(2,3) r(3,5) by (auto simp: with_block_overlay)
  have m': "m' = overlay P' C q" unfolding e(2) i(2) by (rule overlay_quiet) (simp add: e(1))
  have p: "prod_ok P' q bs xss k" using i(3) by (auto simp: e(1))
  have bo: "bounded_ok na n h' P' q bs k"
    by (rule bounded_okI [OF i(6) h(1)]) (use r(3) in \<open>simp_all add: e(1) split: if_splits\<close>)
  show ?thesis by (rule state_okI [OF i(1) m' p i(4) _ bo]) (simp add: i(5) e(1))
qed

lemma prod_next:
  assumes ok: "state_ok na n h l (P_Next x p) C m ys" and h: "h \<le> h'" "length ys \<le> h'"
    and step: "prod_step malloc (P_Next x p) m = (P', m')"
  shows "state_ok na n h' l P' C m' (ys @ accepted P')"
proof -
  let ?P = "P_Next x p"
  obtain q bs xss k where i: "rwq_rel q bs xss k" "m = overlay ?P C q" "prod_ok ?P q bs xss k" "cons_ok l C q bs xss k"
    "ys = concat xss" "bounded_ok na n h ?P q bs k"
    using ok by (rule state_okE)
  note r = rwq_relD [OF i(1)]
  have p: "p = bs ! k" "Suc k < length bs" "tail_full q bs xss k" using i(3) by simp_all
  let ?n = "bs ! Suc k"
  obtain b where b: "blocks q (bs ! k) = Some b" "next_block b = Some (bs ! (Suc k mod length bs))"
    using i(1) r(3) by (rule ring_block)
  obtain nb j where nb: "blocks q ?n = Some nb" "block_rel j nb (xss ! Suc k)" "xss ! Suc k = []"
    using i(1) p(2) by (rule ring_block) simp
  have empty: "front nb = tail nb" using block_empty_iff [OF nb(2)] nb(3) by simp
  have "(1 :: nat) < 2 ^ j" using nb(2) by (intro one_less_power) (simp_all add: block_rel_def)
  then have rm: "(tail nb + 1) AND sizeMask nb \<noteq> front nb" using block_room(2) [OF nb(2)] nb(3) by simp
  let ?nb = "nb\<lparr>localFront := front nb\<rparr>"
  let ?q = "set_block ?n ?nb q"
  note q' = refresh_local_front [OF i(1) p(2) nb(1)]
  have e: "P' = P_Construct_Next x ?n (tail nb)" "m' = set_block ?n ((taken C ?n nb)\<lparr>localFront := front nb\<rparr>) m"
    using step [symmetric] b i(2) p(1,2) nb(1) empty by (simp_all add: with_block_overlay)
  have m': "m' = overlay P' C ?q"
    using overlay_write [of ?n C P' C ?P ?nb q] by (simp add: e i(2))
  have ok': "prod_ok P' ?q bs xss k"
    using p(2,3) rm by (simp add: e(1) tail_full_sizes [OF q'(2)] room_def)
  have bo: "bounded_ok na n h' P' ?q bs k" by (rule bounded_okI [OF i(6) h(1) q'(2)]) (simp_all add: e(1))
  show ?thesis by (rule state_okI [OF q'(1) m' ok' q'(3) [OF i(4)] _ bo]) (simp add: i(5) e(1))
qed

lemma prod_construct_next:
  assumes ok: "state_ok na n h l (P_Construct_Next x p t) C m ys" and h: "h \<le> h'" "length ys \<le> h'"
    and step: "prod_step malloc (P_Construct_Next x p t) m = (P', m')"
  shows "state_ok na n h' l P' C m' (ys @ accepted P')"
proof -
  let ?P = "P_Construct_Next x p t" and ?P' = "P_Publish_Next x p t"
  obtain q bs xss k where i: "rwq_rel q bs xss k" "m = overlay ?P C q" "prod_ok ?P q bs xss k" "cons_ok l C q bs xss k"
    "ys = concat xss" "bounded_ok na n h ?P q bs k"
    using ok by (rule state_okE)
  have p: "p = bs ! Suc k" "Suc k < length bs" using i(3) by simp_all
  obtain b j where b: "blocks q (bs ! Suc k) = Some b" "block_rel j b (xss ! Suc k)" using i(1) p(2) by (rule ring_block)
  have t: "t = tail b" using i(3) b(1) p(1) by (auto simp: room_def)
  obtain B where B: "construct_at t x (taken C p b) = Inr B" "set_block p B (overlay ?P C q) = overlay ?P' C q"
    using construct_over [OF i(1,4) p(2) b, of ?P ?P' t x] p(1) t by auto
  have e: "P' = ?P'" "m' = overlay ?P' C q"
    using step [symmetric] b(1) p(1) i(2) B by (simp_all add: with_block_overlay)
  have bo: "bounded_ok na n h' P' q bs k" by (rule bounded_okI [OF i(6) h(1)]) (simp_all add: e(1))
  show ?thesis unfolding e(1)
    by (rule state_okI [OF i(1) e(2) _ i(4) _ bo [unfolded e(1)]]) (use i(3,5) in auto)
qed

lemma prod_publish_next:
  assumes ok: "state_ok na n h l (P_Publish_Next x p t) C m ys" and h: "h \<le> h'" "length ys \<le> h'"
    and step: "prod_step malloc (P_Publish_Next x p t) m = (P', m')"
  shows "state_ok na n h' l P' C m' (ys @ accepted P')"
proof -
  let ?P = "P_Publish_Next x p t" and ?P' = "P_Advance x p t"
  obtain q bs xss k where i: "rwq_rel q bs xss k" "m = overlay ?P C q" "prod_ok ?P q bs xss k" "cons_ok l C q bs xss k"
    "ys = concat xss" "bounded_ok na n h ?P q bs k"
    using ok by (rule state_okE)
  have p: "p = bs ! Suc k" "Suc k < length bs" using i(3) by simp_all
  obtain b where b: "blocks q p = Some b" using i(1) p by (metis ring_block)
  have e: "P' = ?P'" "m' = set_block p ((taken C p (pend ?P p b))\<lparr>tail := (t + 1) AND sizeMask b\<rparr>) m"
    using step [symmetric] b i(2) by (simp_all add: with_block_overlay)
  have "pend ?P' p b = (pend ?P p b)\<lparr>tail := (t + 1) AND sizeMask b\<rparr>" by simp
  then have tk: "taken C p (pend ?P' p b) = (taken C p (pend ?P p b))\<lparr>tail := (t + 1) AND sizeMask b\<rparr>"
    by (metis taken_upd(3))
  have "set_block p (taken C p (pend ?P' p b)) (overlay ?P C q) = overlay ?P' C (set_block p b q)"
    by (rule overlay_write) simp
  then have m': "m' = overlay ?P' C q" unfolding e(2) i(2) tk set_block_same [OF b] .
  have bo: "bounded_ok na n h' ?P' q bs k" by (rule bounded_okI [OF i(6) h(1)]) simp_all
  show ?thesis unfolding e(1)
    by (rule state_okI [OF i(1) m' _ i(4) _ bo]) (use i(3,5) in auto)
qed

text \<open>Moving the tail block on publishes what lay over a block.\<close>

lemma overlay_absorb:
  assumes "blocks q p = Some b" "\<And>r b. pend P r b = (if r = p then f b else b)" "\<And>r b. pend P' r b = b"
  shows "overlay P' C (set_block p (f b) q) = overlay P C q"
  using assms by (auto simp: overlay_def set_block_def fun_eq_iff)

lemma prod_advance:
  assumes ok: "state_ok na n h l (P_Advance x p t) C m ys" and h: "h \<le> h'" "length ys \<le> h'"
    and step: "prod_step malloc (P_Advance x p t) m = (P', m')"
  shows "state_ok na n h' l P' C m' (ys @ accepted P')"
proof -
  let ?P = "P_Advance x p t"
  obtain q bs xss k where i: "rwq_rel q bs xss k" "m = overlay ?P C q" "prod_ok ?P q bs xss k" "cons_ok l C q bs xss k"
    "ys = concat xss" "bounded_ok na n h ?P q bs k"
    using ok by (rule state_okE)
  note r = rwq_relD [OF i(1)]
  have p: "p = bs ! Suc k" "Suc k < length bs" "tail_full q bs xss k" using i(3) by simp_all
  obtain nb j where nb: "blocks q (bs ! Suc k) = Some nb" "block_rel j nb (xss ! Suc k)" "xss ! Suc k = []"
    using i(1) p(2) by (rule ring_block) simp
  have t: "t = tail nb" "(tail nb + 1) AND sizeMask nb \<noteq> localFront nb"
    using i(3) nb(1) p(1) by (auto simp: room_def)
  define f where "f b = b\<lparr>data := (data b)[unat t := Some x], tail := (t + 1) AND sizeMask b\<rparr>" for b :: "'a block"
  have "block_rel j (f nb) ([] @ [x])"
  proof -
    obtain b' where b': "construct_at (tail nb) x nb = Inr b'" "block_rel j (b'\<lparr>tail := (tail nb + 1) AND sizeMask nb\<rparr>) (xss ! Suc k @ [x])"
      using nb(2) t(2) by (rule block_construct)
    then have "b'\<lparr>tail := (tail nb + 1) AND sizeMask nb\<rparr> = f nb"
      by (auto simp: construct_at_def f_def t(1) split: if_splits)
    then show ?thesis using b'(2) nb(3) by simp
  qed
  then have fb: "next_block (f nb) = next_block nb" "block_rel j (f nb) [x]" by (simp_all add: f_def)
  obtain tb jt where tb: "blocks q (bs ! k) = Some tb" "block_rel jt tb (xss ! k)" using i(1) r(3) by (rule ring_block)
  have full: "0 < k \<Longrightarrow> Suc (length (xss ! k)) = 2 ^ jt"
    using p(3) tb(1) block_rel_size [OF tb(2)] by (simp add: tail_full_def block_sizes_def)
  let ?xss = "xss[Suc k := [x]]" and ?w = "set_block p (f nb) q"
  let ?q = "?w\<lparr>tailBlock := p\<rparr>"
  have rel: "rwq_rel ?q bs ?xss (Suc k)"
    unfolding p(1) by (rule advance_tail [OF i(1) p(2) nb(1) fb tb full])
  have e: "P' = P_Done x True" "m' = m\<lparr>tailBlock := p\<rparr>" using step [symmetric] by simp_all
  have "overlay P' C ?w = overlay ?P C q"
    by (rule overlay_absorb) (use nb(1) p(1) in \<open>simp_all add: e(1) f_def\<close>)
  then have m': "m' = overlay P' C ?q" by (simp add: e(2) i(2))
  have first: "?xss ! 0 = xss ! 0" using r(2,4) by simp
  have co: "cons_ok l C ?q bs ?xss (Suc k)"
    by (rule cons_ok_stable [OF i(4,1)]) (use nb(1) p(1) in \<open>auto simp: first f_def\<close>)
  have "block_sizes ?w = block_sizes q" by (rule block_sizes_set_block) (use nb(1) p(1) in \<open>simp_all add: f_def\<close>)
  then have sz: "block_sizes ?q = block_sizes q" by simp
  have bo: "bounded_ok na n h' P' ?q bs (Suc k)" by (rule bounded_okI [OF i(6) h(1) sz]) (simp_all add: e(1))
  show ?thesis by (rule state_okI [OF rel m' _ co _ bo]) (simp_all add: e(1) i(5) concat_at_tail(2) [OF i(1) p(2)])
qed

text \<open>A block outside of the ring.\<close>

lemma taken_outside:
  assumes "cons_ok l C q bs xss k" "rwq_rel q bs xss k" "n \<notin> set bs"
  shows "taken C n b = b"
proof (cases "\<exists>f y. C = C_Publish n f y")
  case True
  then have "n = bs ! 0" using assms(1) by auto
  then show ?thesis using assms(3) rwq_relD(4) [OF assms(2)] nth_mem by blast
next
  case False
  then show ?thesis by (cases C) auto
qed

lemma rel_outside:
  assumes rel: "rwq_rel q bs xss k" and n: "n \<notin> set bs" "mallocs q \<le> mallocs q'"
    and q': "\<And>p. p \<noteq> n \<Longrightarrow> blocks q' p = blocks q p" "frontBlock q' = frontBlock q" "tailBlock q' = tailBlock q"
      "\<exists>j. 0 < j \<and> j \<le> 10 \<and> largestBlockSize q' = 2 ^ j"
  shows "rwq_rel q' bs xss k"
proof -
  note r = rwq_relD [OF rel]
  have "blocks q' (bs ! i) = blocks q (bs ! i)" if "i < length bs" for i
    using n(1) that nth_mem [of i bs] by (intro q'(1)) auto
  then have "\<forall>i < length bs. slot q' bs xss k i" using r(7) by (simp add: slot_def)
  moreover have "\<forall>p \<in> set bs. p < mallocs q'" using r(8) n(2) by (auto intro: less_le_trans)
  ultimately show ?thesis unfolding rwq_rel_def using r q' by simp
qed

lemma prod_alloc:
  assumes ok: "state_ok na n h l (P_Alloc x p) C m ys" and h: "h \<le> h'" "length ys \<le> h'"
    and step: "prod_step malloc (P_Alloc x p) m = (P', m')"
  shows "state_ok na n h' l P' C m' (ys @ accepted P')"
proof -
  let ?P = "P_Alloc x p"
  obtain q bs xss k where i: "rwq_rel q bs xss k" "m = overlay ?P C q" "prod_ok ?P q bs xss k" "cons_ok l C q bs xss k"
    "ys = concat xss" "bounded_ok na n h ?P q bs k"
    using ok by (rule state_okE)
  note r = rwq_relD [OF i(1)]
  have p: "p = bs ! k" "tail_full q bs xss k" using i(3) by simp_all
  obtain b where b: "blocks q p = Some b" using i(1) r(3) unfolding p(1) by (rule ring_block)
  define sz where "sz = (if MAX_BLOCK_SIZE \<le> largestBlockSize q then largestBlockSize q else largestBlockSize q * 2)"
  obtain js where js: "0 < js" "js \<le> 10" "sz = 2 ^ js" using new_block_size [OF r(9)] by (auto simp: sz_def)
  let ?n = "mallocs q"
  have fresh: "?n \<notin> set bs" using r(8) by blast
  have wb: "with_block P_Error p m g = g (taken C p b)" for g
    using with_block_overlay [OF b, of P_Error ?P C g] i(2) by simp
  have m_fields: "(if MAX_BLOCK_SIZE \<le> largestBlockSize m then largestBlockSize m else largestBlockSize m * 2) = sz"
    "mallocs m = ?n"
    by (simp_all add: i(2) sz_def)
  have bo: "bounded_ok na n h' P' q' bs k" for q' :: "'a rwq" by (rule bounded_ok_alloc [OF i(6)]) simp
  show ?thesis
  proof (cases "malloc ?n")
    case False
    let ?q = "q\<lparr>mallocs := Suc ?n\<rparr>"
    have e: "P' = P_Done x False" "m' = m\<lparr>mallocs := Suc ?n\<rparr>"
      using step [symmetric] False by (simp_all add: wb m_fields make_block_def Let_def)
    have rel: "rwq_rel ?q bs xss k" by (rule rel_outside [OF i(1) fresh]) (use r(9) in simp_all)
    have m': "m' = overlay P' C ?q" by (simp add: e i(2) overlay_quiet [of ?P "P_Done x False"])
    have co: "cons_ok l C ?q bs xss k" by (rule cons_ok_stable [OF i(4,1)]) simp_all
    show ?thesis by (rule state_okI [OF rel m' _ co _ bo]) (simp_all add: e(1) i(5))
  next
    case True
    obtain nb where nb: "construct_at 0 x (new_block sz) = Inr nb" "front nb = 0"
      "block_rel js (nb\<lparr>localTail := 1, tail := 1, next_block := next_block b\<rparr>) [x]"
      using js(1,2) unfolding js(3) by (rule first_in_new_block)
    let ?nb = "nb\<lparr>localTail := 1, tail := 1, next_block := next_block b\<rparr>"
    let ?w = "q\<lparr>mallocs := Suc ?n, largestBlockSize := sz\<rparr>"
    let ?q = "set_block ?n ?nb ?w"
    have ow: "set_block ?n (taken C ?n (pend (P_Link x p ?n) ?n ?nb)) (overlay ?P C ?w) = overlay (P_Link x p ?n) C ?q"
      by (rule overlay_write) simp
    have tk: "taken C ?n ?nb = ?nb" by (rule taken_outside [OF i(4,1) fresh])
    have e: "P' = P_Link x p ?n" "m' = set_block ?n ?nb (m\<lparr>mallocs := Suc ?n, largestBlockSize := sz\<rparr>)"
      using step [symmetric] True nb(1,2)
      by (simp_all add: wb m_fields make_block_def Let_def with_block_def [of _ ?n] set_block_def)
    have m': "m' = overlay P' C ?q" using ow tk by (simp add: e i(2))
    have rel: "rwq_rel ?q bs xss k" by (rule rel_outside [OF i(1) fresh]) (use js in auto)
    have co: "cons_ok l C ?q bs xss k" by (rule cons_ok_stable [OF i(4,1)]) (use fresh in auto)
    have pn: "p \<noteq> ?n" using fresh r(3) p(1) nth_mem by metis
    have ok': "prod_ok P' ?q bs xss k"
      using p b nb(3) fresh pn by (auto simp: e(1) tail_full_def block_sizes_def linked_to_def)
    show ?thesis by (rule state_okI [OF rel m' ok' co _ bo]) (simp add: e(1) i(5))
  qed
qed

lemma prod_link:
  assumes ok: "state_ok na n h l (P_Link x p c) C m ys" and h: "h \<le> h'" "length ys \<le> h'"
    and step: "prod_step malloc (P_Link x p c) m = (P', m')"
  shows "state_ok na n h' l P' C m' (ys @ accepted P')"
proof -
  let ?P = "P_Link x p c" and ?P' = "P_Advance_New x p c"
  obtain q bs xss k where i: "rwq_rel q bs xss k" "m = overlay ?P C q" "prod_ok ?P q bs xss k" "cons_ok l C q bs xss k"
    "ys = concat xss" "bounded_ok na n h ?P q bs k"
    using ok by (rule state_okE)
  obtain b where b: "blocks q p = Some b" using i(1,3) by (auto simp: linked_to_def)
  have e: "P' = ?P'" "m' = set_block p ((taken C p b)\<lparr>next_block := Some c\<rparr>) m"
    using step [symmetric] b i(2) by (simp_all add: with_block_overlay)
  have "set_block p (taken C p (pend ?P' p b)) (overlay ?P C q) = overlay ?P' C (set_block p b q)"
    by (rule overlay_write) simp
  then have m': "m' = overlay ?P' C q" by (simp add: e(2) i(2) set_block_same [OF b])
  have bo: "bounded_ok na n h' ?P' q bs k" by (rule bounded_ok_alloc [OF i(6)]) simp
  show ?thesis unfolding e(1)
    by (rule state_okI [OF i(1) m' _ i(4) _ bo]) (use i(3,5) in auto)
qed

lemma prod_advance_new:
  assumes ok: "state_ok na n h l (P_Advance_New x p c) C m ys" and h: "h \<le> h'" "length ys \<le> h'"
    and step: "prod_step malloc (P_Advance_New x p c) m = (P', m')"
  shows "state_ok na n h' l P' C m' (ys @ accepted P')"
proof -
  let ?P = "P_Advance_New x p c"
  obtain q bs xss k where i: "rwq_rel q bs xss k" "m = overlay ?P C q" "prod_ok ?P q bs xss k" "cons_ok l C q bs xss k"
    "ys = concat xss" "bounded_ok na n h ?P q bs k"
    using ok by (rule state_okE)
  note r = rwq_relD [OF i(1)]
  have p: "p = bs ! k" "tail_full q bs xss k" using i(3) by simp_all
  obtain b nb j where c: "c \<notin> set bs" "c < mallocs q" "blocks q (bs ! k) = Some b" "blocks q c = Some nb"
    "block_rel j nb [x]" "next_block nb = next_block b"
    using i(3) p(1) unfolding prod_ok.simps linked_to_def by blast
  obtain tb jt where tb: "blocks q (bs ! k) = Some tb" "block_rel jt tb (xss ! k)" using i(1) r(3) by (rule ring_block)
  then have tb2: "block_rel jt b (xss ! k)" using c(3) by simp
  have full: "0 < k \<Longrightarrow> Suc (length (xss ! k)) = 2 ^ jt"
    using p(2) c(3) block_rel_size [OF tb2] by (simp add: tail_full_def block_sizes_def)
  define f where "f b = b\<lparr>next_block := Some c\<rparr>" for b :: "'a block"
  let ?bs = "take (Suc k) bs @ c # drop (Suc k) bs" and ?xss = "take (Suc k) xss @ [x] # drop (Suc k) xss"
  let ?w = "set_block p (f b) q"
  let ?q = "?w\<lparr>tailBlock := c\<rparr>"
  obtain js where js: "0 < js \<and> js \<le> 10" "largestBlockSize q = 2 ^ js" using r(9) by blast
  have pc: "bs ! k \<noteq> c" using c(1) r(3) nth_mem by metis
  have bl: "blocks ?q = (blocks q)(c \<mapsto> nb, bs ! k \<mapsto> b\<lparr>next_block := Some c\<rparr>)"
    using c(4) pc by (auto simp: f_def p(1))
  have rel: "rwq_rel ?q ?bs ?xss (Suc k)"
    by (rule insert_block [OF i(1) c(3) tb2 full c(5,6,1) _ _ js(1) _ bl])
      (use c(2) js(2) in \<open>simp_all add: set_block_def\<close>)
  have e: "P' = P_Done x True" "m' = m\<lparr>tailBlock := c\<rparr>" using step [symmetric] by simp_all
  have "overlay P' C ?w = overlay ?P C q"
    by (rule overlay_absorb) (use c(3) p(1) in \<open>simp_all add: e(1) f_def\<close>)
  then have m': "m' = overlay P' C ?q" by (simp add: e(2) i(2))
  have "k < length xss" using r(2,3) by simp
  note nth_ins = nth_insert [OF r(3), of 0] nth_insert [OF r(3), of 1] nth_insert [OF this, of 0]
  have co: "cons_ok l C ?q ?bs ?xss (Suc k)"
    by (rule cons_ok_stable [OF i(4,1)]) (use r(2,4) Suc_leI [OF r(4)] c(3) p(1) nth_ins in \<open>auto simp: f_def\<close>)
  have "xss ! i = []" if "k < i" "i < length xss" for i
    using r(7) [of i] that r(2) by (auto simp: slot_def)
  then have dr: "concat (drop (Suc k) xss) = []" by (auto simp: in_set_conv_nth)
  have "concat xss = concat (take (Suc k) xss) @ concat (drop (Suc k) xss)"
    by (simp flip: concat_append)
  then have cat: "concat ?xss = concat xss @ [x]" unfolding concat_append concat.simps dr by simp
  have bo: "bounded_ok na n h' P' ?q ?bs (Suc k)" by (rule bounded_ok_alloc [OF i(6)]) simp
  show ?thesis by (rule state_okI [OF rel m' _ co _ bo]) (use cat in \<open>simp_all add: e(1) i(5)\<close>)
qed

lemmas prod_lemmas = prod_enter prod_reload prod_construct prod_publish prod_check_next prod_next prod_construct_next
  prod_publish_next prod_advance prod_alloc prod_link prod_advance_new

lemma prod_step_ok:
  assumes "state_ok na n h l P C m ys" "\<not> prod_returned P" "h \<le> h'" "length ys \<le> h'"
    and "prod_step malloc P m = (P', m')"
  shows "state_ok na n h' l P' C m' (ys @ accepted P')"
proof (cases P)
  case (P_Error e)
  then show ?thesis using assms(1) by (auto simp: state_ok_def)
qed (use assms in \<open>auto intro: prod_lemmas\<close>)

section \<open>The consumer's steps\<close>

lemma bounded_ok_stable:
  assumes "bounded_ok na n h P q bs k" "h \<le> h'" "set bs' = set bs" "length bs' = length bs" "k' \<le> k" "k < length bs"
    "block_sizes q' = block_sizes q"
  shows "bounded_ok na n h' P q' bs' k'"
proof -
  have "refusing P bs' k' \<Longrightarrow> refusing P bs k" using assms(4-6) by (cases P) auto
  then show ?thesis using assms by (auto simp: bounded_ok_def reserves_def)
qed

text \<open>What the producer has not published is not in the way of the consumer.\<close>

lemma pend_front_blocks:
  assumes rel: "rwq_rel q bs xss k" and P: "prod_ok P q bs xss k" and i: "i \<le> k"
  shows "tail (pend P (bs ! i) b) = tail b" "i < k \<Longrightarrow> next_block (pend P (bs ! i) b) = next_block b"
proof -
  note r = rwq_relD [OF rel]
  have "bs ! i \<noteq> bs ! Suc k" if "Suc k < length bs" using r(1,3) i that by (simp add: nth_eq_iff_index_eq)
  then show "tail (pend P (bs ! i) b) = tail b" using P by (cases P) auto
  have "bs ! i \<noteq> bs ! k" if "i < k" using r(1,3) i that by (simp add: nth_eq_iff_index_eq)
  then show "next_block (pend P (bs ! i) b) = next_block b" if "i < k" using P that by (cases P) auto
qed

lemma pend_front_element:
  assumes rel: "rwq_rel q bs xss k" and P: "prod_ok P q bs xss k" and b: "blocks q (bs ! 0) = Some b"
    and ne: "xss ! 0 \<noteq> []"
  shows "object_at (front b) (pend P (bs ! 0) b) = object_at (front b) b"
    and "pend P (bs ! 0) (destroy_at (front b) b) = destroy_at (front b) (pend P (bs ! 0) b)"
proof -
  note r = rwq_relD [OF rel]
  obtain b1 j where "blocks q (bs ! 0) = Some b1" "block_rel j b1 (xss ! 0)" using rel r(4) by (rule ring_block)
  then have ft: "unat (tail b) \<noteq> unat (front b)" using b ne block_empty_iff [of j b1] by (auto simp flip: word_eq_unat)
  have n: "bs ! 0 \<noteq> bs ! Suc k" if "Suc k < length bs" using r(1,4) that by (simp add: nth_eq_iff_index_eq)
  have t: "t = tail b" if "P = P_Publish x (bs ! 0) t t'" for x t t'
    using P b that by (auto simp: next_tail_def)
  note swap = list_update_swap [OF ft, of "data b" "Some _" None]
  show "object_at (front b) (pend P (bs ! 0) b) = object_at (front b) b"
    using P n t ft by (cases P) (auto simp: object_at_def)
  show "pend P (bs ! 0) (destroy_at (front b) b) = destroy_at (front b) (pend P (bs ! 0) b)"
    using P n t swap by (cases P) (auto simp: destroy_at_def)
qed

lemma refresh_local_tail:
  assumes rel: "rwq_rel q bs xss k" and P: "prod_ok P q bs xss k" and bo: "bounded_ok na n h P q bs k"
    and i: "i \<le> k" "blocks q (bs ! i) = Some b"
    and C: "\<And>r b. taken C r b = b" "\<And>r b. taken C' r b = b"
  defines "q' \<equiv> set_block (bs ! i) (b\<lparr>localTail := tail b\<rparr>) q"
  shows "rwq_rel q' bs xss k" "prod_ok P q' bs xss k" "bounded_ok na n h P q' bs k"
    "set_block (bs ! i) ((pend P (bs ! i) b)\<lparr>localTail := tail b\<rparr>) (overlay P C q) = overlay P C' q'"
proof -
  note r = rwq_relD [OF rel]
  have il: "i < length bs" using i(1) r(3) by simp
  show "rwq_rel q' bs xss k"
    unfolding q'_def by (rule rwq_rel_refresh [OF rel il i(2)]) (simp_all add: block_reload_tail)
  show "prod_ok P q' bs xss k"
    unfolding q'_def by (rule prod_ok_stable [OF P]) (use il i(2) in \<open>auto simp: same_prod_fields_def\<close>)
  have "block_sizes q' = block_sizes q" unfolding q'_def by (rule block_sizes_set_block [OF i(2)]) simp
  then show "bounded_ok na n h P q' bs k" using bo by (rule bounded_ok_stable [rotated -1]) (use r(3) in simp_all)
  show "set_block (bs ! i) ((pend P (bs ! i) b)\<lparr>localTail := tail b\<rparr>) (overlay P C q) = overlay P C' q'"
    using overlay_write [of "bs ! i" C' P C P "b\<lparr>localTail := tail b\<rparr>" q] by (simp add: q'_def C)
qed

lemma cons_quiet:
  assumes "\<And>r b. taken C r b = b" "\<And>r b. taken C' r b = b"
  shows "overlay P C' q = overlay P C q"
  by (rule overlay_same) (simp add: assms)

lemma cons_enter:
  assumes ok: "state_ok na n h l P C_Enter m ys" and l: "l' \<le> l"
    and step: "cons_step C_Enter m = (C', m')"
  shows "delivered C' = [] \<and> state_ok na n h l' P C' m' ys"
proof -
  obtain q bs xss k where i: "rwq_rel q bs xss k" "m = overlay P C_Enter q" "prod_ok P q bs xss k"
    "ys = concat xss" "bounded_ok na n h P q bs k"
    using ok by (rule state_okE)
  note r = rwq_relD [OF i(1)]
  obtain b j where b: "blocks q (bs ! 0) = Some b" "block_rel j b (xss ! 0)" using i(1) r(4) by (rule ring_block)
  have e: "C' = (if front b \<noteq> localTail b then C_Take (bs ! 0) (front b) else C_Reload (bs ! 0) (front b))" "m' = m"
    using step [symmetric] b(1) i(2) r(5) by (simp_all add: with_block_overlay)
  have m': "m' = overlay P C' q" unfolding e(2) i(2) by (rule cons_quiet [symmetric]) (simp_all add: e(1))
  have "cons_ok l' C' q bs xss k" using block_local_tail [OF b(2)] b(1) by (auto simp: e(1) elem_def)
  then have "state_ok na n h l' P C' m' ys" by (rule state_okI [OF i(1) m' i(3) _ i(4,5)])
  then show ?thesis by (simp add: e(1))
qed

lemma empty_ring:
  assumes rel: "rwq_rel q bs xss 0" and xs: "xss ! 0 = []"
  shows "concat xss = []"
proof -
  note r = rwq_relD [OF rel]
  have "xss ! i = []" if "i < length xss" for i
    using r(7) [of i] that r(2) xs by (cases "i = 0") (auto simp: slot_def)
  then show ?thesis by (auto simp: in_set_conv_nth)
qed

lemma cons_reload:
  assumes ok: "state_ok na n h l P (C_Reload p f) m ys" and l: "l' \<le> l" "l' \<le> length ys"
    and step: "cons_step (C_Reload p f) m = (C', m')"
  shows "delivered C' = [] \<and> state_ok na n h l' P C' m' ys"
proof -
  let ?C = "C_Reload p f"
  obtain q bs xss k where i: "rwq_rel q bs xss k" "m = overlay P ?C q" "prod_ok P q bs xss k" "cons_ok l ?C q bs xss k"
    "ys = concat xss" "bounded_ok na n h P q bs k"
    using ok by (rule state_okE)
  note r = rwq_relD [OF i(1)]
  obtain b j where b: "blocks q (bs ! 0) = Some b" "block_rel j b (xss ! 0)" using i(1) r(4) by (rule ring_block)
  have p: "p = bs ! 0" "f = front b" using i(4) b(1) by auto
  have tl: "tail (pend P (bs ! 0) b) = tail b" by (rule pend_front_blocks(1) [OF i(1,3)]) simp
  let ?q = "set_block (bs ! 0) (b\<lparr>localTail := tail b\<rparr>) q"
  have e: "C' = (if front b \<noteq> tail b then C_Take p f else C_Check_Tail p)"
    "m' = set_block p ((pend P p b)\<lparr>localTail := tail b\<rparr>) m"
    using step [symmetric] b(1) i(2) p tl by (simp_all add: with_block_overlay)
  note q' = refresh_local_tail [where C = ?C and C' = C', OF i(1,3,6) le0 b(1)]
  have quiet: "taken C' r b = b" for r b by (simp add: e(1))
  have m': "m' = overlay P C' ?q" using q'(4) [OF _ quiet] by (simp add: e(2) i(2) flip: p(1))
  have rel: "rwq_rel ?q bs xss k" and pr: "prod_ok P ?q bs xss k" and bo: "bounded_ok na n h P ?q bs k"
    by (rule q'(1-3); simp add: e(1))+
  have "length ys = 0" if "front b = tail b" "k = 0"
    using empty_ring [of q bs xss] i(1,5) that block_empty_iff [OF b(2)] by simp
  then have "l' = 0" if "front b = tail b" "k = 0" using that l(2) by simp
  then have "cons_ok l' C' ?q bs xss k"
    using block_empty_iff [OF b(2)] b(1) p by (auto simp: e(1) elem_def)
  then have "state_ok na n h l' P C' m' ys" by (rule state_okI [OF rel m' pr _ i(5) bo])
  then show ?thesis by (simp add: e(1))
qed

lemma cons_check_tail:
  assumes ok: "state_ok na n h l P (C_Check_Tail p) m ys" and l: "l' \<le> l"
    and step: "cons_step (C_Check_Tail p) m = (C', m')"
  shows "delivered C' = [] \<and> state_ok na n h l' P C' m' ys"
proof -
  let ?C = "C_Check_Tail p"
  obtain q bs xss k where i: "rwq_rel q bs xss k" "m = overlay P ?C q" "prod_ok P q bs xss k" "cons_ok l ?C q bs xss k"
    "ys = concat xss" "bounded_ok na n h P q bs k"
    using ok by (rule state_okE)
  note r = rwq_relD [OF i(1)]
  have "bs ! 0 = bs ! k \<longleftrightarrow> k = 0" using r(1,3,4) nth_eq_iff_index_eq [of bs 0 k] by auto
  then have e: "C' = (if 0 < k then C_Recheck else C_Done None)" "m' = m"
    using step [symmetric] i(2,4) r(6) by auto
  have m': "m' = overlay P C' q" unfolding e(2) i(2) by (rule cons_quiet [symmetric]) (simp_all add: e(1))
  have "cons_ok l' C' q bs xss k" using i(4) l by (auto simp: e(1))
  then have "state_ok na n h l' P C' m' ys" by (rule state_okI [OF i(1) m' i(3) _ i(5,6)])
  then show ?thesis by (simp add: e(1))
qed

lemma cons_recheck:
  assumes ok: "state_ok na n h l P C_Recheck m ys" and l: "l' \<le> l"
    and step: "cons_step C_Recheck m = (C', m')"
  shows "delivered C' = [] \<and> state_ok na n h l' P C' m' ys"
proof -
  let ?C = C_Recheck
  obtain q bs xss k where i: "rwq_rel q bs xss k" "m = overlay P ?C q" "prod_ok P q bs xss k" "cons_ok l ?C q bs xss k"
    "ys = concat xss" "bounded_ok na n h P q bs k"
    using ok by (rule state_okE)
  note r = rwq_relD [OF i(1)]
  obtain b j where b: "blocks q (bs ! 0) = Some b" "block_rel j b (xss ! 0)" using i(1) r(4) by (rule ring_block)
  have tl: "tail (pend P (bs ! 0) b) = tail b" by (rule pend_front_blocks(1) [OF i(1,3)]) simp
  let ?q = "set_block (bs ! 0) (b\<lparr>localTail := tail b\<rparr>) q"
  have e: "C' = (if front b \<noteq> tail b then C_Take (bs ! 0) (front b) else C_Next (bs ! 0))"
    "m' = set_block (bs ! 0) ((pend P (bs ! 0) b)\<lparr>localTail := tail b\<rparr>) m"
    using step [symmetric] b(1) i(2) r(5) tl by (simp_all add: with_block_overlay)
  note q' = refresh_local_tail [where C = ?C and C' = C', OF i(1,3,6) le0 b(1)]
  have m': "m' = overlay P C' ?q" unfolding e(2) i(2) by (rule q'(4)) (simp_all add: e(1))
  have rel: "rwq_rel ?q bs xss k" and pr: "prod_ok P ?q bs xss k" and bo: "bounded_ok na n h P ?q bs k"
    by (rule q'(1-3); simp add: e(1))+
  have "cons_ok l' C' ?q bs xss k"
    using block_empty_iff [OF b(2)] b(1) i(4) by (auto simp: e(1) elem_def)
  then have "state_ok na n h l' P C' m' ys" by (rule state_okI [OF rel m' pr _ i(5) bo])
  then show ?thesis by (simp add: e(1))
qed

lemma cons_next:
  assumes ok: "state_ok na n h l P (C_Next p) m ys" and l: "l' \<le> l"
    and step: "cons_step (C_Next p) m = (C', m')"
  shows "delivered C' = [] \<and> state_ok na n h l' P C' m' ys"
proof -
  let ?C = "C_Next p"
  obtain q bs xss k where i: "rwq_rel q bs xss k" "m = overlay P ?C q" "prod_ok P q bs xss k" "cons_ok l ?C q bs xss k"
    "ys = concat xss" "bounded_ok na n h P q bs k"
    using ok by (rule state_okE)
  note r = rwq_relD [OF i(1)]
  obtain b where b: "blocks q (bs ! 0) = Some b" "next_block b = Some (bs ! (Suc 0 mod length bs))"
    using i(1) r(4) by (rule ring_block)
  have p: "p = bs ! 0" "0 < k" using i(4) by simp_all
  have "next_block (pend P (bs ! 0) b) = next_block b" by (rule pend_front_blocks(2) [OF i(1,3)]) (use p in simp_all)
  then have e: "C' = C_Next_Read (bs ! 1)" "m' = m"
    using step [symmetric] b i(2) p r(3) by (simp_all add: with_block_overlay)
  have m': "m' = overlay P C' q" unfolding e(2) i(2) by (rule cons_quiet [symmetric]) (simp_all add: e(1))
  have "cons_ok l' C' q bs xss k" using i(4) by (simp add: e(1))
  then have "state_ok na n h l' P C' m' ys" by (rule state_okI [OF i(1) m' i(3) _ i(5,6)])
  then show ?thesis by (simp add: e(1))
qed

lemma cons_next_read:
  assumes ok: "state_ok na n h l P (C_Next_Read p) m ys" and l: "l' \<le> l"
    and step: "cons_step (C_Next_Read p) m = (C', m')"
  shows "delivered C' = [] \<and> state_ok na n h l' P C' m' ys"
proof -
  let ?C = "C_Next_Read p"
  obtain q bs xss k where i: "rwq_rel q bs xss k" "m = overlay P ?C q" "prod_ok P q bs xss k" "cons_ok l ?C q bs xss k"
    "ys = concat xss" "bounded_ok na n h P q bs k"
    using ok by (rule state_okE)
  note r = rwq_relD [OF i(1)]
  have p: "p = bs ! 1" "0 < k" "xss ! 0 = []" using i(4) by simp_all
  have k1: "1 \<le> k" "1 < length bs" using p(2) r(3) by simp_all
  obtain b j where b: "blocks q (bs ! 1) = Some b" "block_rel j b (xss ! 1)" "xss ! 1 \<noteq> []"
    using i(1) k1(2) by (rule ring_block) (use k1 in simp)
  have ne: "front b \<noteq> tail b" using block_empty_iff [OF b(2)] b(3) by simp
  have tl: "tail (pend P (bs ! 1) b) = tail b" by (rule pend_front_blocks(1) [OF i(1,3) k1(1)])
  let ?q = "set_block (bs ! 1) (b\<lparr>localTail := tail b\<rparr>) q"
  have e: "C' = C_Advance p (front b)" "m' = set_block p ((pend P p b)\<lparr>localTail := tail b\<rparr>) m"
    using step [symmetric] b(1) i(2) p(1) tl ne by (simp_all add: with_block_overlay)
  note q' = refresh_local_tail [where C = ?C and C' = C', OF i(1,3,6) k1(1) b(1)]
  have quiet: "taken C' r b = b" for r b by (simp add: e(1))
  have m': "m' = overlay P C' ?q" using q'(4) [OF _ quiet] by (simp add: e(2) i(2) p(1))
  have rel: "rwq_rel ?q bs xss k" and pr: "prod_ok P ?q bs xss k" and bo: "bounded_ok na n h P ?q bs k"
    by (rule q'(1-3); simp add: e(1))+
  have "cons_ok l' C' ?q bs xss k" using p ne by (simp add: e(1) elem_def)
  then have "state_ok na n h l' P C' m' ys" by (rule state_okI [OF rel m' pr _ i(5) bo])
  then show ?thesis by (simp add: e(1))
qed

lemma cons_advance:
  assumes ok: "state_ok na n h l P (C_Advance p f) m ys" and l: "l' \<le> l"
    and step: "cons_step (C_Advance p f) m = (C', m')"
  shows "delivered C' = [] \<and> state_ok na n h l' P C' m' ys"
proof -
  let ?C = "C_Advance p f"
  obtain q bs xss k where i: "rwq_rel q bs xss k" "m = overlay P ?C q" "prod_ok P q bs xss k" "cons_ok l ?C q bs xss k"
    "ys = concat xss" "bounded_ok na n h P q bs k"
    using ok by (rule state_okE)
  note r = rwq_relD [OF i(1)]
  have p: "p = bs ! 1" "0 < k" "xss ! 0 = []" "elem q p f" using i(4) by auto
  have k1: "1 < length bs" using p(2) r(3) by simp
  let ?q = "q\<lparr>frontBlock := bs ! 1\<rparr>" and ?bs = "rotate1 bs" and ?xss = "rotate1 xss"
  note adv = advance_front [OF i(1) p(2,3)]
  have e: "C' = C_Take p f" "m' = m\<lparr>frontBlock := p\<rparr>" using step [symmetric] by simp_all
  have "overlay P C' q = overlay P ?C q" by (rule cons_quiet) (simp_all add: e(1))
  then have m': "m' = overlay P C' ?q" by (simp add: e(2) i(2) p(1))
  have nth: "?bs ! j = bs ! Suc j" "?xss ! j = xss ! Suc j" if "Suc j < length bs" for j
    using that r(2) by (simp_all add: nth_rotate1)
  have pr: "prod_ok P ?q ?bs ?xss (k - 1)"
    by (rule prod_ok_stable [OF i(3)]) (use nth [of "k - 1"] nth [of k] p(2) r(3) in \<open>auto simp: same_prod_fields_def\<close>)
  have bo: "bounded_ok na n h P ?q ?bs (k - 1)"
    by (rule bounded_ok_stable [OF i(6)]) (use r(3) in simp_all)
  have "xss ! 1 \<noteq> []" using r(7) [OF k1] p(2) by (auto simp: slot_def)
  then have "cons_ok l' C' ?q ?bs ?xss (k - 1)" using p nth [of 0] k1 by (simp add: e(1) elem_def)
  then have "state_ok na n h l' P C' m' ys"
    by (rule state_okI [OF adv(1) m' pr _ _ bo]) (simp add: i(5) adv(2))
  then show ?thesis by (simp add: e(1))
qed

lemma cons_take:
  assumes ok: "state_ok na n h l P (C_Take p f) m ys" and l: "l' \<le> l"
    and step: "cons_step (C_Take p f) m = (C', m')"
  shows "delivered C' = [] \<and> state_ok na n h l' P C' m' ys"
proof -
  let ?C = "C_Take p f"
  obtain q bs xss k where i: "rwq_rel q bs xss k" "m = overlay P ?C q" "prod_ok P q bs xss k" "cons_ok l ?C q bs xss k"
    "ys = concat xss" "bounded_ok na n h P q bs k"
    using ok by (rule state_okE)
  note r = rwq_relD [OF i(1)]
  obtain b j where b: "blocks q (bs ! 0) = Some b" "block_rel j b (xss ! 0)" using i(1) r(4) by (rule ring_block)
  have p: "p = bs ! 0" "f = front b" "xss ! 0 \<noteq> []" "front b \<noteq> localTail b" using i(4) b(1) by (auto simp: elem_def)
  obtain x xs where xs: "xss ! 0 = x # xs" using p(3) by (cases "xss ! 0") auto
  have "object_at (front b) (pend P p b) = Inr x"
    using pend_front_element(1) [OF i(1,3) b(1) p(3)] block_take(1) [OF b(2) [unfolded xs] p(4)] p(1) by simp
  then have e: "C' = C_Publish p f x" "m' = set_block p (destroy_at f (pend P p b)) m"
    using step [symmetric] b(1) i(2) p(1,2) by (simp_all add: with_block_overlay)
  have "set_block p (taken C' p (pend P p b)) (overlay P ?C q) = overlay P C' (set_block p b q)"
    by (rule overlay_write) (simp add: e(1))
  then have m': "m' = overlay P C' q" using b(1) p(1) by (simp add: e i(2) set_block_same)
  have "cons_ok l' C' q bs xss k" using i(4) xs by (auto simp: e(1))
  then have "state_ok na n h l' P C' m' ys" by (rule state_okI [OF i(1) m' i(3) _ i(5,6)])
  then show ?thesis by (simp add: e(1))
qed

lemma cons_publish:
  assumes ok: "state_ok na n h l P (C_Publish p f x) m ys" and l: "l' \<le> l"
    and step: "cons_step (C_Publish p f x) m = (C', m')"
  shows "\<exists>ys'. ys = x # ys' \<and> delivered C' = [x] \<and> state_ok na n h l' P C' m' ys'"
proof -
  let ?C = "C_Publish p f x"
  obtain q bs xss k where i: "rwq_rel q bs xss k" "m = overlay P ?C q" "prod_ok P q bs xss k" "cons_ok l ?C q bs xss k"
    "ys = concat xss" "bounded_ok na n h P q bs k"
    using ok by (rule state_okE)
  note r = rwq_relD [OF i(1)]
  obtain b j where b: "blocks q (bs ! 0) = Some b" "next_block b = Some (bs ! (Suc 0 mod length bs))" "block_rel j b (xss ! 0)"
    using i(1) r(4) by (rule ring_block)
  have p: "p = bs ! 0" "f = front b" "xss ! 0 \<noteq> []" "front b \<noteq> localTail b" "hd (xss ! 0) = x"
    using i(4) b(1) by (auto simp: elem_def)
  obtain xs where xs: "xss ! 0 = x # xs" using p(3,5) by (cases "xss ! 0") auto
  let ?b = "(destroy_at (front b) b)\<lparr>front := (front b + 1) AND sizeMask b\<rparr>"
  let ?q = "set_block (bs ! 0) ?b q" and ?xss = "xss[0 := xs]"
  have rel: "rwq_rel ?q bs ?xss k"
    by (rule rwq_rel_write [OF i(1) r(4) b(1) _ block_take(2) [OF b(3) [unfolded xs] p(4)]]) (simp_all add: destroy_at_def)
  have e: "C' = C_Done (Some x)" "m' = set_block p ((destroy_at f (pend P p b))\<lparr>front := (f + 1) AND sizeMask b\<rparr>) m"
    using step [symmetric] b(1) i(2) p(1) by (simp_all add: with_block_overlay destroy_at_def)
  have "set_block p (taken C' p (pend P p ?b)) (overlay P ?C q) = overlay P C' (set_block p ?b q)"
    by (rule overlay_write) (simp add: e(1))
  moreover have "pend P p ?b = (destroy_at f (pend P p b))\<lparr>front := (f + 1) AND sizeMask b\<rparr>"
    using pend_front_element(2) [OF i(1,3) b(1) p(3)] p(1,2) by simp
  ultimately have m': "m' = overlay P C' ?q" by (simp add: e i(2) p(1))
  have pr: "prod_ok P ?q bs ?xss k"
    by (rule prod_ok_stable [OF i(3)]) (use b(1) r(4) nth_mem [of 0 bs] in \<open>auto simp: same_prod_fields_def destroy_at_def\<close>)
  have "block_sizes ?q = block_sizes q" by (rule block_sizes_set_block [OF b(1)]) (simp add: destroy_at_def)
  then have bo: "bounded_ok na n h P ?q bs k" using i(6) by (rule bounded_ok_stable [rotated -1]) (use r(3) in simp_all)
  have cat: "concat xss = x # concat ?xss" using xs r(2,4) by (cases xss) auto
  have "state_ok na n h l' P C' m' (concat ?xss)" by (rule state_okI [OF rel m' pr _ refl bo]) (simp add: e(1))
  then show ?thesis using cat i(5) by (simp add: e(1))
qed

lemmas cons_lemmas = cons_enter cons_reload cons_check_tail cons_recheck cons_next cons_next_read cons_advance cons_take

lemma cons_step_ok:
  assumes ok: "state_ok na n h l P C m ys" "\<not> cons_returned C" "l' \<le> l" "l' \<le> length ys - length (delivered C')"
    and step: "cons_step C m = (C', m')"
  shows "\<exists>ys'. ys = delivered C' @ ys' \<and> state_ok na n h l' P C' m' ys'"
proof (cases C)
  case (C_Error e)
  then show ?thesis using ok(1) by (auto simp: state_ok_def)
next
  case (C_Publish p f x)
  then show ?thesis using cons_publish [of na n h l P p f x m ys l' C' m'] assms by fastforce
next
  case (C_Reload p f)
  then have "delivered C' = []" using step by (auto simp: with_block_def split: option.splits if_splits)
  then show ?thesis using cons_reload [of na n h l P p f m ys l' C' m'] assms C_Reload by simp
qed (use assms in \<open>auto dest: cons_lemmas\<close>)

section \<open>Any interleaving\<close>

definition spsc_inv :: "bool \<Rightarrow> nat \<Rightarrow> 'a spsc \<Rightarrow> bool" where
  "spsc_inv na n s \<longleftrightarrow>
     (\<exists>ys. sent s = received s @ ys \<and> state_ok na n (high s) (low s) (prod s) (cons s) (mem s) ys)"

lemma spsc_invI: "sent s = received s @ ys \<Longrightarrow> state_ok na n (high s) (low s) (prod s) (cons s) (mem s) ys \<Longrightarrow> spsc_inv na n s"
  unfolding spsc_inv_def by blast

lemma state_ok_call_enqueue:
  assumes ok: "state_ok na n h l P C m ys" and P: "prod_returned P" and a: "na \<longrightarrow> \<not> a"
  shows "state_ok na n h' l (P_Enter a x) C m ys"
proof -
  obtain q bs xss k where i: "rwq_rel q bs xss k" "m = overlay P C q" "cons_ok l C q bs xss k" "ys = concat xss"
    "bounded_ok na n h P q bs k"
    using ok by (rule state_okE)
  have "overlay (P_Enter a x) C q = overlay P C q" by (rule overlay_quiet) (use P in \<open>cases P; simp\<close>)
  then have m: "m = overlay (P_Enter a x) C q" using i(2) by simp
  have "bounded_ok na n h' (P_Enter a x) q bs k" using i(5) a by (simp add: bounded_ok_def)
  then show ?thesis by (intro state_okI [OF i(1) m _ i(3,4)]) simp_all
qed

lemma state_ok_call_dequeue:
  assumes ok: "state_ok na n h l P C m ys" and C: "cons_returned C"
  shows "state_ok na n h l' P C_Enter m ys"
proof -
  obtain q bs xss k where i: "rwq_rel q bs xss k" "m = overlay P C q" "prod_ok P q bs xss k" "ys = concat xss"
    "bounded_ok na n h P q bs k"
    using ok by (rule state_okE)
  have "overlay P C_Enter q = overlay P C q" by (rule cons_quiet) (use C in \<open>cases C; simp\<close>)+
  then have m: "m = overlay P C_Enter q" using i(2) by simp
  show ?thesis by (rule state_okI [OF i(1) m i(3) _ i(4,5)]) simp
qed

lemma spsc_step_inv:
  assumes inv: "spsc_inv na n s" and a: "na \<longrightarrow> (\<forall>x. act \<noteq> Call_Enqueue True x)"
  shows "spsc_inv na n (spsc_step malloc act s)"
proof -
  obtain ys where ys: "sent s = received s @ ys" and ok: "state_ok na n (high s) (low s) (prod s) (cons s) (mem s) ys"
    using inv unfolding spsc_inv_def by blast
  show ?thesis
  proof (cases act)
    case (Call_Enqueue c x)
    then have "prod_returned (prod s) \<Longrightarrow> state_ok na n (in_queue s) (low s) (P_Enter c x) (cons s) (mem s) ys"
      using a by (intro state_ok_call_enqueue [OF ok]) auto
    then show ?thesis using Call_Enqueue ys ok by (auto intro: spsc_invI)
  next
    case Call_Dequeue
    then show ?thesis using ys ok state_ok_call_dequeue [OF ok] by (auto intro: spsc_invI)
  next
    case Step_Producer
    obtain pc m where st: "prod_step malloc (prod s) (mem s) = (pc, m)" by (cases "prod_step malloc (prod s) (mem s)")
    let ?s = "observe (s\<lparr>mem := m, prod := pc, sent := sent s @ accepted pc\<rparr>)"
    have "spsc_inv na n ?s" if "\<not> prod_returned (prod s)"
    proof (rule spsc_invI [of _ "ys @ accepted pc"])
      have h: "high s \<le> high ?s" "length ys \<le> high ?s" using ys by (simp_all add: observe_def)
      have st': "state_ok na n (high ?s) (low s) pc (cons s) m (ys @ accepted pc)"
        by (rule prod_step_ok [OF ok that h st])
      have "low ?s \<le> low s" by (simp add: observe_def)
      from state_ok_mono [OF st' order_refl this]
      show "state_ok na n (high ?s) (low ?s) (prod ?s) (cons ?s) (mem ?s) (ys @ accepted pc)"
        by (simp add: observe_def)
    qed (simp add: ys observe_def)
    then show ?thesis using Step_Producer inv st by simp
  next
    case Step_Consumer
    obtain pc m where st: "cons_step (cons s) (mem s) = (pc, m)" by (cases "cons_step (cons s) (mem s)")
    let ?s = "observe (s\<lparr>mem := m, cons := pc, received := received s @ delivered pc\<rparr>)"
    have "spsc_inv na n ?s" if n: "\<not> cons_returned (cons s)"
    proof -
      have l: "low ?s \<le> low s" "low ?s \<le> length ys - length (delivered pc)" using ys by (simp_all add: observe_def)
      obtain zs where zs: "ys = delivered pc @ zs" "state_ok na n (high s) (low ?s) (prod s) pc m zs"
        using cons_step_ok [OF ok n l st] by blast
      have "state_ok na n (high ?s) (low ?s) (prod ?s) (cons ?s) (mem ?s) zs"
        using state_ok_mono [OF zs(2), where h' = "high ?s" and l' = "low ?s"] by (simp add: observe_def)
      then show ?thesis by (rule spsc_invI [rotated]) (simp add: ys zs(1) observe_def)
    qed
    then show ?thesis using Step_Consumer inv st by simp
  qed
qed

lemma spsc_run_inv:
  assumes "spsc_inv na n s" "na \<longrightarrow> (\<forall>x. Call_Enqueue True x \<notin> set acts)"
  shows "spsc_inv na n (spsc_run malloc acts s)"
  using assms
proof (induction acts arbitrary: s)
  case (Cons act acts)
  have "spsc_inv na n (spsc_step malloc act s)" by (rule spsc_step_inv [OF Cons.prems(1)]) (use Cons.prems(2) in auto)
  then show ?case using Cons.IH [of "spsc_step malloc act s"] Cons.prems(2) by (simp add: spsc_run_def)
qed (simp add: spsc_run_def)

lemma spsc_inv_new:
  assumes "rwq_holds n q []"
  shows "spsc_inv na n (spsc_new q)"
proof -
  obtain bs xss k c where q: "rwq_rel q bs xss k" "[] = concat xss" "\<forall>p \<in> set bs. block_sizes q p = Some c"
    "if length bs = 1 then n < c else n \<le> (length bs - 1) * (c - 1)"
    using assms unfolding rwq_holds_def by blast
  have "reserves n q bs" using q(3,4) unfolding reserves_def by blast
  then have "bounded_ok na n 0 P_Idle q bs k" by (simp add: bounded_ok_def)
  moreover have "q = overlay P_Idle C_Idle q" by (simp add: overlay_def option.map_ident)
  ultimately have "state_ok na n 0 0 P_Idle C_Idle q []" using q(1,2) by (intro state_okI) simp_all
  then show ?thesis by (intro spsc_invI [of _ "[]"]) (simp_all add: spsc_new_def)
qed

lemma spsc_inv_no_error:
  assumes "spsc_inv na n s"
  shows "prod s \<noteq> P_Error e" "cons s \<noteq> C_Error e"
  using assms by (auto simp: spsc_inv_def state_ok_def)

section \<open>Any schedule\<close>

text \<open>C4. Two threads share a \<open>ReaderWriterQueue\<close> constructed for \<open>sz\<close> elements, and their steps interleave in any
  way: no step has undefined behaviour or fails an assertion, and what \<open>try_dequeue\<close> has returned is what \<open>enqueue\<close> and
  \<open>try_enqueue\<close> have accepted so far, in the same order, up to the elements still in the queue.\<close>

theorem spsc_fifo:
  assumes "0 < sz" "unat sz < 2 ^ 62" "\<And>p. p < initial_blocks (unat sz) \<Longrightarrow> malloc p"
  shows "\<exists>q s. rwq_new malloc sz = (Inr (), q) \<and> s = spsc_run malloc acts (spsc_new q) \<and>
    (\<exists>ys. sent s = received s @ ys) \<and> (\<forall>e. prod s \<noteq> P_Error e \<and> cons s \<noteq> C_Error e)"
proof -
  obtain q :: "'a rwq" where q: "rwq_new malloc sz = (Inr (), q)" "rwq_holds (unat sz) q []"
    using rwq_new_holds [where malloc = malloc, OF assms] by blast
  have inv: "spsc_inv False (unat sz) (spsc_run malloc acts (spsc_new q))"
    by (rule spsc_run_inv [OF spsc_inv_new [OF q(2)]]) simp
  then have "\<exists>ys. sent (spsc_run malloc acts (spsc_new q)) = received (spsc_run malloc acts (spsc_new q)) @ ys"
    by (auto simp: spsc_inv_def)
  then show ?thesis using q(1) spsc_inv_no_error [OF inv] by blast
qed

theorem spsc_fifo_witness:
  "\<exists>q s. rwq_new (\<lambda>_. True) 1 = (Inr (), q) \<and>
    s = spsc_run (\<lambda>_. True) [Call_Enqueue True (7 :: int), Call_Dequeue, Step_Consumer, Step_Producer, Step_Producer,
      Step_Consumer, Step_Producer, Step_Consumer] (spsc_new q) \<and>
    (\<exists>ys. sent s = received s @ ys) \<and> (\<forall>e. prod s \<noteq> P_Error e \<and> cons s \<noteq> C_Error e)"
  by (rule spsc_fifo) simp_all



text \<open>Both operations are wait-free: the number of a thread's own steps to the end of the call is bounded, whatever the other
  thread does.\<close>

fun prod_rank :: "'a producer_pc \<Rightarrow> nat" where
  "prod_rank (P_Enter a x) = 7" | "prod_rank (P_Reload a x p t t') = 6" | "prod_rank (P_Construct x p t t') = 2"
| "prod_rank (P_Publish x p t t') = 1" | "prod_rank (P_Check_Next a x p) = 5" | "prod_rank (P_Next x p) = 4"
| "prod_rank (P_Construct_Next x n t) = 3" | "prod_rank (P_Publish_Next x n t) = 2" | "prod_rank (P_Advance x n t) = 1"
| "prod_rank (P_Alloc x p) = 3" | "prod_rank (P_Link x p n) = 2" | "prod_rank (P_Advance_New x p n) = 1"
| "prod_rank _ = 0"

fun cons_rank :: "'a consumer_pc \<Rightarrow> nat" where
  "cons_rank C_Enter = 9" | "cons_rank (C_Reload p f) = 8" | "cons_rank (C_Check_Tail p) = 7" | "cons_rank C_Recheck = 6"
| "cons_rank (C_Next p) = 5" | "cons_rank (C_Next_Read n) = 4" | "cons_rank (C_Advance n f) = 3"
| "cons_rank (C_Take p f) = 2" | "cons_rank (C_Publish p f x) = 1"
| "cons_rank _ = 0"

lemma prod_rank_step: "\<not> prod_returned P \<Longrightarrow> prod_rank (fst (prod_step malloc P q)) \<le> prod_rank P - 1"
  by (cases P) (auto simp: with_block_def Let_def split: option.splits sum.splits prod.splits)

lemma cons_rank_step: "\<not> cons_returned C \<Longrightarrow> cons_rank (fst (cons_step C q)) \<le> cons_rank C - 1"
  by (cases C) (auto simp: with_block_def split: option.splits sum.splits)

lemma prod_rank_zero: "prod_rank P = 0 \<longleftrightarrow> prod_returned P \<or> (\<exists>e. P = P_Error e)"
  by (cases P) auto

lemma cons_rank_zero: "cons_rank C = 0 \<longleftrightarrow> cons_returned C \<or> (\<exists>e. C = C_Error e)"
  by (cases C) auto

lemma prod_rank_spsc_step:
  assumes "\<forall>a x. act \<noteq> Call_Enqueue a x"
  shows "prod_rank (prod (spsc_step malloc act s)) \<le> prod_rank (prod s) - (if act = Step_Producer then 1 else 0)"
proof (cases act)
  case Step_Producer
  then show ?thesis using prod_rank_step [of "prod s" malloc "mem s"] prod_rank_zero [of "prod s"]
    by (auto simp: split_def observe_def Let_def)
qed (use assms in \<open>auto simp: split_def observe_def Let_def\<close>)

lemma cons_rank_spsc_step:
  assumes "act \<noteq> Call_Dequeue"
  shows "cons_rank (cons (spsc_step malloc act s)) \<le> cons_rank (cons s) - (if act = Step_Consumer then 1 else 0)"
proof (cases act)
  case Step_Consumer
  then show ?thesis using cons_rank_step [of "cons s" "mem s"] cons_rank_zero [of "cons s"]
    by (auto simp: split_def observe_def Let_def)
qed (use assms in \<open>auto simp: split_def observe_def Let_def\<close>)

lemma prod_rank_run:
  assumes "\<forall>a x. Call_Enqueue a x \<notin> set acts"
  shows "prod_rank (prod (spsc_run malloc acts s)) \<le> prod_rank (prod s) - count_list acts Step_Producer"
  using assms
proof (induction acts arbitrary: s)
  case (Cons act acts)
  have "prod_rank (prod (spsc_step malloc act s)) \<le> prod_rank (prod s) - (if act = Step_Producer then 1 else 0)"
    by (rule prod_rank_spsc_step) (use Cons.prems in auto)
  moreover have "prod_rank (prod (spsc_run malloc acts (spsc_step malloc act s))) \<le>
      prod_rank (prod (spsc_step malloc act s)) - count_list acts Step_Producer"
    by (rule Cons.IH) (use Cons.prems in auto)
  ultimately show ?case by (simp add: spsc_run_def split: if_splits)
qed (simp add: spsc_run_def)

lemma cons_rank_run:
  assumes "Call_Dequeue \<notin> set acts"
  shows "cons_rank (cons (spsc_run malloc acts s)) \<le> cons_rank (cons s) - count_list acts Step_Consumer"
  using assms
proof (induction acts arbitrary: s)
  case (Cons act acts)
  have "cons_rank (cons (spsc_step malloc act s)) \<le> cons_rank (cons s) - (if act = Step_Consumer then 1 else 0)"
    by (rule cons_rank_spsc_step) (use Cons.prems in auto)
  moreover have "cons_rank (cons (spsc_run malloc acts (spsc_step malloc act s))) \<le>
      cons_rank (cons (spsc_step malloc act s)) - count_list acts Step_Consumer"
    by (rule Cons.IH) (use Cons.prems in auto)
  ultimately show ?case by (simp add: spsc_run_def split: if_splits)
qed (simp add: spsc_run_def)

lemma prod_rank_le: "prod_rank P \<le> 7"
  by (cases P) auto

lemma cons_rank_le: "cons_rank C \<le> 9"
  by (cases C) auto

text \<open>C26. \<open>enqueue\<close>, \<open>try_enqueue\<close> and \<open>try_dequeue\<close> are wait-free: after any history, a call that is under way has returned when its
  thread has taken seven (the producer) or nine (the consumer) more steps, whatever the other thread does.\<close>

theorem spsc_wait_free:
  assumes "0 < sz" "unat sz < 2 ^ 62" "\<And>p. p < initial_blocks (unat sz) \<Longrightarrow> malloc p"
  shows "\<exists>q s. rwq_new malloc sz = (Inr (), q) \<and> s = spsc_run malloc acts (spsc_new q) \<and>
    ((\<forall>a x. Call_Enqueue a x \<notin> set later) \<longrightarrow> 7 \<le> count_list later Step_Producer \<longrightarrow>
       prod_returned (prod (spsc_run malloc later s))) \<and>
    (Call_Dequeue \<notin> set later \<longrightarrow> 9 \<le> count_list later Step_Consumer \<longrightarrow> cons_returned (cons (spsc_run malloc later s)))"
proof -
  obtain q :: "'a rwq" where q: "rwq_new malloc sz = (Inr (), q)" "rwq_holds (unat sz) q []"
    using rwq_new_holds [where malloc = malloc, OF assms] by blast
  define s where "s = spsc_run malloc acts (spsc_new q)"
  have run: "spsc_run malloc later s = spsc_run malloc (acts @ later) (spsc_new q)" by (simp add: s_def spsc_run_def)
  have "spsc_inv False (unat sz) (spsc_run malloc later s)"
    unfolding run by (rule spsc_run_inv [OF spsc_inv_new [OF q(2)]]) simp
  note no_error = spsc_inv_no_error [OF this]
  have "prod_returned (prod (spsc_run malloc later s))"
    if "\<forall>a x. Call_Enqueue a x \<notin> set later" "7 \<le> count_list later Step_Producer"
  proof -
    have "prod_rank (prod (spsc_run malloc later s)) = 0"
      using prod_rank_run [OF that(1), of malloc s] prod_rank_le [of "prod s"] that(2) by simp
    then show ?thesis unfolding prod_rank_zero using no_error(1) by blast
  qed
  moreover have "cons_returned (cons (spsc_run malloc later s))"
    if "Call_Dequeue \<notin> set later" "9 \<le> count_list later Step_Consumer"
  proof -
    have "cons_rank (cons (spsc_run malloc later s)) = 0"
      using cons_rank_run [OF that(1), of malloc s] cons_rank_le [of "cons s"] that(2) by simp
    then show ?thesis unfolding cons_rank_zero using no_error(2) by blast
  qed
  ultimately show ?thesis using q(1) s_def by blast
qed

theorem spsc_wait_free_witness:
  "\<exists>q s. rwq_new (\<lambda>_. True) 1 = (Inr (), q) \<and>
    s = spsc_run (\<lambda>_. True) [Call_Enqueue True (7 :: int), Call_Dequeue, Step_Consumer] (spsc_new q) \<and>
    ((\<forall>a x. Call_Enqueue a x \<notin> set (replicate 7 (Step_Producer :: int action))) \<longrightarrow>
       7 \<le> count_list (replicate 7 (Step_Producer :: int action)) Step_Producer \<longrightarrow>
       prod_returned (prod (spsc_run (\<lambda>_. True) (replicate 7 Step_Producer) s))) \<and>
    (Call_Dequeue \<notin> set (replicate 7 (Step_Producer :: int action)) \<longrightarrow>
       9 \<le> count_list (replicate 7 (Step_Producer :: int action)) Step_Consumer \<longrightarrow>
       cons_returned (cons (spsc_run (\<lambda>_. True) (replicate 7 Step_Producer) s)))"
  by (rule spsc_wait_free) simp_all

section \<open>One thread at a time\<close>

lemma set_block_twice [simp]: "set_block p a (set_block p b q) = set_block p a q"
  by (simp add: set_block_def)

definition prod_run :: "(nat \<Rightarrow> bool) \<Rightarrow> nat \<Rightarrow> 'a producer_pc \<times> 'a rwq \<Rightarrow> 'a producer_pc \<times> 'a rwq" where
  "prod_run malloc n = ((\<lambda>(pc, q). prod_step malloc pc q) ^^ n)"

definition cons_run :: "nat \<Rightarrow> 'a consumer_pc \<times> 'a rwq \<Rightarrow> 'a consumer_pc \<times> 'a rwq" where
  "cons_run n = ((\<lambda>(pc, q). cons_step pc q) ^^ n)"

lemma prod_run_Suc: "prod_run malloc (Suc n) (pc, q) = prod_run malloc n (prod_step malloc pc q)"
  by (simp add: prod_run_def funpow_swap1)

lemma cons_run_Suc: "cons_run (Suc n) (pc, q) = cons_run n (cons_step pc q)"
  by (simp add: cons_run_def funpow_swap1)

lemma prod_run_done: "prod_run malloc n (P_Done x r, q) = (P_Done x r, q)"
  by (induction n) (simp_all add: prod_run_def)

lemma cons_run_done: "cons_run n (C_Done r, q) = (C_Done r, q)"
  by (induction n) (simp_all add: cons_run_def)

lemmas alone_simps = eval_nat_numeral prod_run_Suc prod_run_done cons_run_Suc cons_run_done with_block_def Let_def

lemma construct_at_fields:
  "construct_at i x b = Inr b' \<Longrightarrow> sizeMask b' = sizeMask b \<and> next_block b' = next_block b"
  by (auto simp: construct_at_def split: if_splits)

lemma cons_take_alone:
  assumes "blocks m p = Some b" "dequeue_from p b q = (Inr r, q')" "\<And>b'. set_block p b' m = set_block p b' q"
  shows "cons_run (Suc (Suc n)) (C_Take p (front b), m) = (C_Done r, q')"
  using assms(2) by (auto simp: dequeue_from_def Let_def cons_run_Suc cons_run_done with_block_def assms(1,3)
    destroy_at_def object_at_def split: sum.splits)

lemma try_dequeue_alone:
  assumes "try_dequeue q = (Inr r, q')"
  shows "cons_run 9 (C_Enter, q) = (C_Done r, q')"
proof -
  obtain fb where fb: "blocks q (frontBlock q) = Some fb"
    using assms by (auto simp: try_dequeue_def split: option.splits)
  let ?fb = "fb\<lparr>localTail := tail fb\<rparr>"
  have nine: "cons_run 9 = cons_run (Suc (Suc (Suc (Suc (Suc (Suc (Suc (Suc (Suc 0)))))))))" by (simp add: eval_nat_numeral)
  consider "front fb \<noteq> localTail fb" | "front fb = localTail fb" "front fb \<noteq> tail fb"
    | "front fb = localTail fb" "front fb = tail fb" by blast
  then show ?thesis
  proof cases
    case 1
    then have "dequeue_from (frontBlock q) fb q = (Inr r, q')" using assms fb by (simp add: try_dequeue_def Let_def)
    from cons_take_alone [OF fb this] show ?thesis
      unfolding nine using 1 fb by (simp add: cons_run_Suc [of _ C_Enter] with_block_def)
  next
    case 2
    then have "dequeue_from (frontBlock q) ?fb q = (Inr r, q')" using assms fb by (simp add: try_dequeue_def Let_def)
    from cons_take_alone [of "set_block (frontBlock q) ?fb q", OF _ this] show ?thesis
      unfolding nine using 2 fb by (simp add: cons_run_Suc [of _ C_Enter] cons_run_Suc [of _ "C_Reload _ _"] with_block_def)
  next
    case 3
    let ?p = "frontBlock q"
    have "?fb = fb" using 3 by simp
    then have same: "set_block ?p ?fb q = q" using set_block_same [OF fb] by simp
    have down: "cons_run (Suc (Suc (Suc n))) (C_Enter, q) =
        cons_run n (if ?p \<noteq> tailBlock q then C_Recheck else C_Done None, q)" for n
      using 3 fb same by (simp add: cons_run_Suc with_block_def)
    show ?thesis
    proof (cases "?p = tailBlock q")
      case True
      then show ?thesis unfolding nine down using assms 3 fb same by (auto simp: try_dequeue_def cons_run_done)
    next
      case False
      have "try_dequeue q = (case next_block fb of
            None \<Rightarrow> (Inl UB, q)
          | Some n \<Rightarrow> case blocks q n of
                None \<Rightarrow> (Inl UB, q)
              | Some nb \<Rightarrow> let nb = nb\<lparr>localTail := tail nb\<rparr> in
                  if front nb = localTail nb then (Inl Assert_Fail, q) else dequeue_from n nb (q\<lparr>frontBlock := n\<rparr>))"
        using 3 fb False same by (simp add: try_dequeue_def Let_def split: option.split)
      then obtain n nb where n: "next_block fb = Some n" "blocks q n = Some nb" "front nb \<noteq> tail nb"
        and d: "dequeue_from n (nb\<lparr>localTail := tail nb\<rparr>) (q\<lparr>frontBlock := n\<rparr>) = (Inr r, q')"
        using assms by (auto simp: Let_def split: option.splits if_splits)
      let ?m = "(set_block n (nb\<lparr>localTail := tail nb\<rparr>) q)\<lparr>frontBlock := n\<rparr>"
      have "cons_run (Suc (Suc (Suc (Suc j)))) (C_Recheck, q) = cons_run j (C_Take n (front nb), ?m)" for j
        using n 3 fb same by (simp add: cons_run_Suc with_block_def)
      moreover have "cons_run (Suc (Suc 0)) (C_Take n (front nb), ?m) = (C_Done r, q')"
        using cons_take_alone [OF _ d, of ?m] by (simp add: set_block_def)
      ultimately show ?thesis unfolding nine down using False by simp
    qed
  qed
qed

lemma prod_construct_alone:
  assumes "blocks q p = Some b" "construct_at t x b = Inr b'"
  shows "prod_run malloc (Suc (Suc n)) (P_Construct x p t t', q) = (P_Done x True, set_block p (b'\<lparr>tail := t'\<rparr>) q)"
  using assms by (simp add: prod_run_Suc prod_run_done with_block_def)

lemma prod_next_alone:
  assumes "blocks q p = Some b" "next_block b = Some n" "blocks q n = Some nb" "front nb = tail nb"
    "construct_at (tail nb) x (nb\<lparr>localFront := front nb\<rparr>) = Inr nb'"
  shows "prod_run malloc (Suc (Suc (Suc (Suc j)))) (P_Next x p, q) =
    (P_Done x True, (set_block n (nb'\<lparr>tail := (tail nb + 1) AND sizeMask nb\<rparr>) q)\<lparr>tailBlock := n\<rparr>)"
  using assms construct_at_fields [OF assms(5)] by (simp add: prod_run_Suc prod_run_done with_block_def)

lemma prod_alloc_alone:
  assumes p: "blocks q p = Some b" "p \<noteq> mallocs q" and m: "malloc (mallocs q)"
    and sz: "sz = (if MAX_BLOCK_SIZE \<le> largestBlockSize q then largestBlockSize q else largestBlockSize q * 2)"
    and nb: "construct_at 0 x (new_block sz) = Inr nb" "front nb = 0"
  shows "prod_run malloc (Suc (Suc (Suc j))) (P_Alloc x p, q) =
    (P_Done x True, (set_block p (b\<lparr>next_block := Some (mallocs q)\<rparr>)
       (set_block (mallocs q) (nb\<lparr>localTail := 1, tail := 1, next_block := next_block b\<rparr>)
         (q\<lparr>mallocs := Suc (mallocs q), blocks := (blocks q)(mallocs q \<mapsto> new_block sz), largestBlockSize := sz\<rparr>)))
       \<lparr>tailBlock := mallocs q\<rparr>)"
  using p m nb unfolding sz [symmetric]
  by (simp add: prod_run_Suc prod_run_done with_block_def make_block_def Let_def flip: sz)

lemma inner_enqueue_alone:
  assumes e: "inner_enqueue a malloc x q = (Inr r, q')" and fresh: "tailBlock q \<noteq> mallocs q"
  shows "prod_run malloc 7 (P_Enter a x, q) = (P_Done x r, q')"
proof -
  let ?p = "tailBlock q"
  obtain tb where tb: "blocks q ?p = Some tb" using e by (auto simp: inner_enqueue_def split: option.splits)
  let ?t' = "(tail tb + 1) AND sizeMask tb" and ?tb = "tb\<lparr>localFront := front tb\<rparr>"
  let ?q = "set_block ?p ?tb q"
  have seven: "prod_run malloc 7 = prod_run malloc (Suc (Suc (Suc (Suc (Suc (Suc (Suc 0)))))))" by (simp add: eval_nat_numeral)
  consider "?t' \<noteq> localFront tb" | "?t' = localFront tb" "?t' \<noteq> front tb" | "?t' = localFront tb" "?t' = front tb" by blast
  then show ?thesis
  proof cases
    case 1
    then obtain b' where "construct_at (tail tb) x tb = Inr b'" "r = True" "q' = set_block ?p (b'\<lparr>tail := ?t'\<rparr>) q"
      using e tb by (auto simp: inner_enqueue_def Let_def split: sum.splits)
    then show ?thesis unfolding seven using 1 tb prod_construct_alone [OF tb]
      by (simp add: prod_run_Suc [of _ _ "P_Enter _ _"] with_block_def Let_def)
  next
    case 2
    then obtain b' where b': "construct_at (tail tb) x ?tb = Inr b'" "r = True" "q' = set_block ?p (b'\<lparr>tail := ?t'\<rparr>) q"
      using e tb by (auto simp: inner_enqueue_def Let_def split: sum.splits)
    show ?thesis unfolding seven using 2 tb b' prod_construct_alone [of ?q ?p ?tb, OF _ b'(1)]
      by (simp add: prod_run_Suc [of _ _ "P_Enter _ _"] prod_run_Suc [of _ _ "P_Reload _ _ _ _ _"] with_block_def Let_def)
  next
    case 3
    have "tb\<lparr>localFront := front tb\<rparr> = tb" using 3 by simp
    then have same: "set_block ?p tb q = q" "set_block ?p (tb\<lparr>localFront := front tb\<rparr>) q = q" using set_block_same [OF tb] by simp_all
    have down: "prod_run malloc (Suc (Suc (Suc n))) (P_Enter a x, q) =
        prod_run malloc n (if next_block tb \<noteq> Some (frontBlock q) then P_Next x ?p
          else if a then P_Alloc x ?p else P_Done x False, q)" for n
      using 3 tb same by (simp add: prod_run_Suc with_block_def)
    show ?thesis
    proof (cases "next_block tb = Some (frontBlock q)")
      case False
      have "inner_enqueue a malloc x q = (case next_block tb of
            None \<Rightarrow> (Inl UB, q)
          | Some n \<Rightarrow> case blocks q n of
                None \<Rightarrow> (Inl UB, q)
              | Some nb \<Rightarrow>
                  if front nb \<noteq> tail nb then (Inl Assert_Fail, q)
                  else case construct_at (tail nb) x (nb\<lparr>localFront := front nb\<rparr>) of
                         Inl e \<Rightarrow> (Inl e, q)
                       | Inr nb' \<Rightarrow>
                           (Inr True, (set_block n (nb'\<lparr>tail := (tail nb + 1) AND sizeMask nb'\<rparr>) q)\<lparr>tailBlock := n\<rparr>))"
        using tb 3 False same by (simp add: inner_enqueue_def Let_def split: option.split)
      note e' = e [unfolded this]
      obtain n nb nb' where n: "next_block tb = Some n" "blocks q n = Some nb" "front nb = tail nb"
        "construct_at (tail nb) x (nb\<lparr>localFront := front nb\<rparr>) = Inr nb'" "r = True"
        "q' = (set_block n (nb'\<lparr>tail := (tail nb + 1) AND sizeMask nb'\<rparr>) q)\<lparr>tailBlock := n\<rparr>"
        using e' by (auto simp del: set_block_simps split: option.splits if_splits sum.splits)
      from prod_next_alone [OF tb n(1-4)] show ?thesis
        unfolding seven down using False n(5,6) construct_at_fields [OF n(4)] by simp
    next
      case True
      show ?thesis
      proof (cases "a \<and> malloc (mallocs q)")
        case False
        then show ?thesis unfolding seven down using e tb 3 True same
          by (auto simp: inner_enqueue_def Let_def make_block_def prod_run_Suc prod_run_done with_block_def split: if_splits)
      next
        case T: True
        define sz where "sz = (if MAX_BLOCK_SIZE \<le> largestBlockSize q then largestBlockSize q else largestBlockSize q * 2)"
        obtain nb where nb: "construct_at 0 x (new_block sz) = Inr nb" "front nb = 0" "r = True"
          "q' = (set_block ?p (tb\<lparr>next_block := Some (mallocs q)\<rparr>)
             (set_block (mallocs q) (nb\<lparr>localTail := 1, tail := 1, next_block := next_block tb\<rparr>)
               (q\<lparr>mallocs := Suc (mallocs q), blocks := (blocks q)(mallocs q \<mapsto> new_block sz), largestBlockSize := sz\<rparr>)))
             \<lparr>tailBlock := mallocs q\<rparr>"
          using e tb 3 True T same
          by (auto simp: inner_enqueue_def Let_def make_block_def fun_upd_same sz_def [symmetric] simp del: fun_upd_apply split: sum.splits if_splits)
        have "malloc (mallocs q)" "?p \<noteq> mallocs q" using T fresh by simp_all
        from prod_alloc_alone [where malloc = malloc, OF tb this(2,1) sz_def nb(1,2)] show ?thesis
          unfolding seven down using True T nb(3,4) by simp
      qed
    qed
  qed
qed

lemma spsc_run_producer:
  assumes "\<not> prod_returned (prod s)"
  shows "prod_run malloc n (prod s, mem s) =
    (prod (spsc_run malloc (replicate n Step_Producer) s), mem (spsc_run malloc (replicate n Step_Producer) s))"
proof (induction n)
  case (Suc n)
  let ?s = "spsc_run malloc (replicate n Step_Producer) s"
  have "spsc_run malloc (replicate (Suc n) Step_Producer) s = spsc_step malloc Step_Producer ?s"
    unfolding spsc_run_def by (simp flip: replicate_append_same)
  moreover have "prod_run malloc (Suc n) (prod s, mem s) = prod_step malloc (prod ?s) (mem ?s)"
    using Suc by (simp add: prod_run_def)
  moreover have "prod_step malloc P m = (P, m)" if "prod_returned P" for P and m :: "'a rwq"
    using that by (cases P) auto
  ultimately show ?case by (simp add: split_def Let_def observe_def)
qed (simp add: prod_run_def spsc_run_def)

lemma spsc_run_consumer:
  assumes "\<not> cons_returned (cons s)"
  shows "cons_run n (cons s, mem s) =
    (cons (spsc_run malloc (replicate n Step_Consumer) s), mem (spsc_run malloc (replicate n Step_Consumer) s))"
proof (induction n)
  case (Suc n)
  let ?s = "spsc_run malloc (replicate n Step_Consumer) s"
  have "spsc_run malloc (replicate (Suc n) Step_Consumer) s = spsc_step malloc Step_Consumer ?s"
    unfolding spsc_run_def by (simp flip: replicate_append_same)
  moreover have "cons_run (Suc n) (cons s, mem s) = cons_step (cons ?s) (mem ?s)"
    using Suc by (simp add: cons_run_def)
  moreover have "cons_step C m = (C, m)" if "cons_returned C" for C and m :: "'a rwq"
    using that by (cases C) auto
  ultimately show ?case by (simp add: split_def Let_def observe_def)
qed (simp add: cons_run_def spsc_run_def)

text \<open>C27. Cutting the operations into steps changes nothing for a thread that is alone: the steps of a call, taken one after the
  other, give the answer and the memory of \<open>inner_enqueue\<close> and of \<open>try_dequeue\<close> as one operation.\<close>

theorem spsc_alone:
  assumes "rwq_repr q xs"
  shows "(\<exists>r q' s. inner_enqueue a malloc x q = (Inr r, q') \<and>
      s = spsc_run malloc (Call_Enqueue a x # replicate 7 Step_Producer) (spsc_new q) \<and> prod s = P_Done x r \<and> mem s = q') \<and>
    (\<exists>r q' s. try_dequeue q = (Inr r, q') \<and>
      s = spsc_run malloc (Call_Dequeue # replicate 9 Step_Consumer) (spsc_new q) \<and> cons s = C_Done r \<and> mem s = q')"
    (is "?enq \<and> ?deq")
proof
  obtain bs xss k where rel: "rwq_rel q bs xss k" using assms by (auto simp: rwq_repr_def)
  note r = rwq_relD [OF rel]
  have "bs ! k < mallocs q" using r(3,8) by simp
  then have fresh: "tailBlock q \<noteq> mallocs q" using r(6) by simp
  obtain b q' where e: "inner_enqueue a malloc x q = (Inr b, q')" using inner_enqueue_rel [OF rel] by blast
  let ?s = "(spsc_new q)\<lparr>prod := P_Enter a x, high := 0\<rparr>"
  have "spsc_run malloc (Call_Enqueue a x # replicate 7 Step_Producer) (spsc_new q) = spsc_run malloc (replicate 7 Step_Producer) ?s"
    by (simp add: spsc_run_def spsc_new_def)
  moreover have "prod_run malloc 7 (P_Enter a x, q) = (P_Done x b, q')" by (rule inner_enqueue_alone [OF e fresh])
  ultimately show ?enq
    using e spsc_run_producer [of ?s malloc 7] by (simp add: spsc_new_def)
  obtain c q2 where d: "try_dequeue q = (Inr c, q2)" using try_dequeue_repr [OF rel] by (auto split: list.splits)
  let ?t = "(spsc_new q)\<lparr>cons := C_Enter, low := 0\<rparr>"
  have "spsc_run malloc (Call_Dequeue # replicate 9 Step_Consumer) (spsc_new q) = spsc_run malloc (replicate 9 Step_Consumer) ?t"
    by (simp add: spsc_run_def spsc_new_def)
  then show ?deq
    using d try_dequeue_alone [OF d] spsc_run_consumer [of ?t 9 malloc] by (simp add: spsc_new_def)
qed

theorem spsc_alone_witness:
  "\<exists>q. (\<exists>r q' s. inner_enqueue True (\<lambda>_. True) (5 :: int) q = (Inr r, q') \<and>
      s = spsc_run (\<lambda>_. True) (Call_Enqueue True 5 # replicate 7 Step_Producer) (spsc_new q) \<and> prod s = P_Done 5 r \<and> mem s = q') \<and>
    (\<exists>r q' s. try_dequeue q = (Inr r, q') \<and>
      s = spsc_run (\<lambda>_. True) (Call_Dequeue # replicate 9 Step_Consumer) (spsc_new q) \<and> cons s = C_Done r \<and> mem s = q')"
proof -
  obtain q :: "int rwq" where "rwq_holds (unat (1 :: size_t)) q []"
    using rwq_new_holds [where malloc = "\<lambda>_. True" and sz = 1] by auto
  then have "rwq_repr q []" by (auto simp: rwq_holds_def rwq_repr_def)
  from spsc_alone [where malloc = "\<lambda>_. True" and a = True and x = 5, OF this] show ?thesis by (rule exI)
qed

end
