(* ===== verification/RW_Queue_Races.thy ===== *)
theory RW_Queue_Races
  imports RW_Queue_SPSC_Props
begin

text \<open>
  Data races on \<open>ReaderWriterQueue\<close>.  Its indices and pointers are \<open>weak_atomic\<close>; the slots of a block, the
  shadow copies \<open>localFront\<close> and \<open>localTail\<close>, the members set by the constructor of a block and
  \<open>largestBlockSize\<close> are plain memory, which two threads must not access at the same time when one writes.
  Here: which plain memory each step reads and writes, and that the next steps of the two threads never clash.
\<close>

section \<open>Plain memory\<close>

text \<open>\<open>Fixed n\<close> are \<open>data\<close> and \<open>sizeMask\<close> of block \<open>n\<close>.\<close>

datatype plain = Slot nat size_t | Local_Front nat | Local_Tail nat | Fixed nat | Largest

datatype access = Read plain | Write plain

fun location :: "access \<Rightarrow> plain" where
  "location (Read l) = l"
| "location (Write l) = l"

fun writes :: "access \<Rightarrow> bool" where
  "writes (Read l) = False"
| "writes (Write l) = True"

definition clash :: "access set \<Rightarrow> access set \<Rightarrow> bool" where
  "clash A B \<longleftrightarrow> (\<exists>a \<in> A. \<exists>b \<in> B. location a = location b \<and> (writes a \<or> writes b))"

text \<open>A new block is written by its constructor, all of it.\<close>

definition whole_block :: "nat \<Rightarrow> access set" where
  "whole_block n = {Write (Local_Front n), Write (Local_Tail n), Write (Fixed n)} \<union> range (\<lambda>i. Write (Slot n i))"

fun prod_access :: "'a producer_pc \<Rightarrow> 'a rwq \<Rightarrow> access set" where
  "prod_access (P_Enter a x) q = {Read (Local_Front (tailBlock q)), Read (Fixed (tailBlock q))}"
| "prod_access (P_Reload a x p t t') q = {Write (Local_Front p)}"
| "prod_access (P_Construct x p t t') q = {Read (Fixed p), Write (Slot p t)}"
| "prod_access (P_Next x p) q =
     (case blocks q p of
        None \<Rightarrow> {}
      | Some b \<Rightarrow> (case next_block b of None \<Rightarrow> {} | Some n \<Rightarrow> {Write (Local_Front n)}))"
| "prod_access (P_Construct_Next x n t) q = {Read (Fixed n), Write (Slot n t)}"
| "prod_access (P_Publish_Next x n t) q = {Read (Fixed n)}"
| "prod_access (P_Alloc x p) q = {Read Largest, Write Largest} \<union> whole_block (mallocs q)"
| "prod_access _ q = {}"

fun cons_access :: "'a consumer_pc \<Rightarrow> 'a rwq \<Rightarrow> access set" where
  "cons_access C_Enter q = {Read (Local_Tail (frontBlock q))}"
| "cons_access (C_Reload p f) q = {Write (Local_Tail p)}"
| "cons_access C_Recheck q = {Write (Local_Tail (frontBlock q))}"
| "cons_access (C_Next_Read n) q = {Write (Local_Tail n)}"
| "cons_access (C_Take p f) q = {Read (Fixed p), Read (Slot p f), Write (Slot p f)}"
| "cons_access (C_Publish p f x) q = {Read (Fixed p)}"
| "cons_access _ q = {}"

section \<open>The accesses of a step are all it makes\<close>

text \<open>What plain memory holds: a number, an element, or what the constructor of a block set.\<close>

datatype 'a content = Number size_t | Element "'a option" | Block_Size nat size_t | Absent

fun content_of :: "plain \<Rightarrow> 'a rwq \<Rightarrow> 'a content" where
  "content_of (Slot n i) q = (case blocks q n of None \<Rightarrow> Absent | Some b \<Rightarrow> Element (data b ! unat i))"
| "content_of (Local_Front n) q = (case blocks q n of None \<Rightarrow> Absent | Some b \<Rightarrow> Number (localFront b))"
| "content_of (Local_Tail n) q = (case blocks q n of None \<Rightarrow> Absent | Some b \<Rightarrow> Number (localTail b))"
| "content_of (Fixed n) q = (case blocks q n of None \<Rightarrow> Absent | Some b \<Rightarrow> Block_Size (length (data b)) (sizeMask b))"
| "content_of Largest q = Number (largestBlockSize q)"

lemma nth_update_other: "i \<noteq> j \<Longrightarrow> xs[unat (i :: size_t) := x] ! unat j = xs ! unat j"
  by (rule nth_list_update_neq) (simp add: word_eq_unat)

lemma prod_writes:
  assumes "Write l \<notin> prod_access P q"
  shows "content_of l (snd (prod_step malloc P q)) = content_of l q"
  using assms
  by (cases "(malloc, P, q)" rule: prod_step.cases; cases l)
    (auto simp: with_block_def construct_at_def nth_update_other make_block_def Let_def whole_block_def split: option.splits)

lemma cons_writes:
  assumes "Write l \<notin> cons_access C q"
  shows "content_of l (snd (cons_step C q)) = content_of l q"
  using assms
  by (cases "(C, q)" rule: cons_step.cases; cases l)
    (auto simp: with_block_def object_at_def destroy_at_def nth_update_other split: option.splits)

text \<open>And where a step goes depends on the atomic members and on the plain memory it accesses only.\<close>

definition same_atomics :: "'a rwq \<Rightarrow> 'a rwq \<Rightarrow> bool" where
  "same_atomics q q' \<longleftrightarrow> frontBlock q = frontBlock q' \<and> tailBlock q = tailBlock q' \<and> mallocs q = mallocs q' \<and>
     (\<forall>n. map_option (\<lambda>b. (front b, tail b, next_block b)) (blocks q n) = map_option (\<lambda>b. (front b, tail b, next_block b)) (blocks q' n))"

definition agree_on :: "access set \<Rightarrow> 'a rwq \<Rightarrow> 'a rwq \<Rightarrow> bool" where
  "agree_on A q q' \<longleftrightarrow> (\<forall>a \<in> A. content_of (location a) q = content_of (location a) q')"

lemma same_atomics_block:
  assumes "same_atomics q q'"
  obtains "blocks q n = None" "blocks q' n = None"
  | b b' where "blocks q n = Some b" "blocks q' n = Some b'" "front b = front b'" "tail b = tail b'" "next_block b = next_block b'"
proof -
  have "map_option (\<lambda>b. (front b, tail b, next_block b)) (blocks q n) = map_option (\<lambda>b. (front b, tail b, next_block b)) (blocks q' n)"
    using assms by (simp add: same_atomics_def)
  then show thesis using that by (cases "blocks q n"; cases "blocks q' n") auto
qed

lemma same_atomics_fields:
  "same_atomics q q' \<Longrightarrow> frontBlock q = frontBlock q'" "same_atomics q q' \<Longrightarrow> tailBlock q = tailBlock q'"
  "same_atomics q q' \<Longrightarrow> mallocs q = mallocs q'"
  by (simp_all add: same_atomics_def)

lemma cons_reads:
  assumes s: "same_atomics q q'" and a: "agree_on (cons_access C q) q q'"
  shows "fst (cons_step C q) = fst (cons_step C q')"
proof (cases C)
  case C_Enter
  then show ?thesis using a same_atomics_fields [OF s]
    by (cases rule: same_atomics_block [OF s, of "frontBlock q"]) (auto simp: with_block_def agree_on_def)
next
  case (C_Reload p f)
  then show ?thesis by (cases rule: same_atomics_block [OF s, of p]) (auto simp: with_block_def)
next
  case C_Recheck
  then show ?thesis using same_atomics_fields [OF s]
    by (cases rule: same_atomics_block [OF s, of "frontBlock q"]) (auto simp: with_block_def)
next
  case (C_Next p)
  then show ?thesis by (cases rule: same_atomics_block [OF s, of p]) (auto simp: with_block_def)
next
  case (C_Next_Read n)
  then show ?thesis by (cases rule: same_atomics_block [OF s, of n]) (auto simp: with_block_def)
next
  case (C_Take p f)
  then show ?thesis using a
    by (cases rule: same_atomics_block [OF s, of p]) (auto simp: with_block_def object_at_def agree_on_def split: option.splits)
next
  case (C_Publish p f x)
  then show ?thesis by (cases rule: same_atomics_block [OF s, of p]) (auto simp: with_block_def)
qed (use same_atomics_fields [OF s] in simp_all)

lemma prod_reads:
  assumes s: "same_atomics q q'" and a: "agree_on (prod_access P q) q q'"
  shows "fst (prod_step malloc P q) = fst (prod_step malloc P q')"
proof (cases P)
  case (P_Enter c x)
  then show ?thesis using a same_atomics_fields [OF s]
    by (cases rule: same_atomics_block [OF s, of "tailBlock q"]) (auto simp: with_block_def agree_on_def Let_def)
next
  case (P_Reload c x p t t')
  then show ?thesis by (cases rule: same_atomics_block [OF s, of p]) (auto simp: with_block_def)
next
  case (P_Construct x p t t')
  then show ?thesis using a
    by (cases rule: same_atomics_block [OF s, of p]) (auto simp: with_block_def construct_at_def agree_on_def)
next
  case (P_Publish x p t t')
  then show ?thesis by (cases rule: same_atomics_block [OF s, of p]) (auto simp: with_block_def)
next
  case (P_Check_Next c x p)
  then show ?thesis using same_atomics_fields [OF s]
    by (cases rule: same_atomics_block [OF s, of p]) (auto simp: with_block_def)
next
  case (P_Next x p)
  show ?thesis
  proof (cases rule: same_atomics_block [OF s, of p])
    case (2 b b')
    show ?thesis
    proof (cases "next_block b")
      case (Some n)
      then show ?thesis using 2 P_Next by (cases rule: same_atomics_block [OF s, of n]) (auto simp: with_block_def)
    qed (use 2 P_Next in \<open>simp add: with_block_def\<close>)
  qed (use P_Next in \<open>simp add: with_block_def\<close>)
next
  case (P_Construct_Next x n t)
  then show ?thesis using a
    by (cases rule: same_atomics_block [OF s, of n]) (auto simp: with_block_def construct_at_def agree_on_def)
next
  case (P_Publish_Next x n t)
  then show ?thesis by (cases rule: same_atomics_block [OF s, of n]) (auto simp: with_block_def)
next
  case (P_Alloc x p)
  then have "largestBlockSize q = largestBlockSize q'" using a by (auto simp: agree_on_def)
  then show ?thesis using same_atomics_fields [OF s] P_Alloc
    by (cases rule: same_atomics_block [OF s, of p])
      (auto simp: with_block_def construct_at_def make_block_def new_block_def Let_def)
next
  case (P_Link x p n)
  then show ?thesis by (cases rule: same_atomics_block [OF s, of p]) (auto simp: with_block_def)
qed simp_all

section \<open>No clash\<close>

lemma cons_blocks_in_ring:
  assumes rel: "rwq_rel q bs xss k" and ok: "cons_ok l C q bs xss k" and n: "n \<notin> set bs"
    and a: "a \<in> cons_access C (overlay P C' q)"
  shows "Local_Front n \<noteq> location a \<and> Local_Tail n \<noteq> location a \<and> Fixed n \<noteq> location a \<and> Slot n i \<noteq> location a \<and>
    Largest \<noteq> location a"
proof -
  note r = rwq_relD [OF rel]
  have "bs ! 0 \<noteq> n" using n r(4) nth_mem by blast
  moreover have "0 < k \<Longrightarrow> bs ! 1 \<noteq> n" using n r(3) nth_mem [of 1 bs] by auto
  ultimately show ?thesis using ok a r(5) by (cases C) auto
qed

text \<open>The slot the producer is about to fill is not the one the consumer is about to empty.\<close>

lemma slots_apart:
  assumes rel: "rwq_rel q bs xss k" and C: "cons_ok l (C_Take p f) q bs xss k"
    and i: "i < length bs" "blocks q (bs ! i) = Some b" "block_rel j b (xss ! i)"
  shows "p = bs ! i \<Longrightarrow> f \<noteq> tail b"
proof -
  assume p: "p = bs ! i"
  then have c: "bs ! i = bs ! 0" "xss ! 0 \<noteq> []" "f = front b" using C i(2) by (auto simp: elem_def)
  have "i = 0" using c(1) rwq_relD(1,4) [OF rel] i(1) by (simp add: nth_eq_iff_index_eq)
  then show "f \<noteq> tail b" using c(2,3) block_empty_iff [OF i(3)] by simp
qed

lemma construct_apart:
  assumes rel: "rwq_rel q bs xss k" and C: "cons_ok l C q bs xss k" and i: "i < length bs"
    and t: "\<And>b. blocks q (bs ! i) = Some b \<Longrightarrow> t = tail b"
  shows "\<not> clash {Read (Fixed (bs ! i)), Write (Slot (bs ! i) t)} (cons_access C m)"
proof -
  obtain b j where b: "blocks q (bs ! i) = Some b" "block_rel j b (xss ! i)" using rel i by (rule ring_block)
  have "C \<noteq> C_Take (bs ! i) t"
  proof
    assume eq: "C = C_Take (bs ! i) t"
    have "cons_ok l (C_Take (bs ! i) t) q bs xss k" using C unfolding eq .
    from slots_apart [OF rel this i b refl] show False using t [OF b(1)] by simp
  qed
  then show ?thesis by (cases C) (auto simp: clash_def)
qed

lemma state_ok_no_clash:
  assumes "state_ok na n h l P C m ys"
  shows "\<not> clash (prod_access P m) (cons_access C m)"
proof -
  obtain q bs xss k where i: "rwq_rel q bs xss k" "m = overlay P C q" "prod_ok P q bs xss k" "cons_ok l C q bs xss k"
    using assms by (rule state_okE)
  note r = rwq_relD [OF i(1)]
  show ?thesis
  proof (cases P)
    case (P_Construct x p t t')
    then have "p = bs ! k" "\<And>b. blocks q (bs ! k) = Some b \<Longrightarrow> t = tail b" using i(3) by (auto simp: next_tail_def)
    with construct_apart [OF i(1,4) r(3) this(2)] show ?thesis using P_Construct by simp
  next
    case (P_Construct_Next x p t)
    then have "p = bs ! Suc k" "Suc k < length bs" "\<And>b. blocks q (bs ! Suc k) = Some b \<Longrightarrow> t = tail b"
      using i(3) by (auto simp: room_def)
    with construct_apart [OF i(1,4) this(2,3)] show ?thesis using P_Construct_Next by simp
  next
    case (P_Alloc x p)
    have "mallocs q \<notin> set bs" using r(8) by blast
    note fresh = cons_blocks_in_ring [OF i(1,4) this, of _ P C]
    have "location a \<noteq> location b" if a: "a \<in> prod_access P m" and b: "b \<in> cons_access C m" for a b
    proof -
      have "location a \<in> {Largest, Local_Front (mallocs q), Local_Tail (mallocs q), Fixed (mallocs q)} \<union> range (Slot (mallocs q))"
        using a P_Alloc by (auto simp: whole_block_def i(2))
      then show ?thesis using fresh [OF b [unfolded i(2)]] by auto
    qed
    then show ?thesis by (auto simp: clash_def)
  next
    case (P_Next x p)
    then show ?thesis by (cases C) (auto simp: clash_def split: option.splits)
  qed (cases C; auto simp: clash_def)+
qed

text \<open>C5. No data race: two threads share a \<open>ReaderWriterQueue\<close> constructed for \<open>sz\<close> elements, and at no point of no
  interleaving of their steps are both about to access the same plain memory (a slot, a shadow index, a
  member fixed by the constructor of a block, the size of the largest block) where one of them writes.  Each step
  writes no plain memory but what it is said to.\<close>

theorem spsc_no_data_race:
  assumes "0 < sz" "unat sz < 2 ^ 62" "\<And>p. p < initial_blocks (unat sz) \<Longrightarrow> malloc p"
  shows "\<exists>q s. rwq_new malloc sz = (Inr (), q) \<and> s = spsc_run malloc acts (spsc_new q) \<and>
    \<not> clash (prod_access (prod s) (mem s)) (cons_access (cons s) (mem s)) \<and>
    (\<forall>l. content_of l (snd (prod_step malloc (prod s) (mem s))) \<noteq> content_of l (mem s) \<longrightarrow> Write l \<in> prod_access (prod s) (mem s)) \<and>
    (\<forall>l. content_of l (snd (cons_step (cons s) (mem s))) \<noteq> content_of l (mem s) \<longrightarrow> Write l \<in> cons_access (cons s) (mem s))"
proof -
  obtain q :: "'a rwq" where q: "rwq_new malloc sz = (Inr (), q)" "rwq_holds (unat sz) q []"
    using rwq_new_holds [where malloc = malloc, OF assms] by blast
  define s where "s = spsc_run malloc acts (spsc_new q)"
  have "spsc_inv False (unat sz) s" unfolding s_def by (rule spsc_run_inv [OF spsc_inv_new [OF q(2)]]) simp
  then have "\<not> clash (prod_access (prod s) (mem s)) (cons_access (cons s) (mem s))"
    unfolding spsc_inv_def by (elim exE conjE) (rule state_ok_no_clash)
  with q(1) s_def show ?thesis
    by (intro exI conjI allI impI) (assumption | erule contrapos_np, rule prod_writes cons_writes, assumption)+
qed

theorem spsc_no_data_race_witness:
  "\<exists>q s. rwq_new (\<lambda>_. True) 1 = (Inr (), q) \<and>
    s = spsc_run (\<lambda>_. True) [Call_Enqueue True (7 :: int), Step_Producer, Step_Producer, Step_Producer,
      Call_Dequeue, Step_Consumer, Step_Consumer, Call_Enqueue True 8, Step_Producer] (spsc_new q) \<and>
    \<not> clash (prod_access (prod s) (mem s)) (cons_access (cons s) (mem s)) \<and>
    (\<forall>l. content_of l (snd (prod_step (\<lambda>_. True) (prod s) (mem s))) \<noteq> content_of l (mem s) \<longrightarrow> Write l \<in> prod_access (prod s) (mem s)) \<and>
    (\<forall>l. content_of l (snd (cons_step (cons s) (mem s))) \<noteq> content_of l (mem s) \<longrightarrow> Write l \<in> cons_access (cons s) (mem s))"
  by (rule spsc_no_data_race) simp_all

end
