(* ===== verification/Blocking_Queue.thy ===== *)
theory Blocking_Queue
  imports RW_Queue_Capacity
begin

text \<open>
  \<open>LightweightSemaphore\<close> and the POSIX \<open>Semaphore\<close> of \<open>utils/queues/moodycamel/atomicops.h\<close>, and
  \<open>BlockingReaderWriterQueue\<close> of \<open>readerwriterqueue.h\<close>, which counts the elements of its inner queue in
  the semaphore.  A wait that nobody can end, in a program where the operations run one at a time,
  is \<open>Deadlock\<close>.
\<close>

section \<open>Semaphores\<close>

text \<open>\<open>m_count\<close> is a signed 64 bit counter; \<open>m_sema\<close> is the count of the kernel's semaphore.\<close>

record sema =
  m_count :: "64 word"
  m_sema :: nat

definition sema_new :: sema where
  "sema_new = \<lparr>m_count = 0, m_sema = 0\<rparr>"

text \<open>\<open>fetch_add_acquire\<close>, \<open>fetch_add_release\<close>: the old value and the new state.\<close>

definition fetch_add :: "64 word \<Rightarrow> sema \<Rightarrow> int \<times> sema" where
  "fetch_add d s = (sint (m_count s), s\<lparr>m_count := m_count s + d\<rparr>)"

text \<open>\<open>Semaphore::wait\<close>, \<open>try_wait\<close>, \<open>timed_wait\<close> and \<open>signal\<close>.\<close>

definition posix_wait :: "sema \<Rightarrow> bool result \<times> sema" where
  "posix_wait s = (if m_sema s = 0 then (Inl Deadlock, s) else (Inr True, s\<lparr>m_sema := m_sema s - 1\<rparr>))"

definition posix_try_wait :: "sema \<Rightarrow> bool \<times> sema" where
  "posix_try_wait s = (if m_sema s = 0 then (False, s) else (True, s\<lparr>m_sema := m_sema s - 1\<rparr>))"

definition posix_timed_wait :: "sema \<Rightarrow> bool \<times> sema" where
  "posix_timed_wait s = posix_try_wait s"

definition posix_signal :: "sema \<Rightarrow> sema" where
  "posix_signal s = s\<lparr>m_sema := Suc (m_sema s)\<rparr>"

definition sema_try_wait :: "sema \<Rightarrow> bool \<times> sema" where
  "sema_try_wait s = (if 0 < sint (m_count s) then (True, snd (fetch_add (-1) s)) else (False, s))"

text \<open>The spinning phase, with the iterations left.\<close>

primrec spin_wait :: "nat \<Rightarrow> sema \<Rightarrow> bool \<times> sema" where
  "spin_wait 0 s = (False, s)"
| "spin_wait (Suc spin) s = (if 0 < sint (m_count s) then (True, snd (fetch_add (-1) s)) else spin_wait spin s)"

text \<open>The loop that takes the decrement back after a timeout.\<close>

primrec sema_restore :: "nat \<Rightarrow> sema \<Rightarrow> bool result \<times> sema" where
  "sema_restore 0 s = (Inl No_Return, s)"
| "sema_restore (Suc fuel) s =
     (let (oldCount, s) = fetch_add 1 s in
      if oldCount < 0 then (Inr False, s)
      else let (oldCount, s) = fetch_add (-1) s in
        if 0 < oldCount
        then let (ok, s) = posix_try_wait s in if ok then (Inr True, s) else sema_restore fuel s
        else sema_restore fuel s)"

definition wait_with_partial_spinning :: "nat \<Rightarrow> int \<Rightarrow> sema \<Rightarrow> bool result \<times> sema" where
  "wait_with_partial_spinning fuel timeout_usecs s =
     (let (got, s) = spin_wait 1024 s in
      if got then (Inr True, s)
      else let (oldCount, s) = fetch_add (-1) s in
        if 0 < oldCount then (Inr True, s)
        else and_then (if timeout_usecs < 0 then posix_wait s else (Inr False, s)) (\<lambda>got s.
          if got then (Inr True, s)
          else let (got, s) = (if 0 < timeout_usecs then posix_timed_wait s else (False, s)) in
            if got then (Inr True, s) else sema_restore fuel s))"

definition sema_wait :: "nat \<Rightarrow> int \<Rightarrow> sema \<Rightarrow> bool result \<times> sema" where
  "sema_wait fuel timeout_usecs s =
     (let (got, s) = sema_try_wait s in if got then (Inr True, s) else wait_with_partial_spinning fuel timeout_usecs s)"

definition sema_signal :: "sema \<Rightarrow> unit result \<times> sema" where
  "sema_signal s =
     (let (oldCount, s) = fetch_add 1 s in
      if oldCount < -1 then (Inl Assert_Fail, s)
      else if oldCount < 0 then (Inr (), posix_signal s) else (Inr (), s))"

definition available_approx :: "sema \<Rightarrow> size_t" where
  "available_approx s = (if 0 < sint (m_count s) then m_count s else 0)"

section \<open>The blocking queue\<close>

record 'a brwq =
  inner :: "'a rwq"
  sema :: sema

definition brwq_new :: "(nat \<Rightarrow> bool) \<Rightarrow> size_t \<Rightarrow> unit result \<times> 'a brwq" where
  "brwq_new malloc sz = (let (r, q) = rwq_new malloc sz in (r, \<lparr>inner = q, sema = sema_new\<rparr>))"

text \<open>Run an operation of a member of the queue.\<close>

definition on_inner :: "('a rwq \<Rightarrow> 'r result \<times> 'a rwq) \<Rightarrow> 'a brwq \<Rightarrow> 'r result \<times> 'a brwq" where
  "on_inner f q = (let (r, i) = f (inner q) in (r, q\<lparr>inner := i\<rparr>))"

definition on_sema :: "(sema \<Rightarrow> 'r result \<times> sema) \<Rightarrow> 'a brwq \<Rightarrow> 'r result \<times> 'a brwq" where
  "on_sema f q = (let (r, s) = f (sema q) in (r, q\<lparr>sema := s\<rparr>))"

definition signal_if :: "bool \<Rightarrow> 'a brwq \<Rightarrow> bool result \<times> 'a brwq" where
  "signal_if ok q = (if ok then and_then (on_sema sema_signal q) (\<lambda>_ q. (Inr True, q)) else (Inr False, q))"

definition brwq_try_enqueue :: "'a \<Rightarrow> 'a brwq \<Rightarrow> bool result \<times> 'a brwq" where
  "brwq_try_enqueue element q = and_then (on_inner (try_enqueue element) q) signal_if"

definition brwq_enqueue :: "(nat \<Rightarrow> bool) \<Rightarrow> 'a \<Rightarrow> 'a brwq \<Rightarrow> bool result \<times> 'a brwq" where
  "brwq_enqueue malloc element q = and_then (on_inner (enqueue malloc element) q) signal_if"

text \<open>\<open>success = inner.try_dequeue(result); assert(success)\<close>\<close>

definition take_inner :: "'a brwq \<Rightarrow> 'a option result \<times> 'a brwq" where
  "take_inner q = and_then (on_inner try_dequeue q) (\<lambda>r q. case r of None \<Rightarrow> (Inl Assert_Fail, q) | Some x \<Rightarrow> (Inr (Some x), q))"

definition brwq_try_dequeue :: "'a brwq \<Rightarrow> 'a option result \<times> 'a brwq" where
  "brwq_try_dequeue q =
     and_then (on_sema (\<lambda>s. let (ok, s) = sema_try_wait s in (Inr ok, s)) q) (\<lambda>ok q.
       if ok then take_inner q else (Inr None, q))"

text \<open>\<open>while (!sema->wait());\<close> goes round again only where \<open>wait\<close> returns \<open>false\<close>.\<close>

primrec brwq_wait_dequeue :: "nat \<Rightarrow> nat \<Rightarrow> 'a brwq \<Rightarrow> 'a option result \<times> 'a brwq" where
  "brwq_wait_dequeue 0 fuel q = (Inl No_Return, q)"
| "brwq_wait_dequeue (Suc rounds) fuel q =
     and_then (on_sema (sema_wait fuel (-1)) q) (\<lambda>ok q. if ok then take_inner q else brwq_wait_dequeue rounds fuel q)"

definition brwq_wait_dequeue_timed :: "nat \<Rightarrow> int \<Rightarrow> 'a brwq \<Rightarrow> 'a option result \<times> 'a brwq" where
  "brwq_wait_dequeue_timed fuel timeout_usecs q =
     and_then (on_sema (sema_wait fuel timeout_usecs) q) (\<lambda>ok q. if ok then take_inner q else (Inr None, q))"

definition brwq_peek :: "'a brwq \<Rightarrow> 'a option result \<times> 'a brwq" where
  "brwq_peek = on_inner rwq_peek"

definition brwq_pop :: "'a brwq \<Rightarrow> bool result \<times> 'a brwq" where
  "brwq_pop q =
     and_then (on_sema (\<lambda>s. let (ok, s) = sema_try_wait s in (Inr ok, s)) q) (\<lambda>ok q.
       if ok then and_then (on_inner rwq_pop q) (\<lambda>r q. if r then (Inr True, q) else (Inl Assert_Fail, q))
       else (Inr False, q))"

definition brwq_size_approx :: "'a brwq \<Rightarrow> size_t" where
  "brwq_size_approx q = available_approx (sema q)"

section \<open>The semaphore counts the elements\<close>

definition brwq_repr :: "nat \<Rightarrow> 'a brwq \<Rightarrow> 'a list \<Rightarrow> bool" where
  "brwq_repr c q xs \<longleftrightarrow> rwq_single c (inner q) xs \<and> c < 2 ^ 62 \<and> m_count (sema q) = word_of_int (int (length xs)) \<and> m_sema (sema q) = 0"

lemma sint_of_int_small: "- (2 ^ 63) \<le> k \<Longrightarrow> k < 2 ^ 63 \<Longrightarrow> sint (word_of_int k :: 64 word) = k"
  by (simp add: signed_of_int signed_take_bit_int_eq_self)

lemma fetch_add_of_int:
  assumes "m_count s = word_of_int k" "- (2 ^ 63) \<le> k" "k < 2 ^ 63"
  shows "fetch_add 1 s = (k, s\<lparr>m_count := word_of_int (k + 1)\<rparr>)"
    and "fetch_add (-1) s = (k, s\<lparr>m_count := word_of_int (k - 1)\<rparr>)"
  using assms by (simp_all add: fetch_add_def sint_of_int_small)

lemma try_wait_of_int:
  assumes "m_count s = word_of_int k" "- (2 ^ 63) \<le> k" "k < 2 ^ 63"
  shows "sema_try_wait s = (if 0 < k then (True, s\<lparr>m_count := word_of_int (k - 1)\<rparr>) else (False, s))"
  using assms fetch_add_of_int(2) [OF assms] by (simp add: sema_try_wait_def sint_of_int_small)

lemma spin_of_int:
  assumes "m_count s = word_of_int k" "- (2 ^ 63) \<le> k" "k \<le> 0"
  shows "spin_wait n s = (False, s)"
  using assms by (induction n) (simp_all add: sint_of_int_small)

text \<open>Waiting on an empty semaphore: with a time limit the count is put back, without one the wait never ends.\<close>

lemma sema_wait_empty:
  assumes "m_count s = 0" "m_sema s = 0" "0 < fuel"
  shows "sema_wait fuel t s = (if t < 0 then (Inl Deadlock, s\<lparr>m_count := -1\<rparr>) else (Inr False, s))"
proof -
  have z: "m_count s = word_of_int 0" using assms(1) by simp
  have f: "fetch_add (-1) s = (0, s\<lparr>m_count := -1\<rparr>)" using fetch_add_of_int(2) [OF z] by simp
  have bk: "fetch_add 1 (s\<lparr>m_count := -1\<rparr>) = (-1, s)"
    using fetch_add_of_int(1) [of "s\<lparr>m_count := -1\<rparr>" "-1"] assms(1) by (cases s) simp
  obtain n where n: "fuel = Suc n" using assms(3) by (cases fuel) auto
  have r: "sema_restore fuel (s\<lparr>m_count := -1\<rparr>) = (Inr False, s)" unfolding n by (simp add: bk)
  have sp: "spin_wait 1024 s = (False, s)" by (rule spin_of_int [OF z]) simp_all
  have tw: "sema_try_wait s = (False, s)" using try_wait_of_int [OF z] by simp
  show ?thesis unfolding sema_wait_def wait_with_partial_spinning_def
    using assms(2) r f tw sp by (auto simp: posix_wait_def posix_timed_wait_def posix_try_wait_def)
qed

lemma sema_wait_some:
  assumes "m_count s = word_of_int k" "0 < k" "k < 2 ^ 63"
  shows "sema_wait fuel t s = (Inr True, s\<lparr>m_count := word_of_int (k - 1)\<rparr>)"
  using try_wait_of_int [OF assms(1)] assms by (simp add: sema_wait_def)

lemma signal_of_int:
  assumes "m_count s = word_of_int k" "0 \<le> k" "k < 2 ^ 63"
  shows "sema_signal s = (Inr (), s\<lparr>m_count := word_of_int (k + 1)\<rparr>)"
  using fetch_add_of_int(1) [OF assms(1)] assms by (simp add: sema_signal_def)

section \<open>The operations\<close>

lemma single_small: "rwq_single c q xs \<Longrightarrow> c < 2 ^ 62 \<Longrightarrow> int (length xs) < 2 ^ 62"
  using rwq_rel_length unfolding rwq_single_def by fastforce

lemma brwq_push:
  assumes "brwq_repr c q xs"
  shows "\<exists>q'. brwq_try_enqueue x q = (Inr (Suc (length xs) < c), q') \<and>
    brwq_repr c q' (if Suc (length xs) < c then xs @ [x] else xs)"
proof -
  have q: "rwq_single c (inner q) xs" "c < 2 ^ 62" "m_count (sema q) = word_of_int (int (length xs))" "m_sema (sema q) = 0"
    using assms by (simp_all add: brwq_repr_def)
  obtain i where i: "try_enqueue x (inner q) = (Inr (Suc (length xs) < c), i)"
    "rwq_single c i (if Suc (length xs) < c then xs @ [x] else xs)"
    using rwq_single_enqueue [OF q(1)] by blast
  have "sema_signal (sema q) = (Inr (), (sema q)\<lparr>m_count := word_of_int (int (length xs) + 1)\<rparr>)"
    by (rule signal_of_int [OF q(3)]) (use single_small [OF q(1,2)] in simp_all)
  then show ?thesis
    using q i by (auto simp: brwq_try_enqueue_def on_inner_def on_sema_def signal_if_def brwq_repr_def add.commute)
qed

lemma brwq_take:
  assumes "brwq_repr c q (x # xs)"
  defines "s \<equiv> (sema q)\<lparr>m_count := word_of_int (int (length xs))\<rparr>"
  shows "\<exists>q'. take_inner (q\<lparr>sema := s\<rparr>) = (Inr (Some x), q') \<and> brwq_repr c q' xs"
    and "sema_try_wait (sema q) = (True, s)" "sema_wait fuel t (sema q) = (Inr True, s)"
proof -
  have q: "rwq_single c (inner q) (x # xs)" "c < 2 ^ 62" "m_sema (sema q) = 0"
    and m: "m_count (sema q) = word_of_int (int (length (x # xs)))"
    using assms(1) by (simp_all add: brwq_repr_def)
  obtain i where "try_dequeue (inner q) = (Inr (Some x), i)" "rwq_single c i xs"
    using rwq_single_dequeue(1) [OF q(1)] by auto
  then show "\<exists>q'. take_inner (q\<lparr>sema := s\<rparr>) = (Inr (Some x), q') \<and> brwq_repr c q' xs"
    using q by (auto simp: take_inner_def on_inner_def brwq_repr_def s_def)
  have b: "0 < int (length (x # xs))" "int (length (x # xs)) < 2 ^ 63" "- (2 ^ 63) \<le> int (length (x # xs))"
    using single_small [OF q(1,2)] by simp_all
  show "sema_try_wait (sema q) = (True, s)"
    using try_wait_of_int [OF m b(3,2)] by (simp add: s_def)
  show "sema_wait fuel t (sema q) = (Inr True, s)"
    using sema_wait_some [OF m b(1,2)] by (simp add: s_def)
qed

lemma brwq_pop_law:
  "brwq_repr c q [] \<Longrightarrow> brwq_try_dequeue q = (Inr None, q)"
  "brwq_repr c q (x # xs) \<Longrightarrow> \<exists>q'. brwq_try_dequeue q = (Inr (Some x), q') \<and> brwq_repr c q' xs"
proof -
  show "brwq_try_dequeue q = (Inr None, q)" if "brwq_repr c q []"
    using that by (simp add: brwq_repr_def brwq_try_dequeue_def on_sema_def sema_try_wait_def)
  show "\<exists>q'. brwq_try_dequeue q = (Inr (Some x), q') \<and> brwq_repr c q' xs" if "brwq_repr c q (x # xs)"
    using brwq_take(1,2) [OF that] by (simp add: brwq_try_dequeue_def on_sema_def)
qed

lemma brwq_peek_law:
  assumes "brwq_repr c q (x # xs)"
  shows "\<exists>q'. brwq_peek q = (Inr (Some x), q') \<and> brwq_repr c q' (x # xs)"
proof -
  have "rwq_single c (inner q) (x # xs)" using assms by (simp add: brwq_repr_def)
  from rwq_single_dequeue(2) [OF this refl] show ?thesis
    using assms by (auto simp: brwq_peek_def on_inner_def brwq_repr_def)
qed

end
