(* ===== verification/Blocking_SPSC.thy ===== *)
theory Blocking_SPSC
  imports RW_Queue_SPSC_Props Blocking_Queue
begin

text \<open>
  \<open>BlockingReaderWriterQueue\<close> shared by a producer and a consumer thread.  The inner queue takes the
  steps of \<open>RW_Queue_SPSC\<close>; around them come those of \<open>LightweightSemaphore\<close>: one step per access to
  \<open>m_count\<close> or to the kernel's semaphore.  A thread that waits on a kernel semaphore of count 0 has no
  step to take, and a wait with a time limit may end at any moment while the count is 0.
\<close>

section \<open>Where a thread is\<close>

text \<open>How the consumer was called: \<open>try_dequeue\<close>, \<open>wait_dequeue\<close>, or \<open>wait_dequeue_timed\<close> with its limit.\<close>

datatype wait_mode = No_Wait | Wait | Wait_Timed int

fun time_limit :: "wait_mode \<Rightarrow> int" where
  "time_limit (Wait_Timed usecs) = usecs"
| "time_limit _ = -1"

datatype bprod_pc = BP_Idle | BP_Inner | BP_Signal | BP_Post | BP_Done bool | BP_Error error

datatype 'a bcons_pc =
    BC_Idle
  | BC_Load wait_mode
  | BC_Take
  | BC_Spin wait_mode nat
  | BC_Decrement wait_mode
  | BC_Wait
  | BC_Wait_Timed wait_mode
  | BC_Restore wait_mode
  | BC_Undo wait_mode
  | BC_Try wait_mode
  | BC_Inner
  | BC_Done "'a option"
  | BC_Error error

record 'a bspsc =
  base :: "'a spsc"
  bsema :: sema
  bprod :: bprod_pc
  bcons :: "'a bcons_pc"

definition bspsc_new :: "'a rwq \<Rightarrow> 'a bspsc" where
  "bspsc_new q = \<lparr>base = spsc_new q, bsema = sema_new, bprod = BP_Idle, bcons = BC_Idle\<rparr>"

section \<open>The producer: \<open>try_enqueue\<close> and \<open>enqueue\<close>\<close>

fun bprod_returned :: "bprod_pc \<Rightarrow> bool" where
  "bprod_returned BP_Idle = True" | "bprod_returned (BP_Done r) = True" | "bprod_returned _ = False"

fun after_enqueue :: "'a producer_pc \<Rightarrow> bprod_pc" where
  "after_enqueue (P_Done x ok) = (if ok then BP_Signal else BP_Done False)"
| "after_enqueue (P_Error e) = BP_Error e"
| "after_enqueue _ = BP_Inner"

definition bprod_step :: "(nat \<Rightarrow> bool) \<Rightarrow> 'a bspsc \<Rightarrow> 'a bspsc" where
  "bprod_step malloc s =
     (case bprod s of
        BP_Inner \<Rightarrow>
          let b = spsc_step malloc Step_Producer (base s) in s\<lparr>base := b, bprod := after_enqueue (prod b)\<rparr>
      | BP_Signal \<Rightarrow>
          let (oldCount, m) = fetch_add 1 (bsema s) in
          s\<lparr>bsema := m, bprod := if oldCount < -1 then BP_Error Assert_Fail
                                  else if oldCount < 0 then BP_Post else BP_Done True\<rparr>
      | BP_Post \<Rightarrow> s\<lparr>bsema := posix_signal (bsema s), bprod := BP_Done True\<rparr>
      | _ \<Rightarrow> s)"

section \<open>The consumer: \<open>try_dequeue\<close>, \<open>wait_dequeue\<close> and \<open>wait_dequeue_timed\<close>\<close>

fun bcons_returned :: "'a bcons_pc \<Rightarrow> bool" where
  "bcons_returned BC_Idle = True" | "bcons_returned (BC_Done r) = True" | "bcons_returned _ = False"

text \<open>\<open>sema->wait\<close> has returned \<open>true\<close>: \<open>inner.try_dequeue\<close> is called; and what follows when that returns.\<close>

definition enter_inner :: "(nat \<Rightarrow> bool) \<Rightarrow> 'a bspsc \<Rightarrow> 'a bspsc" where
  "enter_inner malloc s = s\<lparr>base := spsc_step malloc Call_Dequeue (base s), bcons := BC_Inner\<rparr>"

fun after_dequeue :: "'a consumer_pc \<Rightarrow> 'a bcons_pc" where
  "after_dequeue (C_Done (Some x)) = BC_Done (Some x)"
| "after_dequeue (C_Done None) = BC_Error Assert_Fail"
| "after_dequeue (C_Error e) = BC_Error e"
| "after_dequeue _ = BC_Inner"

text \<open>\<open>sema->wait\<close> has returned \<open>false\<close>: \<open>wait_dequeue\<close> calls it again.\<close>

fun wait_failed :: "wait_mode \<Rightarrow> 'a bcons_pc" where
  "wait_failed Wait = BC_Load Wait"
| "wait_failed _ = BC_Done None"

definition bcons_step :: "(nat \<Rightarrow> bool) \<Rightarrow> 'a bspsc \<Rightarrow> 'a bspsc" where
  "bcons_step malloc s =
     (case bcons s of
        BC_Load mode \<Rightarrow>
          s\<lparr>bcons := if 0 < sint (m_count (bsema s)) then BC_Take
                      else if mode = No_Wait then BC_Done None else BC_Spin mode 1024\<rparr>
      | BC_Take \<Rightarrow> enter_inner malloc (s\<lparr>bsema := snd (fetch_add (-1) (bsema s))\<rparr>)
      | BC_Spin mode spin \<Rightarrow>
          s\<lparr>bcons := if spin = 0 then BC_Decrement mode
                      else if 0 < sint (m_count (bsema s)) then BC_Take else BC_Spin mode (spin - 1)\<rparr>
      | BC_Decrement mode \<Rightarrow>
          let (oldCount, m) = fetch_add (-1) (bsema s); s = s\<lparr>bsema := m\<rparr> in
          if 0 < oldCount then enter_inner malloc s
          else s\<lparr>bcons := if time_limit mode < 0 then BC_Wait
                           else if 0 < time_limit mode then BC_Wait_Timed mode else BC_Restore mode\<rparr>
      | BC_Wait \<Rightarrow>
          if m_sema (bsema s) = 0 then s
          else enter_inner malloc (s\<lparr>bsema := (bsema s)\<lparr>m_sema := m_sema (bsema s) - 1\<rparr>\<rparr>)
      | BC_Wait_Timed mode \<Rightarrow>
          if m_sema (bsema s) = 0 then s
          else enter_inner malloc (s\<lparr>bsema := (bsema s)\<lparr>m_sema := m_sema (bsema s) - 1\<rparr>\<rparr>)
      | BC_Restore mode \<Rightarrow>
          let (oldCount, m) = fetch_add 1 (bsema s) in
          s\<lparr>bsema := m, bcons := if oldCount < 0 then wait_failed mode else BC_Undo mode\<rparr>
      | BC_Undo mode \<Rightarrow>
          let (oldCount, m) = fetch_add (-1) (bsema s) in
          s\<lparr>bsema := m, bcons := if 0 < oldCount then BC_Try mode else BC_Restore mode\<rparr>
      | BC_Try mode \<Rightarrow>
          let (ok, m) = posix_try_wait (bsema s); s = s\<lparr>bsema := m\<rparr> in
          if ok then enter_inner malloc s else s\<lparr>bcons := BC_Restore mode\<rparr>
      | BC_Inner \<Rightarrow>
          let b = spsc_step malloc Step_Consumer (base s) in s\<lparr>base := b, bcons := after_dequeue (cons b)\<rparr>
      | _ \<Rightarrow> s)"

section \<open>The two threads\<close>

datatype 'a baction = B_Enqueue bool 'a | B_Dequeue wait_mode | B_Producer | B_Consumer | B_Timeout

fun bspsc_step :: "(nat \<Rightarrow> bool) \<Rightarrow> 'a baction \<Rightarrow> 'a bspsc \<Rightarrow> 'a bspsc" where
  "bspsc_step malloc (B_Enqueue canAlloc x) s =
     (if bprod_returned (bprod s)
      then s\<lparr>base := spsc_step malloc (Call_Enqueue canAlloc x) (base s), bprod := BP_Inner\<rparr> else s)"
| "bspsc_step malloc (B_Dequeue mode) s = (if bcons_returned (bcons s) then s\<lparr>bcons := BC_Load mode\<rparr> else s)"
| "bspsc_step malloc B_Producer s = bprod_step malloc s"
| "bspsc_step malloc B_Consumer s = bcons_step malloc s"
| "bspsc_step malloc B_Timeout s =
     (case bcons s of
        BC_Wait_Timed mode \<Rightarrow> if m_sema (bsema s) = 0 then s\<lparr>bcons := BC_Restore mode\<rparr> else s
      | _ \<Rightarrow> s)"

definition bspsc_run :: "(nat \<Rightarrow> bool) \<Rightarrow> 'a baction list \<Rightarrow> 'a bspsc \<Rightarrow> 'a bspsc" where
  "bspsc_run malloc = fold (bspsc_step malloc)"

end
