(* ===== verification/Blocking_SPSC_Props.thy ===== *)
theory Blocking_SPSC_Props
  imports Blocking_SPSC
begin

text \<open>
  What \<open>BlockingReaderWriterQueue\<close> promises two threads.  \<open>m_count\<close> is the number of elements whose
  \<open>signal\<close> has been counted, less those the consumer has a permit for or waits for; the kernel's
  semaphore holds, or is about to get, the one unit a waiting consumer is owed.  So the inner queue is never found empty with a permit
  in hand, and a consumer that waits while the queue has elements is woken.
\<close>

section \<open>The semaphore\<close>

fun unsignalled :: "bprod_pc \<Rightarrow> int" where
  "unsignalled BP_Signal = 1" | "unsignalled _ = 0"

fun posting :: "bprod_pc \<Rightarrow> int" where
  "posting BP_Post = 1" | "posting _ = 0"

fun waiting :: "'a bcons_pc \<Rightarrow> bool" where
  "waiting BC_Wait = True" | "waiting (BC_Wait_Timed m) = True" | "waiting (BC_Restore m) = True"
| "waiting (BC_Try m) = True" | "waiting _ = False"

text \<open>Elements the consumer has a permit for, or waits for.\<close>

definition held :: "'a bcons_pc \<Rightarrow> int" where
  "held C = (if waiting C \<or> C = BC_Inner then 1 else 0)"

fun lowest :: "'a bcons_pc \<Rightarrow> int" where
  "lowest BC_Take = 1" | "lowest (BC_Undo m) = 1"
| "lowest BC_Wait = -1" | "lowest (BC_Wait_Timed m) = -1" | "lowest (BC_Restore m) = -1" | "lowest _ = 0"

fun owed :: "'a bcons_pc \<Rightarrow> int \<Rightarrow> int" where
  "owed (BC_Undo m) c = 1"
| "owed C c = (if waiting C \<and> 0 \<le> c then 1 else 0)"

text \<open>\<open>e\<close> is the number of elements in the inner queue.\<close>

definition sema_ok :: "bprod_pc \<Rightarrow> 'a bcons_pc \<Rightarrow> int \<Rightarrow> sema \<Rightarrow> bool" where
  "sema_ok P C e m \<longleftrightarrow>
     (\<exists>c. m_count m = word_of_int c \<and> c = e - unsignalled P - held C \<and> lowest C \<le> c \<and>
          int (m_sema m) + posting P = owed C c)"

lemma sema_okI:
  assumes "m_count m = word_of_int c" "c = e - unsignalled P - held C" "lowest C \<le> c" "int (m_sema m) + posting P = owed C c"
  shows "sema_ok P C e m"
  using assms unfolding sema_ok_def by blast

lemma sema_okE:
  assumes "sema_ok P C e m"
  obtains c where "m_count m = word_of_int c" "c = e - unsignalled P - held C" "lowest C \<le> c"
    "int (m_sema m) + posting P = owed C c"
  using assms unfolding sema_ok_def by blast

lemma pc_bounds: "-1 \<le> lowest C" "0 \<le> unsignalled P" "unsignalled P \<le> 1" "0 \<le> posting P" "0 \<le> held C" "held C \<le> 1"
  by (cases C; simp) (cases P; simp add: held_def)+

lemma lowest_negative: "lowest C \<le> c \<Longrightarrow> c < 0 \<Longrightarrow> waiting C \<and> c = -1"
  by (cases C) auto

text \<open>The producer counts an element, and posts the unit it owes.\<close>

lemma sema_ok_signal:
  assumes ok: "sema_ok BP_Signal C e m" and e: "e < 2 ^ 62"
  obtains k m' where "fetch_add 1 m = (k, m')" "-1 \<le> k" "sema_ok (if k < 0 then BP_Post else BP_Done True) C e m'"
proof -
  obtain c where c: "m_count m = word_of_int c" "c = e - 1 - held C" "lowest C \<le> c" "int (m_sema m) = owed C c"
    using ok by (rule sema_okE) simp
  have b: "-1 \<le> c" "c < 2 ^ 62" using c(2,3) pc_bounds(1) [of C] pc_bounds(5) [of C] e by linarith+
  have "fetch_add 1 m = (c, m\<lparr>m_count := word_of_int (c + 1)\<rparr>)"
    by (rule fetch_add_of_int(1) [OF c(1)]) (use b in simp_all)
  moreover have "sema_ok (if c < 0 then BP_Post else BP_Done True) C e (m\<lparr>m_count := word_of_int (c + 1)\<rparr>)"
  proof (rule sema_okI [of _ "c + 1"])
    show "int (m_sema (m\<lparr>m_count := word_of_int (c + 1)\<rparr>)) + posting (if c < 0 then BP_Post else BP_Done True) = owed C (c + 1)"
      using c(4) lowest_negative [OF c(3)] by (cases C) auto
  qed (use c in auto)
  ultimately show thesis using that b(1) by blast
qed

lemma sema_ok_post: "sema_ok BP_Post C e m \<Longrightarrow> sema_ok (BP_Done True) C e (posix_signal m)"
  by (auto simp: sema_ok_def posix_signal_def)

text \<open>The consumer looks at the count, takes a unit off it, and gets a unit of the kernel's semaphore.\<close>

lemma sema_ok_count:
  assumes "sema_ok P C e m" "e < 2 ^ 62"
  obtains c where "m_count m = word_of_int c" "sint (m_count m) = c" "fetch_add 1 m = (c, m\<lparr>m_count := word_of_int (c + 1)\<rparr>)"
    "fetch_add (-1) m = (c, m\<lparr>m_count := word_of_int (c - 1)\<rparr>)"
    "c = e - unsignalled P - held C" "lowest C \<le> c" "int (m_sema m) + posting P = owed C c"
proof -
  obtain c where c: "m_count m = word_of_int c" "c = e - unsignalled P - held C" "lowest C \<le> c"
    "int (m_sema m) + posting P = owed C c"
    using assms(1) by (rule sema_okE)
  have "-1 \<le> c" "c < 2 ^ 62" using c(2,3) pc_bounds(1) [of C] pc_bounds(2) [of P] pc_bounds(5) [of C] assms(2) by linarith+
  then have b: "- (2 ^ 63) \<le> c" "c < 2 ^ 63" by simp_all
  show thesis
    by (rule that [OF c(1) _ fetch_add_of_int [OF c(1) b] c(2-4)]) (use sint_of_int_small [OF b] c(1) in simp)
qed

lemma permit_element: "sema_ok P BC_Inner e m \<Longrightarrow> 0 < e"
  using pc_bounds(2) [of P] by (auto simp: held_def elim!: sema_okE)

section \<open>The invariant\<close>

definition bspsc_inv :: "'a bspsc \<Rightarrow> bool" where
  "bspsc_inv s \<longleftrightarrow>
     spsc_inv False 0 (base s) \<and> (bprod s = BP_Inner \<longleftrightarrow> \<not> prod_returned (prod (base s))) \<and>
     (bcons s = BC_Inner \<longleftrightarrow> \<not> cons_returned (cons (base s))) \<and> (bcons s = BC_Inner \<longrightarrow> 0 < low (base s)) \<and>
     sema_ok (bprod s) (bcons s) (int (in_queue (base s))) (bsema s) \<and>
     (\<forall>e. bprod s \<noteq> BP_Error e \<and> bcons s \<noteq> BC_Error e)"

lemma spsc_inv_length: "spsc_inv na n s \<Longrightarrow> length (received s) \<le> length (sent s)"
  by (auto simp: spsc_inv_def)

text \<open>A step of the inner queue by one thread, seen from outside.\<close>

lemma inner_producer_step:
  fixes b :: "'a spsc" and malloc :: "nat \<Rightarrow> bool"
  assumes "\<not> prod_returned (prod b)"
  defines "b' \<equiv> spsc_step malloc Step_Producer b"
  shows "sent b' = sent b @ accepted (prod b')" "received b' = received b" "cons b' = cons b"
    "low b' = min (low b) (in_queue b')"
  using assms by (simp_all add: split_def Let_def observe_def)

lemma inner_consumer_step:
  fixes b :: "'a spsc" and malloc :: "nat \<Rightarrow> bool"
  assumes "\<not> cons_returned (cons b)"
  defines "b' \<equiv> spsc_step malloc Step_Consumer b"
  shows "received b' = received b @ delivered (cons b')" "sent b' = sent b" "prod b' = prod b"
    "low b' = min (low b) (in_queue b')"
  using assms by (simp_all add: split_def Let_def observe_def)

lemma prod_step_not_idle: "\<not> prod_returned P \<Longrightarrow> fst (prod_step malloc P q) \<noteq> P_Idle"
  by (cases P) (auto simp: with_block_def Let_def split: option.splits sum.splits prod.splits)

lemma cons_step_not_idle: "\<not> cons_returned C \<Longrightarrow> fst (cons_step C q) \<noteq> C_Idle"
  by (cases C) (auto simp: with_block_def split: option.splits sum.splits)

lemma after_enqueue_facts:
  assumes "\<And>e. P \<noteq> P_Error e" "P \<noteq> P_Idle"
  shows "unsignalled (after_enqueue P) = int (length (accepted P)) \<and> posting (after_enqueue P) = 0 \<and>
    (after_enqueue P = BP_Inner \<longleftrightarrow> \<not> prod_returned P) \<and> (\<forall>e. after_enqueue P \<noteq> BP_Error e)"
proof (cases P)
  case (P_Done x r)
  then show ?thesis by (cases r) simp_all
qed (use assms in simp_all)

lemma after_dequeue_facts:
  assumes "\<And>e. C \<noteq> C_Error e" "C \<noteq> C_Idle" "C \<noteq> C_Done None"
  shows "held (after_dequeue C) = 1 - int (length (delivered C)) \<and> lowest (after_dequeue C) = 0 \<and>
    owed (after_dequeue C) c = 0 \<and> (after_dequeue C = BC_Inner \<longleftrightarrow> \<not> cons_returned C) \<and>
    (\<forall>e. after_dequeue C \<noteq> BC_Error e)"
proof (cases C)
  case (C_Done r)
  then show ?thesis using assms(3) by (cases r) (simp_all add: held_def)
qed (use assms in \<open>simp_all add: held_def\<close>)

lemma bprod_step_inv:
  assumes inv: "bspsc_inv s" and bound: "length (sent (base s)) < 2 ^ 61"
  shows "bspsc_inv (bprod_step malloc s)"
proof (cases "bprod s")
  case BP_Inner
  have n: "\<not> prod_returned (prod (base s))" using inv BP_Inner by (simp add: bspsc_inv_def)
  define b where "b = spsc_step malloc Step_Producer (base s)"
  note st = inner_producer_step [OF n, of malloc, folded b_def]
  have i: "spsc_inv False 0 b" unfolding b_def by (rule spsc_step_inv) (use inv in \<open>simp_all add: bspsc_inv_def\<close>)
  have le: "length (received (base s)) \<le> length (sent (base s))" using inv spsc_inv_length by (auto simp: bspsc_inv_def)
  have e: "int (in_queue b) = int (in_queue (base s)) + int (length (accepted (prod b)))" using st(1,2) le by simp
  have "prod b \<noteq> P_Idle"
    unfolding b_def using prod_step_not_idle [OF n] n by (simp add: split_def Let_def observe_def)
  note P = after_enqueue_facts [OF spsc_inv_no_error(1) [OF i] this]
  have ok: "sema_ok BP_Inner (bcons s) (int (in_queue (base s))) (bsema s)" using inv BP_Inner by (simp add: bspsc_inv_def)
  then have "sema_ok (after_enqueue (prod b)) (bcons s) (int (in_queue b)) (bsema s)"
    using P unfolding sema_ok_def e by simp
  moreover have "0 < low b" if "bcons s = BC_Inner"
  proof -
    have "0 < low (base s)" using inv that by (simp add: bspsc_inv_def)
    moreover have "0 < int (in_queue (base s))" using ok that by (intro permit_element) simp
    ultimately show ?thesis using e unfolding st(4) by simp
  qed
  moreover have "bprod_step malloc s = s\<lparr>base := b, bprod := after_enqueue (prod b)\<rparr>"
    by (simp add: bprod_step_def BP_Inner b_def Let_def del: spsc_step.simps)
  ultimately show ?thesis using inv i P st(3) by (simp add: bspsc_inv_def)
next
  case BP_Signal
  have "sema_ok BP_Signal (bcons s) (int (in_queue (base s))) (bsema s)" using inv BP_Signal by (simp add: bspsc_inv_def)
  moreover have "int (in_queue (base s)) < 2 ^ 62" using bound by simp
  ultimately obtain k m where k: "fetch_add 1 (bsema s) = (k, m)" "-1 \<le> k"
    "sema_ok (if k < 0 then BP_Post else BP_Done True) (bcons s) (int (in_queue (base s))) m"
    by (rule sema_ok_signal)
  then show ?thesis using inv by (auto simp: bprod_step_def BP_Signal bspsc_inv_def)
next
  case BP_Post
  then show ?thesis using inv sema_ok_post by (auto simp: bprod_step_def bspsc_inv_def)
qed (use inv in \<open>simp_all add: bprod_step_def\<close>)

text \<open>The consumer has got a permit and calls the inner queue.\<close>

lemma enter_inner_inv:
  fixes s :: "'a bspsc"
  assumes inv: "bspsc_inv s" and C: "bcons s \<noteq> BC_Inner"
    and m: "sema_ok (bprod s) (BC_Inner :: 'a bcons_pc) (int (in_queue (base s))) m"
  shows "bspsc_inv (enter_inner malloc (s\<lparr>bsema := m\<rparr>))"
proof -
  define b where "b = spsc_step malloc Call_Dequeue (base s)"
  have r: "cons_returned (cons (base s))" using inv C by (simp add: bspsc_inv_def)
  then have b: "b = (base s)\<lparr>cons := C_Enter, low := in_queue (base s)\<rparr>" by (simp add: b_def)
  have "spsc_inv False 0 b" unfolding b_def by (rule spsc_step_inv) (use inv in \<open>simp_all add: bspsc_inv_def\<close>)
  then show ?thesis using inv m permit_element [OF m]
    by (simp add: enter_inner_def bspsc_inv_def b flip: b_def)
qed

lemma bspsc_inv_pc:
  assumes inv: "bspsc_inv s" and C: "bcons s \<noteq> BC_Inner" "C' \<noteq> BC_Inner" "\<And>e. C' \<noteq> BC_Error e"
    and m: "sema_ok (bprod s) C' (int (in_queue (base s))) m"
  shows "bspsc_inv (s\<lparr>bsema := m, bcons := C'\<rparr>)"
  using assms by (simp add: bspsc_inv_def)

lemma bcons_step_inv:
  fixes s :: "'a bspsc"
  assumes inv: "bspsc_inv s" and bound: "length (sent (base s)) < 2 ^ 61"
  shows "bspsc_inv (bcons_step malloc s)"
proof (cases "bcons s = BC_Inner")
  case True
  have n: "\<not> cons_returned (cons (base s))" using inv True by (simp add: bspsc_inv_def)
  define b where "b = spsc_step malloc Step_Consumer (base s)"
  note st = inner_consumer_step [OF n, of malloc, folded b_def]
  have i: "spsc_inv False 0 b" unfolding b_def by (rule spsc_step_inv) (use inv in \<open>simp_all add: bspsc_inv_def\<close>)
  have le: "length (received b) \<le> length (sent b)" using spsc_inv_length [OF i] .
  have ok: "sema_ok (bprod s) (BC_Inner :: 'a bcons_pc) (int (in_queue (base s))) (bsema s)" using inv True by (simp add: bspsc_inv_def)
  have pos: "0 < low (base s)" "0 < in_queue (base s)" using inv True permit_element [OF ok] by (simp_all add: bspsc_inv_def)
  have nI: "cons b \<noteq> C_Idle"
    unfolding b_def using cons_step_not_idle [OF n] n by (simp add: split_def Let_def observe_def)
  have nN: "cons b \<noteq> C_Done None"
  proof
    assume d: "cons b = C_Done None"
    then have "low b = 0" using i by (auto simp: spsc_inv_def state_ok_def)
    moreover have "in_queue b = in_queue (base s)" using st(1,2) d by simp
    ultimately show False using pos unfolding st(4) by simp
  qed
  note C = after_dequeue_facts [OF spsc_inv_no_error(2) [OF i] nI nN]
  have e: "int (in_queue b) = int (in_queue (base s)) - int (length (delivered (cons b)))" using st(1,2) le by simp
  have "sema_ok (bprod s) (after_dequeue (cons b)) (int (in_queue b)) (bsema s)"
  proof -
    obtain c where c: "m_count (bsema s) = word_of_int c" "c = int (in_queue (base s)) - unsignalled (bprod s) - 1"
      "0 \<le> c" "int (m_sema (bsema s)) + posting (bprod s) = 0"
      using ok by (rule sema_okE) (simp add: held_def)
    show ?thesis by (rule sema_okI [OF c(1)]) (use C [of c] c e in simp_all)
  qed
  moreover have "0 < low b" if "after_dequeue (cons b) = BC_Inner"
  proof -
    have "delivered (cons b) = []" using C that by (cases "cons b"; auto)
    then show ?thesis using pos e unfolding st(4) by simp
  qed
  moreover have "bcons_step malloc s = s\<lparr>base := b, bcons := after_dequeue (cons b)\<rparr>"
    by (simp add: bcons_step_def True b_def Let_def del: spsc_step.simps)
  ultimately show ?thesis using inv i C st(3) by (simp add: bspsc_inv_def)
next
  case False
  let ?e = "int (in_queue (base s))"
  have ok: "sema_ok (bprod s) (bcons s) ?e (bsema s)" using inv by (simp add: bspsc_inv_def)
  have "?e < 2 ^ 62" using bound by simp
  with ok obtain c where c: "m_count (bsema s) = word_of_int c" "sint (m_count (bsema s)) = c"
    "fetch_add 1 (bsema s) = (c, (bsema s)\<lparr>m_count := word_of_int (c + 1)\<rparr>)"
    "fetch_add (-1) (bsema s) = (c, (bsema s)\<lparr>m_count := word_of_int (c - 1)\<rparr>)"
    "c = ?e - unsignalled (bprod s) - held (bcons s)" "lowest (bcons s) \<le> c"
    "int (m_sema (bsema s)) + posting (bprod s) = owed (bcons s) c"
    by (rule sema_ok_count)
  note step = bcons_step_def c(2-4)
  note enter = enter_inner_inv [OF inv False]
  have same: "bspsc_inv (s\<lparr>bcons := C'\<rparr>)"
    if "C' \<noteq> BC_Inner" "\<And>e. C' \<noteq> BC_Error e" "held C' = held (bcons s)" "lowest C' \<le> c" "owed C' c = owed (bcons s) c" for C'
    using bspsc_inv_pc [OF inv False that(1,2) sema_okI [OF c(1)]] that(3-5) c(5,7) by simp
  note p = pc_bounds(2,4) [of "bprod s"]
  show ?thesis
  proof (cases "bcons s")
    case (BC_Load mode)
    then show ?thesis using c by (cases mode) (auto simp: step held_def intro!: same)
  next
    case BC_Take
    have "bspsc_inv (enter_inner malloc (s\<lparr>bsema := (bsema s)\<lparr>m_count := word_of_int (c - 1)\<rparr>\<rparr>))"
      by (rule enter, rule sema_okI [of _ "c - 1"]) (use c BC_Take in \<open>simp_all add: held_def\<close>)
    then show ?thesis using BC_Take by (simp add: step)
  next
    case (BC_Spin mode n)
    then show ?thesis using c by (auto simp: step held_def intro!: same)
  next
    case (BC_Decrement mode)
    let ?m = "(bsema s)\<lparr>m_count := word_of_int (c - 1)\<rparr>"
    let ?C = "if time_limit mode < 0 then BC_Wait else if 0 < time_limit mode then BC_Wait_Timed mode else BC_Restore mode"
    have "bspsc_inv (enter_inner malloc (s\<lparr>bsema := ?m\<rparr>))" if "0 < c"
      by (rule enter, rule sema_okI [of _ "c - 1"]) (use c BC_Decrement that in \<open>simp_all add: held_def\<close>)
    moreover have "bspsc_inv (s\<lparr>bsema := ?m, bcons := ?C\<rparr>)" if "\<not> 0 < c"
      by (rule bspsc_inv_pc [OF inv False]; (rule sema_okI [of _ "c - 1"])?)
        (use c BC_Decrement that in \<open>simp_all add: held_def\<close>)
    ultimately show ?thesis using BC_Decrement by (simp add: step Let_def)
  next
    case BC_Wait
    have "bspsc_inv (enter_inner malloc (s\<lparr>bsema := (bsema s)\<lparr>m_sema := m_sema (bsema s) - 1\<rparr>\<rparr>))" if "0 < m_sema (bsema s)"
      by (rule enter, rule sema_okI [of _ c]) (use c BC_Wait that p in \<open>auto simp: held_def split: if_splits\<close>)
    then show ?thesis using BC_Wait inv by (auto simp: step)
  next
    case (BC_Wait_Timed mode)
    have "bspsc_inv (enter_inner malloc (s\<lparr>bsema := (bsema s)\<lparr>m_sema := m_sema (bsema s) - 1\<rparr>\<rparr>))" if "0 < m_sema (bsema s)"
      by (rule enter, rule sema_okI [of _ c]) (use c BC_Wait_Timed that p in \<open>auto simp: held_def split: if_splits\<close>)
    then show ?thesis using BC_Wait_Timed inv by (auto simp: step)
  next
    case (BC_Restore mode)
    let ?C = "if c < 0 then wait_failed mode else BC_Undo mode"
    have "bspsc_inv (s\<lparr>bsema := (bsema s)\<lparr>m_count := word_of_int (c + 1)\<rparr>, bcons := ?C\<rparr>)"
      by (rule bspsc_inv_pc [OF inv False]; (rule sema_okI [of _ "c + 1"])?)
        (use c BC_Restore in \<open>cases mode; simp add: held_def\<close>)+
    then show ?thesis using BC_Restore by (simp add: step)
  next
    case (BC_Undo mode)
    have "bspsc_inv (s\<lparr>bsema := (bsema s)\<lparr>m_count := word_of_int (c - 1)\<rparr>, bcons := BC_Try mode\<rparr>)"
      by (rule bspsc_inv_pc [OF inv False]; (rule sema_okI [of _ "c - 1"])?)
        (use c BC_Undo in \<open>simp_all add: held_def\<close>)
    then show ?thesis using BC_Undo c(6) by (simp add: step)
  next
    case (BC_Try mode)
    have "bspsc_inv (enter_inner malloc (s\<lparr>bsema := (bsema s)\<lparr>m_sema := m_sema (bsema s) - 1\<rparr>\<rparr>))" if "0 < m_sema (bsema s)"
      by (rule enter, rule sema_okI [of _ c]) (use c BC_Try that p in \<open>auto simp: held_def split: if_splits\<close>)
    moreover have "bspsc_inv (s\<lparr>bcons := BC_Restore mode\<rparr>)" by (rule same) (use BC_Try c in \<open>simp_all add: held_def\<close>)
    ultimately show ?thesis using BC_Try by (simp add: step posix_try_wait_def Let_def)
  qed (use inv False in \<open>simp_all add: bcons_step_def\<close>)
qed

section \<open>Any schedule\<close>

lemma bspsc_step_inv:
  fixes s :: "'a bspsc"
  assumes inv: "bspsc_inv s" and bound: "length (sent (base s)) < 2 ^ 61"
  shows "bspsc_inv (bspsc_step malloc act s)"
proof (cases act)
  case (B_Enqueue a x)
  define b where "b = spsc_step malloc (Call_Enqueue a x) (base s)"
  have i: "spsc_inv False 0 b" unfolding b_def by (rule spsc_step_inv) (use inv in \<open>simp_all add: bspsc_inv_def\<close>)
  have "bspsc_inv (s\<lparr>base := b, bprod := BP_Inner\<rparr>)" if r: "bprod_returned (bprod s)"
  proof -
    have "bprod s \<noteq> BP_Inner" "unsignalled (bprod s) = 0" "posting (bprod s) = 0" using r by (cases "bprod s"; simp)+
    then have "b = (base s)\<lparr>prod := P_Enter a x, high := in_queue (base s)\<rparr>"
      and "sema_ok BP_Inner (bcons s) (int (in_queue (base s))) (bsema s)"
      using inv by (simp_all add: bspsc_inv_def b_def sema_ok_def)
    then show ?thesis using inv i by (simp add: bspsc_inv_def)
  qed
  then show ?thesis using B_Enqueue inv by (simp add: b_def)
next
  case (B_Dequeue mode)
  have "bspsc_inv (s\<lparr>bcons := BC_Load mode\<rparr>)" if r: "bcons_returned (bcons s)"
  proof -
    have C: "bcons s \<noteq> BC_Inner" "held (bcons s) = 0" "lowest (bcons s) = 0" "owed (bcons s) c = 0" for c
      using r by (cases "bcons s"; simp add: held_def)+
    then have "sema_ok (bprod s) (BC_Load mode :: 'a bcons_pc) (int (in_queue (base s))) (bsema s)"
      using inv by (simp add: bspsc_inv_def sema_ok_def held_def)
    then show ?thesis using bspsc_inv_pc [OF inv C(1), of "BC_Load mode" "bsema s"] by simp
  qed
  then show ?thesis using B_Dequeue inv by simp
next
  case B_Timeout
  have "bspsc_inv (s\<lparr>bcons := BC_Restore mode\<rparr>)" if "bcons s = BC_Wait_Timed mode" for mode
  proof -
    have "sema_ok (bprod s) (BC_Restore mode :: 'a bcons_pc) (int (in_queue (base s))) (bsema s)"
      using inv that by (simp add: bspsc_inv_def sema_ok_def held_def)
    then show ?thesis using bspsc_inv_pc [OF inv, of "BC_Restore mode" "bsema s"] that by simp
  qed
  then show ?thesis using B_Timeout inv by (auto split: bcons_pc.split)
qed (use inv bound bprod_step_inv bcons_step_inv in auto)

lemma accepted_length: "length (accepted P) \<le> 1"
  by (induction P rule: accepted.induct) auto

lemma bspsc_step_sent: "length (sent (base (bspsc_step malloc act s))) \<le> Suc (length (sent (base s)))"
proof -
  have "length (sent (spsc_step malloc a b)) \<le> Suc (length (sent b))" for a and b :: "'a spsc"
    using accepted_length by (cases a) (auto simp: split_def Let_def observe_def)
  moreover have "sent (spsc_step malloc a b) = sent b" if "a \<noteq> Step_Producer" for a and b :: "'a spsc"
    using that by (cases a) (auto simp: split_def Let_def observe_def)
  ultimately show ?thesis
    by (cases act) (auto simp: bprod_step_def bcons_step_def enter_inner_def split_def Let_def
      simp del: spsc_step.simps split: bprod_pc.split bcons_pc.split)
qed

lemma bspsc_run_inv:
  assumes "bspsc_inv s" "length (sent (base s)) + length acts < 2 ^ 61"
  shows "bspsc_inv (bspsc_run malloc acts s)"
  using assms
proof (induction acts arbitrary: s)
  case (Cons act acts)
  have "bspsc_inv (bspsc_step malloc act s)" by (rule bspsc_step_inv) (use Cons.prems in auto)
  moreover have "length (sent (base (bspsc_step malloc act s))) + length acts < 2 ^ 61"
    using bspsc_step_sent [of malloc act s] Cons.prems(2) by simp
  ultimately show ?case using Cons.IH by (simp add: bspsc_run_def)
qed (simp add: bspsc_run_def)

lemma bspsc_inv_new: "rwq_holds n q [] \<Longrightarrow> bspsc_inv (bspsc_new q)"
proof -
  assume q: "rwq_holds n q []"
  then have "rwq_holds 0 q []" unfolding rwq_holds_def by (metis gr_zeroI less_nat_zero_code zero_le)
  from spsc_inv_new [OF this, of False] show ?thesis
    by (simp add: bspsc_inv_def bspsc_new_def spsc_new_def sema_new_def sema_ok_def held_def)
qed

lemma bspsc_run_append: "bspsc_run malloc later (bspsc_run malloc acts s) = bspsc_run malloc (acts @ later) s"
  by (simp add: bspsc_run_def)

text \<open>C6. Two threads share a \<open>BlockingReaderWriterQueue\<close>, one enqueueing, the other dequeueing with or without waiting, and their steps
  and the ends of time limits interleave in any way: no assertion fails (\<open>m_count\<close> never falls below -1, and the inner queue is never
  empty when the semaphore has let the consumer through), and elements come out in the order they went in.\<close>

theorem blocking_queue_safe:
  assumes "0 < sz" "unat sz < 2 ^ 62" "\<And>p. p < initial_blocks (unat sz) \<Longrightarrow> malloc p" "length acts < 2 ^ 61"
  shows "\<exists>q s. rwq_new malloc sz = (Inr (), q) \<and> s = bspsc_run malloc acts (bspsc_new q) \<and>
    (\<exists>ys. sent (base s) = received (base s) @ ys) \<and> (\<forall>e. bprod s \<noteq> BP_Error e \<and> bcons s \<noteq> BC_Error e)"
proof -
  obtain q :: "'a rwq" where q: "rwq_new malloc sz = (Inr (), q)" "rwq_holds (unat sz) q []"
    using rwq_new_holds [where malloc = malloc, OF assms(1-3)] by blast
  have "bspsc_inv (bspsc_run malloc acts (bspsc_new q))"
    by (rule bspsc_run_inv [OF bspsc_inv_new [OF q(2)]]) (use assms(4) in \<open>simp add: bspsc_new_def spsc_new_def\<close>)
  then show ?thesis using q(1) by (auto simp: bspsc_inv_def spsc_inv_def)
qed

theorem blocking_queue_safe_witness:
  "\<exists>q s. rwq_new (\<lambda>_. True) 1 = (Inr (), q) \<and>
    s = bspsc_run (\<lambda>_. True) [B_Dequeue Wait, B_Enqueue True (7 :: int), B_Consumer, B_Producer, B_Consumer] (bspsc_new q) \<and>
    (\<exists>ys. sent (base s) = received (base s) @ ys) \<and> (\<forall>e. bprod s \<noteq> BP_Error e \<and> bcons s \<noteq> BC_Error e)"
  by (rule blocking_queue_safe) simp_all

section \<open>Waiting ends\<close>

definition woken :: "'a bspsc \<Rightarrow> bool" where
  "woken s \<longleftrightarrow> (bcons s = BC_Wait \<or> (\<exists>m. bcons s = BC_Wait_Timed m)) \<and> 0 < m_sema (bsema s) \<or> bcons s = BC_Inner \<or>
     (\<exists>x. bcons s = BC_Done (Some x))"

definition wake_rank :: "'a bspsc \<Rightarrow> nat" where
  "wake_rank s = (case bcons s of BC_Wait \<Rightarrow> 10 | BC_Wait_Timed m \<Rightarrow> 10 | BC_Inner \<Rightarrow> cons_rank (cons (base s)) | _ \<Rightarrow> 0)"

lemma woken_others:
  assumes w: "woken s" and act: "act \<noteq> B_Consumer" "\<And>m. act \<noteq> B_Dequeue m"
  shows "woken (bspsc_step malloc act s) \<and> wake_rank (bspsc_step malloc act s) = wake_rank s"
proof -
  have base: "cons (spsc_step malloc a b) = cons b" if "a = Step_Producer \<or> (\<exists>c x. a = Call_Enqueue c x)" for a and b :: "'a spsc"
    using that by (auto simp: split_def Let_def observe_def)
  show ?thesis
  proof (cases act)
    case B_Producer
    have "bcons (bprod_step malloc s) = bcons s" "m_sema (bsema s) \<le> m_sema (bsema (bprod_step malloc s))"
      "cons (base (bprod_step malloc s)) = cons (base s)"
      using base by (auto simp: bprod_step_def split_def Let_def fetch_add_def posix_signal_def simp del: spsc_step.simps split: bprod_pc.split)
    then show ?thesis using w B_Producer by (auto simp: woken_def wake_rank_def)
  next
    case (B_Enqueue a x)
    then show ?thesis using w base by (auto simp: woken_def wake_rank_def simp del: spsc_step.simps)
  next
    case B_Timeout
    then show ?thesis using w by (auto simp: woken_def wake_rank_def split: bcons_pc.split)
  qed (use act in auto)
qed

lemma woken_consumer:
  assumes w: "woken s" and inv: "bspsc_inv s" "bspsc_inv (bcons_step malloc s)"
  shows "woken (bcons_step malloc s) \<and> wake_rank (bcons_step malloc s) \<le> wake_rank s - 1"
proof (cases "bcons s = BC_Inner")
  case True
  have n: "\<not> cons_returned (cons (base s))" using inv(1) True by (simp add: bspsc_inv_def)
  define b where "b = spsc_step malloc Step_Consumer (base s)"
  have st: "bcons_step malloc s = s\<lparr>base := b, bcons := after_dequeue (cons b)\<rparr>"
    by (simp add: bcons_step_def True b_def Let_def del: spsc_step.simps)
  have rank: "cons_rank (cons b) \<le> cons_rank (cons (base s)) - 1"
    unfolding b_def using cons_rank_spsc_step [of Step_Consumer malloc "base s"] by simp
  have "\<And>e. after_dequeue (cons b) \<noteq> BC_Error e" using inv(2) by (simp add: st bspsc_inv_def)
  then consider "after_dequeue (cons b) = BC_Inner" | x where "after_dequeue (cons b) = BC_Done (Some x)"
    by (cases "cons b" rule: after_dequeue.cases) auto
  then show ?thesis using rank True by cases (simp_all add: st woken_def wake_rank_def)
next
  case False
  then consider "bcons s = BC_Wait" "0 < m_sema (bsema s)" | m where "bcons s = BC_Wait_Timed m" "0 < m_sema (bsema s)"
    | x where "bcons s = BC_Done (Some x)"
    using w by (auto simp: woken_def)
  moreover have "cons_returned (cons (base s))" using inv(1) False by (simp add: bspsc_inv_def)
  ultimately show ?thesis
    using w by cases (auto simp: bcons_step_def enter_inner_def woken_def wake_rank_def)
qed

lemma woken_run:
  assumes "woken s" "bspsc_inv s" "length (sent (base s)) + length later < 2 ^ 61" "\<forall>m. B_Dequeue m \<notin> set later"
  shows "woken (bspsc_run malloc later s) \<and> wake_rank (bspsc_run malloc later s) \<le> wake_rank s - count_list later B_Consumer"
  using assms
proof (induction later arbitrary: s)
  case (Cons act later)
  let ?s = "bspsc_step malloc act s"
  have i: "bspsc_inv ?s" by (rule bspsc_step_inv) (use Cons.prems in auto)
  have "woken ?s \<and> wake_rank ?s \<le> wake_rank s - (if act = B_Consumer then 1 else 0)"
  proof (cases "act = B_Consumer")
    case True
    then show ?thesis using woken_consumer [OF Cons.prems(1,2), of malloc] i by simp
  next
    case False
    have "act \<noteq> B_Dequeue m" for m using Cons.prems(4) by auto
    from woken_others [OF Cons.prems(1) False this] show ?thesis using False by simp
  qed
  moreover have "length (sent (base ?s)) + length later < 2 ^ 61"
    using bspsc_step_sent [of malloc act s] Cons.prems(3) by simp
  then have "woken (bspsc_run malloc later ?s) \<and> wake_rank (bspsc_run malloc later ?s) \<le> wake_rank ?s - count_list later B_Consumer"
    using Cons.IH [OF _ i] Cons.prems(4) calculation by simp
  ultimately show ?case by (auto simp: bspsc_run_def split: if_splits)
qed (simp add: bspsc_run_def)

text \<open>C7. No wake-up is lost: a consumer that waits in \<open>wait_dequeue\<close> or \<open>wait_dequeue_timed\<close> while there is an element in the queue and the
  producer is not in the middle of a call gets an element within ten steps of its own, whatever the producer does meanwhile.\<close>

theorem no_lost_wakeup:
  assumes "0 < sz" "unat sz < 2 ^ 62" "\<And>p. p < initial_blocks (unat sz) \<Longrightarrow> malloc p" "length acts + length later < 2 ^ 61"
    and "\<forall>m. B_Dequeue m \<notin> set later" "10 \<le> count_list later B_Consumer"
  shows "\<exists>q s. rwq_new malloc sz = (Inr (), q) \<and> s = bspsc_run malloc acts (bspsc_new q) \<and>
    ((bcons s = BC_Wait \<or> (\<exists>m. bcons s = BC_Wait_Timed m)) \<and> bprod_returned (bprod s) \<and>
       length (received (base s)) < length (sent (base s)) \<longrightarrow>
     (\<exists>x. bcons (bspsc_run malloc later s) = BC_Done (Some x)))"
proof -
  obtain q :: "'a rwq" where q: "rwq_new malloc sz = (Inr (), q)" "rwq_holds (unat sz) q []"
    using rwq_new_holds [where malloc = malloc, OF assms(1-3)] by blast
  define s where "s = bspsc_run malloc acts (bspsc_new q)"
  have new: "length (sent (base (bspsc_new q))) = 0" by (simp add: bspsc_new_def spsc_new_def)
  have inv: "bspsc_inv s"
    unfolding s_def by (rule bspsc_run_inv [OF bspsc_inv_new [OF q(2)]]) (use assms(4) new in simp)
  have "length (sent (base (bspsc_run malloc acts s'))) \<le> length (sent (base s')) + length acts" for acts and s' :: "'a bspsc"
  proof (induction acts arbitrary: s')
    case (Cons act acts)
    show ?case using Cons [of "bspsc_step malloc act s'"] bspsc_step_sent [of malloc act s'] by (simp add: bspsc_run_def)
  qed (simp add: bspsc_run_def)
  from this [of acts "bspsc_new q"] have len: "length (sent (base s)) + length later < 2 ^ 61"
    using assms(4) new by (simp add: s_def)
  have "\<exists>x. bcons (bspsc_run malloc later s) = BC_Done (Some x)"
    if w: "bcons s = BC_Wait \<or> (\<exists>m. bcons s = BC_Wait_Timed m)" and p: "bprod_returned (bprod s)"
      and ne: "length (received (base s)) < length (sent (base s))"
  proof -
    have "unsignalled (bprod s) = 0" "posting (bprod s) = 0" using p by (cases "bprod s"; simp)+
    moreover have "sema_ok (bprod s) (bcons s) (int (in_queue (base s))) (bsema s)" using inv by (simp add: bspsc_inv_def)
    ultimately have "0 < m_sema (bsema s)" using w ne by (auto simp: held_def elim!: sema_okE)
    then have "woken s" using w by (auto simp: woken_def)
    note run = woken_run [OF this inv len assms(5), of malloc]
    have "wake_rank s \<le> 10" using w by (auto simp: wake_rank_def)
    then have rank: "wake_rank (bspsc_run malloc later s) = 0" using run assms(6) by simp
    have "bspsc_inv (bspsc_run malloc later s)" by (rule bspsc_run_inv [OF inv len])
    then have "bcons (bspsc_run malloc later s) = BC_Inner \<Longrightarrow> \<not> cons_returned (cons (base (bspsc_run malloc later s)))"
      and "spsc_inv False 0 (base (bspsc_run malloc later s))"
      by (simp_all add: bspsc_inv_def)
    note inner = this(1) spsc_inv_no_error(2) [OF this(2)]
    have "bcons (bspsc_run malloc later s) \<noteq> BC_Inner"
    proof
      assume c: "bcons (bspsc_run malloc later s) = BC_Inner"
      then have "cons_rank (cons (base (bspsc_run malloc later s))) = 0" using rank by (simp add: wake_rank_def)
      then show False using inner(1) [OF c] inner(2) unfolding cons_rank_zero by blast
    qed
    then show ?thesis using run rank by (auto simp: woken_def wake_rank_def)
  qed
  then show ?thesis using q(1) s_def by blast
qed

lemma count_list_replicate_same: "count_list (replicate n x) x = n"
  by (induction n) simp_all

theorem no_lost_wakeup_witness:
  "\<exists>q s. rwq_new (\<lambda>_. True) 1 = (Inr (), q) \<and>
    s = bspsc_run (\<lambda>_. True) ([B_Dequeue Wait] @ replicate 1027 B_Consumer @ [B_Enqueue False (7 :: int)] @ replicate 5 B_Producer)
      (bspsc_new q) \<and>
    ((bcons s = BC_Wait \<or> (\<exists>m. bcons s = BC_Wait_Timed m)) \<and> bprod_returned (bprod s) \<and>
       length (received (base s)) < length (sent (base s)) \<longrightarrow>
     (\<exists>x. bcons (bspsc_run (\<lambda>_. True) (replicate 10 B_Consumer) s) = BC_Done (Some x)))"
  by (rule no_lost_wakeup) (simp_all add: count_list_replicate_same)

end
