(* ===== verification/Semaphore_Posix.thy ===== *)
theory Semaphore_Posix
  imports Blocking_Queue
begin

text \<open>
  The POSIX class \<open>Semaphore\<close> of \<open>utils/queues/moodycamel/atomicops.h\<close> call by call: the loops that repeat an
  interrupted system call, the deadline of \<open>timed_wait\<close>, and the loops of \<open>signal\<close>.  The system calls are a
  parameter with the documented behaviour of POSIX.  The semaphore of \<open>Blocking_Queue\<close>, whose operations
  are one step each, is what these loops implement.
\<close>

section \<open>System calls\<close>

text \<open>Only \<open>EINTR\<close> matters to the code.\<close>

datatype errno = EINTR | EAGAIN | ETIMEDOUT | EINVAL | EOVERFLOW

record timespec =
  tv_sec :: "64 word"
  tv_nsec :: "64 word"

text \<open>A call gives its return value and \<open>errno\<close>; one that blocks and is never woken is \<open>Deadlock\<close>.\<close>

type_synonym 'k syscall = "'k \<Rightarrow> (int \<times> errno) result \<times> 'k"

record 'k posix =
  sem_init :: "32 word \<Rightarrow> 'k \<Rightarrow> int \<times> 'k"
  sem_destroy :: "'k \<Rightarrow> 'k"
  sem_wait :: "'k syscall"
  sem_trywait :: "'k syscall"
  sem_timedwait :: "timespec \<Rightarrow> 'k syscall"
  sem_post :: "'k \<Rightarrow> int \<times> 'k"
  clock_gettime :: "'k \<Rightarrow> timespec \<times> 'k"

section \<open>The class\<close>

definition semaphore_new :: "'k posix \<Rightarrow> 32 word \<Rightarrow> 'k \<Rightarrow> unit result \<times> 'k" where
  "semaphore_new P initialCount k =
     (if sint initialCount < 0 then (Inl Assert_Fail, k)
      else let (rc, k) = sem_init P initialCount k in
        if rc = 0 then (Inr (), k) else (Inl Assert_Fail, k))"

definition semaphore_delete :: "'k posix \<Rightarrow> 'k \<Rightarrow> 'k" where
  "semaphore_delete P k = sem_destroy P k"

text \<open>\<open>do rc = call; while (rc == -1 && errno == EINTR); return rc == 0;\<close> with a bound on the rounds.\<close>

primrec retry_interrupted :: "nat \<Rightarrow> 'k syscall \<Rightarrow> 'k \<Rightarrow> bool result \<times> 'k" where
  "retry_interrupted 0 call k = (Inl No_Return, k)"
| "retry_interrupted (Suc fuel) call k =
     and_then (call k) (\<lambda>(rc, errno) k.
       if rc = -1 \<and> errno = EINTR then retry_interrupted fuel call k else (Inr (rc = 0), k))"

definition semaphore_wait :: "nat \<Rightarrow> 'k posix \<Rightarrow> 'k \<Rightarrow> bool result \<times> 'k" where
  "semaphore_wait fuel P k = retry_interrupted fuel (sem_wait P) k"

definition semaphore_try_wait :: "nat \<Rightarrow> 'k posix \<Rightarrow> 'k \<Rightarrow> bool result \<times> 'k" where
  "semaphore_try_wait fuel P k = retry_interrupted fuel (sem_trywait P) k"

text \<open>\<open>long\<close> and \<open>time_t\<close> have 64 bits; \<open>usecs\<close> is unsigned.\<close>

definition deadline :: "64 word \<Rightarrow> timespec \<Rightarrow> timespec" where
  "deadline usecs ts =
     (let ts = ts\<lparr>tv_sec := tv_sec ts + usecs div 1000000\<rparr>;
          ts = ts\<lparr>tv_nsec := tv_nsec ts + (usecs mod 1000000) * 1000\<rparr> in
      if 1000000000 \<le> sint (tv_nsec ts)
      then ts\<lparr>tv_nsec := tv_nsec ts - 1000000000, tv_sec := tv_sec ts + 1\<rparr>
      else ts)"

definition semaphore_timed_wait :: "nat \<Rightarrow> 'k posix \<Rightarrow> 64 word \<Rightarrow> 'k \<Rightarrow> bool result \<times> 'k" where
  "semaphore_timed_wait fuel P usecs k =
     (let (ts, k) = clock_gettime P k in retry_interrupted fuel (sem_timedwait P (deadline usecs ts)) k)"

text \<open>\<open>while (sem_post(&m_sema) == -1);\<close>\<close>

primrec semaphore_signal :: "nat \<Rightarrow> 'k posix \<Rightarrow> 'k \<Rightarrow> unit result \<times> 'k" where
  "semaphore_signal 0 P k = (Inl No_Return, k)"
| "semaphore_signal (Suc fuel) P k =
     (let (rc, k) = sem_post P k in if rc = -1 then semaphore_signal fuel P k else (Inr (), k))"

primrec signal_times :: "nat \<Rightarrow> nat \<Rightarrow> 'k posix \<Rightarrow> 'k \<Rightarrow> unit result \<times> 'k" where
  "signal_times 0 fuel P k = (Inr (), k)"
| "signal_times (Suc n) fuel P k = and_then (semaphore_signal fuel P k) (\<lambda>_ k. signal_times n fuel P k)"

definition semaphore_signal_count :: "nat \<Rightarrow> 'k posix \<Rightarrow> 32 word \<Rightarrow> 'k \<Rightarrow> unit result \<times> 'k" where
  "semaphore_signal_count fuel P n k = signal_times (nat (sint n)) fuel P k"

section \<open>What POSIX promises\<close>

definition valid_time :: "timespec \<Rightarrow> bool" where
  "valid_time ts \<longleftrightarrow> 0 \<le> sint (tv_nsec ts) \<and> sint (tv_nsec ts) < 10 ^ 9"

text \<open>A call that waits is interrupted by a signal, changing nothing; or it takes one from a positive count; or it
  ends in its own way, \<open>drained\<close>, on a count of zero.  \<open>val\<close> is the count and \<open>ints\<close> a bound on the interrupts
  to come.\<close>

definition waits :: "('k \<Rightarrow> nat) \<Rightarrow> ('k \<Rightarrow> nat) \<Rightarrow> (int \<times> errno) result \<Rightarrow> 'k syscall \<Rightarrow> bool" where
  "waits val ints drained call \<longleftrightarrow>
     (\<forall>k. let (r, k') = call k in
        r = Inr (-1, EINTR) \<and> val k' = val k \<and> ints k' < ints k \<or>
        0 < val k \<and> (\<exists>e. r = Inr (0, e)) \<and> val k' = val k - 1 \<and> ints k' \<le> ints k \<or>
        val k = 0 \<and> r = drained \<and> val k' = 0 \<and> ints k' \<le> ints k)"

definition posix_laws :: "'k posix \<Rightarrow> ('k \<Rightarrow> nat) \<Rightarrow> ('k \<Rightarrow> nat) \<Rightarrow> nat \<Rightarrow> bool" where
  "posix_laws P val ints sem_value_max \<longleftrightarrow>
     (\<forall>n k. unat n \<le> sem_value_max \<longrightarrow> (\<exists>k'. sem_init P n k = (0, k') \<and> val k' = unat n)) \<and>
     waits val ints (Inl Deadlock) (sem_wait P) \<and>
     waits val ints (Inr (-1, EAGAIN)) (sem_trywait P) \<and>
     (\<forall>ts. valid_time ts \<longrightarrow> waits val ints (Inr (-1, ETIMEDOUT)) (sem_timedwait P ts)) \<and>
     (\<forall>k. if val k < sem_value_max
          then \<exists>k'. sem_post P k = (0, k') \<and> val k' = Suc (val k) \<and> ints k' \<le> ints k
          else \<exists>k'. sem_post P k = (-1, k') \<and> val k' = val k) \<and>
     (\<forall>k. let (ts, k') = clock_gettime P k in
        valid_time ts \<and> 0 \<le> sint (tv_sec ts) \<and> sint (tv_sec ts) < 2 ^ 62 \<and> val k' = val k \<and> ints k' \<le> ints k)"

section \<open>The deadline\<close>

lemma sint_add_small:
  assumes "- (2 ^ 63) \<le> sint a + sint b" "sint a + sint b < 2 ^ 63"
  shows "sint (a + b :: 64 word) = sint a + sint b"
proof -
  have "a + b = word_of_int (sint a + sint b)" by simp
  then show ?thesis using sint_of_int_small [OF assms] by simp
qed

lemma sint_uint_small: "uint (w :: 64 word) < 2 ^ 63 \<Longrightarrow> sint w = uint w"
proof -
  assume b: "uint w < 2 ^ 63"
  have "- (2 ^ 63) \<le> uint w" by (rule order_trans [OF _ uint_ge_0]) simp
  from sint_of_int_small [OF this b] show "sint w = uint w" by simp
qed

lemma deadline_exact:
  assumes "valid_time ts" "0 \<le> sint (tv_sec ts)" "sint (tv_sec ts) < 2 ^ 62"
  shows "valid_time (deadline usecs ts)"
    "sint (tv_sec (deadline usecs ts)) * 10 ^ 9 + sint (tv_nsec (deadline usecs ts)) =
     sint (tv_sec ts) * 10 ^ 9 + sint (tv_nsec ts) + int (unat usecs) * 1000"
proof -
  define s where "s = uint usecs div 1000000"
  define m where "m = uint usecs mod 1000000"
  have u: "0 \<le> uint usecs" "uint usecs < 2 ^ 64" using uint_bounded [of usecs] by simp_all
  have s: "0 \<le> s" "s < 2 ^ 62" using u by (simp_all add: s_def pos_imp_zdiv_nonneg_iff)
  have m: "0 \<le> m" "m < 1000000" by (simp_all add: m_def)
  have usecs: "uint usecs = s * 1000000 + m" by (simp add: s_def m_def)
  have us: "uint (usecs div 1000000) = s" by (simp add: s_def uint_div)
  have um: "uint (usecs mod 1000000) = m" by (simp add: m_def uint_mod)
  have "usecs mod 1000000 * 1000 = word_of_int (m * 1000)" using um by (simp flip: um)
  then have sm: "sint (usecs mod 1000000 * 1000) = m * 1000" using sint_of_int_small [of "m * 1000"] m by simp
  have ss: "sint (usecs div 1000000) = s" using sint_uint_small [of "usecs div 1000000"] us s by simp
  have sec: "sint (tv_sec ts + usecs div 1000000) = sint (tv_sec ts) + s"
    using sint_add_small [of "tv_sec ts" "usecs div 1000000"] assms(2,3) s ss by simp
  have nsec: "sint (tv_nsec ts + usecs mod 1000000 * 1000) = sint (tv_nsec ts) + m * 1000"
    using sint_add_small [of "tv_nsec ts" "usecs mod 1000000 * 1000"] assms(1) m sm by (simp add: valid_time_def)
  have one: "sint (- 1000000000 :: 64 word) = - 1000000000" "sint (1 :: 64 word) = 1" by simp_all
  have carry: "sint (tv_nsec ts + usecs mod 1000000 * 1000 - 1000000000) = sint (tv_nsec ts) + m * 1000 - 1000000000"
    using sint_add_small [of "tv_nsec ts + usecs mod 1000000 * 1000" "- 1000000000"] assms(1) m one nsec
    by (simp add: valid_time_def)
  have sec1: "sint (tv_sec ts + usecs div 1000000 + 1) = sint (tv_sec ts) + s + 1"
    using sint_add_small [of "tv_sec ts + usecs div 1000000" 1] assms(2,3) s one sec by simp
  show "valid_time (deadline usecs ts)"
    using assms(1) m nsec carry by (auto simp: valid_time_def deadline_def Let_def)
  have "int (unat usecs) = s * 1000000 + m" using usecs by simp
  then show "sint (tv_sec (deadline usecs ts)) * 10 ^ 9 + sint (tv_nsec (deadline usecs ts)) =
     sint (tv_sec ts) * 10 ^ 9 + sint (tv_nsec ts) + int (unat usecs) * 1000"
    using nsec carry sec sec1 by (simp add: deadline_def Let_def)
qed

section \<open>The loops\<close>

fun outcome :: "(int \<times> errno) result \<Rightarrow> bool result" where
  "outcome (Inl e) = Inl e"
| "outcome (Inr (rc, errno)) = Inr (rc = 0)"

lemma retry_waits:
  assumes "waits val ints drained call" "drained \<noteq> Inr (-1, EINTR)"
  shows "ints k < fuel \<Longrightarrow> \<exists>k'. retry_interrupted fuel call k =
      (if 0 < val k then Inr True else outcome drained, k') \<and> val k' = val k - 1 \<and> ints k' \<le> ints k"
proof (induction fuel arbitrary: k)
  case (Suc fuel)
  obtain r k' where c: "call k = (r, k')" by fastforce
  from assms(1) [unfolded waits_def, THEN spec, of k] c
  consider "r = Inr (-1, EINTR)" "val k' = val k" "ints k' < ints k"
    | e where "0 < val k" "r = Inr (0, e)" "val k' = val k - 1" "ints k' \<le> ints k"
    | "val k = 0" "r = drained" "val k' = 0" "ints k' \<le> ints k" by auto
  then show ?case
  proof cases
    case 1
    then have "ints k' < fuel" using Suc.prems by simp
    from Suc.IH [OF this] show ?thesis using 1 c by auto
  next
    case 2
    then show ?thesis using c by simp
  next
    case 3
    then show ?thesis using c assms(2) by (cases drained) (auto split: prod.splits)
  qed
qed simp

lemma semaphore_signal_once:
  assumes "posix_laws P val ints sem_value_max" "val k < sem_value_max" "0 < fuel"
  shows "\<exists>k'. semaphore_signal fuel P k = (Inr (), k') \<and> val k' = Suc (val k) \<and> ints k' \<le> ints k"
proof -
  have "\<exists>k'. sem_post P k = (0, k') \<and> val k' = Suc (val k) \<and> ints k' \<le> ints k"
    using assms(1,2) unfolding posix_laws_def by simp
  then show ?thesis using assms(3) by (cases fuel) auto
qed

text \<open>Where the count has reached its limit \<open>signal\<close> never returns.\<close>

lemma semaphore_signal_overflow:
  assumes "posix_laws P val ints sem_value_max" "val k \<ge> sem_value_max"
  shows "\<exists>k'. semaphore_signal fuel P k = (Inl No_Return, k')"
  using assms(2)
proof (induction fuel arbitrary: k)
  case (Suc fuel)
  have "\<exists>k'. sem_post P k = (-1, k') \<and> val k' = val k" using assms(1) Suc.prems unfolding posix_laws_def by simp
  then show ?case using Suc by auto
qed simp

lemma signal_times_adds:
  assumes "posix_laws P val ints sem_value_max" "0 < fuel"
  shows "val k + n \<le> sem_value_max \<Longrightarrow> \<exists>k'. signal_times n fuel P k = (Inr (), k') \<and> val k' = val k + n"
proof (induction n arbitrary: k)
  case (Suc n)
  then obtain k' where k': "semaphore_signal fuel P k = (Inr (), k')" "val k' = Suc (val k)"
    using semaphore_signal_once [OF assms(1) _ assms(2), of k] by auto
  with Suc.prems have "val k' + n \<le> sem_value_max" by simp
  from Suc.IH [OF this] show ?case using k' by auto
qed simp

section \<open>Refinement\<close>

text \<open>C13. The class \<open>Semaphore\<close> implements the counting semaphore that \<open>LightweightSemaphore\<close> is verified on:
  with more rounds than signals interrupt the thread, \<open>wait\<close>, \<open>try_wait\<close> and \<open>timed_wait\<close> return what that
  semaphore returns and leave its count, although each interrupted call is started again and \<open>timed_wait\<close>
  computes its deadline in machine integers (that deadline is exactly the clock's time plus the microseconds
  asked for); \<open>signal\<close> adds one, or never returns where the count is at the
  system's limit.\<close>

theorem posix_semaphore_refines:
  assumes laws: "posix_laws P val ints sem_value_max" and rel: "val k = m_sema s" and fuel: "ints k < fuel"
  shows "(\<exists>k'. semaphore_wait fuel P k = (fst (posix_wait s), k') \<and> val k' = m_sema (snd (posix_wait s))) \<and>
    (\<exists>k'. semaphore_try_wait fuel P k = (Inr (fst (posix_try_wait s)), k') \<and> val k' = m_sema (snd (posix_try_wait s))) \<and>
    (\<exists>k'. semaphore_timed_wait fuel P usecs k = (Inr (fst (posix_timed_wait s)), k') \<and>
       val k' = m_sema (snd (posix_timed_wait s))) \<and>
    (let ts = fst (clock_gettime P k); due = deadline usecs ts in
       valid_time due \<and> sint (tv_sec due) * 10 ^ 9 + sint (tv_nsec due) =
         sint (tv_sec ts) * 10 ^ 9 + sint (tv_nsec ts) + 1000 * uint usecs) \<and>
    (if m_sema s < sem_value_max
     then \<exists>k'. semaphore_signal fuel P k = (Inr (), k') \<and> val k' = m_sema (posix_signal s)
     else \<exists>k'. semaphore_signal fuel P k = (Inl No_Return, k'))"
proof (intro conjI)
  have w: "waits val ints (Inl Deadlock) (sem_wait P)" "waits val ints (Inr (-1, EAGAIN)) (sem_trywait P)"
    "\<And>ts. valid_time ts \<Longrightarrow> waits val ints (Inr (-1, ETIMEDOUT)) (sem_timedwait P ts)"
    using laws by (simp_all add: posix_laws_def)
  show "\<exists>k'. semaphore_wait fuel P k = (fst (posix_wait s), k') \<and> val k' = m_sema (snd (posix_wait s))"
    using retry_waits [OF w(1) _ fuel] rel by (auto simp: semaphore_wait_def posix_wait_def)
  show "\<exists>k'. semaphore_try_wait fuel P k = (Inr (fst (posix_try_wait s)), k') \<and> val k' = m_sema (snd (posix_try_wait s))"
    using retry_waits [OF w(2) _ fuel] rel by (auto simp: semaphore_try_wait_def posix_try_wait_def)
  obtain ts k1 where t: "clock_gettime P k = (ts, k1)" by fastforce
  then have ts: "valid_time ts" "0 \<le> sint (tv_sec ts)" "sint (tv_sec ts) < 2 ^ 62" "val k1 = m_sema s" "ints k1 < fuel"
    using laws rel fuel unfolding posix_laws_def by (auto dest!: spec [of _ k])
  show "\<exists>k'. semaphore_timed_wait fuel P usecs k = (Inr (fst (posix_timed_wait s)), k') \<and>
       val k' = m_sema (snd (posix_timed_wait s))"
    using retry_waits [OF w(3) [OF deadline_exact(1) [OF ts(1-3), of usecs]] _ ts(5)] t ts(4)
    by (auto simp: semaphore_timed_wait_def posix_timed_wait_def posix_try_wait_def)
  show "let ts = fst (clock_gettime P k); due = deadline usecs ts in
       valid_time due \<and> sint (tv_sec due) * 10 ^ 9 + sint (tv_nsec due) =
         sint (tv_sec ts) * 10 ^ 9 + sint (tv_nsec ts) + 1000 * uint usecs"
    using deadline_exact [OF ts(1-3), of usecs] t by (simp add: Let_def)
  show "if m_sema s < sem_value_max
     then \<exists>k'. semaphore_signal fuel P k = (Inr (), k') \<and> val k' = m_sema (posix_signal s)
     else \<exists>k'. semaphore_signal fuel P k = (Inl No_Return, k')"
    using semaphore_signal_once [OF laws, of k fuel] semaphore_signal_overflow [OF laws, of k fuel] rel fuel
    by (auto simp: posix_signal_def)
qed

text \<open>A kernel whose state is the count, at most five, and the interrupts still to come.\<close>

fun sample_call :: "(int \<times> errno) result \<Rightarrow> (nat \<times> nat) syscall" where
  "sample_call drained (c, Suc i) = (Inr (-1, EINTR), c, i)"
| "sample_call drained (Suc c, 0) = (Inr (0, EAGAIN), c, 0)"
| "sample_call drained (0, 0) = (drained, 0, 0)"

definition sample_posix :: "(nat \<times> nat) posix" where
  "sample_posix = \<lparr>sem_init = (\<lambda>n k. (0, unat n, snd k)), sem_destroy = (\<lambda>k. k),
     sem_wait = sample_call (Inl Deadlock), sem_trywait = sample_call (Inr (-1, EAGAIN)),
     sem_timedwait = (\<lambda>ts. sample_call (Inr (-1, ETIMEDOUT))),
     sem_post = (\<lambda>(c, i). if c < 5 then (0, Suc c, i) else (-1, c, i)),
     clock_gettime = (\<lambda>k. (\<lparr>tv_sec = 1700000000, tv_nsec = 999999999\<rparr>, k))\<rparr>"

lemma waits_sample_call: "waits fst snd drained (sample_call drained)"
proof -
  have "let (r, k') = sample_call drained k in
        r = Inr (-1, EINTR) \<and> fst k' = fst k \<and> snd k' < snd k \<or>
        0 < fst k \<and> (\<exists>e. r = Inr (0, e)) \<and> fst k' = fst k - 1 \<and> snd k' \<le> snd k \<or>
        fst k = 0 \<and> r = drained \<and> fst k' = 0 \<and> snd k' \<le> snd k" for k
    by (cases "(drained, k)" rule: sample_call.cases) auto
  then show ?thesis unfolding waits_def by blast
qed

lemma posix_laws_sample: "posix_laws sample_posix fst snd 5"
  using waits_sample_call by (simp add: posix_laws_def sample_posix_def valid_time_def split_def)

theorem posix_semaphore_refines_witness:
  "(\<exists>k'. semaphore_wait 4 sample_posix (2, 3) = (Inr True, k') \<and> fst k' = 1) \<and>
   (\<exists>k'. semaphore_timed_wait 4 sample_posix 1 (2, 3) = (Inr True, k') \<and> fst k' = 1) \<and>
   (\<exists>k'. semaphore_signal 4 sample_posix (2, 3) = (Inr (), k') \<and> fst k' = 3)"
  using posix_semaphore_refines [OF posix_laws_sample, of "(2, 3)" "\<lparr>m_count = 0, m_sema = 2\<rparr>" 4 1]
  by (simp add: posix_wait_def posix_timed_wait_def posix_try_wait_def posix_signal_def numeral_3_eq_3)

end
