(* ===== verification/Std_Queue.thy ===== *)
theory Std_Queue
  imports IQueue
begin

text \<open>
  \<open>core/src/utils/queues/StdQueue.hpp\<close>: a \<open>std::queue\<close> behind a mutex.
\<close>

record 'a std_queue =
  items :: "'a list"
  mtx :: bool

definition std_new :: "'a std_queue" where
  "std_new = \<lparr>items = [], mtx = False\<rparr>"

definition std_lock :: "('a std_queue \<Rightarrow> 'r result \<times> 'a std_queue) \<Rightarrow> 'a std_queue \<Rightarrow> 'r result \<times> 'a std_queue" where
  "std_lock = lock_guard mtx (\<lambda>b q. q\<lparr>mtx := b\<rparr>)"

text \<open>\<open>front()\<close> of an empty \<open>std::queue\<close> has no meaning; \<open>peek\<close> does not check.\<close>

definition std_peek :: "'a std_queue \<Rightarrow> 'a result \<times> 'a std_queue" where
  "std_peek = std_lock (\<lambda>q. case items q of [] \<Rightarrow> (Inl UB, q) | x # xs \<Rightarrow> (Inr x, q))"

definition std_pop :: "'a std_queue \<Rightarrow> 'a option result \<times> 'a std_queue" where
  "std_pop = std_lock (\<lambda>q. case items q of
     [] \<Rightarrow> (Inr None, q)
   | item # its \<Rightarrow> (Inr (Some item), q\<lparr>items := its\<rparr>))"

definition std_push_copy :: "bool \<Rightarrow> 'a \<Rightarrow> 'a std_queue \<Rightarrow> bool result \<times> 'a std_queue" where
  "std_push_copy copy_constructible item q =
     (if copy_constructible then std_lock (\<lambda>q. (Inr True, q\<lparr>items := items q @ [item]\<rparr>)) q
      else (Inl (Exn (Runtime_Error ''Cannot push move-only type via const reference'')), q))"

definition std_push :: "'a \<Rightarrow> 'a std_queue \<Rightarrow> bool result \<times> 'a std_queue" where
  "std_push item = std_lock (\<lambda>q. (Inr True, q\<lparr>items := items q @ [item]\<rparr>))"

definition std_repr :: "'a std_queue \<Rightarrow> 'a list \<Rightarrow> bool" where
  "std_repr q xs \<longleftrightarrow> \<not> mtx q \<and> items q = xs"

lemmas std_defs [op_defs] = std_lock_def lock_guard_def std_peek_def std_pop_def std_push_def std_push_copy_def std_repr_def

interpretation std: unbounded_queue std_repr std_push std_pop std_peek
  by unfold_locales (auto simp: op_defs)

end
