(* ===== verification/Queue_Factory.thy ===== *)
theory Queue_Factory
  imports Std_Queue Blocking_Queue
begin

text \<open>
  \<open>utils/queues/MoodycamelQueue.hpp\<close>, the wrapper that makes an \<open>IQueue\<close> of a moodycamel queue,
  \<open>LockFreeQueue.hpp\<close> and \<open>BlockingQueue.hpp\<close>, its two instances, and \<open>QueueFactory.hpp\<close>, which makes
  an object of the class asked for; calls on the object are dispatched on its class.
\<close>

section \<open>The wrapper\<close>

text \<open>\<open>peek\<close> dereferences the pointer it gets, also the null pointer of an empty queue.\<close>

definition moody_peek :: "('s \<Rightarrow> 'a option result \<times> 's) \<Rightarrow> 's \<Rightarrow> 'a result \<times> 's" where
  "moody_peek peek q = and_then (peek q) (\<lambda>p q. case p of None \<Rightarrow> (Inl UB, q) | Some x \<Rightarrow> (Inr x, q))"

definition moody_pop :: "('s \<Rightarrow> 'a option result \<times> 's) \<Rightarrow> 's \<Rightarrow> 'a option result \<times> 's" where
  "moody_pop try_deq q = try_deq q"

definition moody_push_copy ::
  "bool \<Rightarrow> ('a \<Rightarrow> 's \<Rightarrow> bool result \<times> 's) \<Rightarrow> 'a \<Rightarrow> 's \<Rightarrow> bool result \<times> 's" where
  "moody_push_copy copy_constructible try_enq item q =
     (if copy_constructible then try_enq item q
      else (Inl (Exn (Runtime_Error ''Cannot push move-only type via const reference'')), q))"

definition moody_push :: "('a \<Rightarrow> 's \<Rightarrow> bool result \<times> 's) \<Rightarrow> 'a \<Rightarrow> 's \<Rightarrow> bool result \<times> 's" where
  "moody_push try_enq item q = try_enq item q"

text \<open>The concept \<open>MoodyQueue\<close> with what its operations promise.\<close>

locale moody_queue =
  fixes repr :: "'s \<Rightarrow> 'a list \<Rightarrow> bool"
    and try_enq :: "'a \<Rightarrow> 's \<Rightarrow> bool result \<times> 's"
    and try_deq :: "'s \<Rightarrow> 'a option result \<times> 's"
    and mpeek :: "'s \<Rightarrow> 'a option result \<times> 's"
    and cap :: nat
  assumes enq_law: "repr q xs \<Longrightarrow>
      \<exists>q'. try_enq x q = (Inr (length xs < cap), q') \<and> repr q' (if length xs < cap then xs @ [x] else xs)"
    and deq_none: "repr q [] \<Longrightarrow> \<exists>q'. try_deq q = (Inr None, q') \<and> repr q' []"
    and deq_some: "repr q (x # xs) \<Longrightarrow> \<exists>q'. try_deq q = (Inr (Some x), q') \<and> repr q' xs"
    and peek_some: "repr q (x # xs) \<Longrightarrow> \<exists>q'. mpeek q = (Inr (Some x), q') \<and> repr q' (x # xs)"

sublocale moody_queue \<subseteq> wrapped: bounded_queue repr "moody_push try_enq" "moody_pop try_deq" "moody_peek mpeek" cap
proof
  fix q :: 's and xs :: "'a list" and x :: 'a
  assume q: "repr q xs"
  from enq_law [OF q, of x] show "\<exists>b q'. moody_push try_enq x q = (Inr b, q') \<and> repr q' (if b then xs @ [x] else xs)"
    unfolding moody_push_def by blast
  from enq_law [OF q, of x] show "fst (moody_push try_enq x q) = Inr (length xs < cap)"
    by (auto simp: moody_push_def)
next
  fix q :: 's
  assume "repr q []"
  then show "\<exists>q'. moody_pop try_deq q = (Inr None, q') \<and> repr q' []"
    unfolding moody_pop_def by (rule deq_none)
next
  fix q :: 's and xs :: "'a list" and x :: 'a
  assume q: "repr q (x # xs)"
  then show "\<exists>q'. moody_pop try_deq q = (Inr (Some x), q') \<and> repr q' xs"
    unfolding moody_pop_def by (rule deq_some)
  show "\<exists>q'. moody_peek mpeek q = (Inr x, q') \<and> repr q' (x # xs)"
    using peek_some [OF q] by (auto simp: moody_peek_def)
qed

section \<open>The two queues\<close>

text \<open>The default constructors ask for 15 elements and get one block of 16 slots.\<close>

definition DEFAULT_SIZE :: size_t where "DEFAULT_SIZE = 15"

interpretation lock_free: moody_queue "rwq_single 16" try_enqueue try_dequeue rwq_peek 15
proof
  fix q :: "'a rwq" and xs x
  assume "rwq_single 16 q xs"
  from rwq_single_enqueue [OF this, of x] show "\<exists>q'. try_enqueue x q = (Inr (length xs < 15), q') \<and>
      rwq_single 16 q' (if length xs < 15 then xs @ [x] else xs)"
    by (simp add: Suc_less_eq2 flip: eval_nat_numeral)
next
  fix q :: "'a rwq"
  assume "rwq_single 16 q []"
  from rwq_single_dequeue(1) [OF this] show "\<exists>q'. try_dequeue q = (Inr None, q') \<and> rwq_single 16 q' []" by simp
next
  fix q :: "'a rwq" and x xs
  assume q: "rwq_single 16 q (x # xs)"
  from rwq_single_dequeue(1) [OF q] show "\<exists>q'. try_dequeue q = (Inr (Some x), q') \<and> rwq_single 16 q' xs" by simp
  from rwq_single_dequeue(2) [OF q refl] show "\<exists>q'. rwq_peek q = (Inr (Some x), q') \<and> rwq_single 16 q' (x # xs)" .
qed

interpretation blocking: moody_queue "brwq_repr 16" brwq_try_enqueue brwq_try_dequeue brwq_peek 15
proof
  fix q :: "'a brwq" and xs x
  assume "brwq_repr 16 q xs"
  from brwq_push [OF this, of x] show "\<exists>q'. brwq_try_enqueue x q = (Inr (length xs < 15), q') \<and>
      brwq_repr 16 q' (if length xs < 15 then xs @ [x] else xs)"
    by (simp add: Suc_less_eq2 flip: eval_nat_numeral)
next
  fix q :: "'a brwq"
  assume "brwq_repr 16 q []"
  then show "\<exists>q'. brwq_try_dequeue q = (Inr None, q') \<and> brwq_repr 16 q' []" using brwq_pop_law(1) by blast
next
  fix q :: "'a brwq" and x xs
  assume q: "brwq_repr 16 q (x # xs)"
  then show "\<exists>q'. brwq_try_dequeue q = (Inr (Some x), q') \<and> brwq_repr 16 q' xs" by (rule brwq_pop_law(2))
  from q show "\<exists>q'. brwq_peek q = (Inr (Some x), q') \<and> brwq_repr 16 q' (x # xs)" by (rule brwq_peek_law)
qed

lemma default_rwq:
  assumes "malloc 0"
  shows "\<exists>q. rwq_new malloc DEFAULT_SIZE = (Inr (), q) \<and> rwq_single 16 q []"
proof -
  have 1: "initial_blocks (unat DEFAULT_SIZE) = 1" by (simp add: DEFAULT_SIZE_def initial_blocks_def)
  have m: "malloc p" if "p < initial_blocks (unat DEFAULT_SIZE)" for p using that assms 1 by simp
  have s: "0 < DEFAULT_SIZE" "unat DEFAULT_SIZE < 2 ^ 62" by (simp_all add: DEFAULT_SIZE_def)
  obtain q :: "'a rwq" and j where q: "rwq_new malloc DEFAULT_SIZE = (Inr (), q)"
    "rwq_rel q [0..<1] (replicate 1 []) 0" "\<And>p. p < 1 \<Longrightarrow> block_sizes q p = Some (2 ^ j)"
    "unat DEFAULT_SIZE \<le> 1023 \<longrightarrow> 2 ^ (j - 1) \<le> unat DEFAULT_SIZE \<and> unat DEFAULT_SIZE < 2 ^ j"
    by (rule rwq_new_rel [where malloc = malloc and ?'a = 'a, OF s m, unfolded 1]) auto
  have "(2::nat) ^ (j - 1) < 2 ^ 4" "(2::nat) ^ 3 < 2 ^ j" using q(4) by (simp_all add: DEFAULT_SIZE_def)
  then have "j - 1 < 4" "3 < j"
    using power_less_imp_less_exp [of "2::nat" "j - 1" 4] power_less_imp_less_exp [of "2::nat" 3 j] by simp_all
  then have "j = 4" by simp
  then show ?thesis using q(1,2) q(3) [of 0] by (auto simp: rwq_single_def)
qed

lemma default_brwq:
  assumes "malloc 0"
  shows "\<exists>q :: 'a brwq. brwq_new malloc DEFAULT_SIZE = (Inr (), q) \<and> brwq_repr 16 q []"
proof -
  obtain i :: "'a rwq" where "rwq_new malloc DEFAULT_SIZE = (Inr (), i)" "rwq_single 16 i []"
    using default_rwq [where malloc = malloc, OF assms] by blast
  then show ?thesis by (simp add: brwq_new_def brwq_repr_def sema_new_def)
qed

section \<open>The factory\<close>

datatype queue_type = STD_QUEUE | BLOCKING | LOCK_FREE

datatype 'a queue_obj = Std_Obj "'a std_queue" | Blocking_Obj "'a brwq" | Lock_Free_Obj "'a rwq"

definition make_queue :: "(nat \<Rightarrow> bool) \<Rightarrow> queue_type \<Rightarrow> 'a queue_obj result" where
  "make_queue malloc t =
     (case t of
        STD_QUEUE \<Rightarrow> Inr (Std_Obj std_new)
      | BLOCKING \<Rightarrow> (case brwq_new malloc DEFAULT_SIZE of (r, q) \<Rightarrow> rmap (\<lambda>_. Blocking_Obj q) r)
      | LOCK_FREE \<Rightarrow> (case rwq_new malloc DEFAULT_SIZE of (r, q) \<Rightarrow> rmap (\<lambda>_. Lock_Free_Obj q) r))"

text \<open>Virtual calls.\<close>

fun dispatch ::
  "('a std_queue \<Rightarrow> 'r \<times> 'a std_queue) \<Rightarrow> ('a brwq \<Rightarrow> 'r \<times> 'a brwq) \<Rightarrow> ('a rwq \<Rightarrow> 'r \<times> 'a rwq) \<Rightarrow>
   'a queue_obj \<Rightarrow> 'r \<times> 'a queue_obj" where
  "dispatch f g h (Std_Obj q) = (let (r, q) = f q in (r, Std_Obj q))"
| "dispatch f g h (Blocking_Obj q) = (let (r, q) = g q in (r, Blocking_Obj q))"
| "dispatch f g h (Lock_Free_Obj q) = (let (r, q) = h q in (r, Lock_Free_Obj q))"

definition queue_push :: "'a \<Rightarrow> 'a queue_obj \<Rightarrow> bool result \<times> 'a queue_obj" where
  "queue_push x = dispatch (std_push x) (moody_push brwq_try_enqueue x) (moody_push try_enqueue x)"

definition queue_pop :: "'a queue_obj \<Rightarrow> 'a option result \<times> 'a queue_obj" where
  "queue_pop = dispatch std_pop (moody_pop brwq_try_dequeue) (moody_pop try_dequeue)"

definition queue_peek :: "'a queue_obj \<Rightarrow> 'a result \<times> 'a queue_obj" where
  "queue_peek = dispatch std_peek (moody_peek brwq_peek) (moody_peek rwq_peek)"

fun queue_repr :: "'a queue_obj \<Rightarrow> 'a list \<Rightarrow> bool" where
  "queue_repr (Std_Obj q) xs = std_repr q xs"
| "queue_repr (Blocking_Obj q) xs = brwq_repr 16 q xs"
| "queue_repr (Lock_Free_Obj q) xs = rwq_single 16 q xs"

lemma dispatch_ex:
  "\<exists>b z'. f z = (Inr b, z') \<and> R b (Std_Obj z') \<Longrightarrow> \<exists>b q'. dispatch f g h (Std_Obj z) = (Inr b, q') \<and> R b q'"
  "\<exists>b y'. g y = (Inr b, y') \<and> R b (Blocking_Obj y') \<Longrightarrow> \<exists>b q'. dispatch f g h (Blocking_Obj y) = (Inr b, q') \<and> R b q'"
  "\<exists>b x'. h x = (Inr b, x') \<and> R b (Lock_Free_Obj x') \<Longrightarrow> \<exists>b q'. dispatch f g h (Lock_Free_Obj x) = (Inr b, q') \<and> R b q'"
  by auto

lemma queue_push_law:
  "queue_repr q xs \<Longrightarrow> \<exists>b q'. queue_push x q = (Inr b, q') \<and> queue_repr q' (if b then xs @ [x] else xs)"
  unfolding queue_push_def
  by (cases q; simp only: queue_repr.simps, rule dispatch_ex, simp only: queue_repr.simps)
    (erule std.push_law blocking.wrapped.push_law lock_free.wrapped.push_law)+

lemma queue_pop_none: "queue_repr q [] \<Longrightarrow> \<exists>b q'. queue_pop q = (Inr b, q') \<and> b = None \<and> queue_repr q' []"
  unfolding queue_pop_def
  by (cases q; simp only: queue_repr.simps, rule dispatch_ex, simp only: queue_repr.simps)
    (auto dest: std.pop_none blocking.wrapped.pop_none lock_free.wrapped.pop_none)

lemma queue_pop_some:
  "queue_repr q (x # xs) \<Longrightarrow> \<exists>b q'. queue_pop q = (Inr b, q') \<and> b = Some x \<and> queue_repr q' xs"
  unfolding queue_pop_def
  by (cases q; simp only: queue_repr.simps, rule dispatch_ex, simp only: queue_repr.simps)
    (auto dest: std.pop_some blocking.wrapped.pop_some lock_free.wrapped.pop_some)

lemma queue_peek_law:
  "queue_repr q (x # xs) \<Longrightarrow> \<exists>b q'. queue_peek q = (Inr b, q') \<and> b = x \<and> queue_repr q' (x # xs)"
  unfolding queue_peek_def
  by (cases q; simp only: queue_repr.simps, rule dispatch_ex, simp only: queue_repr.simps)
    (auto dest: std.peek_law blocking.wrapped.peek_law lock_free.wrapped.peek_law)

interpretation iqueue: iqueue queue_repr queue_push queue_pop queue_peek
proof
  fix q :: "'a queue_obj" and x xs
  show "queue_repr q xs \<Longrightarrow> \<exists>b q'. queue_push x q = (Inr b, q') \<and> queue_repr q' (if b then xs @ [x] else xs)"
    by (rule queue_push_law)
  show "queue_repr q [] \<Longrightarrow> \<exists>q'. queue_pop q = (Inr None, q') \<and> queue_repr q' []"
    using queue_pop_none by auto
  show "queue_repr q (x # xs) \<Longrightarrow> \<exists>q'. queue_pop q = (Inr (Some x), q') \<and> queue_repr q' xs"
    using queue_pop_some by fastforce
  show "queue_repr q (x # xs) \<Longrightarrow> \<exists>q'. queue_peek q = (Inr x, q') \<and> queue_repr q' (x # xs)"
    using queue_peek_law by fastforce
qed

lemma make_queue_empty:
  assumes "malloc 0"
  shows "\<exists>q :: 'a queue_obj. make_queue malloc t = Inr q \<and> queue_repr q []"
proof (cases t)
  case STD_QUEUE
  then show ?thesis by (simp add: make_queue_def std_new_def std_repr_def)
next
  case BLOCKING
  obtain q :: "'a brwq" where "brwq_new malloc DEFAULT_SIZE = (Inr (), q)" "brwq_repr 16 q []"
    using default_brwq [where malloc = malloc, OF assms] by blast
  then show ?thesis using BLOCKING by (simp add: make_queue_def)
next
  case LOCK_FREE
  obtain q :: "'a rwq" where "rwq_new malloc DEFAULT_SIZE = (Inr (), q)" "rwq_single 16 q []"
    using default_rwq [where malloc = malloc, OF assms] by blast
  then show ?thesis using LOCK_FREE by (simp add: make_queue_def)
qed

end
