(* ===== verification/RW_Queue_Walk.thy ===== *)
theory RW_Queue_Walk
  imports RW_Queue_Capacity
begin

text \<open>
  The loops of \<open>ReaderWriterQueue\<close> that walk around the ring: counting the elements, and the destructor.
\<close>

section \<open>Visiting every block once\<close>

lemma ring_walk_from:
  assumes rel: "rwq_rel q bs xss k" and i: "i < length bs" and f: "length bs - i \<le> fuel"
  shows "ring_walk fuel q (bs ! i) = Inr (map (\<lambda>p. (p, the (blocks q p))) (drop i bs))"
  using i f
proof (induction fuel arbitrary: i)
  case (Suc fuel)
  note r = rwq_relD [OF rel]
  obtain b where b: "blocks q (bs ! i) = Some b" "next_block b = Some (bs ! (Suc i mod length bs))"
    using r(7) [OF Suc.prems(1)] by (auto simp: slot_def)
  have d: "drop i bs = bs ! i # drop (Suc i) bs" using Suc.prems(1) by (simp add: Cons_nth_drop_Suc)
  show ?case
  proof (cases "Suc i = length bs")
    case True
    then show ?thesis using b r(5) d by simp
  next
    case False
    then have s: "Suc i < length bs" using Suc.prems(1) by simp
    have "ring_walk fuel q (bs ! Suc i) = Inr (map (\<lambda>p. (p, the (blocks q p))) (drop (Suc i) bs))"
      by (rule Suc.IH [OF s]) (use Suc.prems(2) in simp)
    moreover have "bs ! Suc i \<noteq> frontBlock q" using r(1,4,5) s by (simp add: nth_eq_iff_index_eq)
    ultimately show ?thesis using b s d by simp
  qed
qed simp

lemma ring_walk_all:
  assumes "rwq_rel q bs xss k" "length bs \<le> fuel"
  shows "ring_walk fuel q (frontBlock q) = Inr (map (\<lambda>p. (p, the (blocks q p))) bs)"
  using ring_walk_from [OF assms(1) rwq_relD(4) [OF assms(1)]] assms(2) rwq_relD(5) [OF assms(1)] by simp

section \<open>Counting\<close>

lemma block_count:
  assumes "block_rel j b xs"
  shows "(tail b - front b) AND sizeMask b = of_nat (length xs)"
proof -
  have b: "j < 64" "sizeMask b = mask j" "length xs < 2 ^ j" "unat (tail b) = (unat (front b) + length xs) mod 2 ^ j"
    using assms by (simp_all add: block_rel_def)
  have dvd: "(2::int) ^ j dvd 2 ^ LENGTH(64)" using b(1) by (intro le_imp_power_dvd) simp
  have "uint (tail b) = (uint (front b) + int (length xs)) mod 2 ^ j"
    using arg_cong [OF b(4), of int] by (simp add: zmod_int)
  then have "(uint (tail b) - uint (front b)) mod 2 ^ j = int (length xs) mod 2 ^ j"
    by (simp add: mod_diff_left_eq)
  moreover have "uint ((tail b - front b) AND mask j) = uint (tail b - front b) mod 2 ^ j"
    using arg_cong [OF unat_and_mask [of "tail b - front b" j], of int] by (simp add: zmod_int)
  moreover have "uint (tail b - front b) mod 2 ^ j = (uint (tail b) - uint (front b)) mod 2 ^ j"
    by (simp only: uint_word_ariths mod_mod_cancel [OF dvd])
  ultimately have "uint ((tail b - front b) AND mask j) = int (length xs)" using b(3) by simp
  moreover have "length xs < 2 ^ 64"
    using b(1,3) power_strict_increasing [of j 64 "2::nat"] by simp
  ultimately have "unat ((tail b - front b) AND mask j) = unat (of_nat (length xs) :: size_t)"
    by (simp only: unat_eq_nat_uint nat_int unat_of_nat_small [unfolded unat_eq_nat_uint])
  then show ?thesis unfolding b(2) word_eq_unat .
qed

lemma slot_rel:
  assumes "rwq_rel q bs xss k" "i < length bs"
  shows "\<exists>j. block_rel j (the (blocks q (bs ! i))) (xss ! i)"
  using rwq_relD(7) [OF assms] by (auto simp: slot_def)

lemma size_approx_eq:
  assumes rel: "rwq_rel q bs xss k" and f: "length bs \<le> fuel"
  shows "size_approx fuel q = Inr (of_nat (length (concat xss)))"
proof -
  have sum: "fold (\<lambda>(p, b) res. res + ((tail b - front b) AND sizeMask b)) (map (\<lambda>p. (p, the (blocks q p))) ps) n =
      n + of_nat (length (concat yss))"
    if "length ps = length yss" "\<And>i. i < length ps \<Longrightarrow> \<exists>j. block_rel j (the (blocks q (ps ! i))) (yss ! i)" for ps yss n
    using that
  proof (induction ps yss arbitrary: n rule: list_induct2)
    case (Cons p ps ys yss)
    have "\<exists>j. block_rel j (the (blocks q p)) ys" using Cons.prems [of 0] by simp
    moreover have "\<exists>j. block_rel j (the (blocks q (ps ! i))) (yss ! i)" if "i < length ps" for i
      using Cons.prems [of "Suc i"] that by simp
    ultimately show ?case using Cons.IH block_count by (auto simp: add.assoc)
  qed simp
  have "length bs = length xss" using rwq_relD(2) [OF rel] by simp
  from sum [OF this slot_rel [OF rel], of 0] show ?thesis
    using ring_walk_all [OF rel f] by (simp add: size_approx_def)
qed

section \<open>The destructor\<close>

lemma destroy_elements_all:
  assumes "block_rel j b (xs @ ys)" "unat i = (unat (front b) + length xs) mod 2 ^ j" "length ys < fuel"
  shows "destroy_elements fuel b i = Inr ys"
  using assms
proof (induction ys arbitrary: xs i fuel)
  case Nil
  then have "i = tail b" by (simp add: block_rel_def word_eq_unat)
  then show ?case using Nil.prems(3) by (cases fuel) simp_all
next
  case (Cons y ys)
  have b: "j < 64" "sizeMask b = mask j" "length (data b) = 2 ^ j" "unat (front b) < 2 ^ j"
    "rotate (unat (front b)) (data b) = map Some (xs @ y # ys) @ replicate (2 ^ j - length (xs @ y # ys)) None"
    "unat (tail b) = (unat (front b) + length (xs @ y # ys)) mod 2 ^ j" "length (xs @ y # ys) < 2 ^ j"
    using Cons.prems(1) by (simp_all add: block_rel_def)
  have "rotate (unat (front b)) (data b) ! length xs = data b ! unat i"
    using b(3,7) Cons.prems(2) by (subst nth_rotate) simp_all
  moreover have "rotate (unat (front b)) (data b) ! length xs = Some y"
    unfolding b(5) by (simp add: nth_append)
  ultimately have "data b ! unat i = Some y" by simp
  moreover have "unat i < length (data b)" unfolding b(3) Cons.prems(2) by simp
  ultimately have y: "object_at i b = Inr y" by (simp add: object_at_def)
  have "length xs \<noteq> length (xs @ y # ys)" by simp
  then have ne: "i \<noteq> tail b"
    using b(6,7) Cons.prems(2) mod_add_inj [of "length (xs @ y # ys)" "2 ^ j" "length xs" "unat (front b)"]
    unfolding word_eq_unat by simp
  have step: "unat ((i + 1) AND sizeMask b) = (unat (front b) + length (xs @ [y])) mod 2 ^ j"
    using b(1,2) Cons.prems(2) by (simp add: unat_step mod_Suc_eq)
  obtain f where f: "fuel = Suc f" using Cons.prems(3) by (cases fuel) auto
  have "destroy_elements f b ((i + 1) AND sizeMask b) = Inr ys"
    by (rule Cons.IH [of "xs @ [y]", OF _ step]) (use Cons.prems(1,3) f in simp_all)
  then show ?case using f ne y by simp
qed

lemma destroy_all:
  assumes rel: "rwq_rel q bs xss k" and f: "length bs \<le> fuel" "\<forall>xs \<in> set xss. length xs < fuel"
  shows "rwq_destroy fuel q = Inr (concat xss, bs)"
proof -
  have all: "destroy_blocks fuel (map (\<lambda>p. (p, the (blocks q p))) ps) = Inr (concat yss, ps)"
    if "length ps = length yss" "\<And>i. i < length ps \<Longrightarrow> \<exists>j. block_rel j (the (blocks q (ps ! i))) (yss ! i)"
      "\<forall>ys \<in> set yss. length ys < fuel" for ps yss
    using that
  proof (induction ps yss rule: list_induct2)
    case (Cons p ps ys yss)
    have "\<exists>j. block_rel j (the (blocks q p)) ys" using Cons.prems(1) [of 0] by simp
    then obtain j where j: "block_rel j (the (blocks q p)) ([] @ ys)" by auto
    have "destroy_elements fuel (the (blocks q p)) (front (the (blocks q p))) = Inr ys"
      by (rule destroy_elements_all [OF j]) (use j Cons.prems(2) in \<open>simp_all add: block_rel_def\<close>)
    moreover have "\<exists>j. block_rel j (the (blocks q (ps ! i))) (yss ! i)" if "i < length ps" for i
      using Cons.prems(1) [of "Suc i"] that by simp
    ultimately show ?case using Cons.IH Cons.prems(2) by simp
  qed simp
  have "length bs = length xss" using rwq_relD(2) [OF rel] by simp
  from all [OF this slot_rel [OF rel] f(2)] show ?thesis
    using ring_walk_all [OF rel f(1)] by (simp add: rwq_destroy_def)
qed

end
