(* ===== verification/Queue_Props.thy ===== *)
theory Queue_Props
  imports Queue_Factory RW_Queue_Walk
begin

text \<open>
  What the queues promise to the framework, and where they do not keep what their clients expect.
\<close>

section \<open>Queues that reserve room\<close>

lemma rwq_holds_peek:
  assumes "rwq_holds n q (x # xs)"
  shows "\<exists>q'. rwq_peek q = (Inr (Some x), q') \<and> rwq_holds n q' (x # xs)"
proof -
  obtain bs xss k c where h: "rwq_rel q bs xss k" "concat xss = x # xs" "\<forall>p \<in> set bs. block_sizes q p = Some c"
    "if length bs = 1 then n < c else n \<le> (length bs - 1) * (c - 1)"
    using assms unfolding rwq_holds_def by metis
  obtain q' where q': "rwq_peek q = (Inr (Some x), q')" "rwq_rel q' bs xss k"
    using try_dequeue_repr [OF h(1)] unfolding h(2) list.case by blast
  have "block_sizes q' = block_sizes q" using rwq_peek_sizes [of q] q'(1) by simp
  then have "rwq_holds n q' (concat xss)"
    by (intro rwq_holdsI [OF q'(2), where c = c]) (use h(3,4) in \<open>auto split: if_splits\<close>)
  then show ?thesis using q'(1) h(2) by simp
qed

interpretation reserved: iqueue "rwq_holds n" try_enqueue try_dequeue "moody_peek rwq_peek" for n
proof
  fix q :: "'a rwq" and x xs
  show "\<exists>b q'. try_enqueue x q = (Inr b, q') \<and> rwq_holds n q' (if b then xs @ [x] else xs)" if "rwq_holds n q xs"
    using rwq_holds_enqueue [OF that] by blast
  show "\<exists>q'. try_dequeue q = (Inr None, q') \<and> rwq_holds n q' []" if "rwq_holds n q []"
    using rwq_holds_dequeue [OF that] by simp
  show "\<exists>q'. try_dequeue q = (Inr (Some x), q') \<and> rwq_holds n q' xs" if "rwq_holds n q (x # xs)"
    using rwq_holds_dequeue [OF that] by simp
  show "\<exists>q'. moody_peek rwq_peek q = (Inr x, q') \<and> rwq_holds n q' (x # xs)" if "rwq_holds n q (x # xs)"
    using rwq_holds_peek [OF that] by (auto simp: moody_peek_def)
qed

section \<open>Objects of the factory by class\<close>

fun is_std :: "'a queue_obj \<Rightarrow> bool" where
  "is_std (Std_Obj q) = True"
| "is_std q = False"

lemma is_std_dispatch: "is_std (snd (dispatch f g h q)) = is_std q"
  by (cases q) (auto split: prod.split)

lemma is_std_ops:
  "queue_push x q = (r, q') \<Longrightarrow> is_std q' = is_std q"
  "queue_pop q = (r', q') \<Longrightarrow> is_std q' = is_std q"
  "queue_peek q = (r'', q') \<Longrightarrow> is_std q' = is_std q"
  using is_std_dispatch [of "std_push x" "moody_push brwq_try_enqueue x" "moody_push try_enqueue x" q]
    is_std_dispatch [of std_pop "moody_pop brwq_try_dequeue" "moody_pop try_dequeue" q]
    is_std_dispatch [of std_peek "moody_peek brwq_peek" "moody_peek rwq_peek" q]
  by (simp_all add: queue_push_def queue_pop_def queue_peek_def)

lemma std_accepts: "is_std q \<Longrightarrow> queue_repr q xs \<Longrightarrow> fst (queue_push x q) = Inr True"
  using std.push_accepts by (cases q) (auto simp: queue_push_def split_def Let_def)

lemma moody_accepts: "\<not> is_std q \<Longrightarrow> queue_repr q xs \<Longrightarrow> fst (queue_push x q) = Inr (length xs < 15)"
  using lock_free.wrapped.push_bounded blocking.wrapped.push_bounded
  by (cases q) (auto simp: queue_push_def split_def Let_def)

lemma iqueue_of_class:
  "iqueue (\<lambda>q xs. is_std q = c \<and> queue_repr q xs) queue_push queue_pop queue_peek"
proof
  fix q :: "'a queue_obj" and x xs
  show "\<exists>b q'. queue_push x q = (Inr b, q') \<and> is_std q' = c \<and> queue_repr q' (if b then xs @ [x] else xs)"
    if h: "is_std q = c \<and> queue_repr q xs"
  proof -
    obtain b q' where q': "queue_push x q = (Inr b, q')" "queue_repr q' (if b then xs @ [x] else xs)"
      using iqueue.push_law [OF conjunct2 [OF h], of x] by blast
    then show ?thesis using is_std_ops(1) [OF q'(1)] h by auto
  qed
  show "\<exists>q'. queue_pop q = (Inr None, q') \<and> is_std q' = c \<and> queue_repr q' []" if h: "is_std q = c \<and> queue_repr q []"
  proof -
    obtain q' where q': "queue_pop q = (Inr None, q')" "queue_repr q' []" using iqueue.pop_none [OF conjunct2 [OF h]] by blast
    then show ?thesis using is_std_ops(2) [OF q'(1)] h by auto
  qed
  show "\<exists>q'. queue_pop q = (Inr (Some x), q') \<and> is_std q' = c \<and> queue_repr q' xs"
    if h: "is_std q = c \<and> queue_repr q (x # xs)"
  proof -
    obtain q' where q': "queue_pop q = (Inr (Some x), q')" "queue_repr q' xs" using iqueue.pop_some [OF conjunct2 [OF h]] by blast
    then show ?thesis using is_std_ops(2) [OF q'(1)] h by auto
  qed
  show "\<exists>q'. queue_peek q = (Inr x, q') \<and> is_std q' = c \<and> queue_repr q' (x # xs)"
    if h: "is_std q = c \<and> queue_repr q (x # xs)"
  proof -
    obtain q' where q': "queue_peek q = (Inr x, q')" "queue_repr q' (x # xs)" using iqueue.peek_law [OF conjunct2 [OF h]] by blast
    then show ?thesis using is_std_ops(3) [OF q'(1)] h by auto
  qed
qed

interpretation std_obj: unbounded_queue "\<lambda>q xs. is_std q = True \<and> queue_repr q xs" queue_push queue_pop queue_peek
  by (intro unbounded_queue.intro iqueue_of_class unbounded_queue_axioms.intro) (blast intro: std_accepts)

interpretation moody_obj: bounded_queue "\<lambda>q xs. is_std q = False \<and> queue_repr q xs" queue_push queue_pop queue_peek 15
  by (intro bounded_queue.intro iqueue_of_class bounded_queue_axioms.intro) (blast intro: moody_accepts)

lemma make_queue_class: "make_queue malloc t = Inr q \<Longrightarrow> is_std q \<longleftrightarrow> t = STD_QUEUE"
  by (cases t) (auto simp: make_queue_def rmap_Inr_conv split: prod.splits)

section \<open>Properties\<close>

text \<open>C8. Every queue the factory makes is first in, first out: over any history of pushes and pops the elements delivered, followed by
  those still in the queue, are exactly the elements accepted, in order.\<close>

theorem make_queue_fifo:
  assumes "malloc 0"
  shows "\<exists>q acc out ys q'. make_queue malloc t = Inr q \<and> run_queue queue_push queue_pop ops q = (Inr (acc, out), q') \<and>
    queue_repr q' ys \<and> acc = out @ ys"
proof -
  obtain q :: "'a queue_obj" where q: "make_queue malloc t = Inr q" "queue_repr q []"
    using make_queue_empty [where malloc = malloc, OF assms] by blast
  from iqueue.run_fifo [OF q(2), of ops] q(1) show ?thesis by auto
qed

theorem make_queue_fifo_witness:
  "\<exists>q acc out ys q'. make_queue (\<lambda>_. True) BLOCKING = Inr q \<and>
    run_queue queue_push queue_pop [Push_Op (1::int), Pop_Op, Pop_Op] q = (Inr (acc, out), q') \<and> queue_repr q' ys \<and> acc = out @ ys"
  by (rule make_queue_fifo) simp

text \<open>C29. A \<open>ReaderWriterQueue\<close> constructed for \<open>n\<close> elements accepts an element whenever fewer than \<open>n\<close> are in it, after any history of
  \<open>try_enqueue\<close> and \<open>try_dequeue\<close> calls, without allocating.\<close>

theorem reserved_capacity:
  assumes "0 < sz" "unat sz < 2 ^ 62" "\<And>p. p < initial_blocks (unat sz) \<Longrightarrow> malloc p"
  shows "\<exists>q0 acc out ys q. rwq_new malloc sz = (Inr (), q0) \<and>
    run_queue try_enqueue try_dequeue ops q0 = (Inr (acc, out), q) \<and> acc = out @ ys \<and>
    (length ys < unat sz \<longrightarrow> (\<exists>q'. try_enqueue x q = (Inr True, q')))"
proof -
  obtain q0 :: "'a rwq" where q0: "rwq_new malloc sz = (Inr (), q0)" "rwq_holds (unat sz) q0 []"
    using rwq_new_holds [where malloc = malloc, OF assms] by blast
  from reserved.run_fifo [OF q0(2), of ops] obtain acc out ys q where
    r: "run_queue try_enqueue try_dequeue ops q0 = (Inr (acc, out), q)" "rwq_holds (unat sz) q ys" "acc = out @ ys"
    by auto
  from rwq_holds_enqueue [OF r(2), of x] have "length ys < unat sz \<longrightarrow> (\<exists>q'. try_enqueue x q = (Inr True, q'))"
    by (metis (full_types) not_le)
  then show ?thesis using q0(1) r by blast
qed

theorem reserved_capacity_witness:
  "\<exists>q0 acc out ys q. rwq_new (\<lambda>_. True) 2000 = (Inr (), q0) \<and>
    run_queue try_enqueue try_dequeue [Push_Op (1::int), Push_Op 2, Pop_Op] q0 = (Inr (acc, out), q) \<and> acc = out @ ys \<and>
    (length ys < unat (2000 :: size_t) \<longrightarrow> (\<exists>q'. try_enqueue 3 q = (Inr True, q')))"
  by (rule reserved_capacity) simp_all

text \<open>\<open>ceilToPow2\<close> rounds up to the next power of two, on every argument for which there is one.\<close>

theorem ceilToPow2_correct:
  assumes "0 < x" "unat x \<le> 2 ^ 63"
  shows "\<exists>k < 64. ceilToPow2 x = 2 ^ k \<and> unat x \<le> 2 ^ k \<and> (2 :: nat) ^ k < 2 * unat x"
proof -
  obtain k where k: "unat x \<le> 2 ^ k" "k = 0 \<or> 2 ^ (k - 1) < unat x" using ceil_pow2_exists by blast
  have pos: "0 < unat x" using assms(1) by (simp add: word_less_nat_alt)
  have "k < 64"
  proof (cases "k = 0")
    case False
    then have "(2::nat) ^ (k - 1) < 2 ^ 63" using k(2) assms(2) by simp
    then have "k - 1 < 63" by (rule power_less_imp_less_exp [rotated]) simp
    then show ?thesis by simp
  qed simp
  moreover have "(2 :: nat) ^ k < 2 * unat x" using k(2) pos by (cases k) auto
  moreover have "ceilToPow2 x = 2 ^ k" by (rule ceilToPow2_eq [OF assms(1) k \<open>k < 64\<close>])
  ultimately show ?thesis using k(1) by blast
qed

theorem ceilToPow2_correct_witness:
  "\<exists>k < 64. ceilToPow2 1000 = 2 ^ k \<and> unat (1000 :: size_t) \<le> 2 ^ k \<and> (2 :: nat) ^ k < 2 * unat (1000 :: size_t)"
  by (rule ceilToPow2_correct) simp_all

text \<open>C33. The destructor destroys every element still in the queue exactly once, in queue order, and frees every block of the ring
  exactly once.\<close>

theorem destructor_frees_everything:
  assumes "rwq_rel q bs xss k" "length bs \<le> fuel" "\<forall>xs \<in> set xss. length xs < fuel"
  shows "rwq_destroy fuel q = Inr (concat xss, bs) \<and> distinct bs"
  using destroy_all [OF assms] rwq_relD(1) [OF assms(1)] by simp

text \<open>A burst of pushes into a queue of the factory: \<open>STD_QUEUE\<close> keeps every element, the other two keep the first fifteen and refuse
  the rest; through a \<open>QueueSink\<close>, which ignores the result of \<open>push\<close>, the rest is lost.\<close>

theorem queue_burst:
  assumes "malloc 0"
  shows "\<exists>q q'. make_queue malloc t = Inr q \<and>
    run_queue queue_push queue_pop (map Push_Op ys) q = (Inr (if t = STD_QUEUE then ys else take 15 ys, []), q')"
proof -
  obtain q :: "'a queue_obj" where q: "make_queue malloc t = Inr q" "queue_repr q []"
    using make_queue_empty [where malloc = malloc, OF assms] by blast
  show ?thesis
  proof (cases "t = STD_QUEUE")
    case True
    then have "is_std q = True \<and> queue_repr q []" using q make_queue_class [OF q(1)] by simp
    from std_obj.push_all [OF this, of ys] show ?thesis using q(1) True by auto
  next
    case False
    then have "is_std q = False \<and> queue_repr q []" using q make_queue_class [OF q(1)] by simp
    from moody_obj.push_burst [OF this, of ys] show ?thesis using q(1) False by auto
  qed
qed

theorem queue_burst_witness:
  "\<exists>q q'. make_queue (\<lambda>_. True) LOCK_FREE = Inr q \<and>
    run_queue queue_push queue_pop (map Push_Op (replicate 20 (7::int))) q =
    (Inr (if LOCK_FREE = STD_QUEUE then replicate 20 7 else take 15 (replicate 20 7), []), q')"
  by (rule queue_burst) simp

text \<open>A \<open>QueueSink\<close> in front of a full lock free or blocking queue drops its input: it returns normally and the queue is as before.\<close>

theorem full_queue_sink_drops:
  assumes "queue_repr q xs" "\<not> is_std q" "15 \<le> length xs"
  shows "\<exists>q'. queue_sink_process queue_push x q = (Inr (), q') \<and> queue_repr q' xs"
  using moody_obj.push_full [of q xs x] assms by auto

theorem full_queue_sink_drops_witness:
  "\<exists>q q'. queue_repr q (replicate 15 (7::int)) \<and> queue_sink_process queue_push 8 q = (Inr (), q') \<and>
    queue_repr q' (replicate 15 7)"
proof -
  obtain q0 :: "int queue_obj" where q0: "make_queue (\<lambda>_. True) LOCK_FREE = Inr q0" "queue_repr q0 []"
    using make_queue_empty [of "\<lambda>_. True" LOCK_FREE] by blast
  have "is_std q0 = False \<and> queue_repr q0 []" using q0 make_queue_class [OF q0(1)] by simp
  from moody_obj.push_burst [OF this, of "replicate 15 (7::int)"] obtain q :: "int queue_obj" where
    q: "is_std q = False" "queue_repr q (replicate 15 (7::int))" by auto
  have "\<exists>q'. queue_sink_process queue_push 8 q = (Inr (), q') \<and> queue_repr q' (replicate 15 7)"
    by (rule full_queue_sink_drops) (use q in simp_all)
  then show ?thesis using q(2) by blast
qed

text \<open>\<open>size_approx\<close> is exact while no other operation runs: the number of elements in the queue.  As many rounds of the loop as there
  are blocks in the ring are enough.\<close>

theorem size_approx_exact:
  assumes "rwq_rel q bs xss k" "length bs \<le> fuel"
  shows "size_approx fuel q = Inr (of_nat (length (concat xss)))"
  using assms by (rule size_approx_eq)

text \<open>A queue of one element, for the witnesses.\<close>

lemma one_element_queue:
  obtains q :: "int rwq" and p where "rwq_rel q [p] [[7]] 0"
proof -
  obtain q0 :: "int rwq" where q0: "rwq_single 16 q0 []"
    using default_rwq [of "\<lambda>_. True"] by blast
  obtain q where "rwq_single 16 q [7::int]" using rwq_single_enqueue [OF q0, of 7] by auto
  then show thesis using that by (auto simp: rwq_single_def)
qed

theorem size_approx_exact_witness: "\<exists>q :: int rwq. size_approx 1 q = Inr 1"
proof -
  obtain q :: "int rwq" and p where "rwq_rel q [p] [[7]] 0" by (rule one_element_queue)
  then have "size_approx 1 q = Inr (of_nat (length (concat [[7::int]])))" by (rule size_approx_exact) simp
  then show ?thesis by auto
qed

theorem destructor_frees_everything_witness: "\<exists>(q :: int rwq) p. rwq_destroy 2 q = Inr ([7], [p])"
proof -
  obtain q :: "int rwq" and p where "rwq_rel q [p] [[7]] 0" by (rule one_element_queue)
  then have "rwq_destroy 2 q = Inr (concat [[7]], [p]) \<and> distinct [p]"
    by (rule destructor_frees_everything) simp_all
  then show ?thesis by auto
qed

text \<open>A \<open>ReaderWriterQueue\<close> constructed for no elements has a block of one slot, which can hold nothing: once a second block has
  been allocated the producer may move on to it, writes an element where none fits, and the consumer runs into the
  assertion that the next block is not empty.\<close>

theorem zero_size_queue_fails:
  "fst (run_queue (enqueue (\<lambda>_. True)) try_dequeue
     [Push_Op (1::int), Pop_Op, Push_Op 2, Push_Op 3, Pop_Op, Pop_Op] (snd (rwq_new (\<lambda>_. True) 0))) = Inl Assert_Fail"
  by code_simp

text \<open>Waiting on the blocking queue: an element that is there is delivered at once; with a time limit an empty queue gives nothing
  and stays usable; without one (a negative limit) the wait never ends if nobody pushes.\<close>

theorem wait_dequeue_timed_spec:
  assumes "brwq_repr c q xs" "0 < fuel"
  shows "case xs of
      x # ys \<Rightarrow> \<exists>q'. brwq_wait_dequeue_timed fuel t q = (Inr (Some x), q') \<and> brwq_repr c q' ys
    | [] \<Rightarrow> if t < 0 then fst (brwq_wait_dequeue_timed fuel t q) = Inl Deadlock
            else brwq_wait_dequeue_timed fuel t q = (Inr None, q)"
proof (cases xs)
  case Nil
  then have "m_count (sema q) = 0" "m_sema (sema q) = 0" using assms(1) by (simp_all add: brwq_repr_def)
  from sema_wait_empty [OF this assms(2), of t] show ?thesis
    using Nil by (auto simp: brwq_wait_dequeue_timed_def on_sema_def)
next
  case (Cons x ys)
  then have "brwq_repr c q (x # ys)" using assms(1) by simp
  from brwq_take(1) [OF this] brwq_take(3) [OF this, of fuel t] show ?thesis
    using Cons by (simp add: brwq_wait_dequeue_timed_def on_sema_def)
qed

theorem wait_dequeue_timed_spec_witness:
  "\<exists>q :: int brwq. brwq_repr 16 q [] \<and> brwq_wait_dequeue_timed 1 5 q = (Inr None, q)"
proof -
  obtain q :: "int brwq" where q: "brwq_repr 16 q []" using default_brwq [of "\<lambda>_. True"] by blast
  from wait_dequeue_timed_spec [OF q, of 1 5] show ?thesis using q by auto
qed

end
