(* ===== verification/Queue_Moves.thy ===== *)
theory Queue_Moves
  imports Queue_Props "HOL-Library.Signed_Division"
begin

text \<open>
  The rest of \<open>moodycamel/readerwriterqueue.h\<close>: where a block and its elements lie in the memory it is
  allocated in, the guards of debug builds, moving queues, and the waits that take a \<open>std::chrono\<close>
  duration.  A queue that is moved takes its blocks with it: in the model, its heap.
\<close>

section \<open>The layout of a block\<close>

text \<open>\<open>align_for<U>\<close>; the alignment of \<open>U\<close> is an argument, as are the sizes the compiler gives the types below.\<close>

definition align_for :: "size_t \<Rightarrow> size_t \<Rightarrow> size_t" where
  "align_for alignment ptr = ptr + (alignment - ptr mod alignment) mod alignment"

record type_layout =
  size_of :: size_t
  align_of :: size_t

definition make_block_size :: "type_layout \<Rightarrow> type_layout \<Rightarrow> size_t \<Rightarrow> size_t" where
  "make_block_size Block T capacity =
     (let size = size_of Block + align_of Block - 1 in size + (size_of T * capacity + align_of T - 1))"

text \<open>Where \<open>make_block\<close> puts the block and the elements, given the address \<open>malloc\<close> returned.\<close>

definition make_block_places :: "type_layout \<Rightarrow> type_layout \<Rightarrow> size_t \<Rightarrow> size_t \<times> size_t" where
  "make_block_places Block T newBlockRaw =
     (let newBlockAligned = align_for (align_of Block) newBlockRaw in
      (newBlockAligned, align_for (align_of T) (newBlockAligned + size_of Block)))"

text \<open>Over the numbers: the next multiple of the alignment.\<close>

lemma next_multiple:
  fixes p a :: nat
  assumes "0 < a"
  shows "a dvd p + (a - p mod a) mod a" "(a - p mod a) mod a < a"
proof -
  have "p + (a - p mod a) mod a = (p div a + (if p mod a = 0 then 0 else 1)) * a"
  proof (cases "p mod a = 0")
    case True
    then show ?thesis by auto
  next
    case False
    then have "(a - p mod a) mod a = a - p mod a" using assms by (intro mod_less) simp
    moreover have "p mod a < a" using assms by simp
    moreover have "p = p div a * a + p mod a" by simp
    ultimately have "p + (a - p mod a) mod a = p div a * a + a" by linarith
    then show ?thesis using False by simp
  qed
  then show "a dvd p + (a - p mod a) mod a" by simp
  show "(a - p mod a) mod a < a" using assms by simp
qed

lemma align_for_spec:
  assumes "0 < unat a" "unat p + unat a \<le> 2 ^ 64"
  shows "unat a dvd unat (align_for a p)" "unat p \<le> unat (align_for a p)" "unat (align_for a p) < unat p + unat a"
proof -
  have m: "unat (p mod a) = unat p mod unat a" by (simp add: unat_mod)
  have "unat p mod unat a \<le> unat a" using assms(1) by simp
  then have s: "unat (a - p mod a) = unat a - unat p mod unat a"
    by (subst unat_sub) (simp_all add: m word_le_nat_alt)
  have o: "unat ((a - p mod a) mod a) = (unat a - unat p mod unat a) mod unat a"
    by (simp add: unat_mod s)
  have l: "(unat a - unat p mod unat a) mod unat a < unat a" by (rule next_multiple(2) [OF assms(1)])
  have e: "unat (align_for a p) = unat p + (unat a - unat p mod unat a) mod unat a"
    unfolding align_for_def using l assms(2) o by (subst unat_add_lem [THEN iffD1]) simp_all
  show "unat a dvd unat (align_for a p)" unfolding e by (rule next_multiple(1) [OF assms(1)])
  show "unat p \<le> unat (align_for a p)" "unat (align_for a p) < unat p + unat a" using l e by simp_all
qed

section \<open>The guards of debug builds\<close>

text \<open>\<open>ReentrantGuard guard(inSection)\<close> around an operation on the queue and the flag: the constructor asserts
  that the flag is clear and sets it, the destructor clears it on every way out.\<close>

definition guarded :: "(bool \<times> 's \<Rightarrow> 'r result \<times> bool \<times> 's) \<Rightarrow> bool \<times> 's \<Rightarrow> 'r result \<times> bool \<times> 's" where
  "guarded f qs =
     (let (inSection, q) = qs in
      if inSection then (Inl Assert_Fail, inSection, q)
      else let (r, _, q) = f (True, q) in (r, False, q))"

text \<open>An operation that does not call back into the queue runs as it does without the guard, and leaves the flag
  clear; one that does call back fails.\<close>

lemma guard_transparent:
  "guarded (\<lambda>(b, q). let (r, q) = f q in (r, b, q)) (False, q) = (let (r, q) = f q in (r, False, q))"
  by (simp add: guarded_def split_def Let_def)

lemma guard_reentrant: "fst (guarded (guarded f) (False, q)) = Inl Assert_Fail"
  by (simp add: guarded_def)

section \<open>Moving a queue\<close>

text \<open>The move constructor: the new queue and the one moved from, which gets a block of 32 slots of its own.\<close>

definition rwq_move :: "(nat \<Rightarrow> bool) \<Rightarrow> 'a rwq \<Rightarrow> 'a rwq result \<times> 'a rwq" where
  "rwq_move malloc other =
     (let this = other; other = other\<lparr>largestBlockSize := 32\<rparr> in
      case make_block malloc (largestBlockSize other) other of
        (None, other) \<Rightarrow> (Inl (Exn Bad_Alloc), other)
      | (Some p, other) \<Rightarrow>
          (Inr this, other\<lparr>blocks := [p \<mapsto> (new_block 32)\<lparr>next_block := Some p\<rparr>], frontBlock := p, tailBlock := p\<rparr>))"

text \<open>The move assignment exchanges the members.\<close>

definition rwq_move_assign :: "'a rwq \<Rightarrow> 'a rwq \<Rightarrow> 'a rwq \<times> 'a rwq" where
  "rwq_move_assign this other =
     (let heap = (blocks this, mallocs this); b = frontBlock this;
          this = this\<lparr>blocks := blocks other, mallocs := mallocs other, frontBlock := frontBlock other\<rparr>;
          other = other\<lparr>blocks := fst heap, mallocs := snd heap, frontBlock := b\<rparr>;
          b = tailBlock this; this = this\<lparr>tailBlock := tailBlock other\<rparr>; other = other\<lparr>tailBlock := b\<rparr>;
          n = largestBlockSize this in
      (this\<lparr>largestBlockSize := largestBlockSize other\<rparr>, other\<lparr>largestBlockSize := n\<rparr>))"

lemma rwq_move_assign_swaps: "rwq_move_assign this other = (other, this)"
  by (simp add: rwq_move_assign_def)

text \<open>\<open>std::swap\<close> of the library: a temporary, which is destroyed at the end.\<close>

definition rwq_swap :: "(nat \<Rightarrow> bool) \<Rightarrow> 'a rwq \<Rightarrow> 'a rwq \<Rightarrow> unit result \<times> 'a rwq \<times> 'a rwq" where
  "rwq_swap malloc a b =
     (case rwq_move malloc a of
        (Inl e, a) \<Rightarrow> (Inl e, a, b)
      | (Inr tmp, a) \<Rightarrow>
          let (a, b) = rwq_move_assign a b; (b, tmp) = rwq_move_assign b tmp in (Inr (), a, b))"

text \<open>A blocking queue that may have been moved from: its semaphore is a \<open>unique_ptr\<close>.\<close>

record 'a brwq_object =
  o_inner :: "'a rwq"
  o_sema :: "sema option"

definition object_of :: "'a brwq \<Rightarrow> 'a brwq_object" where
  "object_of q = \<lparr>o_inner = inner q, o_sema = Some (sema q)\<rparr>"

definition brwq_move :: "(nat \<Rightarrow> bool) \<Rightarrow> 'a brwq_object \<Rightarrow> 'a brwq_object result \<times> 'a brwq_object" where
  "brwq_move malloc other =
     (case rwq_move malloc (o_inner other) of
        (Inl e, i) \<Rightarrow> (Inl e, other\<lparr>o_inner := i\<rparr>)
      | (Inr this, i) \<Rightarrow> (Inr \<lparr>o_inner = this, o_sema = o_sema other\<rparr>, \<lparr>o_inner = i, o_sema = None\<rparr>))"

definition brwq_move_assign ::
  "(nat \<Rightarrow> bool) \<Rightarrow> 'a brwq_object \<Rightarrow> 'a brwq_object \<Rightarrow> unit result \<times> 'a brwq_object \<times> 'a brwq_object" where
  "brwq_move_assign malloc this other =
     (let s = o_sema this; this = this\<lparr>o_sema := o_sema other\<rparr>; other = other\<lparr>o_sema := s\<rparr>;
          (r, i, j) = rwq_swap malloc (o_inner this) (o_inner other) in
      (r, this\<lparr>o_inner := i\<rparr>, other\<lparr>o_inner := j\<rparr>))"

text \<open>An operation that begins with the semaphore.\<close>

definition on_object :: "('a brwq \<Rightarrow> 'r result \<times> 'a brwq) \<Rightarrow> 'a brwq_object \<Rightarrow> 'r result \<times> 'a brwq_object" where
  "on_object f q =
     (case o_sema q of
        None \<Rightarrow> (Inl UB, q)
      | Some s \<Rightarrow> let (r, q) = f \<lparr>inner = o_inner q, sema = s\<rparr> in (r, object_of q))"

definition brwq_max_capacity :: "nat \<Rightarrow> 'a brwq_object \<Rightarrow> size_t result" where
  "brwq_max_capacity fuel q = max_capacity fuel (o_inner q)"

text \<open>\<open>wait_dequeue_timed\<close> of a duration of \<open>ticks\<close> periods of \<open>num / den\<close> seconds: \<open>duration_cast\<close> truncates.\<close>

definition wait_dequeue_timed_chrono :: "nat \<Rightarrow> int \<Rightarrow> int \<Rightarrow> int \<Rightarrow> 'a brwq \<Rightarrow> 'a option result \<times> 'a brwq" where
  "wait_dequeue_timed_chrono fuel num den ticks = brwq_wait_dequeue_timed fuel ((ticks * num * 1000000) sdiv den)"

section \<open>The queue moved from\<close>

lemma moved_from_holds:
  assumes "largestBlockSize o' = 32" "frontBlock o' = p" "tailBlock o' = p" "p < mallocs o'"
    "blocks o' p = Some ((new_block 32)\<lparr>next_block := Some p\<rparr>)"
  shows "rwq_holds 31 o' []"
proof -
  have p32: "(2::size_t) ^ 5 = 32" "unat (32::size_t) = 32" by simp_all
  have b: "block_rel 5 ((new_block 32)\<lparr>next_block := Some p\<rparr>) []"
    using block_new [of 5] unfolding p32(1) by (simp add: block_rel_def)
  have "slot o' [p] [[]] 0 0" 
    by (rule slotI [where b = "(new_block 32)\<lparr>next_block := Some p\<rparr>" and j = 5]) (use assms(5) b in simp_all)
  then have rel: "rwq_rel o' [p] [[]] 0"
    using assms(1-4) p32(1) by (auto simp: rwq_rel_def intro!: exI [of _ 5])
  have "block_sizes o' p = Some 32" using assms(5) p32(2) by (simp add: block_sizes_def new_block_def)
  then have "rwq_holds 31 o' (concat [[]])" by (intro rwq_holdsI [OF rel, where c = 32]) simp_all
  then show ?thesis by simp
qed

lemma rwq_move_cases:
  "rwq_move malloc q =
     (if malloc (mallocs q)
      then (Inr q, \<lparr>blocks = [mallocs q \<mapsto> (new_block 32)\<lparr>next_block := Some (mallocs q)\<rparr>], frontBlock = mallocs q,
              tailBlock = mallocs q, largestBlockSize = 32, mallocs = Suc (mallocs q)\<rparr>)
      else (Inl (Exn Bad_Alloc), q\<lparr>largestBlockSize := 32, mallocs := Suc (mallocs q)\<rparr>))"
  by (simp add: rwq_move_def make_block_def Let_def)

section \<open>Properties\<close>

text \<open>C37. A block and its elements fit into the memory \<open>make_block\<close> allocates for them, at aligned addresses and without overlapping,
  whatever the sizes and alignments of the types, as long as the size does not overflow.\<close>

theorem block_layout_fits:
  assumes al: "0 < align_of Block" "0 < align_of T"
    and fit: "unat (size_of Block) + unat (align_of Block) + unat (size_of T) * unat capacity + unat (align_of T) < 2 ^ 64"
    and raw: "unat raw + unat (make_block_size Block T capacity) < 2 ^ 64"
    and places: "make_block_places Block T raw = (block, elems)"
  shows "unat (align_of Block) dvd unat block \<and> unat (align_of T) dvd unat elems \<and> unat raw \<le> unat block \<and>
    unat block + unat (size_of Block) \<le> unat elems \<and>
    unat elems + unat (size_of T) * unat capacity \<le> unat raw + unat (make_block_size Block T capacity)"
proof -
  let ?sB = "unat (size_of Block)" and ?aB = "unat (align_of Block)" and ?sT = "unat (size_of T)" and ?aT = "unat (align_of T)"
  let ?n = "?sT * unat capacity"
  have pos: "0 < ?aB" "0 < ?aT" using al by (simp_all add: word_less_nat_alt)
  have aB: "align_of Block - 1 = of_nat (?aB - 1)" and aT: "align_of T - 1 = of_nat (?aT - 1)"
    using pos by (simp_all add: of_nat_diff)
  have "make_block_size Block T capacity = size_of Block + (align_of Block - 1) + (size_of T * capacity + (align_of T - 1))"
    by (simp add: make_block_size_def)
  also have "\<dots> = of_nat ?sB + of_nat (?aB - 1) + (of_nat ?sT * of_nat (unat capacity) + of_nat (?aT - 1))"
    unfolding aB aT by simp
  also have "\<dots> = of_nat (?sB + (?aB - 1) + (?n + (?aT - 1)))" by (simp only: of_nat_add of_nat_mult)
  finally have "make_block_size Block T capacity = of_nat (?sB + (?aB - 1) + (?n + (?aT - 1)))" .
  then have size: "unat (make_block_size Block T capacity) = ?sB + (?aB - 1) + (?n + (?aT - 1))"
    using unat_of_nat_small [of "?sB + (?aB - 1) + (?n + (?aT - 1))"] fit pos by simp
  have b: "block = align_for (align_of Block) raw" "elems = align_for (align_of T) (block + size_of Block)"
    using places by (auto simp: make_block_places_def Let_def)
  have "unat raw + ?aB \<le> 2 ^ 64" using raw size pos by linarith
  note B = align_for_spec [OF pos(1) this, folded b(1)]
  have "unat block + ?sB < 2 ^ 64" using B(3) raw size pos by linarith
  then have e: "unat (block + size_of Block) = unat block + ?sB" using unat_add_lem [of block "size_of Block"] by simp
  have "unat (block + size_of Block) + ?aT \<le> 2 ^ 64" using e B(3) raw size pos by linarith
  note T = align_for_spec [OF pos(2) this, folded b(2)]
  show ?thesis using B T e size pos by linarith
qed

text \<open>C38. Moving a \<open>ReaderWriterQueue\<close> moves everything: the new queue holds what the old one held, with the room it had, and the
  old one is an empty queue with room for 31 elements; when the memory for its new block is refused the constructor throws
  and the old queue still holds what it held, but has been told to make blocks of 32 elements from then on.\<close>

theorem rwq_move_spec:
  assumes "rwq_holds n q xs"
  shows "\<exists>r other. rwq_move malloc q = (r, other) \<and>
    (case r of
       Inr this \<Rightarrow> malloc (mallocs q) \<and> rwq_holds n this xs \<and> rwq_holds 31 other []
     | Inl e \<Rightarrow> \<not> malloc (mallocs q) \<and> e = Exn Bad_Alloc \<and> rwq_holds n other xs \<and>
         other = q\<lparr>largestBlockSize := 32, mallocs := Suc (mallocs q)\<rparr>)"
proof (cases "malloc (mallocs q)")
  case True
  then show ?thesis using assms by (auto simp: rwq_move_cases intro!: moved_from_holds)
next
  case False
  obtain bs xss k c where h: "rwq_rel q bs xss k" "xs = concat xss" "\<forall>p \<in> set bs. block_sizes q p = Some c"
    "if length bs = 1 then n < c else n \<le> (length bs - 1) * (c - 1)"
    using assms unfolding rwq_holds_def by metis
  let ?q = "q\<lparr>largestBlockSize := 32, mallocs := Suc (mallocs q)\<rparr>"
  have "(32::size_t) = 2 ^ 5" by simp
  then have "rwq_rel ?q bs xss k"
    using h(1) slot_blocks [of ?q q] unfolding rwq_rel_def by (auto simp: less_Suc_eq intro!: exI [of _ 5])
  moreover have "block_sizes ?q = block_sizes q" by (simp add: block_sizes_def fun_eq_iff)
  ultimately have "rwq_holds n ?q xs" using h(2-4) rwq_holdsI [of ?q bs xss k c n] by auto
  then show ?thesis using False by (simp add: rwq_move_cases)
qed

text \<open>Moving a blocking queue takes its semaphore as well: the new queue goes on as the old one did, and the old one, left without
  a semaphore, is not usable again: every operation that begins with the semaphore has undefined behaviour.\<close>

theorem brwq_move_spec:
  assumes "malloc (mallocs (inner q))"
  shows "\<exists>this other. brwq_move malloc (object_of q) = (Inr this, other) \<and>
    on_object f this = (let (r, q) = f q in (r, object_of q)) \<and> on_object f other = (Inl UB, other)"
  using assms by (cases q) (simp add: brwq_move_def object_of_def rwq_move_cases on_object_def)

text \<open>Assigning blocking queues exchanges them, unless the temporary of \<open>std::swap\<close> finds no memory: then the semaphores are
  exchanged and the elements are not.\<close>

theorem brwq_move_assign_spec:
  "(malloc (mallocs (o_inner a)) \<longrightarrow> brwq_move_assign malloc a b = (Inr (), b, a)) \<and>
   (\<not> malloc (mallocs (o_inner a)) \<longrightarrow> (\<exists>a' b'. brwq_move_assign malloc a b = (Inl (Exn Bad_Alloc), a', b') \<and>
      o_sema a' = o_sema b \<and> o_sema b' = o_sema a \<and> blocks (o_inner a') = blocks (o_inner a) \<and> o_inner b' = o_inner b))"
  by (cases a; cases b) (simp add: brwq_move_assign_def rwq_swap_def rwq_move_cases rwq_move_assign_swaps)

subsection \<open>Concrete inputs\<close>

theorem block_layout_fits_witness:
  "make_block_places \<lparr>size_of = 160, align_of = 64\<rparr> \<lparr>size_of = 4, align_of = 4\<rparr> 1000 = (1024, 1184) \<and>
   1184 + 4 * 16 \<le> 1000 + unat (make_block_size \<lparr>size_of = 160, align_of = 64\<rparr> \<lparr>size_of = 4, align_of = 4\<rparr> 16)"
proof -
  let ?B = "\<lparr>size_of = 160, align_of = 64\<rparr>" and ?T = "\<lparr>size_of = 4, align_of = 4\<rparr>"
  have p: "make_block_places ?B ?T 1000 = (1024, 1184)" by (simp add: make_block_places_def align_for_def)
  have "unat (align_of ?B) dvd unat (1024 :: size_t) \<and> unat (align_of ?T) dvd unat (1184 :: size_t) \<and>
    unat (1000 :: size_t) \<le> unat (1024 :: size_t) \<and> unat (1024 :: size_t) + unat (size_of ?B) \<le> unat (1184 :: size_t) \<and>
    unat (1184 :: size_t) + unat (size_of ?T) * unat (16 :: size_t) \<le> unat (1000 :: size_t) + unat (make_block_size ?B ?T 16)"
    by (rule block_layout_fits [OF _ _ _ _ p]) (simp_all add: make_block_size_def)
  then show ?thesis using p by simp
qed

theorem rwq_move_spec_witness:
  "\<exists>(q :: int rwq) other. rwq_holds 15 q [] \<and> rwq_move (\<lambda>_. True) q = (Inr q, other) \<and> rwq_holds 31 other []"
proof -
  obtain q :: "int rwq" where q: "rwq_new (\<lambda>_. True) 15 = (Inr (), q)" "rwq_holds (unat (15 :: size_t)) q []"
    using rwq_new_holds [where malloc = "\<lambda>_. True" and sz = 15] by auto
  from rwq_move_spec [OF q(2), of "\<lambda>_. True"] obtain other where "rwq_move (\<lambda>_. True) q = (Inr q, other)" "rwq_holds 31 other []"
    by (auto simp: rwq_move_cases)
  then show ?thesis using q(2) by auto
qed

end
