(* ===== verification/Text_Utils.thy ===== *)
theory Text_Utils
  imports Prelude "HOL-Library.Char_ord"
begin

text \<open>
  The string helpers of \<open>core/src/utils\<close>: \<open>string_utils.cpp\<close> (\<open>stolower\<close>, \<open>stoupper\<close>) and
  \<open>misc_utils.cpp\<close> (\<open>parse_numeric_ranges\<close>), with the standard library routines they call
  (\<open>std::getline\<close> on a delimiter, \<open>std::stoll\<close>).  The lemmas show the loop of the range parser
  against its closed form and that it inverts the notation of \<open>/sys/devices/system/cpu\<close>.
\<close>

section \<open>Case conversion\<close>

text \<open>\<open>std::tolower\<close> and \<open>std::toupper\<close> in the default locale: ASCII letters only.\<close>

definition char_tolower :: "char \<Rightarrow> char" where
  "char_tolower c = (let n = of_char c :: nat in if 65 \<le> n \<and> n \<le> 90 then char_of (n + 32) else c)"

definition char_toupper :: "char \<Rightarrow> char" where
  "char_toupper c = (let n = of_char c :: nat in if 97 \<le> n \<and> n \<le> 122 then char_of (n - 32) else c)"

definition stolower :: "string \<Rightarrow> string" where
  "stolower str = map char_tolower str"

definition stoupper :: "string \<Rightarrow> string" where
  "stoupper str = map char_toupper str"

lemma of_char_char_tolower:
  "(of_char (char_tolower c) :: nat) =
     (if 65 \<le> (of_char c :: nat) \<and> of_char c \<le> (90 :: nat) then of_char c + 32 else of_char c)"
  by (simp add: char_tolower_def Let_def)

lemma of_char_char_toupper:
  "(of_char (char_toupper c) :: nat) =
     (if 97 \<le> (of_char c :: nat) \<and> of_char c \<le> (122 :: nat) then of_char c - 32 else of_char c)"
proof -
  have "(of_char c :: nat) < 256" by (rule nat_of_char_less_256)
  then have "(of_char c - 32) mod 256 = (of_char c - 32 :: nat)" by (intro mod_less) linarith
  then show ?thesis by (simp add: char_toupper_def Let_def)
qed

lemma char_nat_eqI: "(of_char c :: nat) = of_char d \<Longrightarrow> c = d"
  by (simp add: of_char_eq_iff)

lemma char_tolower_toupper: "char_tolower (char_toupper c) = char_tolower c"
  by (rule char_nat_eqI) (auto simp: of_char_char_tolower of_char_char_toupper)

lemma char_tolower_idem: "char_tolower (char_tolower c) = char_tolower c"
  by (rule char_nat_eqI) (simp add: of_char_char_tolower)

section \<open>The standard library's parsing\<close>

text \<open>The tokens a \<open>while (std::getline(ss, token, d))\<close> loop sees.  A last token that is empty is
  not delivered: \<open>getline\<close> fails when it meets the end of the stream before any character.\<close>

function getline_tokens :: "char \<Rightarrow> string \<Rightarrow> string list" where
  "getline_tokens d s =
     (if s = [] then []
      else takeWhile (\<lambda>c. c \<noteq> d) s # getline_tokens d (tl (dropWhile (\<lambda>c. c \<noteq> d) s)))"
  by pat_completeness auto
termination
proof (relation "measure (\<lambda>(d, s). length s)", simp)
  fix d :: char and s :: string
  assume "s \<noteq> []"
  then have "length (tl (dropWhile (\<lambda>c. c \<noteq> d) s)) < length s"
    using length_dropWhile_le [of "\<lambda>c. c \<noteq> d" s] by (cases s) auto
  then show "((d, tl (dropWhile (\<lambda>c. c \<noteq> d) s)), (d, s)) \<in> measure (\<lambda>(d, s). length s)"
    by simp
qed

declare getline_tokens.simps [simp del]

definition is_space :: "char \<Rightarrow> bool" where
  "is_space c = (let n = of_char c :: nat in n = 32 \<or> (9 \<le> n \<and> n \<le> 13))"

definition is_digit :: "char \<Rightarrow> bool" where
  "is_digit c = (let n = of_char c :: nat in 48 \<le> n \<and> n \<le> 57)"

definition digits_val :: "string \<Rightarrow> int" where
  "digits_val ds = foldl (\<lambda>v c. 10 * v + (int (of_char c) - 48)) 0 ds"

text \<open>The sign and the digits \<open>strtoll\<close> reads: leading white space, an optional sign, digits up to
  the first other character.\<close>

definition scan_number :: "string \<Rightarrow> bool \<times> string" where
  "scan_number s =
     (let t = dropWhile is_space s in
      case t of
        [] \<Rightarrow> (False, [])
      | c # r \<Rightarrow>
          if c = CHR ''-'' then (True, takeWhile is_digit r)
          else if c = CHR ''+'' then (False, takeWhile is_digit r)
          else (False, takeWhile is_digit t))"

text \<open>\<open>std::stoll\<close>: \<open>invalid_argument\<close> when there is no digit, \<open>out_of_range\<close> outside 64 bits.\<close>

definition stoll :: "string \<Rightarrow> int result" where
  "stoll s =
     (let (neg, ds) = scan_number s; v = (if neg then - digits_val ds else digits_val ds) in
      if ds = [] then Inl (Exn (Invalid_Argument ''stoll''))
      else if v < - (2 ^ 63) \<or> 2 ^ 63 \<le> v then Inl (Exn (Out_Of_Range ''stoll''))
      else Inr v)"

text \<open>\<open>std::stoull\<close>: the magnitude must fit 64 bits, a minus sign negates modulo \<open>2 ^ 64\<close>.\<close>

definition stoull :: "string \<Rightarrow> int result" where
  "stoull s =
     (let (neg, ds) = scan_number s; v = digits_val ds in
      if ds = [] then Inl (Exn (Invalid_Argument ''stoull''))
      else if 2 ^ 64 \<le> v then Inl (Exn (Out_Of_Range ''stoull''))
      else Inr (if neg then (- v) mod 2 ^ 64 else v))"

section \<open>\<open>parse_numeric_ranges\<close>\<close>

text \<open>The loop \<open>for (int i = start; i <= end; ++i)\<close>; incrementing \<open>INT_MAX\<close> is undefined.\<close>

function int_range :: "int \<Rightarrow> int \<Rightarrow> int list result" where
  "int_range i e =
     (if i \<le> e then (if i = INT_MAX then Inl UB else rmap (\<lambda>is. i # is) (int_range (i + 1) e))
      else Inr [])"
  by pat_completeness auto
termination by (relation "measure (\<lambda>(i, e). nat (e + 1 - i))") auto

declare int_range.simps [simp del]

definition parse_token :: "string \<Rightarrow> int list result" where
  "parse_token token =
     (if CHR ''-'' \<notin> set token
      then rmap (\<lambda>v. [to_int32 v]) (stoll token)
      else
        let dash_pos = length (takeWhile (\<lambda>c. c \<noteq> CHR ''-'') token) in
        rbind (stoll (take dash_pos token)) (\<lambda>start.
        rbind (stoll (drop (dash_pos + 1) token)) (\<lambda>end.
        int_range (to_int32 start) (to_int32 end))))"

fun parse_tokens :: "string list \<Rightarrow> int list result" where
  "parse_tokens [] = Inr []"
| "parse_tokens (t # ts) = rbind (parse_token t) (\<lambda>ns. rmap (\<lambda>ms. ns @ ms) (parse_tokens ts))"

definition parse_numeric_ranges :: "string \<Rightarrow> int list result" where
  "parse_numeric_ranges input = parse_tokens (getline_tokens (CHR '','') input)"

subsection \<open>The range loop\<close>

lemma int_range_upto:
  assumes "e < INT_MAX"
  shows "int_range i e = Inr [i..e]"
  using assms
proof (induction i e rule: int_range.induct)
  case (1 i e)
  then show ?case
    by (cases "i \<le> e") (auto simp: int_range.simps [of i e] upto_rec1)
qed

lemma int_range_overflow: "i \<le> INT_MAX \<Longrightarrow> int_range i INT_MAX = Inl UB"
proof (induction "nat (INT_MAX - i)" arbitrary: i)
  case 0
  then show ?case by (subst int_range.simps) simp
next
  case (Suc n)
  then have "int_range (i + 1) INT_MAX = Inl UB" by simp
  with Suc.prems show ?case by (subst int_range.simps) simp
qed

subsection \<open>Decimal notation\<close>

text \<open>The notation of the kernel's CPU lists: decimal numbers and spans \<open>a-b\<close>, separated by commas.\<close>

function show_nat :: "nat \<Rightarrow> string" where
  "show_nat n = (if n < 10 then [char_of (48 + n)] else show_nat (n div 10) @ [char_of (48 + n mod 10)])"
  by pat_completeness auto
termination by (relation "measure id") auto

declare show_nat.simps [simp del]

datatype cpu_range = Single nat | Span nat nat

fun show_range :: "cpu_range \<Rightarrow> string" where
  "show_range (Single n) = show_nat n"
| "show_range (Span a b) = show_nat a @ [CHR ''-''] @ show_nat b"

fun show_ranges :: "cpu_range list \<Rightarrow> string" where
  "show_ranges [] = []"
| "show_ranges [r] = show_range r"
| "show_ranges (r # rs) = show_range r @ [CHR '',''] @ show_ranges rs"

fun range_cpus :: "cpu_range \<Rightarrow> int list" where
  "range_cpus (Single n) = [int n]"
| "range_cpus (Span a b) = [int a..int b]"

fun range_ok :: "cpu_range \<Rightarrow> bool" where
  "range_ok (Single n) \<longleftrightarrow> int n \<le> INT_MAX"
| "range_ok (Span a b) \<longleftrightarrow> int a \<le> INT_MAX \<and> int b < INT_MAX"

lemma show_nat_digits: "c \<in> set (show_nat n) \<Longrightarrow> is_digit c"
proof (induction n rule: show_nat.induct)
  case (1 n)
  then show ?case
    by (auto simp: show_nat.simps [of n] is_digit_def Let_def split: if_splits)
qed

lemma show_nat_nonempty [simp]: "show_nat n \<noteq> []"
  by (subst show_nat.simps) simp

lemma digits_val_snoc: "digits_val (ds @ [c]) = 10 * digits_val ds + (int (of_char c) - 48)"
  by (simp add: digits_val_def)

lemma digits_val_show_nat: "digits_val (show_nat n) = int n"
proof (induction n rule: show_nat.induct)
  case (1 n)
  show ?case
  proof (cases "n < 10")
    case True
    then show ?thesis by (simp add: show_nat.simps [of n] digits_val_def)
  next
    case False
    with 1 have "digits_val (show_nat n) = 10 * int (n div 10) + int (n mod 10)"
      by (simp add: show_nat.simps [of n] digits_val_snoc)
    then show ?thesis by (metis mult_div_mod_eq of_nat_add of_nat_mult of_nat_numeral)
  qed
qed

lemma digit_no_sep: "is_digit c \<Longrightarrow> \<not> is_space c \<and> c \<noteq> CHR ''-'' \<and> c \<noteq> CHR ''+'' \<and> c \<noteq> CHR '',''"
  by (auto simp: is_digit_def is_space_def Let_def)

lemma scan_show_nat: "scan_number (show_nat n) = (False, show_nat n)"
proof -
  obtain c cs where c: "show_nat n = c # cs" by (cases "show_nat n") auto
  then have d: "\<And>x. x \<in> set (c # cs) \<Longrightarrow> is_digit x" by (metis show_nat_digits)
  then have "is_digit c" by simp
  note digit_no_sep [OF this]
  moreover have "takeWhile is_digit (c # cs) = c # cs" using d by (intro takeWhile_all) auto
  ultimately show ?thesis by (simp add: scan_number_def c)
qed

lemma stoll_show_nat: "int n < 2 ^ 63 \<Longrightarrow> stoll (show_nat n) = Inr (int n)"
  by (simp add: stoll_def scan_show_nat digits_val_show_nat)

lemma to_int32_small: "0 \<le> v \<Longrightarrow> v \<le> INT_MAX \<Longrightarrow> to_int32 v = v"
  by (simp add: to_int32_def INT_MAX_def signed_take_bit_int_eq_self)

lemma parse_token_show_range: "range_ok r \<Longrightarrow> parse_token (show_range r) = Inr (range_cpus r)"
proof (cases r)
  case (Single n)
  moreover assume "range_ok r"
  moreover have "CHR ''-'' \<notin> set (show_nat n)" by (metis show_nat_digits digit_no_sep)
  ultimately show ?thesis
    by (simp add: parse_token_def stoll_show_nat to_int32_small INT_MAX_def)
next
  case (Span a b)
  moreover assume ok: "range_ok r"
  have "\<And>c. c \<in> set (show_nat a) \<Longrightarrow> c \<noteq> CHR ''-''" by (metis show_nat_digits digit_no_sep)
  then have "takeWhile (\<lambda>c. c \<noteq> CHR ''-'') (show_range r) = show_nat a"
    using Span by (simp add: takeWhile_append_stop)
  moreover have "stoll (show_nat a) = Inr (int a)" "stoll (show_nat b) = Inr (int b)"
    using ok Span by (simp_all add: stoll_show_nat INT_MAX_def)
  moreover have "to_int32 (int a) = int a" "to_int32 (int b) = int b" "int_range (int a) (int b) = Inr [int a..int b]"
    using ok Span by (simp_all add: to_int32_small int_range_upto)
  ultimately show ?thesis by (simp add: parse_token_def)
qed

lemma show_range_no_comma: "CHR '','' \<notin> set (show_range r)"
  by (cases r) (auto dest: show_nat_digits digit_no_sep)

lemma show_range_nonempty [simp]: "show_range r \<noteq> []"
  by (cases r) auto

lemma getline_tokens_last: "t \<noteq> [] \<Longrightarrow> d \<notin> set t \<Longrightarrow> getline_tokens d t = [t]"
proof -
  assume t: "t \<noteq> []" "d \<notin> set t"
  then have tw: "takeWhile (\<lambda>c. c \<noteq> d) t = t" and dw: "dropWhile (\<lambda>c. c \<noteq> d) t = []"
    by (auto intro: takeWhile_all)
  show ?thesis
    unfolding getline_tokens.simps [of d t] tw dw using t by (simp add: getline_tokens.simps [of d "[]"])
qed

lemma getline_tokens_cons: "d \<notin> set t \<Longrightarrow> getline_tokens d (t @ d # s) = t # getline_tokens d s"
proof -
  assume "d \<notin> set t"
  then have "takeWhile (\<lambda>c. c \<noteq> d) (t @ d # s) = t" "dropWhile (\<lambda>c. c \<noteq> d) (t @ d # s) = d # s"
    by (auto intro: takeWhile_append_stop dropWhile_append_stop)
  then show ?thesis by (simp add: getline_tokens.simps [of d "t @ d # s"])
qed

lemma getline_tokens_show_ranges: "getline_tokens (CHR '','') (show_ranges rs) = map show_range rs"
  by (induction rs rule: show_ranges.induct)
    (simp_all add: getline_tokens.simps [of _ "[]"] getline_tokens_last getline_tokens_cons show_range_no_comma)

lemma parse_tokens_show_range:
  "(\<And>r. r \<in> set rs \<Longrightarrow> range_ok r) \<Longrightarrow>
   parse_tokens (map show_range rs) = Inr (concat (map range_cpus rs))"
  by (induction rs) (simp_all add: parse_token_show_range)

lemma parse_show_ranges:
  "(\<And>r. r \<in> set rs \<Longrightarrow> range_ok r) \<Longrightarrow> parse_numeric_ranges (show_ranges rs) = Inr (concat (map range_cpus rs))"
  by (simp add: parse_numeric_ranges_def getline_tokens_show_ranges parse_tokens_show_range)

section \<open>Names of types\<close>

text \<open>\<open>demangle\<close>; \<open>cxa_demangle\<close> stands for \<open>abi::__cxa_demangle\<close>, which is given a C string and gives a status
  and a text or a null pointer.\<close>

definition c_str :: "string \<Rightarrow> string" where
  "c_str s = takeWhile (\<lambda>c. c \<noteq> CHR 0x00) s"

definition demangle :: "(string \<Rightarrow> int \<times> string option) \<Rightarrow> string \<Rightarrow> string" where
  "demangle cxa_demangle name =
     (let (status, demangled) = cxa_demangle (c_str name) in
      case demangled of
        Some d \<Rightarrow> if status = 0 then d else name
      | None \<Rightarrow> name)"

section \<open>Properties\<close>

text \<open>The range parser inverts the kernel's notation: printing a list of CPU numbers and spans
  that fit an \<open>int\<close> and parsing the text gives back exactly the numbers the list denotes, in order.\<close>

theorem parse_numeric_ranges_roundtrip:
  assumes "\<forall>r \<in> set rs. range_ok r"
  shows "parse_numeric_ranges (show_ranges rs) = Inr (concat (map range_cpus rs))"
  using assms
  by (simp add: parse_numeric_ranges_def getline_tokens_show_ranges parse_tokens_show_range)

theorem parse_numeric_ranges_roundtrip_witness:
  "parse_numeric_ranges (show_ranges [Span 1 3, Single 17]) = Inr [1, 2, 3, 17]"
  using parse_numeric_ranges_roundtrip [of "[Span 1 3, Single 17]"]
  by (simp add: INT_MAX_def upto_rec1)

end
