(* ===== verification/CPU_Manager.thy ===== *)
theory CPU_Manager
  imports Text_Utils
begin

text \<open>
  The core allocator: \<open>threads/CPUManager.{h,cpp}\<close>, the policies of \<open>threads/ThreadPolicy.h\<close>, the
  \<open>Singleton\<close> that holds it and the logger set-up its constructor runs.  The files of \<open>/sys\<close> are a
  function from paths to contents (\<open>None\<close>: cannot be opened), the environment one from names to
  values; the logging library is a parameter, and of its calls only those that throw matter.
\<close>

section \<open>Singletons\<close>

text \<open>\<open>getInstance\<close> of the instance held and the constructor: what is held afterwards, unless the
  constructor throws.\<close>

definition getInstance :: "'a result \<Rightarrow> 'a option \<Rightarrow> 'a result \<times> 'a option" where
  "getInstance construct inst =
     (case inst of
        Some i \<Rightarrow> (Inr i, inst)
      | None \<Rightarrow> (case construct of Inl e \<Rightarrow> (Inl e, None) | Inr i \<Rightarrow> (Inr i, Some i)))"

section \<open>The logger's configuration\<close>

type_synonym environment = "string \<Rightarrow> string option"

definition dawglogger_config_path :: "environment \<Rightarrow> string result" where
  "dawglogger_config_path getenv =
     (case getenv ''DAWGLOGGER_CONFIGURATION_PATH'' of
        Some path \<Rightarrow> Inr path
      | None \<Rightarrow>
          (case getenv ''PWD'' of
             Some pwd \<Rightarrow> Inr (pwd @ ''/config/dawglogger.json'')
           | None \<Rightarrow> Inl (Exn (Runtime_Error
               (''$'' @ ''DAWGLOGGER_CONFIGURATION_PATH'' @ '' and $PWD are not defined'')))))"

definition initialize_dawglogger :: "(string \<Rightarrow> unit result) \<Rightarrow> environment \<Rightarrow> unit result" where
  "initialize_dawglogger init getenv = rbind (dawglogger_config_path getenv) init"

section \<open>Policies and cores\<close>

datatype AffinityType = NORMAL | PINNED | ISOLATED

record ThreadPolicy =
  thread_name :: string
  cores :: size_t
  affinity_type :: AffinityType
  tp_strict :: bool
  priority :: int

record Core =
  cpu_id :: int
  core_type :: AffinityType

text \<open>\<open>THREAD_PRIORITY_NORMAL\<close> from the least and greatest priority of the scheduler: division of
  \<open>int\<close>, here of non-negative numbers.\<close>

definition thread_priority_normal :: "int \<Rightarrow> int \<Rightarrow> int" where
  "thread_priority_normal lowest highest = (highest - lowest) div 2"

definition default_policy :: "int \<Rightarrow> int \<Rightarrow> ThreadPolicy" where
  "default_policy lowest highest =
     \<lparr>thread_name = '''', cores = 0, affinity_type = NORMAL, tp_strict = False,
      priority = thread_priority_normal lowest highest\<rparr>"

section \<open>The manager\<close>

record cpu_manager =
  pinned_core_pool :: "int list"
  isol_core_pool :: "int list"
  online_cores :: "int list"
  manager_mutex :: bool

text \<open>\<open>std::getline\<close> on a file just opened: a file that cannot be opened leaves the string as it was.\<close>

definition read_line :: "string option \<Rightarrow> string \<Rightarrow> string" where
  "read_line file line = (case file of None \<Rightarrow> line | Some contents \<Rightarrow> takeWhile (\<lambda>c. c \<noteq> CHR 0x0A) contents)"

text \<open>\<open>pool.erase(find(pool, cpu))\<close>: erasing the end has no meaning.\<close>

definition erase_found :: "int \<Rightarrow> int list \<Rightarrow> int list result" where
  "erase_found cpu pool = (if cpu \<in> set pool then Inr (remove1 cpu pool) else Inl UB)"

fun erase_isolated :: "int list \<Rightarrow> int list \<Rightarrow> int list result" where
  "erase_isolated [] pool = Inr pool"
| "erase_isolated (cpu # cpus) pool = rbind (erase_found cpu pool) (erase_isolated cpus)"

definition parse_cpus :: "(string \<Rightarrow> string option) \<Rightarrow> cpu_manager result" where
  "parse_cpus sysfs =
     (let online = read_line (sysfs ''/sys/devices/system/cpu/online'') [] in
      rbind (parse_numeric_ranges online) (\<lambda>on.
      let isolated = read_line (sysfs ''/sys/devices/system/cpu/isolated'') online in
      rbind (parse_numeric_ranges isolated) (\<lambda>isol.
      rmap (\<lambda>pinned. \<lparr>pinned_core_pool = pinned, isol_core_pool = isol, online_cores = on, manager_mutex = False\<rparr>)
        (erase_isolated isol on))))"

definition cpu_manager_new ::
  "(string \<Rightarrow> string option) \<Rightarrow> (string \<Rightarrow> unit result) \<Rightarrow> environment \<Rightarrow> cpu_manager result" where
  "cpu_manager_new sysfs init getenv =
     rbind (parse_cpus sysfs) (\<lambda>m. rmap (\<lambda>_. m) (initialize_dawglogger init getenv))"

subsection \<open>Allocation\<close>

text \<open>The loops: \<open>at\<close> of the first \<open>n\<close> indices, and \<open>back\<close>/\<open>pop_back\<close> \<open>n\<close> times.\<close>

fun copy_cores :: "nat \<Rightarrow> nat \<Rightarrow> int list \<Rightarrow> Core list \<Rightarrow> Core list result" where
  "copy_cores 0 i pool acc = Inr acc"
| "copy_cores (Suc n) i pool acc =
     (if i < length pool then copy_cores n (Suc i) pool (acc @ [\<lparr>cpu_id = pool ! i, core_type = NORMAL\<rparr>])
      else Inl (Exn (Out_Of_Range ''vector::at'')))"

fun pop_cores :: "AffinityType \<Rightarrow> nat \<Rightarrow> int list \<Rightarrow> Core list \<Rightarrow> (Core list \<times> int list) result" where
  "pop_cores ty 0 pool acc = Inr (acc, pool)"
| "pop_cores ty (Suc n) pool acc =
     (if pool = [] then Inl UB
      else pop_cores ty n (butlast pool) (acc @ [\<lparr>cpu_id = last pool, core_type = ty\<rparr>]))"

definition manager_lock :: "(cpu_manager \<Rightarrow> 'a result \<times> cpu_manager) \<Rightarrow> cpu_manager \<Rightarrow> 'a result \<times> cpu_manager" where
  "manager_lock = lock_guard manager_mutex (\<lambda>b m. m\<lparr>manager_mutex := b\<rparr>)"

lemma manager_lock_cong [fundef_cong]:
  assumes "m = m'" "\<not> manager_mutex m' \<Longrightarrow> body (m'\<lparr>manager_mutex := True\<rparr>) = body' (m'\<lparr>manager_mutex := True\<rparr>)"
  shows "manager_lock body m = manager_lock body' m'"
  using assms by (simp add: manager_lock_def lock_guard_def)

text \<open>Storing the pools at the end of \<open>allocate\<close>.\<close>

definition store_pools :: "(Core list \<times> int list \<times> int list) result \<Rightarrow> cpu_manager \<Rightarrow> Core list result \<times> cpu_manager" where
  "store_pools r m =
     (case r of
        Inl e \<Rightarrow> (Inl e, m)
      | Inr (cs, pinned, isol) \<Rightarrow> (Inr cs, m\<lparr>pinned_core_pool := pinned, isol_core_pool := isol\<rparr>))"

text \<open>\<open>allocate\<close>.  The call in the isolated case takes the mutex again.  The messages leave out the number
  the logger formats into them.\<close>

function cpu_allocate :: "ThreadPolicy \<Rightarrow> cpu_manager \<Rightarrow> Core list result \<times> cpu_manager" where
  "cpu_allocate policy m0 = manager_lock (\<lambda>m.
     let total_cpus = of_nat (length (pinned_core_pool m)) +
           (if affinity_type policy = ISOLATED then of_nat (length (isol_core_pool m)) else 0) in
     if cores policy > total_cpus then (Inl (Exn (Runtime_Error ''Not enough resources to allocate cpus'')), m)
     else
     (case affinity_type policy of
        NORMAL \<Rightarrow>
          store_pools (rmap (\<lambda>cs. (cs, pinned_core_pool m, isol_core_pool m))
            (copy_cores (unat (cores policy)) 0 (pinned_core_pool m) [])) m
      | PINNED \<Rightarrow>
          store_pools (rmap (\<lambda>(cs, pinned). (cs, pinned, isol_core_pool m))
            (pop_cores PINNED (unat (cores policy)) (pinned_core_pool m) [])) m
      | ISOLATED \<Rightarrow>
          (let isol_cpus_to_allocate = min (cores policy) (of_nat (length (isol_core_pool m)));
               pinned_cpus_to_allocate = cores policy - isol_cpus_to_allocate in
           if isol_cpus_to_allocate < cores policy then
             if tp_strict policy then
               (Inl (Exn (Runtime_Error ''Not enough resources to allocate isolated cpus'')), m)
             else
               and_then (cpu_allocate (policy\<lparr>cores := pinned_cpus_to_allocate, affinity_type := PINNED\<rparr>) m)
                 (\<lambda>pinned_cores m.
                    store_pools (rmap (\<lambda>(cs, isol). (cs, pinned_core_pool m, isol))
                      (pop_cores ISOLATED (unat isol_cpus_to_allocate) (isol_core_pool m) pinned_cores)) m)
           else
             store_pools (rmap (\<lambda>(cs, isol). (cs, pinned_core_pool m, isol))
               (pop_cores ISOLATED (unat isol_cpus_to_allocate) (isol_core_pool m) [])) m))) m0"
  by pat_completeness auto
termination
  by (relation "measure (\<lambda>(policy, m). if affinity_type policy = ISOLATED then 1 else 0)") auto

declare cpu_allocate.simps [simp del]

subsection \<open>Deallocation\<close>

text \<open>What it logs, a core that is not online or not allocated, does not stop it: the core is added to
  the pool.  It does not take the mutex.\<close>

datatype dealloc_log = Core_Does_Not_Exist int | Core_Was_Not_Allocated int

definition deallocate :: "Core \<Rightarrow> cpu_manager \<Rightarrow> dealloc_log list \<times> cpu_manager" where
  "deallocate core m =
     (let exists = (if cpu_id core \<in> set (online_cores m) then [] else [Core_Does_Not_Exist (cpu_id core)]) in
      case core_type core of
        NORMAL \<Rightarrow> (exists, m)
      | ISOLATED \<Rightarrow>
          (exists @ (if cpu_id core \<in> set (isol_core_pool m) then [Core_Was_Not_Allocated (cpu_id core)] else []),
           m\<lparr>isol_core_pool := isol_core_pool m @ [cpu_id core]\<rparr>)
      | PINNED \<Rightarrow>
          (exists @ (if cpu_id core \<in> set (pinned_core_pool m) then [Core_Was_Not_Allocated (cpu_id core)] else []),
           m\<lparr>pinned_core_pool := pinned_core_pool m @ [cpu_id core]\<rparr>))"

fun deallocate_all :: "Core list \<Rightarrow> cpu_manager \<Rightarrow> dealloc_log list \<times> cpu_manager" where
  "deallocate_all [] m = ([], m)"
| "deallocate_all (core # rest) m =
     (case deallocate core m of (log, m) \<Rightarrow> (case deallocate_all rest m of (logs, m) \<Rightarrow> (log @ logs, m)))"

end
