(* ===== verification/CPU_Manager_Props.thy ===== *)
theory CPU_Manager_Props
  imports CPU_Manager
begin

text \<open>
  What the core allocator promises: the result of \<open>allocate\<close> on every branch (one of which never
  returns), that no core is lost or handed out twice over any sequence of calls, and what the
  constructor reads from \<open>/sys\<close>.
\<close>

section \<open>The loops in closed form\<close>

abbreviation core_of :: "AffinityType \<Rightarrow> int \<Rightarrow> Core" where
  "core_of ty c \<equiv> \<lparr>cpu_id = c, core_type = ty\<rparr>"

lemma copy_cores_eq:
  "i + n \<le> length pool \<Longrightarrow> copy_cores n i pool acc = Inr (acc @ map (core_of NORMAL) (take n (drop i pool)))"
proof (induction n arbitrary: i acc)
  case (Suc n)
  then have i: "i < length pool" by simp
  then have "take (Suc n) (drop i pool) = pool ! i # take n (drop (Suc i) pool)"
    by (simp add: Cons_nth_drop_Suc [symmetric])
  then show ?case using Suc i by simp
qed simp

lemma pop_cores_eq:
  "n \<le> length pool \<Longrightarrow>
     pop_cores ty n pool acc = Inr (acc @ map (core_of ty) (take n (rev pool)), take (length pool - n) pool)"
proof (induction n arbitrary: pool acc)
  case (Suc n)
  then obtain ys y where pool: "pool = ys @ [y]" by (cases pool rule: rev_cases) auto
  then show ?case using Suc by simp
qed simp

lemma manager_unlocked: "\<not> manager_mutex m \<Longrightarrow> m\<lparr>manager_mutex := False\<rparr> = m"
  by simp

lemma manager_lock_free:
  "\<not> manager_mutex m \<Longrightarrow> manager_lock body m = (let (r, m) = body (m\<lparr>manager_mutex := True\<rparr>) in (r, m\<lparr>manager_mutex := False\<rparr>))"
  by (simp add: manager_lock_def lock_guard_def)

lemma manager_lock_held: "manager_mutex m \<Longrightarrow> manager_lock body m = (Inl Deadlock, m)"
  by (simp add: manager_lock_def lock_guard_def)

section \<open>Allocation on every branch\<close>

definition pools_fit :: "cpu_manager \<Rightarrow> bool" where
  "pools_fit m \<longleftrightarrow> length (pinned_core_pool m) + length (isol_core_pool m) < 2 ^ 64"

lemma size_of_pools:
  assumes "pools_fit m"
  shows "unat (of_nat (length (pinned_core_pool m)) :: size_t) = length (pinned_core_pool m)"
    "unat (of_nat (length (isol_core_pool m)) :: size_t) = length (isol_core_pool m)"
    "unat (of_nat (length (pinned_core_pool m)) + of_nat (length (isol_core_pool m)) :: size_t) =
      length (pinned_core_pool m) + length (isol_core_pool m)"
  using assms by (simp_all add: pools_fit_def size_simps)

lemma allocate_normal:
  assumes "\<not> manager_mutex m" "pools_fit m" "affinity_type policy = NORMAL"
  shows "cpu_allocate policy m =
    (if unat (cores policy) \<le> length (pinned_core_pool m)
     then (Inr (map (core_of NORMAL) (take (unat (cores policy)) (pinned_core_pool m))), m)
     else (Inl (Exn (Runtime_Error ''Not enough resources to allocate cpus'')), m))"
  using assms size_of_pools [OF assms(2)]
  by (auto simp: cpu_allocate.simps [of policy m] manager_lock_free word_less_nat_alt copy_cores_eq store_pools_def Let_def)

lemma allocate_pinned:
  assumes "\<not> manager_mutex m" "pools_fit m" "affinity_type policy = PINNED"
  shows "cpu_allocate policy m =
    (if unat (cores policy) \<le> length (pinned_core_pool m)
     then (Inr (map (core_of PINNED) (take (unat (cores policy)) (rev (pinned_core_pool m)))),
           m\<lparr>pinned_core_pool := take (length (pinned_core_pool m) - unat (cores policy)) (pinned_core_pool m)\<rparr>)
     else (Inl (Exn (Runtime_Error ''Not enough resources to allocate cpus'')), m))"
  using assms size_of_pools [OF assms(2)]
  by (auto simp: cpu_allocate.simps [of policy m] manager_lock_free word_less_nat_alt pop_cores_eq store_pools_def Let_def)

lemma allocate_held: "manager_mutex m \<Longrightarrow> cpu_allocate policy m = (Inl Deadlock, m)"
  by (simp add: cpu_allocate.simps [of policy m] manager_lock_held)

lemma allocate_isolated:
  assumes "\<not> manager_mutex m" "pools_fit m" "affinity_type policy = ISOLATED"
  shows "cpu_allocate policy m =
    (if unat (cores policy) > length (pinned_core_pool m) + length (isol_core_pool m)
     then (Inl (Exn (Runtime_Error ''Not enough resources to allocate cpus'')), m)
     else if unat (cores policy) \<le> length (isol_core_pool m)
     then (Inr (map (core_of ISOLATED) (take (unat (cores policy)) (rev (isol_core_pool m)))),
           m\<lparr>isol_core_pool := take (length (isol_core_pool m) - unat (cores policy)) (isol_core_pool m)\<rparr>)
     else if tp_strict policy then (Inl (Exn (Runtime_Error ''Not enough resources to allocate isolated cpus'')), m)
     else (Inl Deadlock, m))"
proof -
  note sz = size_of_pools [OF assms(2)]
  have min: "min (cores policy) (of_nat (length (isol_core_pool m))) =
      (if unat (cores policy) \<le> length (isol_core_pool m) then cores policy else of_nat (length (isol_core_pool m)))"
    using sz(2) by (simp add: min_def word_le_nat_alt)
  show ?thesis using assms sz
    by (auto simp: cpu_allocate.simps [of policy m] manager_lock_free word_less_nat_alt min pop_cores_eq allocate_held
        store_pools_def Let_def)
qed

section \<open>Sequences of calls\<close>

text \<open>The second component is what has been handed out and not given back.  A program gives back only
  what it was handed.\<close>

inductive cpu_step :: "cpu_manager \<times> Core multiset \<Rightarrow> cpu_manager \<times> Core multiset \<Rightarrow> bool" where
  Allocate: "cpu_allocate policy m = (Inr cs, m') \<Longrightarrow> cpu_step (m, out) (m', out + mset cs)"
| Allocate_Throws: "cpu_allocate policy m = (Inl (Exn e), m') \<Longrightarrow> cpu_step (m, out) (m', out)"
| Deallocate: "c \<in># out \<Longrightarrow> deallocate c m = (logged, m') \<Longrightarrow> cpu_step (m, out) (m', out - {#c#})"

abbreviation cpu_run :: "cpu_manager \<times> Core multiset \<Rightarrow> cpu_manager \<times> Core multiset \<Rightarrow> bool" where
  "cpu_run \<equiv> cpu_step\<^sup>*\<^sup>*"

definition ids_of :: "AffinityType \<Rightarrow> Core multiset \<Rightarrow> int multiset" where
  "ids_of ty out = image_mset cpu_id (filter_mset (\<lambda>c. core_type c = ty) out)"

lemma ids_of_simps [simp]:
  "ids_of ty (out + out') = ids_of ty out + ids_of ty out'"
  "ids_of ty (image_mset (core_of ty') M) = (if ty = ty' then M else {#})"
  "ids_of ty {#} = {#}"
  by (induction M) (auto simp: ids_of_def)

lemma ids_of_diff:
  assumes "c \<in># out"
  shows "ids_of ty out = ids_of ty (out - {#c#}) + (if core_type c = ty then {#cpu_id c#} else {#})"
proof -
  have "out = (out - {#c#}) + {#c#}" using assms by simp
  then have "ids_of ty out = ids_of ty (out - {#c#}) + ids_of ty {#c#}" by (metis ids_of_simps(1))
  then show ?thesis by (simp add: ids_of_def)
qed

lemma mset_take_rev:
  assumes "n \<le> length xs"
  shows "mset (take (length xs - n) xs) + mset (take n (rev xs)) = mset xs"
proof -
  have "rev (drop (length xs - n) xs) = take n (rev xs)" using assms by (simp add: rev_drop)
  then have "mset (take n (rev xs)) = mset (drop (length xs - n) xs)" by (metis mset_rev)
  then show ?thesis by (metis append_take_drop_id mset_append)
qed

text \<open>Conservation: the pools and what is handed out make up the initial pools \<open>P\<close> and \<open>I\<close>.\<close>

definition conserved :: "int multiset \<Rightarrow> int multiset \<Rightarrow> int set \<Rightarrow> cpu_manager \<times> Core multiset \<Rightarrow> bool" where
  "conserved P I on = (\<lambda>(m, out). \<not> manager_mutex m \<and> set (online_cores m) = on \<and>
     mset (pinned_core_pool m) + ids_of PINNED out = P \<and> mset (isol_core_pool m) + ids_of ISOLATED out = I)"

lemma conserved_fit:
  assumes "conserved P I on (m, out)" "size P + size I < 2 ^ 64"
  shows "pools_fit m"
proof -
  have "size (mset (pinned_core_pool m)) \<le> size P" "size (mset (isol_core_pool m)) \<le> size I"
    using assms(1) by (auto simp: conserved_def)
  then show ?thesis using assms(2) by (simp add: pools_fit_def)
qed

lemma conserved_step:
  assumes "cpu_step st st'" "conserved P I on st" "size P + size I < 2 ^ 64"
  shows "conserved P I on st'"
  using assms
proof (induction rule: cpu_step.induct)
  case (Allocate policy m cs m' out)
  have m: "\<not> manager_mutex m" and fit: "pools_fit m"
    using Allocate(2) conserved_fit [OF Allocate(2,3)] by (simp_all add: conserved_def)
  show ?case
  proof (cases "affinity_type policy")
    case NORMAL
    then show ?thesis using Allocate(1,2) allocate_normal [OF m fit NORMAL] by (auto simp: conserved_def split: if_splits)
  next
    case PINNED
    then show ?thesis using Allocate(1,2) allocate_pinned [OF m fit PINNED] mset_take_rev [of "unat (cores policy)" "pinned_core_pool m"]
      by (auto simp: conserved_def ac_simps split: if_splits)
  next
    case ISOLATED
    then show ?thesis using Allocate(1,2) allocate_isolated [OF m fit ISOLATED] mset_take_rev [of "unat (cores policy)" "isol_core_pool m"]
      by (auto simp: conserved_def ac_simps split: if_splits)
  qed
next
  case (Allocate_Throws policy m e m' out)
  have m: "\<not> manager_mutex m" and fit: "pools_fit m"
    using Allocate_Throws(2) conserved_fit [OF Allocate_Throws(2,3)] by (simp_all add: conserved_def)
  have "m' = m"
    using Allocate_Throws(1) allocate_normal [OF m fit] allocate_pinned [OF m fit] allocate_isolated [OF m fit]
    by (cases "affinity_type policy") (auto split: if_splits)
  then show ?case using Allocate_Throws(2) by simp
next
  case (Deallocate c out m logged m')
  have split: "ids_of ty out = ids_of ty (out - {#c#}) + (if core_type c = ty then {#cpu_id c#} else {#})" for ty
    by (rule ids_of_diff [OF Deallocate(1)])
  show ?case using Deallocate(2,3) split [of PINNED] split [of ISOLATED]
    by (cases "core_type c") (auto simp: deallocate_def Let_def conserved_def)
qed

lemma conserved_run:
  "cpu_run st st' \<Longrightarrow> conserved P I on st \<Longrightarrow> size P + size I < 2 ^ 64 \<Longrightarrow> conserved P I on st'"
  by (induction rule: rtranclp_induct) (auto intro: conserved_step)

lemma count_le_image: "count M x \<le> count (image_mset f M) (f x)"
  by (induction M) auto

text \<open>Handed out of a pool of distinct cores: once, and not in the pool any more.\<close>

lemma handed_out_once:
  assumes "mset pool + ids_of (core_type x) out = mset pool0" "distinct pool0" "x \<in># out"
  shows "count out x = 1" "cpu_id x \<notin> set pool" "cpu_id x \<in> set pool0"
proof -
  have "count (mset pool) (cpu_id x) + count (ids_of (core_type x) out) (cpu_id x) = count (mset pool0) (cpu_id x)"
    by (simp flip: assms(1))
  also have "\<dots> \<le> 1" using assms(2) by (simp add: distinct_count_atmost_1)
  finally have le: "count (mset pool) (cpu_id x) + count (ids_of (core_type x) out) (cpu_id x) \<le> 1" .
  have "count out x = count (filter_mset (\<lambda>c. core_type c = core_type x) out) x" by simp
  also have "\<dots> \<le> count (ids_of (core_type x) out) (cpu_id x)"
    unfolding ids_of_def by (rule count_le_image)
  finally have ge: "count out x \<le> count (ids_of (core_type x) out) (cpu_id x)" .
  have pos: "0 < count out x" using assms(3) by simp
  show "count out x = 1" using le ge pos by linarith
  have "count (mset pool) (cpu_id x) = 0" using le ge pos by linarith
  then show "cpu_id x \<notin> set pool" by (simp add: count_eq_zero_iff)
  have "0 < count (ids_of (core_type x) out) (cpu_id x)" using ge pos by linarith
  then have "cpu_id x \<in># ids_of (core_type x) out" by (simp only: count_greater_zero_iff)
  then have "cpu_id x \<in># mset pool0" by (simp flip: assms(1))
  then show "cpu_id x \<in> set pool0" by simp
qed

section \<open>Properties\<close>


text \<open>C31. \<open>allocate\<close> on every branch, with the mutex free: a normal request copies the first cores of the
  pinned pool; a pinned one takes the last, an isolated one the last isolated cores; more than the
  pools hold throws and changes nothing; and an isolated request that needs pinned cores throws when
  strict and otherwise never returns, because \<open>allocate\<close> calls itself with the mutex held.\<close>

theorem cpu_allocate_spec:
  assumes "\<not> manager_mutex m" "length (pinned_core_pool m) + length (isol_core_pool m) < 2 ^ 64"
    "n = unat (cores policy)" "P = pinned_core_pool m" "I = isol_core_pool m"
  shows "cpu_allocate policy m =
    (case affinity_type policy of
       NORMAL \<Rightarrow>
         if n \<le> length P then (Inr (map (core_of NORMAL) (take n P)), m)
         else (Inl (Exn (Runtime_Error ''Not enough resources to allocate cpus'')), m)
     | PINNED \<Rightarrow>
         if n \<le> length P
         then (Inr (map (core_of PINNED) (take n (rev P))), m\<lparr>pinned_core_pool := take (length P - n) P\<rparr>)
         else (Inl (Exn (Runtime_Error ''Not enough resources to allocate cpus'')), m)
     | ISOLATED \<Rightarrow>
         if length P + length I < n
         then (Inl (Exn (Runtime_Error ''Not enough resources to allocate cpus'')), m)
         else if n \<le> length I
         then (Inr (map (core_of ISOLATED) (take n (rev I))), m\<lparr>isol_core_pool := take (length I - n) I\<rparr>)
         else if tp_strict policy
         then (Inl (Exn (Runtime_Error ''Not enough resources to allocate isolated cpus'')), m)
         else (Inl Deadlock, m))"
proof -
  have fit: "pools_fit m" using assms(2) by (simp add: pools_fit_def)
  show ?thesis
    using allocate_normal [OF assms(1) fit] allocate_pinned [OF assms(1) fit] allocate_isolated [OF assms(1) fit] assms(3-5)
    by (cases "affinity_type policy") auto
qed

text \<open>The text of a list of ranges is one line.\<close>

lemma show_range_chars: "c \<in> set (show_range r) \<Longrightarrow> is_digit c \<or> c = CHR ''-''"
  by (cases r) (auto dest: show_nat_digits)

lemma show_ranges_chars: "c \<in> set (show_ranges rs) \<Longrightarrow> c \<noteq> CHR 0x0A"
  by (induction rs rule: show_ranges.induct) (auto dest!: show_range_chars simp: is_digit_def Let_def)

lemma erase_isolated_eq:
  "distinct isol \<Longrightarrow> distinct pool \<Longrightarrow>
     erase_isolated isol pool = (if set isol \<subseteq> set pool then Inr (filter (\<lambda>c. c \<notin> set isol) pool) else Inl UB)"
proof (induction isol arbitrary: pool)
  case (Cons c isol)
  have "filter (\<lambda>d. d \<notin> set isol) (remove1 c pool) = filter (\<lambda>d. d \<notin> set (c # isol)) pool"
    using Cons.prems(2) by (auto simp: distinct_remove1_removeAll removeAll_filter_not_eq intro: filter_cong)
  then show ?case using Cons by (auto simp: erase_found_def)
qed simp

text \<open>C39. The constructor, on the files the kernel writes: the pinned pool is the online cores that are not
  isolated, in order, and the isolated pool the isolated ones; but a core that is isolated and not
  online makes it erase the end of the vector, which has no meaning.\<close>

theorem parse_cpus_spec:
  assumes "sysfs ''/sys/devices/system/cpu/online'' = Some (show_ranges on @ [CHR 0x0A])"
    "sysfs ''/sys/devices/system/cpu/isolated'' = Some (show_ranges isol @ [CHR 0x0A])"
    "\<forall>r \<in> set on \<union> set isol. range_ok r"
    "distinct (concat (map range_cpus on))" "distinct (concat (map range_cpus isol))"
  shows "parse_cpus sysfs =
    (if set (concat (map range_cpus isol)) \<subseteq> set (concat (map range_cpus on))
     then Inr \<lparr>pinned_core_pool = filter (\<lambda>c. c \<notin> set (concat (map range_cpus isol))) (concat (map range_cpus on)),
       isol_core_pool = concat (map range_cpus isol), online_cores = concat (map range_cpus on), manager_mutex = False\<rparr>
     else Inl UB)"
proof -
  have line: "takeWhile (\<lambda>c. c \<noteq> CHR 0x0A) (show_ranges rs @ [CHR 0x0A]) = show_ranges rs" for rs
    by (rule takeWhile_append_stop) (auto dest: show_ranges_chars)
  have "read_line (sysfs ''/sys/devices/system/cpu/online'') [] = show_ranges on"
    "read_line (sysfs ''/sys/devices/system/cpu/isolated'') l = show_ranges isol" for l
    unfolding assms(1,2) by (simp_all add: read_line_def line)
  moreover have "parse_numeric_ranges (show_ranges on) = Inr (concat (map range_cpus on))"
    "parse_numeric_ranges (show_ranges isol) = Inr (concat (map range_cpus isol))"
    using assms(3) by (intro parse_show_ranges; blast)+
  ultimately show ?thesis
    using erase_isolated_eq [OF assms(5,4)] by (simp add: parse_cpus_def Let_def)
qed

section \<open>Concrete inputs\<close>

definition sample_manager :: cpu_manager where
  "sample_manager = \<lparr>pinned_core_pool = [0, 1, 2], isol_core_pool = [3], online_cores = [0, 1, 2, 3], manager_mutex = False\<rparr>"

definition sample_policy :: "size_t \<Rightarrow> AffinityType \<Rightarrow> ThreadPolicy" where
  "sample_policy n ty = \<lparr>thread_name = ''worker'', cores = n, affinity_type = ty, tp_strict = False, priority = 1\<rparr>"

theorem cpu_allocate_spec_witness:
  "cpu_allocate (sample_policy 2 PINNED) sample_manager =
     (Inr [\<lparr>cpu_id = 2, core_type = PINNED\<rparr>, \<lparr>cpu_id = 1, core_type = PINNED\<rparr>], sample_manager\<lparr>pinned_core_pool := [0]\<rparr>) \<and>
   cpu_allocate (sample_policy 2 ISOLATED) sample_manager = (Inl Deadlock, sample_manager)"
  using cpu_allocate_spec [of sample_manager _ "sample_policy 2 PINNED", OF _ _ refl refl refl]
    cpu_allocate_spec [of sample_manager _ "sample_policy 2 ISOLATED", OF _ _ refl refl refl]
  by (simp add: sample_manager_def sample_policy_def)


theorem parse_cpus_spec_witness:
  "parse_cpus [''/sys/devices/system/cpu/online'' \<mapsto> show_ranges [Span 0 3] @ [CHR 0x0A],
     ''/sys/devices/system/cpu/isolated'' \<mapsto> show_ranges [Single 2] @ [CHR 0x0A]] =
   Inr \<lparr>pinned_core_pool = [0, 1, 3], isol_core_pool = [2], online_cores = [0, 1, 2, 3], manager_mutex = False\<rparr>"
  by (subst parse_cpus_spec [where on = "[Span 0 3]" and isol = "[Single 2]"]) (simp_all add: INT_MAX_def upto_rec1)

end
