(* ===== verification/Any_Value.thy ===== *)
theory Any_Value
  imports Text_Utils
begin

text \<open>
  The type erased values the flow objects exchange.  \<open>nstd::any\<close> is a third party type: its
  operations are the parameter \<open>any_ops\<close> of every definition that uses them, and \<open>any_laws\<close> states what
  its documentation promises (those of \<open>std::any\<close>).  On top of it stands \<open>any_cast_with_info\<close> of
  \<open>core/src/utils/exceptions/bad_any_cast_with_info.hpp\<close>.
\<close>

section \<open>Typed values\<close>

text \<open>A value of the program: \<open>std::nullopt\<close>, an object of a named type, or a vector.\<close>

datatype 'p val = Nullopt | Scalar string 'p | Vector ctype "'p val list"

fun typeof :: "'p val \<Rightarrow> ctype" where
  "typeof Nullopt = TNullopt"
| "typeof (Scalar c p) = TClass c"
| "typeof (Vector t vs) = TVector t"

section \<open>The operations of \<open>nstd::any\<close>\<close>

record ('a, 'p) any_ops =
  any_empty :: 'a
  any_make :: "'p val \<Rightarrow> 'a"
  any_has_value :: "'a \<Rightarrow> bool"
  any_type :: "'a \<Rightarrow> ctype"
  any_cast :: "ctype \<Rightarrow> 'a \<Rightarrow> 'p val option"

definition any_laws :: "('a, 'p, 'z) any_ops_scheme \<Rightarrow> bool" where
  "any_laws ops \<longleftrightarrow>
     \<not> any_has_value ops (any_empty ops) \<and> any_type ops (any_empty ops) = TVoid \<and>
     (\<forall>t. any_cast ops t (any_empty ops) = None) \<and>
     (\<forall>v. any_has_value ops (any_make ops v) \<and> any_type ops (any_make ops v) = typeof v \<and>
          (\<forall>t. any_cast ops t (any_make ops v) = (if t = typeof v then Some v else None)))"

text \<open>An instance that satisfies the laws: an optional value.\<close>

definition opt_any_cast :: "ctype \<Rightarrow> 'p val option \<Rightarrow> 'p val option" where
  "opt_any_cast t a = (case a of None \<Rightarrow> None | Some v \<Rightarrow> if t = typeof v then Some v else None)"

definition opt_any :: "('p val option, 'p) any_ops" where
  "opt_any = \<lparr>any_empty = None, any_make = Some, any_has_value = (\<lambda>a. a \<noteq> None),
     any_type = (\<lambda>a. case a of None \<Rightarrow> TVoid | Some v \<Rightarrow> typeof v), any_cast = opt_any_cast\<rparr>"

lemma any_laws_opt_any: "any_laws opt_any"
  by (simp add: any_laws_def opt_any_def opt_any_cast_def)

lemma any_empty_simps:
  assumes "any_laws ops"
  shows "any_has_value ops (any_empty ops) = False" "any_type ops (any_empty ops) = TVoid"
    "any_cast ops t (any_empty ops) = None"
  using assms by (simp_all add: any_laws_def)

lemma any_make_simps:
  assumes "any_laws ops"
  shows "any_has_value ops (any_make ops v) = True" "any_type ops (any_make ops v) = typeof v"
    "any_cast ops t (any_make ops v) = (if t = typeof v then Some v else None)"
  using assms by (simp_all add: any_laws_def)

lemmas any_simps = any_empty_simps any_make_simps

section \<open>\<open>any_cast_with_info\<close>\<close>

definition any_cast_with_info :: "('a, 'p, 'z) any_ops_scheme \<Rightarrow> ctype \<Rightarrow> 'a \<Rightarrow> 'p val result" where
  "any_cast_with_info ops t a =
     (case any_cast ops t a of
        Some v \<Rightarrow> Inr v
      | None \<Rightarrow> Inl (Exn (Bad_Any_Cast (any_type ops a) t)))"

text \<open>The text of the exception, over the demangler of the C++ ABI and the names \<open>type_info::name\<close> gives.\<close>

definition bad_any_cast_with_info_what ::
  "(string \<Rightarrow> int \<times> string option) \<Rightarrow> (ctype \<Rightarrow> string) \<Rightarrow> ctype \<Rightarrow> ctype \<Rightarrow> string" where
  "bad_any_cast_with_info_what cxa_demangle type_name from to =
     c_str (''bad_any_cast: Cannot cast from type ['' @ demangle cxa_demangle (type_name from) @
       ''] to type ['' @ demangle cxa_demangle (type_name to) @ '']'')"

lemma any_cast_with_info_make:
  "any_laws ops \<Longrightarrow> any_cast_with_info ops t (any_make ops v) =
     (if t = typeof v then Inr v else Inl (Exn (Bad_Any_Cast (typeof v) t)))"
  by (simp add: any_cast_with_info_def any_simps)

lemma any_cast_with_info_empty:
  "any_laws ops \<Longrightarrow> any_cast_with_info ops t (any_empty ops) = Inl (Exn (Bad_Any_Cast TVoid t))"
  by (simp add: any_cast_with_info_def any_simps)

end
