(* ===== verification/Flow_State.thy ===== *)
theory Flow_State
  imports Any_Value
begin

text \<open>
  The objects of the flow framework (\<open>core/src/flow\<close>): what a \<open>Flow\<close> object stores, the heap of
  objects that shared pointers name, and the code the framework calls but does not contain.
\<close>

section \<open>Flow objects\<close>

datatype production_policy = Fanout | RoundRobin

text \<open>\<open>policy_to_string\<close>\<close>

fun policy_to_string :: "production_policy \<Rightarrow> string" where
  "policy_to_string Fanout = ''Fanout''"
| "policy_to_string RoundRobin = ''RoundRobin''"

text \<open>The class an object derives from, with its template arguments; \<open>KFlow\<close> names a class derived from
  \<open>Flow\<close> itself.\<close>

datatype kind =
    KSource ctype
  | KModule ctype ctype
  | KAggregator ctype ctype
  | KSink ctype
  | KFlow string

fun input_type :: "kind \<Rightarrow> ctype" where
  "input_type (KSource out) = TVoid"
| "input_type (KModule i out) = i"
| "input_type (KAggregator i out) = i"
| "input_type (KSink i) = i"
| "input_type (KFlow c) = TVoid"

fun output_type :: "kind \<Rightarrow> ctype" where
  "output_type (KSource out) = out"
| "output_type (KModule i out) = out"
| "output_type (KAggregator i out) = out"
| "output_type (KSink i) = TVoid"
| "output_type (KFlow c) = TVoid"

type_synonym nid = nat

text \<open>\<open>state\<close>, \<open>producer_count\<close> and \<open>latest\<close> are the members of \<open>Aggregator\<close>; objects of the other
  classes do not use them.\<close>

record 'p node =
  n_kind :: kind
  n_policy :: production_policy
  next_nodes :: "(nid \<times> size_t) list"
  agg_state :: size_t
  producer_count :: size_t
  latest :: "(size_t \<times> 'p val) list"

definition new_node :: "kind \<Rightarrow> production_policy \<Rightarrow> 'p node" where
  "new_node k p = \<lparr>n_kind = k, n_policy = p, next_nodes = [], agg_state = 0, producer_count = 0, latest = []\<rparr>"

text \<open>The objects that exist, and the state of everything the overridden \<open>process\<close> methods touch.\<close>

record ('p, 'u) flow_state =
  objs :: "nid \<Rightarrow> 'p node option"
  world :: 'u

section \<open>Code outside the framework\<close>

text \<open>
  \<open>process\<close> is the user's override point in every block; \<open>um_order\<close> is the order in which
  \<open>std::unordered_map\<close> iterates over its entries; \<open>implicit_conv\<close> is the implicit conversion between
  the element types of an aggregator (the identity when both are the same type).
\<close>

record ('a, 'p, 'u) runtime = "('a, 'p) any_ops" +
  source_process :: "nid \<Rightarrow> 'u \<Rightarrow> 'p val option result \<times> 'u"
  module_process :: "nid \<Rightarrow> 'p val \<Rightarrow> 'u \<Rightarrow> 'p val option result \<times> 'u"
  aggregator_process :: "nid \<Rightarrow> 'p val list \<Rightarrow> 'u \<Rightarrow> 'p val option result \<times> 'u"
  sink_process :: "nid \<Rightarrow> 'p val \<Rightarrow> 'u \<Rightarrow> unit result \<times> 'u"
  flow_process_any :: "nid \<Rightarrow> 'a \<Rightarrow> size_t \<Rightarrow> 'u \<Rightarrow> 'a result \<times> 'u"
  um_order :: "(size_t \<times> 'p val) list \<Rightarrow> (size_t \<times> 'p val) list"
  implicit_conv :: "ctype \<Rightarrow> 'p val \<Rightarrow> 'p val"

text \<open>Whatever its order, the iteration visits every entry once.\<close>

definition um_laws :: "('a, 'p, 'u) runtime \<Rightarrow> bool" where
  "um_laws rt \<longleftrightarrow> (\<forall>es. mset (um_order rt es) = mset es)"

text \<open>Lift a call of user code to the state of the framework.\<close>

definition in_world :: "('u \<Rightarrow> 'r result \<times> 'u) \<Rightarrow> ('p, 'u) flow_state \<Rightarrow> 'r result \<times> ('p, 'u) flow_state" where
  "in_world f st = (let (r, u) = f (world st) in (r, st\<lparr>world := u\<rparr>))"

text \<open>Write back an object.\<close>

definition set_node :: "nid \<Rightarrow> 'p node \<Rightarrow> ('p, 'u) flow_state \<Rightarrow> ('p, 'u) flow_state" where
  "set_node n nd st = st\<lparr>objs := (objs st)(n \<mapsto> nd)\<rparr>"

lemma set_node_simps [simp]:
  "objs (set_node n nd st) = (objs st)(n \<mapsto> nd)" "world (set_node n nd st) = world st"
  by (simp_all add: set_node_def)

lemma in_world_objs: "objs (snd (in_world f st)) = objs st"
  by (simp add: in_world_def split: prod.split)

text \<open>What user code may do: it returns a value of its declared type or throws; it never runs forever,
  never deadlocks, and has no undefined behaviour of its own.\<close>

definition well_behaved :: "'r result \<Rightarrow> bool" where
  "well_behaved r \<longleftrightarrow> (\<forall>e. r = Inl e \<longrightarrow> (\<exists>x. e = Exn x))"

lemma well_behaved_simps [simp]: "well_behaved (Inr x)" "well_behaved (Inl (Exn e))" "\<not> well_behaved (Inl No_Return)"
  "\<not> well_behaved (Inl UB)" "\<not> well_behaved (Inl Deadlock)"
  by (auto simp: well_behaved_def)

definition user_terminates :: "('a, 'p, 'u) runtime \<Rightarrow> bool" where
  "user_terminates rt \<longleftrightarrow>
     (\<forall>n u. well_behaved (fst (source_process rt n u))) \<and>
     (\<forall>n v u. well_behaved (fst (module_process rt n v u))) \<and>
     (\<forall>n vs u. well_behaved (fst (aggregator_process rt n vs u))) \<and>
     (\<forall>n v u. well_behaved (fst (sink_process rt n v u))) \<and>
     (\<forall>n a i u. well_behaved (fst (flow_process_any rt n a i u)))"

end
