(* ===== verification/Blocks.thy ===== *)
theory Blocks
  imports Flow_State "HOL-Library.AList"
begin

text \<open>
  The typed blocks of \<open>core/src/flow/blocks\<close>: what \<open>process_any\<close> does in \<open>Source\<close>, \<open>Module\<close>,
  \<open>Aggregator\<close> and \<open>Sink\<close>, and \<open>Aggregator::register_producer\<close>.  The lemmas show the bit mask of
  the aggregator against a specification over a partial map of the inputs collected so far.
\<close>

section \<open>Source, Module, Sink\<close>

text \<open>\<open>return result.value()\<close> or \<open>return std::nullopt\<close>, converted to \<open>nstd::any\<close>\<close>

fun optional_to_any :: "('a, 'p, 'z) any_ops_scheme \<Rightarrow> 'p val option \<Rightarrow> 'a" where
  "optional_to_any ops (Some v) = any_make ops v"
| "optional_to_any ops None = any_make ops Nullopt"

definition source_process_any ::
  "('a, 'p, 'u) runtime \<Rightarrow> nid \<Rightarrow> ('p, 'u) flow_state \<Rightarrow> 'a result \<times> ('p, 'u) flow_state" where
  "source_process_any rt n st =
     and_then (in_world (source_process rt n) st) (\<lambda>r st. (Inr (optional_to_any rt r), st))"

definition module_process_any ::
  "('a, 'p, 'u) runtime \<Rightarrow> ctype \<Rightarrow> nid \<Rightarrow> 'a \<Rightarrow> ('p, 'u) flow_state \<Rightarrow> 'a result \<times> ('p, 'u) flow_state" where
  "module_process_any rt in_t n a st =
     (case any_cast_with_info rt in_t a of
        Inl e \<Rightarrow> (Inl e, st)
      | Inr v \<Rightarrow> and_then (in_world (module_process rt n v) st) (\<lambda>r st. (Inr (optional_to_any rt r), st)))"

definition sink_process_any ::
  "('a, 'p, 'u) runtime \<Rightarrow> ctype \<Rightarrow> nid \<Rightarrow> 'a \<Rightarrow> ('p, 'u) flow_state \<Rightarrow> 'a result \<times> ('p, 'u) flow_state" where
  "sink_process_any rt in_t n a st =
     (case any_cast_with_info rt in_t a of
        Inl e \<Rightarrow> (Inl e, st)
      | Inr v \<Rightarrow> and_then (in_world (sink_process rt n v) st) (\<lambda>_ st. (Inr (any_empty rt), st)))"

section \<open>Aggregator\<close>

text \<open>\<open>size_t idx = 1 << producer_id\<close>: the literal is an \<open>int\<close>, so the shift is one of 32 bits, undefined
  from 32 on, and its result is sign extended.\<close>

definition producer_bit :: "size_t \<Rightarrow> size_t result" where
  "producer_bit producer_id =
     (if unat producer_id < 32 then Inr (word_of_int (to_int32 (2 ^ unat producer_id))) else Inl UB)"

text \<open>\<open>static_cast<int>(std::pow(2, producer_count)) - 1\<close>, then converted to \<open>size_t\<close> by the comparison;
  converting a double above \<open>INT_MAX\<close> to \<open>int\<close> is undefined.\<close>

definition full_mask :: "size_t \<Rightarrow> size_t result" where
  "full_mask c = (if 2 ^ unat c \<le> INT_MAX then Inr (word_of_int (2 ^ unat c - 1)) else Inl UB)"

definition aggregator_collect ::
  "('a, 'p, 'u) runtime \<Rightarrow> kind \<Rightarrow> (size_t \<times> 'p val) list \<Rightarrow> 'p val list" where
  "aggregator_collect rt k entries = map (\<lambda>(_, v). implicit_conv rt (input_type k) v) (um_order rt entries)"

text \<open>\<open>latest[producer_id] = v; state |= idx\<close>, and \<open>state = 0; latest.clear()\<close>\<close>

definition agg_store :: "size_t \<Rightarrow> size_t \<Rightarrow> 'p val \<Rightarrow> 'p node \<Rightarrow> 'p node" where
  "agg_store producer_id idx v nd =
     nd\<lparr>latest := AList.update producer_id v (latest nd), agg_state := agg_state nd OR idx\<rparr>"

definition agg_reset :: "'p node \<Rightarrow> 'p node" where
  "agg_reset nd = nd\<lparr>agg_state := 0, latest := []\<rparr>"

definition aggregator_process_any ::
  "('a, 'p, 'u) runtime \<Rightarrow> nid \<Rightarrow> 'p node \<Rightarrow> 'a \<Rightarrow> size_t \<Rightarrow> ('p, 'u) flow_state \<Rightarrow>
   'a result \<times> ('p, 'u) flow_state" where
  "aggregator_process_any rt n nd a producer_id st =
     (case producer_bit producer_id of
        Inl e \<Rightarrow> (Inl e, st)
      | Inr idx \<Rightarrow>
          if agg_state nd AND idx \<noteq> 0 then (Inr (any_empty rt), st)
          else
            case any_cast_with_info rt (input_type (n_kind nd)) a of
              Inl e \<Rightarrow> (Inl e, st)
            | Inr v \<Rightarrow>
                let nd = agg_store producer_id idx (implicit_conv rt (output_type (n_kind nd)) v) nd in
                case full_mask (producer_count nd) of
                  Inl e \<Rightarrow> (Inl e, set_node n nd st)
                | Inr full \<Rightarrow>
                    if agg_state nd = full then
                      let collected = aggregator_collect rt (n_kind nd) (latest nd);
                          nd = agg_reset nd in
                      and_then (in_world (aggregator_process rt n collected) (set_node n nd st))
                        (\<lambda>r st. (Inr (case r of Some out \<Rightarrow> any_make rt out | None \<Rightarrow> any_empty rt), st))
                    else (Inr (any_empty rt), set_node n nd st))"

text \<open>\<open>register_producer\<close>: the id handed out and the object afterwards; every other block returns 0.\<close>

definition aggregator_register_producer :: "'p node \<Rightarrow> size_t \<times> 'p node" where [simp]:
  "aggregator_register_producer nd = (producer_count nd, nd\<lparr>producer_count := producer_count nd + 1\<rparr>)"

definition register_producer :: "'p node \<Rightarrow> size_t \<times> 'p node" where
  "register_producer nd =
     (case n_kind nd of
        KAggregator i out \<Rightarrow> aggregator_register_producer nd
      | _ \<Rightarrow> (0, nd))"

section \<open>\<open>process_any\<close> of any object\<close>

definition process_any ::
  "('a, 'p, 'u) runtime \<Rightarrow> nid \<Rightarrow> 'p node \<Rightarrow> 'a \<Rightarrow> size_t \<Rightarrow> ('p, 'u) flow_state \<Rightarrow>
   'a result \<times> ('p, 'u) flow_state" where
  "process_any rt n nd a producer_id st =
     (case n_kind nd of
        KSource out \<Rightarrow> source_process_any rt n st
      | KModule i out \<Rightarrow> module_process_any rt i n a st
      | KAggregator i out \<Rightarrow> aggregator_process_any rt n nd a producer_id st
      | KSink i \<Rightarrow> sink_process_any rt i n a st
      | KFlow c \<Rightarrow> in_world (flow_process_any rt n a producer_id) st)"

section \<open>The aggregator's bit mask\<close>

lemma producer_bit_exp:
  assumes "unat i < 31"
  shows "producer_bit i = Inr (2 ^ unat i)"
proof -
  have "(2::int) ^ unat i \<le> 2 ^ 30" using assms by (intro power_increasing) auto
  then have "(2::int) ^ unat i < 2 ^ 31" by simp
  moreover have "- (2 ^ 31) \<le> (2::int) ^ unat i" by (rule order_trans [of _ 0]) simp_all
  ultimately have "to_int32 (2 ^ unat i) = 2 ^ unat i"
    unfolding to_int32_def by (intro signed_take_bit_int_eq_self)
  then show ?thesis using assms by (simp add: producer_bit_def)
qed

lemma full_mask_mask:
  assumes "unat c < 31"
  shows "full_mask c = Inr (mask (unat c))"
proof -
  have "(2::int) ^ unat c \<le> 2 ^ 30" using assms by (intro power_increasing) auto
  then show ?thesis by (simp add: full_mask_def INT_MAX_def mask_eq_exp_minus_1)
qed

lemma full_mask_overflow:
  assumes "31 \<le> unat c"
  shows "full_mask c = Inl UB"
proof -
  have "(2::int) ^ 31 \<le> 2 ^ unat c" using assms by (intro power_increasing) auto
  then show ?thesis by (simp add: full_mask_def INT_MAX_def)
qed

text \<open>The aggregator's members agree with each other: bit \<open>k\<close> is set exactly when an input of producer
  \<open>k\<close> is waiting, every waiting producer is registered, and not all of them are waiting.\<close>

definition agg_inv :: "'p node \<Rightarrow> bool" where
  "agg_inv nd \<longleftrightarrow>
     unat (producer_count nd) < 31 \<and> distinct (map fst (latest nd)) \<and>
     (\<forall>k < 64. bit (agg_state nd) k \<longleftrightarrow> of_nat k \<in> fst ` set (latest nd)) \<and>
     (\<forall>i \<in> fst ` set (latest nd). i < producer_count nd) \<and>
     (0 < producer_count nd \<longrightarrow> fst ` set (latest nd) \<noteq> {i. i < producer_count nd})"

lemma agg_inv_new_node: "agg_inv (new_node k p)"
proof -
  have "\<exists>i. i < producer_count nd" if "0 < producer_count nd" for nd :: "'a node"
    using that by blast
  then show ?thesis by (auto simp: agg_inv_def new_node_def)
qed

lemma agg_inv_register:
  assumes "agg_inv nd" "unat (producer_count nd) < 30" "n_kind nd = KAggregator i out"
  shows "agg_inv (snd (register_producer nd))"
proof -
  let ?c = "producer_count nd"
  have c: "unat (?c + 1) = unat ?c + 1" using assms(2) unat_add_small [of ?c 1] by simp
  then have lt: "\<And>j. j < ?c \<Longrightarrow> j < ?c + 1" by (simp add: word_less_nat_alt)
  have "?c < ?c + 1" using c by (simp add: word_less_nat_alt)
  moreover have "?c \<notin> fst ` set (latest nd)" using assms(1) by (auto simp: agg_inv_def)
  ultimately have "fst ` set (latest nd) \<noteq> {i. i < ?c + 1}" by blast
  then show ?thesis using assms c lt by (auto simp: agg_inv_def register_producer_def)
qed

lemma mask_eq_iff_producers:
  fixes s c :: size_t
  assumes bits: "\<forall>k < 64. bit s k \<longleftrightarrow> of_nat k \<in> A" and sub: "\<forall>i \<in> A. i < c" and c: "unat c < 31"
  shows "s = mask (unat c) \<longleftrightarrow> A = {i. i < c}"
proof
  assume s: "s = mask (unat c)"
  have "i \<in> A" if "i < c" for i
  proof -
    have i: "unat i < unat c" using that by (simp add: word_less_nat_alt)
    then have "unat i < 64" "bit s (unat i)" using c s by (simp_all add: bit_mask_iff)
    then have "of_nat (unat i) \<in> A" using bits by blast
    then show ?thesis by simp
  qed
  then show "A = {i. i < c}" using sub by blast
next
  assume A: "A = {i. i < c}"
  show "s = mask (unat c)"
  proof (rule bit_word_eqI)
    fix k assume "k < LENGTH(64)"
    then have k: "k < 64" by simp
    then have "bit s k \<longleftrightarrow> (of_nat k :: size_t) < c" using bits A by simp
    also have "\<dots> \<longleftrightarrow> k < unat c" using k by (simp add: word_less_nat_alt unat_of_nat_small)
    finally show "bit s k \<longleftrightarrow> bit (mask (unat c) :: size_t) k" using k by (simp add: bit_mask_iff)
  qed
qed

lemma and_exp_eq_0_iff:
  fixes s :: size_t
  assumes "k < 64"
  shows "s AND 2 ^ k \<noteq> 0 \<longleftrightarrow> bit s k"
  using assms by (simp add: and_exp_eq_0_iff_not_bit)

lemma agg_store_simps [simp]:
  "n_kind (agg_store i b v nd) = n_kind nd" "producer_count (agg_store i b v nd) = producer_count nd"
  "map_of (latest (agg_store i b v nd)) = (map_of (latest nd))(i \<mapsto> v)"
  "n_kind (agg_reset nd) = n_kind nd" "producer_count (agg_reset nd) = producer_count nd"
  "latest (agg_reset nd) = []"
  by (simp_all add: agg_store_def agg_reset_def update_conv')

lemma agg_store_keys: "fst ` set (latest (agg_store i b v nd)) = insert i (fst ` set (latest nd))"
  by (simp flip: dom_map_of_conv_image_fst)

lemma agg_store_bits:
  assumes "\<forall>k < 64. bit (agg_state nd) k \<longleftrightarrow> of_nat k \<in> fst ` set (latest nd)" "unat i < 31" "k < 64"
  shows "bit (agg_state (agg_store i (2 ^ unat i) v nd)) k \<longleftrightarrow> of_nat k \<in> fst ` set (latest (agg_store i (2 ^ unat i) v nd))"
proof -
  have "(of_nat k :: size_t) = i \<longleftrightarrow> k = unat i"
    using assms(3) unat_of_nat_small [of k] by (simp add: word_unat_eq_iff)
  then show ?thesis using assms unfolding agg_store_keys
    by (auto simp: agg_store_def bit_or_iff bit_exp_iff)
qed

lemma agg_store_full_iff:
  assumes "agg_inv nd" "i < producer_count nd"
  shows "agg_state (agg_store i (2 ^ unat i) v nd) = mask (unat (producer_count nd)) \<longleftrightarrow>
         fst ` set (latest (agg_store i (2 ^ unat i) v nd)) = {j. j < producer_count nd}"
proof (rule mask_eq_iff_producers)
  have "unat i < 31" using assms by (auto simp: agg_inv_def word_less_nat_alt)
  then show "\<forall>k<64. bit (agg_state (agg_store i (2 ^ unat i) v nd)) k \<longleftrightarrow> of_nat k \<in> fst ` set (latest (agg_store i (2 ^ unat i) v nd))"
    using assms(1) by (intro allI impI agg_store_bits) (simp_all add: agg_inv_def)
  show "\<forall>j \<in> fst ` set (latest (agg_store i (2 ^ unat i) v nd)). j < producer_count nd"
    using assms unfolding agg_inv_def agg_store_keys by auto
  show "unat (producer_count nd) < 31" using assms(1) by (simp add: agg_inv_def)
qed

lemma agg_inv_store:
  assumes "agg_inv nd" "i < producer_count nd"
    "fst ` set (latest (agg_store i (2 ^ unat i) v nd)) \<noteq> {j. j < producer_count nd}"
  shows "agg_inv (agg_store i (2 ^ unat i) v nd)"
proof -
  have "unat i < 31" using assms(1,2) by (auto simp: agg_inv_def word_less_nat_alt)
  then have "\<forall>k<64. bit (agg_state (agg_store i (2 ^ unat i) v nd)) k \<longleftrightarrow> of_nat k \<in> fst ` set (latest (agg_store i (2 ^ unat i) v nd))"
    using assms(1) by (intro allI impI agg_store_bits) (simp_all add: agg_inv_def)
  moreover have "distinct (map fst (latest (agg_store i (2 ^ unat i) v nd)))"
    using assms(1) by (simp add: agg_store_def agg_inv_def distinct_update)
  moreover have "\<forall>j \<in> fst ` set (latest (agg_store i (2 ^ unat i) v nd)). j < producer_count nd"
    using assms(1,2) unfolding agg_inv_def agg_store_keys by auto
  ultimately show ?thesis using assms(1,3) by (simp add: agg_inv_def)
qed

lemma agg_inv_reset: "agg_inv nd \<Longrightarrow> agg_inv (agg_reset nd)"
  by (auto simp: agg_inv_def agg_reset_def)

lemma agg_waiting_iff:
  assumes "agg_inv nd" "i < producer_count nd"
  shows "agg_state nd AND 2 ^ unat i \<noteq> 0 \<longleftrightarrow> map_of (latest nd) i \<noteq> None"
proof -
  have "unat i < 64" using assms by (auto simp: agg_inv_def word_less_nat_alt)
  then have "bit (agg_state nd) (unat i) \<longleftrightarrow> of_nat (unat i) \<in> fst ` set (latest nd)"
    using assms(1) unfolding agg_inv_def by blast
  then show ?thesis
    using \<open>unat i < 64\<close> by (simp add: and_exp_eq_0_iff map_of_eq_None_iff)
qed

section \<open>The aggregator's contract\<close>

text \<open>What an aggregator of \<open>n\<close> producers promises: a second input of a producer in the same round is
  dropped; otherwise the input is kept, and the round is handed over exactly when every producer has
  an input waiting.\<close>

definition agg_step :: "size_t \<Rightarrow> (size_t \<Rightarrow> 'v option) \<Rightarrow> size_t \<Rightarrow> 'v \<Rightarrow>
    (size_t \<Rightarrow> 'v option) \<times> (size_t \<Rightarrow> 'v option) option" where
  "agg_step n pend i v =
     (if pend i \<noteq> None then (pend, None)
      else let p = pend(i \<mapsto> v) in
           if \<forall>k \<in> set [0..<unat n]. p (of_nat k) \<noteq> None then (Map.empty, Some p) else (p, None))"

lemma all_producers_iff:
  assumes "A \<subseteq> {j. j < n}" "dom p = A"
  shows "(\<forall>k \<in> set [0..<unat n]. p (of_nat k :: size_t) \<noteq> None) \<longleftrightarrow> A = {j. j < n}"
proof -
  have "(\<forall>k \<in> set [0..<unat n]. p (of_nat k :: size_t) \<noteq> None) \<longleftrightarrow> (\<forall>j. j < n \<longrightarrow> p j \<noteq> None)"
  proof (intro iffI ballI allI impI)
    fix j assume *: "\<forall>k \<in> set [0..<unat n]. p (of_nat k :: size_t) \<noteq> None" "j < n"
    then have "unat j \<in> set [0..<unat n]" by (simp add: word_less_nat_alt)
    with *(1) have "p (of_nat (unat j)) \<noteq> None" by blast
    then show "p j \<noteq> None" by simp
  next
    fix k assume *: "\<forall>j. j < n \<longrightarrow> p j \<noteq> None" "k \<in> set [0..<unat n]"
    then have "k < unat n" by simp
    then have "(of_nat k :: size_t) < n"
      using less_trans [OF _ unat_below_2p, of k n] by (simp add: word_less_nat_alt unat_of_nat_small)
    with * show "p (of_nat k) \<noteq> None" by blast
  qed
  then show ?thesis using assms by (auto simp: dom_def)
qed

text \<open>The code's steps, seen over the two helper operations.\<close>

lemma aggregator_process_any_unfold:
  assumes "any_laws rt" "agg_inv nd" "i < producer_count nd" "typeof v = input_type (n_kind nd)"
  defines "w \<equiv> implicit_conv rt (output_type (n_kind nd)) v"
  shows "aggregator_process_any rt n nd (any_make rt v) i st =
    (if map_of (latest nd) i \<noteq> None then (Inr (any_empty rt), st)
     else if fst ` set (latest (agg_store i (2 ^ unat i) w nd)) = {j. j < producer_count nd}
     then and_then (in_world (aggregator_process rt n
              (aggregator_collect rt (n_kind nd) (latest (agg_store i (2 ^ unat i) w nd)))) (set_node n (agg_reset (agg_store i (2 ^ unat i) w nd)) st))
            (\<lambda>r st. (Inr (case r of Some out \<Rightarrow> any_make rt out | None \<Rightarrow> any_empty rt), st))
     else (Inr (any_empty rt), set_node n (agg_store i (2 ^ unat i) w nd) st))"
proof -
  have i: "unat i < 31" and c: "unat (producer_count nd) < 31"
    using assms(2,3) by (auto simp: agg_inv_def word_less_nat_alt)
  note [simp] = producer_bit_exp [OF i] full_mask_mask [OF c]
    agg_waiting_iff [OF assms(2,3)] agg_store_full_iff [OF assms(2,3), symmetric]
  show ?thesis
    using assms(1,4) agg_waiting_iff [OF assms(2,3)]
    by (simp add: aggregator_process_any_def any_cast_with_info_make Let_def w_def)
qed

lemma agg_step_map_of:
  assumes "agg_inv nd" "i < producer_count nd"
  shows "agg_step (producer_count nd) (map_of (latest nd)) i w =
    (if map_of (latest nd) i \<noteq> None then (map_of (latest nd), None)
     else if fst ` set (latest (agg_store i (2 ^ unat i) w nd)) = {j. j < producer_count nd}
     then (Map.empty, Some (map_of (latest (agg_store i (2 ^ unat i) w nd))))
     else (map_of (latest (agg_store i (2 ^ unat i) w nd)), None))"
proof -
  let ?A = "fst ` set (latest (agg_store i (2 ^ unat i) w nd))"
  have "?A \<subseteq> {j. j < producer_count nd}"
    using assms unfolding agg_inv_def agg_store_keys by auto
  moreover have "dom ((map_of (latest nd))(i \<mapsto> w)) = ?A"
    by (metis agg_store_simps(3) dom_map_of_conv_image_fst)
  ultimately have "(\<forall>k \<in> set [0..<unat (producer_count nd)]. ((map_of (latest nd))(i \<mapsto> w)) (of_nat k) \<noteq> None) \<longleftrightarrow>
      ?A = {j. j < producer_count nd}"
    by (rule all_producers_iff)
  then show ?thesis unfolding agg_step_def Let_def by (simp only: agg_store_simps(3) if_True if_False)
qed

section \<open>Properties\<close>

text \<open>The vector handed to \<open>process\<close>: each stored input once, converted, in some order.\<close>

lemma collected_inputs:
  assumes "um_laws rt" "distinct (map fst es)"
  obtains es' where "map_of es' = map_of es" "distinct (map fst es')"
    "aggregator_collect rt k es = map (\<lambda>(j, v). implicit_conv rt (input_type k) v) es'"
proof -
  let ?es = "um_order rt es"
  have m: "mset ?es = mset es" using assms(1) by (simp add: um_laws_def)
  then have "mset (map fst ?es) = mset (map fst es)" by simp
  then have d: "distinct (map fst ?es)" using assms(2) mset_eq_imp_distinct_iff by blast
  have "set ?es = set es" using m by (rule mset_eq_setD)
  then have "map_of ?es = map_of es" using map_of_inject_set [OF d assms(2)] by simp
  then show thesis using d by (rule that) (simp add: aggregator_collect_def)
qed

text \<open>C1. The aggregator's bit mask implements its contract: an input of a producer whose input is
  already waiting changes nothing; otherwise it is stored, and the user's \<open>process\<close> is called, after the
  members were reset, if and only if every registered producer has delivered; it is given a vector of exactly
  the stored inputs, one of each producer, in the order the map is iterated in.  Otherwise nothing is
  produced.  The invariant is kept in every case.\<close>

theorem aggregator_refines_step:
  assumes "any_laws rt" "agg_inv nd" "i < producer_count nd" "typeof v = input_type (n_kind nd)"
    "agg_step (producer_count nd) (map_of (latest nd)) i (implicit_conv rt (output_type (n_kind nd)) v) = (pend, fire)"
    "um_laws rt"
  shows "\<exists>nd'. agg_inv nd' \<and> map_of (latest nd') = pend \<and> producer_count nd' = producer_count nd \<and>
    (case fire of
       None \<Rightarrow> aggregator_process_any rt n nd (any_make rt v) i st =
          (Inr (any_empty rt), if map_of (latest nd) i \<noteq> None then st else set_node n nd' st)
     | Some p \<Rightarrow> \<exists>es. map_of es = p \<and> distinct (map fst es) \<and> latest nd' = [] \<and>
          aggregator_process_any rt n nd (any_make rt v) i st =
          and_then (in_world (aggregator_process rt n (map (\<lambda>(j, w). implicit_conv rt (input_type (n_kind nd)) w) es)) (set_node n nd' st))
            (\<lambda>r st. (Inr (case r of Some out \<Rightarrow> any_make rt out | None \<Rightarrow> any_empty rt), st)))"
proof -
  let ?w = "implicit_conv rt (output_type (n_kind nd)) v"
  let ?s = "agg_store i (2 ^ unat i) ?w nd"
  let ?full = "fst ` set (latest ?s) = {j. j < producer_count nd}"
  have dist: "distinct (map fst (latest ?s))"
    using assms(2) by (simp add: agg_store_def agg_inv_def distinct_update)
  note eqs = aggregator_process_any_unfold [OF assms(1-4)] agg_step_map_of [OF assms(2,3)]
  show ?thesis
  proof (cases "map_of (latest nd) i = None")
    case False
    then show ?thesis using assms(2,5) eqs by (intro exI [of _ nd]) auto
  next
    case True
    show ?thesis
    proof (cases ?full)
      case False
      then show ?thesis using True assms(5) eqs agg_inv_store [OF assms(2,3) False]
        by (intro exI [of _ ?s]) auto
    next
      case full: True
      obtain es where es: "map_of es = map_of (latest ?s)" "distinct (map fst es)"
        "aggregator_collect rt (n_kind nd) (latest ?s) = map (\<lambda>(j, v). implicit_conv rt (input_type (n_kind nd)) v) es"
        using collected_inputs [OF assms(6) dist] by blast
      have "agg_inv (agg_reset ?s)"
        using assms(2) by (auto simp: agg_inv_def agg_reset_def agg_store_def)
      then show ?thesis using True full assms(5) eqs es
        by (intro exI [of _ "agg_reset ?s"]) (auto intro!: exI [of _ es])
    qed
  qed
qed

text \<open>A small program to instantiate hypotheses with: integers, a source of the constant 5, modules that
  add 1, aggregators that sum, sinks that append what they receive to a log.\<close>

fun int_of_val :: "int val \<Rightarrow> int" where
  "int_of_val (Scalar c p) = p"
| "int_of_val v = 0"

abbreviation tint :: ctype where "tint \<equiv> TClass ''int''"
abbreviation vint :: "int \<Rightarrow> int val" where "vint i \<equiv> Scalar ''int'' i"

definition sample_rt :: "(int val option, int, (nid \<times> int val) list) runtime" where
  "sample_rt = \<lparr>any_empty = None, any_make = Some, any_has_value = (\<lambda>a. a \<noteq> None),
     any_type = (\<lambda>a. case a of None \<Rightarrow> TVoid | Some v \<Rightarrow> typeof v), any_cast = opt_any_cast,
     source_process = (\<lambda>n u. (Inr (Some (vint 5)), u)),
     module_process = (\<lambda>n v u. (Inr (Some (vint (int_of_val v + 1))), u)),
     aggregator_process = (\<lambda>n vs u. (Inr (Some (vint (sum_list (map int_of_val vs)))), u)),
     sink_process = (\<lambda>n v u. (Inr (), u @ [(n, v)])),
     flow_process_any = (\<lambda>n a i u. (Inr a, u)),
     um_order = (\<lambda>es. es), implicit_conv = (\<lambda>t v. v)\<rparr>"

lemma any_laws_sample_rt: "any_laws sample_rt"
  by (simp add: any_laws_def sample_rt_def opt_any_cast_def)

lemma um_laws_sample_rt: "um_laws sample_rt"
  by (simp add: um_laws_def sample_rt_def)

definition sample_agg :: "int node" where
  "sample_agg = agg_store 0 1 (vint 3)
     (snd (register_producer (snd (register_producer (new_node (KAggregator tint tint) Fanout)))))"

lemma sample_agg_eq:
  "sample_agg = \<lparr>n_kind = KAggregator tint tint, n_policy = Fanout, next_nodes = [], agg_state = 1,
     producer_count = 2, latest = [(0, vint 3)]\<rparr>"
  by (simp add: sample_agg_def agg_store_def register_producer_def new_node_def)

lemma agg_inv_sample_agg: "agg_inv sample_agg"
proof -
  let ?nd = "snd (register_producer (snd (register_producer (new_node (KAggregator tint tint) Fanout)))) :: int node"
  have reg: "n_kind ?nd = KAggregator tint tint" "producer_count ?nd = 2" "latest ?nd = []"
    by (simp_all add: register_producer_def new_node_def)
  have inv: "agg_inv ?nd"
    by (rule agg_inv_register [of _ tint tint], rule agg_inv_register [of _ tint tint])
      (simp_all add: agg_inv_new_node, simp_all add: register_producer_def new_node_def)
  have keys: "fst ` set (latest (agg_store 0 (2 ^ unat (0 :: size_t)) (vint 3) ?nd)) = {0}"
    unfolding agg_store_keys reg by simp
  have "(1 :: size_t) \<in> {j. j < producer_count ?nd}" unfolding reg by simp
  then have "fst ` set (latest (agg_store 0 (2 ^ unat (0 :: size_t)) (vint 3) ?nd)) \<noteq> {j. j < producer_count ?nd}"
    unfolding keys by (metis singletonD zero_neq_one)
  then have "agg_inv (agg_store 0 (2 ^ unat (0 :: size_t)) (vint 3) ?nd)"
    by (intro agg_inv_store [OF inv]) (simp_all add: reg)
  then show ?thesis by (simp add: sample_agg_def)
qed

theorem aggregator_refines_step_witness:
  "\<exists>nd'. agg_inv nd' \<and> map_of (latest nd') = Map.empty \<and> producer_count nd' = 2 \<and>
    (\<exists>es. map_of es = [0 :: size_t \<mapsto> vint 3, 1 \<mapsto> vint 4] \<and> distinct (map fst es) \<and> latest nd' = [] \<and>
      aggregator_process_any sample_rt 7 sample_agg (any_make sample_rt (vint 4)) 1 \<lparr>objs = Map.empty, world = []\<rparr> =
      and_then (in_world (aggregator_process sample_rt 7 (map snd es))
          (set_node 7 nd' \<lparr>objs = Map.empty, world = []\<rparr>))
        (\<lambda>r st. (Inr (case r of Some out \<Rightarrow> any_make sample_rt out | None \<Rightarrow> any_empty sample_rt), st)))"
proof -
  have conv: "implicit_conv sample_rt t v = v" for t v by (simp add: sample_rt_def)
  have step: "agg_step (producer_count sample_agg) (map_of (latest sample_agg)) 1
      (implicit_conv sample_rt (output_type (n_kind sample_agg)) (vint 4)) =
      (Map.empty, Some [0 \<mapsto> vint 3, 1 \<mapsto> vint 4])"
    by (simp add: sample_agg_eq agg_step_def conv upt_conv_Cons)
  show ?thesis
    using aggregator_refines_step [OF any_laws_sample_rt agg_inv_sample_agg _ _ step um_laws_sample_rt,
        of 7 "\<lparr>objs = Map.empty, world = []\<rparr>"]
    by (simp add: sample_agg_eq conv split_def)
qed

text \<open>An aggregator with 31 or more producers has undefined behaviour: the first input of a round
  that reaches it makes the comparison with all registered producers convert a double that does not fit
  an \<open>int\<close>, whichever producer it comes from.\<close>

theorem aggregator_many_producers:
  assumes "any_laws rt" "31 \<le> unat (producer_count nd)" "agg_state nd = 0"
    "typeof v = input_type (n_kind nd)"
  shows "fst (aggregator_process_any rt n nd (any_make rt v) i st) = Inl UB"
proof (cases "unat i < 32")
  case True
  then show ?thesis
    using assms full_mask_overflow [OF assms(2)]
    by (simp add: aggregator_process_any_def producer_bit_def any_cast_with_info_make Let_def)
next
  case False
  then show ?thesis by (simp add: aggregator_process_any_def producer_bit_def)
qed

theorem aggregator_many_producers_witness:
  "fst (aggregator_process_any sample_rt 7 (new_node (KAggregator tint tint) Fanout\<lparr>producer_count := 31\<rparr>)
      (any_make sample_rt (vint 4)) 30 \<lparr>objs = Map.empty, world = []\<rparr>) = Inl UB"
  by (rule aggregator_many_producers [OF any_laws_sample_rt]) (simp_all add: new_node_def)

end
