(* ===== verification/Flow.thy ===== *)
theory Flow
  imports Blocks
begin

text \<open>
  The engine of \<open>core/src/flow/Flow.hpp\<close> and \<open>Producer.hpp\<close>: connecting objects, distributing an
  output over the consumers by the production policy, and \<open>execute\<close>, which runs an object and,
  recursively, everything downstream of it.  The depth of the recursion is bounded by a fuel; the
  lemmas show that on a graph without cycles the height of an object is fuel enough, and that
  execution never changes the wiring and keeps every aggregator consistent.
\<close>

section \<open>Wiring\<close>

text \<open>\<open>Flow::add_consumer\<close>: the consumer hands out an id, which is stored with the edge.\<close>

definition add_consumer :: "nid \<Rightarrow> nid \<Rightarrow> ('p, 'u) flow_state \<Rightarrow> ('p, 'u) flow_state result" where
  "add_consumer this next st =
     (case objs st next of
        None \<Rightarrow> Inl UB
      | Some nx \<Rightarrow>
          let (id, nx) = register_producer nx; st = set_node next nx st in
          case objs st this of
            None \<Rightarrow> Inl UB
          | Some nd \<Rightarrow> Inr (set_node this (nd\<lparr>next_nodes := next_nodes nd @ [(next, id)]\<rparr>) st))"

definition connect :: "nid \<Rightarrow> nid \<Rightarrow> ('p, 'u) flow_state \<Rightarrow> ('p, 'u) flow_state result" where
  "connect from to st = add_consumer from to st"

section \<open>Distributing an output\<close>

text \<open>\<open>Producer::round_robin_produce\<close>: the class for a vector output hands element \<open>i\<close> to consumer
  \<open>i\<close>; every other class throws.\<close>

fun vector_elems :: "'p val \<Rightarrow> 'p val list result" where
  "vector_elems (Vector t vs) = Inr vs"
| "vector_elems v = Inl UB"

definition round_robin_targets ::
  "('a, 'p, 'z) any_ops_scheme \<Rightarrow> 'p node \<Rightarrow> 'a \<Rightarrow> (nid \<times> size_t \<times> 'a) list result" where
  "round_robin_targets rt nd output =
     (case output_type (n_kind nd) of
        TVector t \<Rightarrow>
          rbind (rbind (any_cast_with_info rt (TVector t) output) vector_elems) (\<lambda>outputs.
            let max_size = min (length outputs) (length (next_nodes nd)) in
            Inr (map (\<lambda>i. (fst (next_nodes nd ! i), snd (next_nodes nd ! i), any_make rt (outputs ! i)))
                  [0..<max_size]))
      | _ \<Rightarrow> Inl (Exn (Runtime_Error ''Round Robin not implemented for this flow object.'')))"

text \<open>The \<open>Fanout\<close> branch of \<open>Flow::produce\<close>.  With no consumer the loop bound
  \<open>next_nodes.size() - 1\<close> wraps around and the first iteration reads out of the vector's range.\<close>

definition fanout_targets :: "'p node \<Rightarrow> 'a \<Rightarrow> (nid \<times> size_t \<times> 'a) list result" where
  "fanout_targets nd output =
     (if next_nodes nd = [] then Inl UB
      else Inr (map (\<lambda>(next, id). (next, id, output)) (butlast (next_nodes nd)) @
                [(fst (last (next_nodes nd)), snd (last (next_nodes nd)), output)]))"

definition produce_targets ::
  "('a, 'p, 'z) any_ops_scheme \<Rightarrow> 'p node \<Rightarrow> 'a \<Rightarrow> (nid \<times> size_t \<times> 'a) list result" where
  "produce_targets rt nd output =
     (case n_policy nd of
        RoundRobin \<Rightarrow> round_robin_targets rt nd output
      | Fanout \<Rightarrow> fanout_targets nd output)"

section \<open>Execution\<close>

text \<open>The calls \<open>next->execute(output, id)\<close> in order; an exception leaves the loop.\<close>

fun run_consumers ::
  "(nid \<Rightarrow> 'a \<Rightarrow> size_t \<Rightarrow> 's \<Rightarrow> unit result \<times> 's) \<Rightarrow> (nid \<times> size_t \<times> 'a) list \<Rightarrow> 's \<Rightarrow> unit result \<times> 's" where
  "run_consumers exec [] st = (Inr (), st)"
| "run_consumers exec ((next, pid, a) # ts) st =
     and_then (exec next a pid st) (\<lambda>_ st. run_consumers exec ts st)"

text \<open>\<open>Sink::execute\<close>\<close>

definition sink_execute ::
  "('a, 'p, 'u) runtime \<Rightarrow> ctype \<Rightarrow> nid \<Rightarrow> 'a \<Rightarrow> ('p, 'u) flow_state \<Rightarrow> unit result \<times> ('p, 'u) flow_state" where
  "sink_execute rt in_t n a st =
     (if \<not> any_has_value rt a \<or> any_type rt a = TNullopt then (Inr (), st)
      else and_then (sink_process_any rt in_t n a st) (\<lambda>_ st. (Inr (), st)))"

text \<open>\<open>Flow::execute\<close> and \<open>Flow::produce\<close>, with the override of \<open>Sink\<close>.\<close>

primrec execute ::
  "nat \<Rightarrow> ('a, 'p, 'u) runtime \<Rightarrow> nid \<Rightarrow> 'a \<Rightarrow> size_t \<Rightarrow> ('p, 'u) flow_state \<Rightarrow>
   unit result \<times> ('p, 'u) flow_state" where
  "execute 0 rt n a producer_id st = (Inl No_Return, st)"
| "execute (Suc fuel) rt n a producer_id st =
     (case objs st n of
        None \<Rightarrow> (Inl UB, st)
      | Some nd \<Rightarrow>
          case n_kind nd of
            KSink in_t \<Rightarrow> sink_execute rt in_t n a st
          | _ \<Rightarrow>
              and_then (process_any rt n nd a producer_id st) (\<lambda>output st.
                if any_has_value rt output \<and> any_type rt a \<noteq> TNullopt
                then case produce_targets rt nd output of
                       Inl e \<Rightarrow> (Inl e, st)
                     | Inr ts \<Rightarrow> run_consumers (execute fuel rt) ts st
                else (Inr (), st)))"

lemma fanout_targets_map:
  "next_nodes nd \<noteq> [] \<Longrightarrow> fanout_targets nd output = Inr (map (\<lambda>(next, id). (next, id, output)) (next_nodes nd))"
proof -
  assume ne: "next_nodes nd \<noteq> []"
  let ?f = "\<lambda>(next, id). (next, id, output)"
  have "(fst (last (next_nodes nd)), snd (last (next_nodes nd)), output) = ?f (last (next_nodes nd))"
    by (simp add: split_def)
  then show ?thesis using ne map_butlast_last [OF ne, of ?f] unfolding fanout_targets_def by simp
qed

lemma round_robin_targets_Inr:
  assumes "round_robin_targets rt nd output = Inr ts"
  obtains outputs where "ts = map (\<lambda>i. (fst (next_nodes nd ! i), snd (next_nodes nd ! i), any_make rt (outputs ! i)))
      [0..<min (length outputs) (length (next_nodes nd))]"
proof -
  from assms show thesis
    by (auto simp: round_robin_targets_def rbind_Inr_conv Let_def split: ctype.splits intro: that)
qed

lemma produce_targets_consumers:
  assumes "produce_targets rt nd output = Inr ts" "(m, i, a) \<in> set ts"
  shows "(m, i) \<in> set (next_nodes nd)"
proof (cases "n_policy nd")
  case Fanout
  with assms have "next_nodes nd \<noteq> []" by (auto simp: produce_targets_def fanout_targets_def split: if_splits)
  with Fanout assms show ?thesis by (auto simp: produce_targets_def fanout_targets_map)
next
  case RoundRobin
  with assms(1) have "round_robin_targets rt nd output = Inr ts" by (simp add: produce_targets_def)
  then obtain outputs where "ts = map (\<lambda>i. (fst (next_nodes nd ! i), snd (next_nodes nd ! i), any_make rt (outputs ! i)))
      [0..<min (length outputs) (length (next_nodes nd))]"
    by (rule round_robin_targets_Inr)
  then show ?thesis using assms(2) by auto
qed

lemma produce_targets_error:
  assumes "produce_targets rt nd output = Inl e"
  shows "e = UB \<or> (\<exists>x. e = Exn x)"
proof -
  have cast: "any_cast_with_info rt t output = Inl e \<Longrightarrow> \<exists>x. e = Exn x" for t
    by (auto simp: any_cast_with_info_def split: option.splits)
  show ?thesis
  proof (cases "n_policy nd")
    case Fanout
    with assms show ?thesis by (auto simp: produce_targets_def fanout_targets_def split: if_splits)
  next
    case RoundRobin
    show ?thesis
    proof (cases "output_type (n_kind nd)")
      case (TVector t)
      have "vector_elems v = Inl e \<Longrightarrow> e = UB" for v :: "'b val" by (cases v) auto
      with TVector RoundRobin assms cast [of "TVector t"] show ?thesis
        by (auto simp: produce_targets_def round_robin_targets_def Let_def rbind_Inl_conv)
    qed (use RoundRobin assms in \<open>auto simp: produce_targets_def round_robin_targets_def\<close>)
  qed
qed

section \<open>Execution keeps the wiring\<close>

definition shape :: "'p node \<Rightarrow> kind \<times> production_policy \<times> (nid \<times> size_t) list \<times> size_t" where
  "shape nd = (n_kind nd, n_policy nd, next_nodes nd, producer_count nd)"

definition same_wiring :: "('p, 'u) flow_state \<Rightarrow> ('p, 'u) flow_state \<Rightarrow> bool" where
  "same_wiring st st' \<longleftrightarrow> (\<forall>n. map_option shape (objs st' n) = map_option shape (objs st n))"

lemma same_wiring_refl [simp]: "same_wiring st st"
  by (simp add: same_wiring_def)

lemma same_wiring_trans [trans]: "same_wiring st st' \<Longrightarrow> same_wiring st' st'' \<Longrightarrow> same_wiring st st''"
  by (simp add: same_wiring_def)

lemma same_wiring_in_world [simp]: "same_wiring st (snd (in_world f st))"
  by (simp add: same_wiring_def in_world_objs)

lemma same_wiring_set_node:
  "objs st n = Some nd \<Longrightarrow> shape nd' = shape nd \<Longrightarrow> same_wiring st (set_node n nd' st)"
  by (simp add: same_wiring_def)

lemma same_wiring_objs:
  assumes "same_wiring st st'" "objs st n = Some nd"
  obtains nd' where "objs st' n = Some nd'" "shape nd' = shape nd"
proof -
  from assms have "map_option shape (objs st' n) = Some (shape nd)" by (simp add: same_wiring_def)
  then show ?thesis using that by auto
qed

lemma shape_agg [simp]: "shape (agg_store i b v nd) = shape nd" "shape (agg_reset nd) = shape nd"
  by (simp_all add: shape_def agg_store_def agg_reset_def)

lemma snd_and_then_state: "(\<And>r s. snd (f r s) = s) \<Longrightarrow> snd (and_then x f) = snd x"
  by (cases "(x, f)" rule: and_then.cases) auto

lemma aggregator_same_wiring:
  assumes "objs st n = Some nd"
  shows "same_wiring st (snd (aggregator_process_any rt n nd a i st))"
proof -
  have "same_wiring st (set_node n (agg_reset (agg_store i b v nd)) st)"
    "same_wiring st (set_node n (agg_store i b v nd) st)" for b v
    using assms by (auto intro: same_wiring_set_node)
  then show ?thesis
    by (auto simp: aggregator_process_any_def Let_def snd_and_then_state split: sum.split
        intro: same_wiring_trans [OF _ same_wiring_in_world])
qed

lemma process_any_same_wiring:
  assumes "objs st n = Some nd"
  shows "same_wiring st (snd (process_any rt n nd a i st))"
  using aggregator_same_wiring [OF assms]
  by (auto simp: process_any_def source_process_any_def module_process_any_def sink_process_any_def
      snd_and_then_state split: kind.split sum.split)

lemma run_consumers_same_wiring:
  assumes "\<And>m a i st. same_wiring st (snd (exec m a i st))"
  shows "same_wiring st (snd (run_consumers exec ts st))"
proof (induction ts arbitrary: st)
  case (Cons t ts)
  obtain m i a where t: "t = (m, i, a)" by (cases t)
  show ?case
  proof (cases "exec m a i st")
    case (Pair r st')
    then have "same_wiring st st'" using assms [of st m a i] by simp
    then show ?thesis using Cons.IH [of st'] Pair t by (cases r) (auto intro: same_wiring_trans)
  qed
qed simp

lemma execute_same_wiring: "same_wiring st (snd (execute fuel rt n a i st))"
proof (induction fuel arbitrary: n a i st)
  case (Suc fuel)
  note run = run_consumers_same_wiring [of "execute fuel rt", OF Suc.IH]
  show ?case
  proof (cases "objs st n")
    case (Some nd)
    obtain r st' where p: "process_any rt n nd a i st = (r, st')" by fastforce
    then have "same_wiring st st'" using process_any_same_wiring [OF Some, of rt a i] by simp
    moreover have "same_wiring st (snd (sink_execute rt t n a st))" for t
      by (auto simp: sink_execute_def sink_process_any_def snd_and_then_state split: sum.split)
    ultimately show ?thesis
      using Some p run by (cases r) (auto split: kind.split sum.split intro: same_wiring_trans)
  qed simp
qed simp

end
