(* ===== verification/Flow_Props.thy ===== *)
theory Flow_Props
  imports Flow
begin

text \<open>
  What the engine guarantees: execution on an acyclic graph returns, more fuel never changes a
  result, the wiring and the aggregators stay consistent whatever the user code does, and each
  production policy delivers what it promises to whom it promises.
\<close>

section \<open>Execution returns\<close>

definition ranked :: "(nid \<Rightarrow> nat) \<Rightarrow> ('p, 'u) flow_state \<Rightarrow> bool" where
  "ranked r st \<longleftrightarrow> (\<forall>n nd m i. objs st n = Some nd \<longrightarrow> (m, i) \<in> set (next_nodes nd) \<longrightarrow> r m < r n)"

lemma ranked_same_wiring:
  assumes "same_wiring st st'" "ranked r st"
  shows "ranked r st'"
  unfolding ranked_def
proof (intro allI impI)
  fix n nd m i
  assume n: "objs st' n = Some nd" and m: "(m, i) \<in> set (next_nodes nd)"
  from assms(1) have "map_option shape (objs st n) = Some (shape nd)" by (metis n option.map(2) same_wiring_def)
  then obtain nd0 where nd0: "objs st n = Some nd0" "shape nd0 = shape nd" by auto
  then have "next_nodes nd0 = next_nodes nd" by (simp add: shape_def)
  with m have "(m, i) \<in> set (next_nodes nd0)" by simp
  with assms(2) nd0(1) show "r m < r n" unfolding ranked_def by blast
qed

text \<open>The outcome of a call that came to an end, in whatever way: normally, by an exception, or by running into
  undefined behaviour, after which the model claims nothing.  Whether it is undefined is a question of its own,
  treated below.\<close>

definition returns :: "'x result \<Rightarrow> bool" where
  "returns r \<longleftrightarrow> r \<noteq> Inl No_Return \<and> r \<noteq> Inl Deadlock"

lemma returns_simps [simp]: "returns (Inr x)" "returns (Inl (Exn e))" "returns (Inl UB)"
  by (simp_all add: returns_def)

lemma well_behaved_returns: "well_behaved r \<Longrightarrow> returns r"
  by (auto simp: well_behaved_def returns_def)

lemma and_then_returns:
  "returns (fst x) \<Longrightarrow> (\<And>a s. x = (Inr a, s) \<Longrightarrow> returns (fst (f a s))) \<Longrightarrow> returns (fst (and_then x f))"
  by (cases "(x, f)" rule: and_then.cases) (auto simp: returns_def)

lemma in_world_returns: "well_behaved (fst (f (world st))) \<Longrightarrow> returns (fst (in_world f st))"
  by (auto simp: in_world_def split: prod.split intro: well_behaved_returns)

lemma cast_returns: "any_cast_with_info rt t a = Inl e \<Longrightarrow> returns (Inl e)"
  by (auto simp: any_cast_with_info_def split: option.splits)

lemma process_any_returns:
  assumes "user_terminates rt"
  shows "returns (fst (process_any rt n nd a i st))"
proof -
  have agg: "returns (fst (aggregator_process_any rt n nd a i st))"
    using assms
    by (auto simp: aggregator_process_any_def producer_bit_def full_mask_def Let_def user_terminates_def
        split: sum.split intro!: and_then_returns in_world_returns dest: cast_returns)
  show ?thesis
    using assms agg
    by (auto simp: process_any_def source_process_any_def module_process_any_def sink_process_any_def
        user_terminates_def split: kind.split sum.split intro!: and_then_returns in_world_returns dest: cast_returns)
qed

lemma sink_execute_returns: "user_terminates rt \<Longrightarrow> returns (fst (sink_execute rt t n a st))"
  by (auto simp: sink_execute_def sink_process_any_def user_terminates_def split: sum.split
      intro!: and_then_returns in_world_returns dest: cast_returns)

lemma run_consumers_returns:
  assumes "\<And>m i a st'. (m, i, a) \<in> set ts \<Longrightarrow> same_wiring st st' \<Longrightarrow> returns (fst (exec m a i st'))"
    and "\<And>m a i st. same_wiring st (snd (exec m a i st))"
  shows "returns (fst (run_consumers exec ts st))"
  using assms(1)
proof (induction ts arbitrary: st)
  case (Cons t ts)
  obtain m i a where t: "t = (m, i, a)" by (cases t)
  obtain r st' where e: "exec m a i st = (r, st')" by fastforce
  have "same_wiring st st'" using assms(2) [of st m a i] e by simp
  then have "returns (fst (run_consumers exec ts st'))"
    by (intro Cons.IH Cons.prems) (auto intro: same_wiring_trans)
  moreover have "returns r" using Cons.prems [of m i a st] t e by simp
  ultimately show ?case using t e by (cases r) (auto simp: returns_def)
qed simp

lemma execute_returns:
  assumes "user_terminates rt"
  shows "ranked r st \<Longrightarrow> r n < fuel \<Longrightarrow> returns (fst (execute fuel rt n a i st))"
proof (induction fuel arbitrary: n a i st)
  case (Suc fuel)
  show ?case
  proof (cases "objs st n")
    case (Some nd)
    have body: "returns (fst (and_then (process_any rt n nd a i st) (\<lambda>output st.
        if any_has_value rt output \<and> any_type rt a \<noteq> TNullopt
        then case produce_targets rt nd output of Inl e \<Rightarrow> (Inl e, st)
             | Inr ts \<Rightarrow> run_consumers (execute fuel rt) ts st
        else (Inr (), st))))"
    proof (rule and_then_returns [OF process_any_returns [OF assms]])
      fix out st'
      assume p: "process_any rt n nd a i st = (Inr out, st')"
      then have "same_wiring st st'" using process_any_same_wiring [OF Some, of rt a i] by simp
      then have ranked': "ranked r st'" using Suc.prems(1) by (rule ranked_same_wiring)
      have "returns (fst (run_consumers (execute fuel rt) ts st'))" if "produce_targets rt nd out = Inr ts" for ts
      proof (rule run_consumers_returns)
        fix m i a st'' assume "(m, i, a) \<in> set ts" "same_wiring st' st''"
        moreover from that this(1) have "(m, i) \<in> set (next_nodes nd)"
          by (rule produce_targets_consumers)
        then have "r m < r n" using Some Suc.prems(1) by (auto simp: ranked_def)
        ultimately show "returns (fst (execute fuel rt m a i st''))"
          using Suc.prems(2) ranked' by (intro Suc.IH) (auto intro: ranked_same_wiring)
      qed (rule execute_same_wiring)
      then show "returns (fst (if any_has_value rt out \<and> any_type rt a \<noteq> TNullopt
        then case produce_targets rt nd out of Inl e \<Rightarrow> (Inl e, st')
             | Inr ts \<Rightarrow> run_consumers (execute fuel rt) ts st'
        else (Inr (), st')))"
        using produce_targets_error [of rt nd out] by (auto split: sum.split)
    qed
    then show ?thesis using Some sink_execute_returns [OF assms] by (auto split: kind.split)
  qed simp
qed simp

section \<open>Fuel\<close>

lemma run_consumers_cong:
  assumes "\<And>m i a st. (m, i, a) \<in> set ts \<Longrightarrow> fst (exec m a i st) \<noteq> Inl No_Return \<Longrightarrow> exec' m a i st = exec m a i st"
  shows "fst (run_consumers exec ts st) \<noteq> Inl No_Return \<Longrightarrow> run_consumers exec' ts st = run_consumers exec ts st"
  using assms
proof (induction ts arbitrary: st)
  case (Cons t ts)
  obtain m i a where t: "t = (m, i, a)" by (cases t)
  obtain r st' where e: "exec m a i st = (r, st')" by fastforce
  show ?case
  proof (cases r)
    case (Inl err)
    then show ?thesis using Cons.prems t e by auto
  next
    case (Inr x)
    then show ?thesis using Cons.prems t e Cons.IH [of st'] by (auto simp: list.set_intros)
  qed
qed simp

lemma execute_Suc_fuel:
  "fst (execute fuel rt n a i st) \<noteq> Inl No_Return \<Longrightarrow> execute (Suc fuel) rt n a i st = execute fuel rt n a i st"
proof (induction fuel arbitrary: n a i st)
  case (Suc fuel)
  have IH: "fst (run_consumers (execute fuel rt) ts s) \<noteq> Inl No_Return \<Longrightarrow>
      run_consumers (execute (Suc fuel) rt) ts s = run_consumers (execute fuel rt) ts s" for ts s
    by (rule run_consumers_cong) (rule Suc.IH)
  obtain f where f: "f = Suc fuel" by blast
  obtain r st' where p: "\<And>nd. objs st n = Some nd \<Longrightarrow> process_any rt n nd a i st = (r, st')"
    by (cases "objs st n") (auto, metis surj_pair)
  show ?case
    using Suc.prems IH p unfolding f [symmetric]
    by (cases r) (auto simp: execute.simps(2) [of f] execute.simps(2) [of fuel] f split: option.split kind.split sum.splits if_splits)
qed simp

lemma execute_more_fuel:
  assumes "fst (execute fuel rt n a i st) \<noteq> Inl No_Return" "fuel \<le> fuel'"
  shows "execute fuel' rt n a i st = execute fuel rt n a i st"
  using assms(2)
proof (induction fuel' rule: dec_induct)
  case (step k)
  then show ?case using execute_Suc_fuel [of k rt n a i st] assms(1) by simp
qed simp

section \<open>Consistency of wiring and aggregators\<close>

fun is_agg :: "kind \<Rightarrow> bool" where
  "is_agg (KAggregator i out) = True"
| "is_agg k = False"

text \<open>An id under which an object may be executed: aggregators only know the ids they handed out.\<close>

definition valid_target :: "('p, 'u) flow_state \<Rightarrow> nid \<Rightarrow> size_t \<Rightarrow> bool" where
  "valid_target st m i \<longleftrightarrow>
     (\<exists>md. objs st m = Some md \<and> (is_agg (n_kind md) \<longrightarrow> i < producer_count md))"

definition edge :: "('p, 'u) flow_state \<Rightarrow> nid \<Rightarrow> nat \<Rightarrow> nid \<Rightarrow> size_t \<Rightarrow> bool" where
  "edge st n k m i \<longleftrightarrow>
     (\<exists>nd. objs st n = Some nd \<and> k < length (next_nodes nd) \<and> next_nodes nd ! k = (m, i))"

text \<open>Every edge ends in an object under an id that object handed out, no two edges into an aggregator
  carry the same id, and every aggregator's members agree with each other.\<close>

definition flow_inv :: "('p, 'u) flow_state \<Rightarrow> bool" where
  "flow_inv st \<longleftrightarrow>
     (\<forall>n k m i. edge st n k m i \<longrightarrow> valid_target st m i) \<and>
     (\<forall>n k n' k' m i md. edge st n k m i \<longrightarrow> edge st n' k' m i \<longrightarrow> objs st m = Some md \<longrightarrow>
        is_agg (n_kind md) \<longrightarrow> n = n' \<and> k = k') \<and>
     (\<forall>n nd. objs st n = Some nd \<longrightarrow> is_agg (n_kind nd) \<longrightarrow> agg_inv nd)"

lemma same_wiring_kind:
  assumes "same_wiring st st'" "objs st' n = Some nd"
  obtains nd0 where "objs st n = Some nd0" "n_kind nd = n_kind nd0" "next_nodes nd = next_nodes nd0"
    "producer_count nd = producer_count nd0"
proof -
  from assms have "map_option shape (objs st n) = Some (shape nd)" by (metis option.map(2) same_wiring_def)
  then show thesis using that by (auto simp: shape_def)
qed

lemma same_wiring_sym: "same_wiring st st' \<Longrightarrow> same_wiring st' st"
  by (simp add: same_wiring_def)

lemma edge_shape:
  "edge st n k m i \<longleftrightarrow> (\<exists>kd p es c. map_option shape (objs st n) = Some (kd, p, es, c) \<and> k < length es \<and> es ! k = (m, i))"
  by (auto simp: edge_def shape_def)

lemma valid_target_shape:
  "valid_target st m i \<longleftrightarrow> (\<exists>kd p es c. map_option shape (objs st m) = Some (kd, p, es, c) \<and> (is_agg kd \<longrightarrow> i < c))"
  by (auto simp: valid_target_def shape_def)

lemma same_wiring_edge: "same_wiring st st' \<Longrightarrow> edge st' n k m i = edge st n k m i"
  by (simp add: edge_shape same_wiring_def)

lemma same_wiring_valid_target: "same_wiring st st' \<Longrightarrow> valid_target st' m i = valid_target st m i"
  by (simp add: valid_target_shape same_wiring_def)

lemma flow_inv_same_wiring:
  assumes "flow_inv st" "same_wiring st st'"
    "\<And>n nd. objs st' n = Some nd \<Longrightarrow> is_agg (n_kind nd) \<Longrightarrow> agg_inv nd"
  shows "flow_inv st'"
proof -
  have "n = n' \<and> k = k'"
    if "edge st n k m i" "edge st n' k' m i" "objs st' m = Some md" "is_agg (n_kind md)" for n k n' k' m i md
  proof -
    note h = that
    obtain md0 where "objs st m = Some md0" "n_kind md = n_kind md0"
      using same_wiring_kind [OF assms(2) h(3)] by metis
    then show ?thesis
      using h assms(1) unfolding flow_inv_def same_wiring_edge [OF assms(2)] by metis
  qed
  then show ?thesis
    using assms(1,3) unfolding flow_inv_def same_wiring_edge [OF assms(2)] same_wiring_valid_target [OF assms(2)]
    by blast
qed

lemma flow_inv_world_update: "flow_inv (st\<lparr>world := u\<rparr>) = flow_inv st"
  by (simp add: flow_inv_def edge_def valid_target_def)

lemma flow_inv_in_world: "flow_inv st \<Longrightarrow> flow_inv (snd (in_world f st))"
  by (simp add: in_world_def flow_inv_world_update split: prod.split)

lemma flow_inv_set_node:
  assumes "flow_inv st" "objs st n = Some nd" "shape nd' = shape nd" "is_agg (n_kind nd) \<Longrightarrow> agg_inv nd'"
  shows "flow_inv (set_node n nd' st)"
proof (rule flow_inv_same_wiring [OF assms(1) same_wiring_set_node [OF assms(2,3)]])
  fix m md assume m: "objs (set_node n nd' st) m = Some md" "is_agg (n_kind md)"
  show "agg_inv md"
  proof (cases "m = n")
    case True
    then show ?thesis using m assms(3,4) by (simp add: shape_def)
  next
    case False
    then show ?thesis using m assms(1) by (auto simp: flow_inv_def)
  qed
qed

lemma aggregator_flow_inv:
  assumes inv: "flow_inv st" and n: "objs st n = Some nd" and agg: "is_agg (n_kind nd)"
    and i: "i < producer_count nd"
  shows "flow_inv (snd (aggregator_process_any rt n nd a i st))"
proof -
  have nd: "agg_inv nd" using inv n agg by (simp add: flow_inv_def)
  then have c: "unat (producer_count nd) < 31" by (simp add: agg_inv_def)
  with i have i31: "unat i < 31" by (simp add: word_less_nat_alt)
  let ?s = "\<lambda>v. agg_store i (2 ^ unat i) v nd"
  have "flow_inv (set_node n (agg_reset (?s v)) st)" for v
  proof (rule flow_inv_set_node [OF inv n])
    show "agg_inv (agg_reset (?s v))" using nd by (auto simp: agg_inv_def agg_reset_def agg_store_def)
  qed simp
  moreover have "flow_inv (set_node n (?s v) st)" if "agg_state (?s v) \<noteq> mask (unat (producer_count nd))" for v
    using that agg_inv_store [OF nd i] agg_store_full_iff [OF nd i] by (intro flow_inv_set_node [OF inv n]) auto
  ultimately show ?thesis
    using inv by (auto simp: aggregator_process_any_def producer_bit_exp [OF i31] full_mask_mask [OF c] Let_def
        snd_and_then_state split: sum.split intro: flow_inv_in_world)
qed

lemma process_any_flow_inv:
  assumes "flow_inv st" "objs st n = Some nd" "is_agg (n_kind nd) \<longrightarrow> i < producer_count nd"
  shows "flow_inv (snd (process_any rt n nd a i st))"
  using assms aggregator_flow_inv [OF assms(1,2)]
  by (cases "n_kind nd")
    (auto simp: process_any_def source_process_any_def module_process_any_def sink_process_any_def
      snd_and_then_state split: sum.split intro: flow_inv_in_world)

lemma run_consumers_flow_inv:
  assumes "\<And>m i a st. flow_inv st \<Longrightarrow> valid_target st m i \<Longrightarrow> flow_inv (snd (exec m a i st))"
    and "\<And>m i a st. same_wiring st (snd (exec m a i st))"
  shows "flow_inv st \<Longrightarrow> (\<And>m i a. (m, i, a) \<in> set ts \<Longrightarrow> valid_target st m i) \<Longrightarrow>
         flow_inv (snd (run_consumers exec ts st))"
proof (induction ts arbitrary: st)
  case (Cons t ts)
  obtain m i a where t: "t = (m, i, a)" by (cases t)
  obtain r st' where e: "exec m a i st = (r, st')" by fastforce
  have "flow_inv st'" "same_wiring st st'" using assms [of st m] Cons.prems t e by (metis list.set_intros(1) snd_conv)+
  moreover have "\<And>m i a. (m, i, a) \<in> set ts \<Longrightarrow> valid_target st' m i"
    using Cons.prems(2) same_wiring_valid_target [OF \<open>same_wiring st st'\<close>] by (metis list.set_intros(2))
  ultimately show ?case using Cons.IH t e by (cases r) auto
qed simp

lemma execute_flow_inv:
  "flow_inv st \<Longrightarrow> valid_target st n i \<Longrightarrow> flow_inv (snd (execute fuel rt n a i st))"
proof (induction fuel arbitrary: n a i st)
  case (Suc fuel)
  obtain nd where n: "objs st n = Some nd" "is_agg (n_kind nd) \<longrightarrow> i < producer_count nd"
    using Suc.prems(2) by (auto simp: valid_target_def)
  obtain r st' where p: "process_any rt n nd a i st = (r, st')" by fastforce
  have inv': "flow_inv st'" using process_any_flow_inv [OF Suc.prems(1) n, of rt a] p by simp
  have wiring: "same_wiring st st'" using process_any_same_wiring [OF n(1), of rt a i] p by simp
  have "flow_inv (snd (run_consumers (execute fuel rt) ts st'))" if ts: "produce_targets rt nd out = Inr ts" for ts out
  proof (rule run_consumers_flow_inv [OF Suc.IH execute_same_wiring inv'])
    fix m i a assume "(m, i, a) \<in> set ts"
    with ts have "(m, i) \<in> set (next_nodes nd)" by (rule produce_targets_consumers)
    then obtain k where "edge st n k m i" using n(1) by (auto simp: edge_def in_set_conv_nth)
    then have "valid_target st m i" using Suc.prems(1) by (auto simp: flow_inv_def)
    then show "valid_target st' m i" using same_wiring_valid_target [OF wiring] by simp
  qed
  moreover have "flow_inv (snd (sink_execute rt t n a st))" for t
    using Suc.prems(1) by (auto simp: sink_execute_def sink_process_any_def snd_and_then_state
        split: sum.split intro: flow_inv_in_world)
  ultimately show ?case using n(1) p inv' by (cases r) (auto split: kind.split sum.split)
qed simp

section \<open>Execution is defined\<close>

text \<open>Every object that may produce something under the fanout policy has a consumer.\<close>

definition all_feed :: "('p, 'u) flow_state \<Rightarrow> bool" where
  "all_feed st \<longleftrightarrow>
     (\<forall>n nd. objs st n = Some nd \<longrightarrow> (\<forall>t. n_kind nd \<noteq> KSink t) \<longrightarrow> n_policy nd = Fanout \<longrightarrow> next_nodes nd \<noteq> [])"

lemma all_feed_same_wiring:
  assumes "same_wiring st st'" "all_feed st"
  shows "all_feed st'"
  unfolding all_feed_def
proof (intro allI impI)
  fix n nd assume n: "objs st' n = Some nd" "\<forall>t. n_kind nd \<noteq> KSink t" "n_policy nd = Fanout"
  have "map_option shape (objs st n) = Some (shape nd)" using assms(1) n(1) unfolding same_wiring_def by (metis option.map(2))
  then obtain nd0 where "objs st n = Some nd0" "shape nd0 = shape nd" by auto
  then show "next_nodes nd \<noteq> []" using assms(2) n(2,3) by (auto simp: all_feed_def shape_def)
qed

text \<open>A value, an exception, or a recursion cut short by the fuel.\<close>

definition defined_result :: "'x result \<Rightarrow> bool" where
  "defined_result r \<longleftrightarrow> (\<forall>e. r = Inl e \<longrightarrow> e = No_Return \<or> (\<exists>x. e = Exn x))"

lemma defined_result_simps [simp]:
  "defined_result (Inr x)" "defined_result (Inl (Exn e))" "defined_result (Inl No_Return)" "\<not> defined_result (Inl UB)"
  by (simp_all add: defined_result_def)

lemma defined_result_Inl: "defined_result (Inl e :: 'x result) \<Longrightarrow> defined_result (Inl e :: 'y result)"
  by (simp add: defined_result_def)

lemma defined_returned: "defined_result (r :: unit result) \<Longrightarrow> returns r \<Longrightarrow> r = Inr () \<or> (\<exists>x. r = Inl (Exn x))"
  by (cases r) (auto simp: defined_result_def returns_def)

lemma and_then_defined:
  "defined_result (fst x) \<Longrightarrow> (\<And>a s. x = (Inr a, s) \<Longrightarrow> defined_result (fst (f a s))) \<Longrightarrow> defined_result (fst (and_then x f))"
  by (cases "(x, f)" rule: and_then.cases) (auto intro: defined_result_Inl)

lemma in_world_defined: "well_behaved (fst (f (world st))) \<Longrightarrow> defined_result (fst (in_world f st))"
  by (auto simp: in_world_def well_behaved_def defined_result_def split: prod.split)

lemma cast_defined: "any_cast_with_info rt t a = Inl e \<Longrightarrow> defined_result (Inl e)"
  by (auto simp: any_cast_with_info_def split: option.splits)

lemma process_any_defined:
  assumes "user_terminates rt" "flow_inv st" "objs st n = Some nd" "is_agg (n_kind nd) \<longrightarrow> i < producer_count nd"
  shows "defined_result (fst (process_any rt n nd a i st))"
proof -
  have user: "well_behaved (fst (source_process rt n u))" "well_behaved (fst (module_process rt n v u))"
    "well_behaved (fst (aggregator_process rt n vs u))" "well_behaved (fst (sink_process rt n v u))"
    "well_behaved (fst (flow_process_any rt n a i u))" for v vs u
    using assms(1) by (simp_all add: user_terminates_def)
  show ?thesis
  proof (cases "is_agg (n_kind nd)")
    case True
    then have "unat (producer_count nd) < 31" "i < producer_count nd"
      using assms(2-4) by (auto simp: flow_inv_def agg_inv_def)
    then have c: "unat (producer_count nd) < 31" "unat i < 31" by (simp_all add: word_less_nat_alt)
    have cnt: "producer_count (agg_store j b w nd) = producer_count nd" for j b w by (simp add: agg_store_def)
    have "defined_result (fst (and_then (in_world (aggregator_process rt n vs) s) (\<lambda>r st. (Inr (f r), st))))" for vs s and f :: "'b val option \<Rightarrow> 'a"
      by (rule and_then_defined) (simp_all add: in_world_defined user)
    then have "defined_result (fst (aggregator_process_any rt n nd a i st))"
      using cast_defined [of rt "input_type (n_kind nd)" a]
      by (auto simp: aggregator_process_any_def producer_bit_exp [OF c(2)] full_mask_mask [OF c(1)] cnt Let_def split: sum.split)
    then show ?thesis using True by (cases "n_kind nd") (simp_all add: process_any_def)
  next
    case False
    have post: "defined_result (fst (and_then x (\<lambda>r st. (Inr (f r), st))))" if "defined_result (fst x)"
      for x :: "'r result \<times> ('b, 'c) flow_state" and f :: "'r \<Rightarrow> 'a"
      using that by (rule and_then_defined) simp
    show ?thesis using False
      by (cases "n_kind nd")
        (auto simp: process_any_def source_process_any_def module_process_any_def sink_process_any_def cast_defined
          split: sum.split intro!: post in_world_defined user dest: sym simp del: not_None_eq)
  qed
qed

lemma produced_any:
  assumes "process_any rt n nd a i st = (Inr out, st')" "\<forall>c. n_kind nd \<noteq> KFlow c"
  shows "out = any_empty rt \<or> (\<exists>v. out = any_make rt v)"
proof -
  have post: "\<exists>r. out = f r" if "and_then x (\<lambda>r st. (Inr (f r), st)) = (Inr out, st')"
    for x :: "'r result \<times> ('b, 'c) flow_state" and f :: "'r \<Rightarrow> 'a"
    using that by (cases x; cases "fst x") auto
  have opt: "optional_to_any rt r = any_empty rt \<or> (\<exists>v. optional_to_any rt r = any_make rt v)" for r
    by (cases r) auto
  show ?thesis
    using assms opt
    by (cases "n_kind nd")
      (fastforce simp: process_any_def source_process_any_def module_process_any_def sink_process_any_def
        aggregator_process_any_def Let_def dest!: post split: sum.splits if_splits option.splits)+
qed

lemma targets_defined:
  assumes "any_laws rt" "all_feed st" "objs st n = Some nd" "\<forall>t. n_kind nd \<noteq> KSink t"
    "process_any rt n nd a i st = (Inr out, st')"
    "produce_targets rt nd out = Inl e"
  shows "defined_result (Inl e)"
proof (cases "n_policy nd")
  case Fanout
  then have "next_nodes nd \<noteq> []" using assms(2-4) by (auto simp: all_feed_def)
  then show ?thesis using assms(6) Fanout by (simp add: produce_targets_def fanout_targets_map)
next
  case RoundRobin
  show ?thesis
  proof (cases "output_type (n_kind nd)")
    case (TVector t)
    then have "\<forall>c. n_kind nd \<noteq> KFlow c" by (cases "n_kind nd") auto
    then have out: "out = any_empty rt \<or> (\<exists>v. out = any_make rt v)" using produced_any [OF assms(5)] by simp
    have "TVector t = typeof v \<Longrightarrow> vector_elems v = Inl e \<Longrightarrow> defined_result (Inl e :: unit result)" for v :: "'b val" by (cases v) auto
    then have "rbind (any_cast_with_info rt (TVector t) out) vector_elems = Inl e \<Longrightarrow> defined_result (Inl e :: unit result)"
      using out by (auto simp: any_cast_with_info_make [OF assms(1)] any_cast_with_info_empty [OF assms(1)] split: if_splits)
    moreover have "rbind (any_cast_with_info rt (TVector t) out) vector_elems = Inl e"
      using assms(6) RoundRobin TVector by (auto simp: produce_targets_def round_robin_targets_def Let_def rbind_Inl_conv)
    ultimately show ?thesis by (blast intro: defined_result_Inl)
  qed (use assms(6) RoundRobin in \<open>auto simp: produce_targets_def round_robin_targets_def\<close>)
qed

lemma run_consumers_defined:
  assumes "\<And>m i a s. same_wiring st s \<Longrightarrow> flow_inv s \<Longrightarrow> (m, i, a) \<in> set ts \<Longrightarrow>
      defined_result (fst (exec m a i s)) \<and> same_wiring s (snd (exec m a i s)) \<and> flow_inv (snd (exec m a i s))"
  shows "same_wiring st s \<Longrightarrow> flow_inv s \<Longrightarrow> defined_result (fst (run_consumers exec ts s))"
  using assms
proof (induction ts arbitrary: s)
  case (Cons t ts)
  obtain m i a where t: "t = (m, i, a)" by (cases t)
  obtain r s' where x: "exec m a i s = (r, s')" by fastforce
  have h: "defined_result r" "same_wiring s s'" "flow_inv s'" using Cons.prems(3) [OF Cons.prems(1,2), of m i a] t x by simp_all
  have "defined_result (fst (run_consumers exec ts s'))"
    by (rule Cons.IH [OF same_wiring_trans [OF Cons.prems(1) h(2)] h(3)]) (rule Cons.prems(3), auto)
  then show ?case using t x h(1) by (cases r) simp_all
qed simp

lemma execute_defined:
  assumes "any_laws rt" "user_terminates rt"
  shows "flow_inv st \<Longrightarrow> all_feed st \<Longrightarrow> valid_target st n i \<Longrightarrow> defined_result (fst (execute fuel rt n a i st))"
proof (induction fuel arbitrary: n a i st)
  case (Suc fuel)
  obtain nd where n: "objs st n = Some nd" "is_agg (n_kind nd) \<longrightarrow> i < producer_count nd"
    using Suc.prems(3) by (auto simp: valid_target_def)
  obtain r st' where p: "process_any rt n nd a i st = (r, st')" by fastforce
  have inv': "flow_inv st'" using process_any_flow_inv [OF Suc.prems(1) n, of rt a] p by simp
  have wiring: "same_wiring st st'" using process_any_same_wiring [OF n(1), of rt a i] p by simp
  have r: "defined_result r" using process_any_defined [OF assms(2) Suc.prems(1) n, of a] p by simp
  have run: "defined_result (fst (run_consumers (execute fuel rt) ts st'))" if ts: "produce_targets rt nd out = Inr ts" for ts out
  proof (rule run_consumers_defined [of st'])
    fix m i a s assume s: "same_wiring st' s" "flow_inv s" "(m, i, a) \<in> set ts"
    from ts s(3) have "(m, i) \<in> set (next_nodes nd)" by (rule produce_targets_consumers)
    then obtain k where "edge st n k m i" using n(1) by (auto simp: edge_def in_set_conv_nth)
    then have "valid_target st m i" using Suc.prems(1) by (auto simp: flow_inv_def)
    moreover have ws: "same_wiring st s" by (rule same_wiring_trans [OF wiring s(1)])
    ultimately have v: "valid_target s m i" using same_wiring_valid_target [OF ws] by simp
    show "defined_result (fst (execute fuel rt m a i s)) \<and> same_wiring s (snd (execute fuel rt m a i s)) \<and>
        flow_inv (snd (execute fuel rt m a i s))"
      by (intro conjI Suc.IH [OF s(2) all_feed_same_wiring [OF ws Suc.prems(2)] v] execute_same_wiring execute_flow_inv [OF s(2) v])
  qed (simp_all add: inv')
  have sink: "defined_result (fst (sink_execute rt t n a st))" for t
  proof -
    have "well_behaved (fst (sink_process rt n v u))" for v u using assms(2) by (simp add: user_terminates_def)
    then show ?thesis using cast_defined [of rt t a]
      by (auto simp: sink_execute_def sink_process_any_def split: sum.split intro!: and_then_defined in_world_defined)
  qed
  show ?case
  proof (cases "\<exists>t. n_kind nd = KSink t")
    case True
    then show ?thesis using n(1) sink by auto
  next
    case False
    then have "fst (execute (Suc fuel) rt n a i st) = fst (and_then (r, st') (\<lambda>output st.
        if any_has_value rt output \<and> any_type rt a \<noteq> TNullopt
        then case produce_targets rt nd output of Inl e \<Rightarrow> (Inl e, st) | Inr ts \<Rightarrow> run_consumers (execute fuel rt) ts st
        else (Inr (), st)))" using n(1) p by (simp split: kind.split)
    also have "defined_result \<dots>"
    proof (rule and_then_defined)
      fix out s assume "(r, st') = (Inr out, s)"
      then show "defined_result (fst (if any_has_value rt out \<and> any_type rt a \<noteq> TNullopt
        then case produce_targets rt nd out of Inl e \<Rightarrow> (Inl e, s) | Inr ts \<Rightarrow> run_consumers (execute fuel rt) ts s
        else (Inr (), s)))"
        using run targets_defined [OF assms(1) Suc.prems(2) n(1), of a i out st'] p False
        by (auto split: sum.split intro: defined_result_Inl)
    qed (use r in simp)
    finally show ?thesis .
  qed
qed simp

section \<open>Connecting objects\<close>

lemma register_producer_simps [simp]:
  "n_kind (snd (register_producer nd)) = n_kind nd" "next_nodes (snd (register_producer nd)) = next_nodes nd"
  "n_policy (snd (register_producer nd)) = n_policy nd"
  by (simp_all add: register_producer_def split: kind.split)

lemma register_producer_agg:
  "is_agg (n_kind nd) \<Longrightarrow> register_producer nd = (producer_count nd, nd\<lparr>producer_count := producer_count nd + 1\<rparr>)"
  by (cases "n_kind nd") (simp_all add: register_producer_def)

lemma register_producer_count:
  assumes "is_agg (n_kind nd) \<Longrightarrow> unat (producer_count nd) < 30" "is_agg (n_kind nd) \<Longrightarrow> i < producer_count nd \<or> i = producer_count nd"
  shows "is_agg (n_kind nd) \<Longrightarrow> i < producer_count (snd (register_producer nd))"
  using assms unat_add_small [of "producer_count nd" 1]
  by (auto simp: register_producer_agg word_less_nat_alt)

text \<open>An object after a connection: the consumer has registered a producer, the producer has one more
  edge, everything else is as before (also when an object is connected to itself).\<close>

definition connected :: "nid \<Rightarrow> nid \<Rightarrow> size_t \<Rightarrow> nid \<Rightarrow> 'p node \<Rightarrow> 'p node" where
  "connected this next pid m x =
     (let y = (if m = next then snd (register_producer x) else x) in
      if m = this then y\<lparr>next_nodes := next_nodes y @ [(next, pid)]\<rparr> else y)"

lemma connected_simps [simp]:
  "n_kind (connected this next pid m x) = n_kind x"
  "n_policy (connected this next pid m x) = n_policy x"
  "next_nodes (connected this next pid m x) = (if m = this then next_nodes x @ [(next, pid)] else next_nodes x)"
  "producer_count (connected this next pid m x) =
     (if m = next then producer_count (snd (register_producer x)) else producer_count x)"
  "agg_inv (connected this next pid m x) = agg_inv (if m = next then snd (register_producer x) else x)"
  by (simp_all add: connected_def Let_def agg_inv_def)

lemma add_consumer_objs:
  assumes "add_consumer this next st = Inr st'"
  obtains nd nx where "objs st this = Some nd" "objs st next = Some nx" "world st' = world st"
    "\<forall>m. objs st' m = map_option (connected this next (fst (register_producer nx)) m) (objs st m)"
proof -
  from assms obtain nx where nx: "objs st next = Some nx" by (auto simp: add_consumer_def split: option.splits)
  with assms obtain nd where nd: "objs (set_node next (snd (register_producer nx)) st) this = Some nd"
    and st': "st' = set_node this (nd\<lparr>next_nodes := next_nodes nd @ [(next, fst (register_producer nx))]\<rparr>)
      (set_node next (snd (register_producer nx)) st)"
    by (auto simp: add_consumer_def Let_def split_def split: option.splits)
  then obtain nd0 where nd0: "objs st this = Some nd0" using nx by (cases "this = next") auto
  have "objs st' m = map_option (connected this next (fst (register_producer nx)) m) (objs st m)" for m
    using nx nd nd0 by (cases "m = this"; cases "m = next"; cases "objs st m") (auto simp: st' connected_def)
  then show thesis using that [OF nd0 nx] st' by simp
qed

lemma edge_add_consumer:
  assumes "add_consumer this next st = Inr st'" "objs st this = Some nd" "objs st next = Some nx"
  shows "edge st' n k m i \<longleftrightarrow>
    edge st n k m i \<or> (n = this \<and> k = length (next_nodes nd) \<and> m = next \<and> i = fst (register_producer nx))"
proof -
  from assms(1) obtain nd' nx' where "objs st this = Some nd'" "objs st next = Some nx'" "world st' = world st"
    "\<forall>m. objs st' m = map_option (connected this next (fst (register_producer nx')) m) (objs st m)"
    by (rule add_consumer_objs)
  then show ?thesis
    using assms(2,3) by (cases "n = this") (auto simp: edge_def nth_append less_Suc_eq)
qed

lemma add_consumer_flow_inv:
  assumes "flow_inv st" "add_consumer this next st = Inr st'"
    "\<And>nx. objs st next = Some nx \<Longrightarrow> is_agg (n_kind nx) \<Longrightarrow> unat (producer_count nx) < 30"
  shows "flow_inv st'"
proof -
  from assms(2) obtain nd nx where nd: "objs st this = Some nd" and nx: "objs st next = Some nx"
    and "world st' = world st"
    and objs': "\<forall>m. objs st' m = map_option (connected this next (fst (register_producer nx)) m) (objs st m)"
    by (rule add_consumer_objs)
  note new_edge = edge_add_consumer [OF assms(2) nd nx]
  have target: "valid_target st' m i" if v: "valid_target st m i" for m i
    using v register_producer_count [of nx i] assms(3) nx
    by (cases "m = next") (auto simp: valid_target_def objs')
  have new: "valid_target st' next (fst (register_producer nx))"
    using nx register_producer_count [of nx "producer_count nx"] assms(3) [OF nx]
    by (auto simp: valid_target_def objs' register_producer_agg)
  have fresh: "\<not> edge st n k next (fst (register_producer nx))" if "is_agg (n_kind nx)" for n k
    using assms(1) nx that by (force simp: flow_inv_def valid_target_def register_producer_agg)
  have agg: "agg_inv md" if md: "objs st' m = Some md" "is_agg (n_kind md)" for m md
  proof -
    obtain x where x: "objs st m = Some x" "md = connected this next (fst (register_producer nx)) m x"
      using md by (auto simp: objs')
    then show ?thesis
      using md x nx assms(1,3) agg_inv_register [of x]
      by (auto simp: flow_inv_def elim!: is_agg.elims)
  qed
  have kind: "n_kind md = n_kind x" if "objs st' m = Some md" "objs st m = Some x" for m md x
    using that by (auto simp: objs')
  show ?thesis
    unfolding flow_inv_def
  proof (intro conjI allI impI)
    fix n k m i assume "edge st' n k m i"
    then have "edge st n k m i \<or> m = next \<and> i = fst (register_producer nx)" using new_edge by blast
    moreover have "edge st n k m i \<Longrightarrow> valid_target st m i" using assms(1) unfolding flow_inv_def by blast
    ultimately show "valid_target st' m i" using target new by blast
  next
    fix n k n' k' m i md
    assume e: "edge st' n k m i" "edge st' n' k' m i" "objs st' m = Some md" "is_agg (n_kind md)"
    have "objs st m \<noteq> None" using e(3) objs' by (metis option.map(1) option.distinct(1))
    then obtain x where x: "objs st m = Some x" "is_agg (n_kind x)" using e(3,4) kind by fastforce
    have old: "n = n' \<and> k = k'" if "edge st n k m i" "edge st n' k' m i"
      using assms(1) x that unfolding flow_inv_def by blast
    have "n = n' \<and> k = k'"
    proof (cases "m = next \<and> i = fst (register_producer nx)")
      case True
      then have "\<not> edge st n k m i" "\<not> edge st n' k' m i" using fresh nx x by auto
      then show ?thesis using e(1,2) new_edge by blast
    next
      case False
      then show ?thesis using e(1,2) new_edge old by blast
    qed
    then show "n = n'" "k = k'" by simp_all
  qed (rule agg)
qed

end
