(* ===== verification/Flow_Delivery.thy ===== *)
theory Flow_Delivery
  imports Flow_Props
begin

text \<open>
  Who receives what: the fan-out and round-robin policies of \<open>Flow::produce\<close>, the treatment of a
  \<open>std::nullopt\<close> output, and the properties of the engine as a whole with their witnesses.
\<close>

section \<open>Delivery to sinks\<close>

text \<open>The sinks \<open>ms\<close> accept values of these types and never throw.\<close>

definition sink_accepts :: "('a, 'p, 'u) runtime \<Rightarrow> ('p, 'u) flow_state \<Rightarrow> nid \<Rightarrow> 'p val \<Rightarrow> bool" where
  "sink_accepts rt st m v \<longleftrightarrow>
     (\<exists>md. objs st m = Some md \<and> n_kind md = KSink (typeof v)) \<and> typeof v \<noteq> TNullopt \<and>
     (\<forall>u. \<exists>u'. sink_process rt m v u = (Inr (), u'))"

text \<open>The state after the sinks have received the values, one after the other.\<close>

fun receive :: "('a, 'p, 'u) runtime \<Rightarrow> (nid \<times> 'p val) list \<Rightarrow> 'u \<Rightarrow> 'u" where
  "receive rt [] u = u"
| "receive rt ((m, v) # ds) u = receive rt ds (snd (sink_process rt m v u))"

lemma in_world_Inr: "f (world st) = (Inr r, u) \<Longrightarrow> in_world f st = (Inr r, st\<lparr>world := u\<rparr>)"
  by (simp add: in_world_def)

lemma execute_sink:
  assumes "any_laws rt" "sink_accepts rt st m v"
  shows "execute (Suc fuel) rt m (any_make rt v) i st = (Inr (), st\<lparr>world := snd (sink_process rt m v (world st))\<rparr>)"
proof -
  obtain md where md: "objs st m = Some md" "n_kind md = KSink (typeof v)" "typeof v \<noteq> TNullopt"
    using assms(2) by (auto simp: sink_accepts_def)
  obtain u' where u': "sink_process rt m v (world st) = (Inr (), u')"
    using assms(2) unfolding sink_accepts_def by blast
  show ?thesis
    using md u' in_world_Inr [of "sink_process rt m v", OF u']
    by (simp add: sink_execute_def sink_process_any_def any_simps [OF assms(1)] any_cast_with_info_make [OF assms(1)])
qed

lemma run_consumers_sinks:
  assumes "any_laws rt"
  shows "(\<And>m v. (m, v) \<in> set ds \<Longrightarrow> sink_accepts rt st m v) \<Longrightarrow> map (\<lambda>(m, i, a). (m, a)) ts = map (\<lambda>(m, v). (m, any_make rt v)) ds \<Longrightarrow>
    run_consumers (execute (Suc fuel) rt) ts st = (Inr (), st\<lparr>world := receive rt ds (world st)\<rparr>)"
proof (induction ds arbitrary: ts st)
  case (Cons d ds)
  obtain m v where d: "d = (m, v)" by (cases d)
  then obtain i ts' where ts: "ts = (m, i, any_make rt v) # ts'"
    "map (\<lambda>(m, i, a). (m, a)) ts' = map (\<lambda>(m, v). (m, any_make rt v)) ds"
    using Cons.prems(2) by (cases ts) (auto simp: split_def)
  let ?st = "st\<lparr>world := snd (sink_process rt m v (world st))\<rparr>"
  have "sink_accepts rt st m v" using Cons.prems(1) d by simp
  then have "execute (Suc fuel) rt m (any_make rt v) i st = (Inr (), ?st)" by (rule execute_sink [OF assms])
  moreover have "sink_accepts rt ?st m' v'" if "(m', v') \<in> set ds" for m' v'
    using Cons.prems(1) [of m' v'] that by (simp add: sink_accepts_def)
  then have "run_consumers (execute (Suc fuel) rt) ts' ?st = (Inr (), ?st\<lparr>world := receive rt ds (world ?st)\<rparr>)"
    by (rule Cons.IH) (use ts in auto)
  ultimately show ?case using ts d by (simp del: execute.simps)
qed simp

lemma execute_producing:
  assumes "any_laws rt" "objs st n = Some nd" "\<And>t. n_kind nd \<noteq> KSink t"
    "process_any rt n nd a i st = (Inr (any_make rt v), st')" "any_type rt a \<noteq> TNullopt"
  shows "execute (Suc fuel) rt n a i st =
    (case produce_targets rt nd (any_make rt v) of
       Inl e \<Rightarrow> (Inl e, st') | Inr ts \<Rightarrow> run_consumers (execute fuel rt) ts st')"
proof (cases "n_kind nd")
  case (KSink t)
  then show ?thesis using assms(3) [of t] by simp
qed (use assms in \<open>simp_all add: any_simps\<close>)

lemma sink_accepts_same:
  "same_wiring st st' \<Longrightarrow> sink_accepts rt st m v \<Longrightarrow> sink_accepts rt st' m v"
  unfolding sink_accepts_def by (metis same_wiring_kind same_wiring_sym)

section \<open>Properties\<close>

text \<open>C2. On an acyclic graph (every edge goes to an object of smaller rank), with user code that itself always
  returns or throws, \<open>execute\<close> ends: with fuel above the rank of the object it has a result, which is neither
  that of an unfinished recursion nor that of a deadlock, and is the same for every larger fuel.  That result
  is a normal return or an exception, never undefined behaviour, when in addition the graph is consistent, the
  object is executed under an id it knows, and every object under the fanout policy that is not a sink has a
  consumer.\<close>

theorem execute_acyclic_returns:
  assumes "user_terminates rt" "ranked r st" "r n < fuel"
  shows "\<exists>res st'. returns res \<and> (\<forall>fuel' \<ge> fuel. execute fuel' rt n a i st = (res, st')) \<and>
    (any_laws rt \<and> flow_inv st \<and> all_feed st \<and> valid_target st n i \<longrightarrow> res = Inr () \<or> (\<exists>e. res = Inl (Exn e)))"
proof -
  have ret: "returns (fst (execute fuel rt n a i st))"
    using assms by (rule execute_returns)
  then have "fst (execute fuel rt n a i st) \<noteq> Inl No_Return" by (simp add: returns_def)
  then have "\<forall>fuel' \<ge> fuel. execute fuel' rt n a i st = execute fuel rt n a i st"
    by (intro allI impI) (rule execute_more_fuel)
  moreover obtain res st' where e: "execute fuel rt n a i st = (res, st')" by fastforce
  ultimately have "\<forall>fuel' \<ge> fuel. execute fuel' rt n a i st = (res, st')" by simp
  moreover have "returns res" using ret e by simp
  moreover have "res = Inr () \<or> (\<exists>x. res = Inl (Exn x))" if "any_laws rt \<and> flow_inv st \<and> all_feed st \<and> valid_target st n i"
    using execute_defined [OF _ assms(1), of st n i fuel a] that e \<open>returns res\<close> by (simp add: defined_returned)
  ultimately show ?thesis by (intro exI conjI impI)
qed

text \<open>C3. Execution keeps the graph consistent whatever the user code does, exceptions and undefined
  behaviour included: kinds, policies, edges and registered producers are unchanged, and every
  aggregator's mask still agrees with the inputs it holds.\<close>

theorem execute_keeps_consistent:
  assumes "flow_inv st" "valid_target st n i"
  shows "flow_inv (snd (execute fuel rt n a i st)) \<and> same_wiring st (snd (execute fuel rt n a i st))"
  by (intro conjI execute_flow_inv [OF assms] execute_same_wiring)

text \<open>Connecting a consumer keeps the graph consistent and adds exactly one edge, at the end of the
  producer's list; an aggregator (of fewer than 30 producers) hands out an id no other edge carries.\<close>

theorem add_consumer_consistent:
  assumes "flow_inv st" "add_consumer this next st = Inr st'" "objs st this = Some nd" "objs st next = Some nx"
    "is_agg (n_kind nx) \<longrightarrow> unat (producer_count nx) < 30"
  shows "flow_inv st' \<and>
    (\<forall>n k m i. edge st' n k m i \<longleftrightarrow>
       edge st n k m i \<or> (n = this \<and> k = length (next_nodes nd) \<and> m = next \<and> i = fst (register_producer nx)))"
  using add_consumer_flow_inv [OF assms(1,2)] edge_add_consumer [OF assms(2-4)] assms(4,5) by auto

text \<open>The calls \<open>ds\<close> made one after the other from the state \<open>s\<close>, ending with \<open>out\<close>: there are the states between
  them; all calls were made and returned, or the first that failed was the last.\<close>

definition called_in_order ::
  "(nid \<Rightarrow> 'a \<Rightarrow> size_t \<Rightarrow> 's \<Rightarrow> unit result \<times> 's) \<Rightarrow> (nid \<times> size_t \<times> 'a) list \<Rightarrow> 's \<Rightarrow> unit result \<times> 's \<Rightarrow> bool" where
  "called_in_order exec ds s out \<longleftrightarrow>
     (\<exists>ss. length ss \<le> Suc (length ds) \<and> ss \<noteq> [] \<and> hd ss = s \<and>
        (\<forall>k. Suc k < length ss \<longrightarrow> (case ds ! k of (m, i, a) \<Rightarrow> exec m a i (ss ! k) = (Inr (), ss ! Suc k))) \<and>
        (if length ss = Suc (length ds) then out = (Inr (), last ss)
         else case ds ! (length ss - 1) of (m, i, a) \<Rightarrow> \<exists>e s'. exec m a i (last ss) = (Inl e, s') \<and> out = (Inl e, s')))"

lemma run_consumers_in_order: "called_in_order exec ds s (run_consumers exec ds s)"
proof (induction ds arbitrary: s)
  case Nil
  show ?case unfolding called_in_order_def by (rule exI [of _ "[s]"]) simp
next
  case (Cons d ds)
  obtain m i a where d: "d = (m, i, a)" by (cases d)
  obtain r s1 where x: "exec m a i s = (r, s1)" by fastforce
  show ?case
  proof (cases r)
    case (Inl e)
    then show ?thesis unfolding called_in_order_def using d x by (intro exI [of _ "[s]"]) simp
  next
    case (Inr u)
    obtain ss where ss: "length ss \<le> Suc (length ds)" "ss \<noteq> []" "hd ss = s1"
      "\<forall>k. Suc k < length ss \<longrightarrow> (case ds ! k of (m, i, a) \<Rightarrow> exec m a i (ss ! k) = (Inr (), ss ! Suc k))"
      "if length ss = Suc (length ds) then run_consumers exec ds s1 = (Inr (), last ss)
       else case ds ! (length ss - 1) of (m, i, a) \<Rightarrow> \<exists>e s'. exec m a i (last ss) = (Inl e, s') \<and> run_consumers exec ds s1 = (Inl e, s')"
      using Cons.IH [of s1] unfolding called_in_order_def by blast
    have steps: "case (d # ds) ! k of (m, i, a) \<Rightarrow> exec m a i ((s # ss) ! k) = (Inr (), (s # ss) ! Suc k)"
      if "Suc k < length (s # ss)" for k
    proof (cases k)
      case 0
      then show ?thesis using d x Inr ss(2,3) by (simp add: hd_conv_nth)
    next
      case (Suc k')
      then show ?thesis using ss(4) that by simp
    qed
    have run: "run_consumers exec (d # ds) s = run_consumers exec ds s1" using d x Inr by simp
    have last: "last (s # ss) = last ss" "(d # ds) ! (length (s # ss) - 1) = ds ! (length ss - 1)" using ss(2) by (cases ss; simp)+
    have len: "length (s # ss) = Suc (length (d # ds)) \<longleftrightarrow> length ss = Suc (length ds)" by simp
    show ?thesis unfolding called_in_order_def
    proof (intro exI [of _ "s # ss"] conjI allI impI)
      show "if length (s # ss) = Suc (length (d # ds)) then run_consumers exec (d # ds) s = (Inr (), last (s # ss))
        else case (d # ds) ! (length (s # ss) - 1) of (m, i, a) \<Rightarrow>
          \<exists>e s'. exec m a i (last (s # ss)) = (Inl e, s') \<and> run_consumers exec (d # ds) s = (Inl e, s')"
        unfolding run last len by (rule ss(5))
    qed (use ss(1) steps in simp_all)
  qed
qed

text \<open>C22. Fanout sends every output to every consumer, whatever the consumers are: they are executed one after the
  other in the order they were connected, each on the same value and with the id it handed out when it was
  connected, until one throws.  Where the consumers are sinks of the output's type that do not throw, each
  has then received the value exactly once.\<close>

theorem fanout_reaches_every_consumer:
  assumes "any_laws rt" "objs st n = Some nd" "\<forall>t. n_kind nd \<noteq> KSink t" "n_policy nd = Fanout" "next_nodes nd \<noteq> []"
    "process_any rt n nd a i st = (Inr (any_make rt v), st')" "any_type rt a \<noteq> TNullopt"
  shows "called_in_order (execute fuel rt) (map (\<lambda>(m, id). (m, id, any_make rt v)) (next_nodes nd)) st' (execute (Suc fuel) rt n a i st) \<and>
    (0 < fuel \<and> (\<forall>m \<in> fst ` set (next_nodes nd). sink_accepts rt st m v) \<longrightarrow> execute (Suc fuel) rt n a i st =
      (Inr (), st'\<lparr>world := receive rt (map (\<lambda>(m, i). (m, v)) (next_nodes nd)) (world st')\<rparr>))"
proof -
  let ?ts = "map (\<lambda>(m, id). (m, id, any_make rt v)) (next_nodes nd)"
  have run: "execute (Suc fuel) rt n a i st = run_consumers (execute fuel rt) ?ts st'"
    using execute_producing [OF assms(1,2) _ assms(6,7), of fuel] assms(3-5)
    by (simp add: produce_targets_def fanout_targets_map del: execute.simps)
  have "run_consumers (execute fuel rt) ?ts st' = (Inr (), st'\<lparr>world := receive rt (map (\<lambda>(m, i). (m, v)) (next_nodes nd)) (world st')\<rparr>)"
    if f: "0 < fuel" and acc: "\<forall>m \<in> fst ` set (next_nodes nd). sink_accepts rt st m v"
  proof -
    have "same_wiring st st'" using process_any_same_wiring [OF assms(2), of rt a i] assms(6) by simp
    then have "sink_accepts rt st' m w" if "(m, w) \<in> set (map (\<lambda>(m, i). (m, v)) (next_nodes nd))" for m w
    proof -
      have "m \<in> fst ` set (next_nodes nd)" "w = v" using that by force+
      then show ?thesis using acc \<open>same_wiring st st'\<close> by (blast intro: sink_accepts_same)
    qed
    then have "run_consumers (execute (Suc k) rt) ?ts st' = (Inr (), st'\<lparr>world := receive rt (map (\<lambda>(m, i). (m, v)) (next_nodes nd)) (world st')\<rparr>)" for k
      by (rule run_consumers_sinks [OF assms(1)]) (simp_all add: split_def)
    then show ?thesis using f by (cases fuel) (simp_all del: execute.simps)
  qed
  then show ?thesis unfolding run by (intro conjI impI run_consumers_in_order) simp
qed

text \<open>C32. Round robin hands element \<open>k\<close> of a vector output to consumer \<open>k\<close>, whatever the consumers are: they are
  executed in order, each on its element and with the id it handed out, until one throws; elements beyond the
  last consumer are dropped and consumers beyond the last element receive nothing.  Where those that receive
  an element are sinks of its type that do not throw, each has then received its element.\<close>

theorem round_robin_distributes:
  assumes "any_laws rt" "objs st n = Some nd" "\<forall>t. n_kind nd \<noteq> KSink t" "n_policy nd = RoundRobin"
    "output_type (n_kind nd) = TVector t"
    "process_any rt n nd a i st = (Inr (any_make rt (Vector t vs)), st')" "any_type rt a \<noteq> TNullopt"
  shows "called_in_order (execute fuel rt) (map (\<lambda>((m, id), w). (m, id, any_make rt w)) (zip (next_nodes nd) vs)) st'
      (execute (Suc fuel) rt n a i st) \<and>
    (0 < fuel \<and> (\<forall>(m, w) \<in> set (zip (map fst (next_nodes nd)) vs). sink_accepts rt st m w) \<longrightarrow> execute (Suc fuel) rt n a i st =
      (Inr (), st'\<lparr>world := receive rt (zip (map fst (next_nodes nd)) vs) (world st')\<rparr>))"
proof -
  let ?ds = "zip (map fst (next_nodes nd)) vs"
  let ?ts = "map (\<lambda>((m, id), w). (m, id, any_make rt w)) (zip (next_nodes nd) vs)"
  have "map (\<lambda>i. (fst (next_nodes nd ! i), snd (next_nodes nd ! i), any_make rt (vs ! i)))
      [0..<min (length vs) (length (next_nodes nd))] = ?ts"
    by (rule nth_equalityI) (simp_all add: split_def min.commute)
  then have "produce_targets rt nd (any_make rt (Vector t vs)) = Inr ?ts"
    using assms(4,5) by (simp add: produce_targets_def round_robin_targets_def any_cast_with_info_make [OF assms(1)] Let_def)
  then have run: "execute (Suc fuel) rt n a i st = run_consumers (execute fuel rt) ?ts st'"
    using execute_producing [OF assms(1,2) _ assms(6,7), of fuel] assms(3) by (simp del: execute.simps)
  have "run_consumers (execute fuel rt) ?ts st' = (Inr (), st'\<lparr>world := receive rt ?ds (world st')\<rparr>)"
    if f: "0 < fuel" and acc: "\<forall>(m, w) \<in> set ?ds. sink_accepts rt st m w"
  proof -
    have "same_wiring st st'" using process_any_same_wiring [OF assms(2), of rt a i] assms(6) by simp
    then have "sink_accepts rt st' m w" if "(m, w) \<in> set ?ds" for m w using that acc by (auto intro: sink_accepts_same)
    moreover have "map (\<lambda>(m, i, a). (m, a)) ?ts = map (\<lambda>(m, v). (m, any_make rt v)) ?ds"
      by (rule nth_equalityI) (simp_all add: split_def)
    ultimately show ?thesis using run_consumers_sinks [OF assms(1), of ?ds st'] f by (cases fuel) (simp_all del: execute.simps)
  qed
  then show ?thesis unfolding run by (intro conjI impI run_consumers_in_order) simp
qed

text \<open>An object that has no result does not stop the flow: its \<open>std::nullopt\<close> is produced like any
  value, and a \<open>Module\<close> connected first receives it and throws \<open>bad_any_cast_with_info\<close> (the check in
  \<open>Flow::execute\<close> looks at the type of the input, not of the output).\<close>

theorem nullopt_output_throws_in_module:
  assumes "any_laws rt" "objs st n = Some nd" "\<forall>t. n_kind nd \<noteq> KSink t" "n_policy nd = Fanout"
    "next_nodes nd = (m, j) # es"
    "process_any rt n nd a i st = (Inr (any_make rt Nullopt), st')" "any_type rt a \<noteq> TNullopt"
    "objs st m = Some md" "n_kind md = KModule in_t out_t" "in_t \<noteq> TNullopt"
  shows "fst (execute (Suc (Suc fuel)) rt n a i st) = Inl (Exn (Bad_Any_Cast TNullopt in_t))"
proof -
  have "same_wiring st st'" using process_any_same_wiring [OF assms(2), of rt a i] assms(6) by simp
  then obtain md' where "objs st' m = Some md'" "n_kind md' = KModule in_t out_t"
    using assms(8,9) by (metis same_wiring_kind same_wiring_sym)
  then have "execute (Suc fuel) rt m (any_make rt Nullopt) j st' = (Inl (Exn (Bad_Any_Cast TNullopt in_t)), st')"
    using assms(10) by (simp add: process_any_def module_process_any_def any_cast_with_info_make [OF assms(1)])
  then show ?thesis
    using execute_producing [OF assms(1,2) _ assms(6,7), of "Suc fuel"] assms(3-5)
    by (simp add: produce_targets_def fanout_targets_map del: execute.simps)
qed

text \<open>An object under the fanout policy that produces a value while nothing is connected to it has
  undefined behaviour: the loop bound \<open>next_nodes.size() - 1\<close> wraps around.\<close>

theorem fanout_without_consumers:
  assumes "any_laws rt" "objs st n = Some nd" "\<forall>t. n_kind nd \<noteq> KSink t" "n_policy nd = Fanout" "next_nodes nd = []"
    "process_any rt n nd a i st = (Inr (any_make rt v), st')" "any_type rt a \<noteq> TNullopt"
  shows "execute (Suc fuel) rt n a i st = (Inl UB, st')"
  using execute_producing [OF assms(1,2) _ assms(6,7)] assms(3-5)
  by (simp add: produce_targets_def fanout_targets_def)

section \<open>Witnesses\<close>

text \<open>A source with two sinks.\<close>

definition sample_st :: "production_policy \<Rightarrow> ctype \<Rightarrow> (int, (nid \<times> int val) list) flow_state" where
  "sample_st p out = \<lparr>objs = [0 \<mapsto> (new_node (KSource out) p)\<lparr>next_nodes := [(1, 0), (2, 0)]\<rparr>,
     1 \<mapsto> new_node (KSink tint) Fanout, 2 \<mapsto> new_node (KSink tint) Fanout], world = []\<rparr>"

lemma sample_rt_simps:
  "source_process sample_rt n u = (Inr (Some (vint 5)), u)" "sink_process sample_rt n v u = (Inr (), u @ [(n, v)])"
  by (simp_all add: sample_rt_def)

lemma user_terminates_sample_rt: "user_terminates sample_rt"
  by (simp add: user_terminates_def sample_rt_def)

lemma flow_inv_sample_st: "flow_inv (sample_st p out)"
proof -
  have "valid_target (sample_st p out) m i" if "edge (sample_st p out) n k m i" for n k m i
    using that by (auto simp: edge_def valid_target_def sample_st_def new_node_def nth_Cons' split: if_splits)
  moreover have "\<not> is_agg (n_kind md)" if "objs (sample_st p out) m = Some md" for m md
    using that by (auto simp: sample_st_def new_node_def split: if_splits)
  ultimately show ?thesis unfolding flow_inv_def by blast
qed

theorem execute_acyclic_returns_witness:
  "\<exists>res st'. (\<forall>fuel' \<ge> 2. execute fuel' sample_rt 0 None 0 (sample_st Fanout tint) = (res, st')) \<and>
    (res = Inr () \<or> (\<exists>e. res = Inl (Exn e)))"
proof -
  let ?st = "sample_st Fanout tint"
  have r: "ranked (\<lambda>n. if n = 0 then 1 else 0) ?st"
    by (auto simp: ranked_def sample_st_def new_node_def split: if_splits)
  have "all_feed ?st" by (auto simp: all_feed_def sample_st_def new_node_def split: if_splits)
  moreover have "valid_target ?st 0 0" by (simp add: valid_target_def sample_st_def new_node_def)
  moreover have "\<exists>res st'. returns res \<and> (\<forall>fuel' \<ge> 2. execute fuel' sample_rt 0 None 0 ?st = (res, st')) \<and>
    (any_laws sample_rt \<and> flow_inv ?st \<and> all_feed ?st \<and> valid_target ?st 0 0 \<longrightarrow> res = Inr () \<or> (\<exists>e. res = Inl (Exn e)))"
    by (rule execute_acyclic_returns [OF user_terminates_sample_rt r]) simp
  ultimately show ?thesis using any_laws_sample_rt flow_inv_sample_st by blast
qed

theorem execute_keeps_consistent_witness:
  "flow_inv (snd (execute 3 sample_rt 0 None 0 (sample_st Fanout tint))) \<and>
   same_wiring (sample_st Fanout tint) (snd (execute 3 sample_rt 0 None 0 (sample_st Fanout tint)))"
  by (rule execute_keeps_consistent [OF flow_inv_sample_st]) (simp add: valid_target_def sample_st_def new_node_def)

theorem add_consumer_consistent_witness:
  "\<exists>st'. add_consumer 0 2 (sample_st Fanout tint) = Inr st' \<and> flow_inv st' \<and> edge st' 0 2 2 0"
proof -
  obtain st' where st': "add_consumer 0 2 (sample_st Fanout tint) = Inr st'"
    by (simp add: add_consumer_def sample_st_def new_node_def register_producer_def)
  moreover have "objs (sample_st Fanout tint) 0 = Some ((new_node (KSource tint) Fanout)\<lparr>next_nodes := [(1, 0), (2, 0)]\<rparr>)"
    "objs (sample_st Fanout tint) 2 = Some (new_node (KSink tint) Fanout)"
    by (simp_all add: sample_st_def)
  ultimately show ?thesis
    using add_consumer_consistent [OF flow_inv_sample_st st']
    by (simp add: new_node_def register_producer_def)
qed

lemma sample_accepts: "m = 1 \<or> m = 2 \<Longrightarrow> sink_accepts sample_rt (sample_st p out) m (vint x)"
  by (auto simp: sink_accepts_def sample_st_def new_node_def sample_rt_simps)

theorem fanout_reaches_every_consumer_witness:
  "called_in_order (execute 1 sample_rt) [(1, 0, Some (vint 5)), (2, 0, Some (vint 5))] (sample_st Fanout tint)
     (execute 2 sample_rt 0 None 0 (sample_st Fanout tint)) \<and>
   execute 2 sample_rt 0 None 0 (sample_st Fanout tint) =
   (Inr (), (sample_st Fanout tint)\<lparr>world := [(1, vint 5), (2, vint 5)]\<rparr>)"
proof -
  let ?nd = "(new_node (KSource tint) Fanout)\<lparr>next_nodes := [(1, 0), (2, 0)]\<rparr> :: int node"
  let ?st = "sample_st Fanout tint"
  have o: "objs ?st 0 = Some ?nd" by (simp add: sample_st_def)
  have p: "process_any sample_rt 0 ?nd None 0 ?st = (Inr (any_make sample_rt (vint 5)), ?st)"
    by (simp add: process_any_def source_process_any_def in_world_def sample_rt_simps new_node_def)
  have "called_in_order (execute 1 sample_rt) (map (\<lambda>(m, id). (m, id, any_make sample_rt (vint 5))) (next_nodes ?nd)) ?st
      (execute (Suc 1) sample_rt 0 None 0 ?st) \<and>
    (0 < (1 :: nat) \<and> (\<forall>m \<in> fst ` set (next_nodes ?nd). sink_accepts sample_rt ?st m (vint 5)) \<longrightarrow> execute (Suc 1) sample_rt 0 None 0 ?st =
      (Inr (), ?st\<lparr>world := receive sample_rt (map (\<lambda>(m, i). (m, vint 5)) (next_nodes ?nd)) (world ?st)\<rparr>))"
    by (rule fanout_reaches_every_consumer [OF any_laws_sample_rt o _ _ _ p]) (simp_all add: new_node_def sample_rt_def)
  then have "called_in_order (execute 1 sample_rt) (map (\<lambda>(m, id). (m, id, any_make sample_rt (vint 5))) (next_nodes ?nd)) ?st
      (execute 2 sample_rt 0 None 0 ?st) \<and> execute 2 sample_rt 0 None 0 ?st =
      (Inr (), ?st\<lparr>world := receive sample_rt (map (\<lambda>(m, i). (m, vint 5)) (next_nodes ?nd)) (world ?st)\<rparr>)"
    unfolding Suc_1 by (auto simp: sample_accepts simp del: execute.simps)
  moreover have "map (\<lambda>(m, id). (m, id, any_make sample_rt (vint 5))) (next_nodes ?nd) = [(1, 0, Some (vint 5)), (2, 0, Some (vint 5))]"
    by (simp add: sample_rt_def)
  moreover have "receive sample_rt (map (\<lambda>(m, i). (m, vint 5)) (next_nodes ?nd)) (world ?st) = [(1, vint 5), (2, vint 5)]"
    by (simp add: sample_rt_simps sample_st_def)
  ultimately show ?thesis by metis
qed

definition sample_vec_rt :: "(int val option, int, (nid \<times> int val) list) runtime" where
  "sample_vec_rt = sample_rt\<lparr>source_process := (\<lambda>n u. (Inr (Some (Vector tint [vint 7, vint 8, vint 9])), u))\<rparr>"

lemma any_laws_sample_vec_rt: "any_laws sample_vec_rt"
  by (simp add: any_laws_def sample_vec_rt_def sample_rt_def opt_any_cast_def)

theorem round_robin_distributes_witness:
  "called_in_order (execute 1 sample_vec_rt) [(1, 0, Some (vint 7)), (2, 0, Some (vint 8))] (sample_st RoundRobin (TVector tint))
     (execute 2 sample_vec_rt 0 None 0 (sample_st RoundRobin (TVector tint))) \<and>
   execute 2 sample_vec_rt 0 None 0 (sample_st RoundRobin (TVector tint)) =
   (Inr (), (sample_st RoundRobin (TVector tint))\<lparr>world := [(1, vint 7), (2, vint 8)]\<rparr>)"
proof -
  let ?nd = "(new_node (KSource (TVector tint)) RoundRobin)\<lparr>next_nodes := [(1, 0), (2, 0)]\<rparr> :: int node"
  let ?st = "sample_st RoundRobin (TVector tint)" and ?vs = "[vint 7, vint 8, vint 9]"
  have same: "sink_accepts sample_vec_rt ?st m (vint x) = sink_accepts sample_rt ?st m (vint x)" for m x
    by (simp add: sink_accepts_def sample_vec_rt_def)
  have o: "objs ?st 0 = Some ?nd" by (simp add: sample_st_def)
  have p: "process_any sample_vec_rt 0 ?nd None 0 ?st = (Inr (any_make sample_vec_rt (Vector tint ?vs)), ?st)"
    by (simp add: process_any_def source_process_any_def in_world_def sample_vec_rt_def new_node_def)
  have "called_in_order (execute 1 sample_vec_rt) (map (\<lambda>((m, id), w). (m, id, any_make sample_vec_rt w)) (zip (next_nodes ?nd) ?vs)) ?st
      (execute (Suc 1) sample_vec_rt 0 None 0 ?st) \<and>
    (0 < (1 :: nat) \<and> (\<forall>(m, w) \<in> set (zip (map fst (next_nodes ?nd)) ?vs). sink_accepts sample_vec_rt ?st m w) \<longrightarrow>
      execute (Suc 1) sample_vec_rt 0 None 0 ?st =
      (Inr (), ?st\<lparr>world := receive sample_vec_rt (zip (map fst (next_nodes ?nd)) ?vs) (world ?st)\<rparr>))"
    by (rule round_robin_distributes [OF any_laws_sample_vec_rt o _ _ _ p]) (simp_all add: new_node_def sample_vec_rt_def sample_rt_def)
  then have "called_in_order (execute 1 sample_vec_rt) (map (\<lambda>((m, id), w). (m, id, any_make sample_vec_rt w)) (zip (next_nodes ?nd) ?vs)) ?st
      (execute 2 sample_vec_rt 0 None 0 ?st) \<and> execute 2 sample_vec_rt 0 None 0 ?st =
      (Inr (), ?st\<lparr>world := receive sample_vec_rt (zip (map fst (next_nodes ?nd)) ?vs) (world ?st)\<rparr>)"
    unfolding Suc_1 by (auto simp: sample_accepts same simp del: execute.simps)
  moreover have "map (\<lambda>((m, id), w). (m, id, any_make sample_vec_rt w)) (zip (next_nodes ?nd) ?vs) = [(1, 0, Some (vint 7)), (2, 0, Some (vint 8))]"
    by (simp add: sample_vec_rt_def sample_rt_def)
  moreover have "receive sample_vec_rt (zip (map fst (next_nodes ?nd)) ?vs) (world ?st) = [(1, vint 7), (2, vint 8)]"
    by (simp add: sample_vec_rt_def sample_rt_def sample_st_def)
  ultimately show ?thesis by metis
qed

text \<open>A source that has nothing to say, feeding a module; and a source that feeds nobody.\<close>

definition silent_rt :: "(int val option, int, (nid \<times> int val) list) runtime" where
  "silent_rt = sample_rt\<lparr>source_process := (\<lambda>n u. (Inr None, u))\<rparr>"

theorem nullopt_output_throws_in_module_witness:
  "fst (execute 2 silent_rt 0 None 0 \<lparr>objs = [0 \<mapsto> (new_node (KSource tint) Fanout)\<lparr>next_nodes := [(1, 0)]\<rparr>,
      1 \<mapsto> new_node (KModule tint tint) Fanout], world = []\<rparr>) = Inl (Exn (Bad_Any_Cast TNullopt tint))"
proof -
  let ?nd = "(new_node (KSource tint) Fanout)\<lparr>next_nodes := [(1, 0)]\<rparr> :: int node"
  let ?st = "\<lparr>objs = [0 \<mapsto> ?nd, 1 \<mapsto> new_node (KModule tint tint) Fanout], world = []\<rparr>"
  have laws: "any_laws silent_rt" by (simp add: any_laws_def silent_rt_def sample_rt_def opt_any_cast_def)
  have "fst (execute (Suc (Suc 0)) silent_rt 0 None 0 ?st) = Inl (Exn (Bad_Any_Cast TNullopt tint))"
  proof (rule nullopt_output_throws_in_module [OF laws])
    show "objs ?st 0 = Some ?nd" by simp
    show "process_any silent_rt 0 ?nd None 0 ?st = (Inr (any_make silent_rt Nullopt), ?st)"
      by (simp add: process_any_def source_process_any_def in_world_def silent_rt_def new_node_def)
    show "objs ?st 1 = Some (new_node (KModule tint tint) Fanout)" by simp
    show "next_nodes ?nd = (1, 0) # []" by simp
  qed (simp_all add: new_node_def silent_rt_def sample_rt_def)
  then show ?thesis by (simp add: numeral_2_eq_2 del: execute.simps)
qed

theorem fanout_without_consumers_witness:
  "execute 1 sample_rt 0 None 0 \<lparr>objs = [0 \<mapsto> new_node (KSource tint) Fanout], world = []\<rparr> =
   (Inl UB, \<lparr>objs = [0 \<mapsto> new_node (KSource tint) Fanout], world = []\<rparr>)"
proof -
  let ?nd = "new_node (KSource tint) Fanout :: int node"
  let ?st = "\<lparr>objs = [0 \<mapsto> ?nd], world = [] :: (nid \<times> int val) list\<rparr>"
  have "execute (Suc 0) sample_rt 0 None 0 ?st = (Inl UB, ?st)"
  proof (rule fanout_without_consumers [OF any_laws_sample_rt])
    show "objs ?st 0 = Some ?nd" by simp
    show "process_any sample_rt 0 ?nd None 0 ?st = (Inr (any_make sample_rt (vint 5)), ?st)"
      by (simp add: process_any_def source_process_any_def in_world_def sample_rt_simps new_node_def)
  qed (simp_all add: new_node_def sample_rt_def)
  then show ?thesis by (simp del: execute.simps)
qed

end
