(* ===== verification/Pipeline.thy ===== *)
theory Pipeline
  imports Flow_Delivery
begin

text \<open>
  \<open>core/src/flow/Pipeline.hpp\<close>: adding flow objects with automatic wiring, and starting execution.
  The lemmas follow the wiring through the three phases (sources, nodes, sinks) in which the class is
  meant to be used, and run a linear pipeline from its source to its sink.
\<close>

section \<open>The class\<close>

record pipeline =
  sources :: "nid list"
  nodes :: "nid list"

definition empty_pipeline :: pipeline where
  "empty_pipeline = \<lparr>sources = [], nodes = []\<rparr>"

text \<open>\<open>for (auto& src : sources) src->add_consumer(f)\<close>\<close>

fun connect_all :: "nid list \<Rightarrow> nid \<Rightarrow> ('p, 'u) flow_state \<Rightarrow> ('p, 'u) flow_state result" where
  "connect_all [] f st = Inr st"
| "connect_all (src # srcs) f st = rbind (add_consumer src f st) (connect_all srcs f)"

text \<open>The branch of \<open>add\<close> for nodes and sinks.\<close>

definition wire_next :: "pipeline \<Rightarrow> nid \<Rightarrow> ('p, 'u) flow_state \<Rightarrow> ('p, 'u) flow_state result" where
  "wire_next p f st =
     (if nodes p \<noteq> [] then add_consumer (last (nodes p)) f st
      else if sources p \<noteq> [] then connect_all (sources p) f st
      else Inr st)"

definition pipeline_add ::
  "nid \<Rightarrow> pipeline \<times> ('p, 'u) flow_state \<Rightarrow> nid result \<times> pipeline \<times> ('p, 'u) flow_state" where
  "pipeline_add f pst =
     (let (p, st) = pst in
      case objs st f of
        None \<Rightarrow> (Inl UB, p, st)
      | Some nd \<Rightarrow>
          case n_kind nd of
            KSource out \<Rightarrow>
              let p = p\<lparr>sources := sources p @ [f]\<rparr> in
              if nodes p \<noteq> [] then (Inl (Exn Unordered_Sources), p, st) else (Inr f, p, st)
          | KFlow c \<Rightarrow> (Inl (Exn (Unknown_Flow_Object (TClass c))), p, st)
          | k \<Rightarrow>
              case wire_next p f st of
                Inl e \<Rightarrow> (Inl e, p, st)
              | Inr st \<Rightarrow>
                  (Inr f, (case k of KSink i \<Rightarrow> p | _ \<Rightarrow> p\<lparr>nodes := nodes p @ [f]\<rparr>), st))"

text \<open>The texts of the exceptions.\<close>

definition unknown_flow_object_msg :: "(string \<Rightarrow> int \<times> string option) \<Rightarrow> (ctype \<Rightarrow> string) \<Rightarrow> ctype \<Rightarrow> string" where
  "unknown_flow_object_msg cxa_demangle type_name flow_obj =
     ''unknown_flow_object: '' @ demangle cxa_demangle (type_name flow_obj)"

definition unordered_sources_msg :: string where
  "unordered_sources_msg = ''unordered_sources: Source added after module/aggregator/sink''"

text \<open>A sequence of \<open>add\<close> calls, as a program makes them.\<close>

fun pipeline_add_all ::
  "nid list \<Rightarrow> pipeline \<times> ('p, 'u) flow_state \<Rightarrow> unit result \<times> pipeline \<times> ('p, 'u) flow_state" where
  "pipeline_add_all [] pst = (Inr (), pst)"
| "pipeline_add_all (f # fs) pst = and_then (pipeline_add f pst) (\<lambda>_ pst. pipeline_add_all fs pst)"

text \<open>\<open>for (auto& src : sources) src->execute()\<close>; the default arguments are an empty value and id 0.\<close>

definition pipeline_execute ::
  "nat \<Rightarrow> ('a, 'p, 'u) runtime \<Rightarrow> pipeline \<Rightarrow> ('p, 'u) flow_state \<Rightarrow> unit result \<times> ('p, 'u) flow_state" where
  "pipeline_execute fuel rt p st =
     (if sources p \<noteq> []
      then run_consumers (execute fuel rt) (map (\<lambda>src. (src, 0, any_empty rt)) (sources p)) st
      else if nodes p \<noteq> [] then execute fuel rt (hd (nodes p)) (any_empty rt) 0 st
      else (Inr (), st))"

section \<open>Wiring\<close>

definition succs :: "('p, 'u) flow_state \<Rightarrow> nid \<Rightarrow> nid list" where
  "succs st m = (case objs st m of None \<Rightarrow> [] | Some nd \<Rightarrow> map fst (next_nodes nd))"

definition kind_of :: "('p, 'u) flow_state \<Rightarrow> nid \<Rightarrow> kind option" where
  "kind_of st m = map_option n_kind (objs st m)"

definition policy_of :: "('p, 'u) flow_state \<Rightarrow> nid \<Rightarrow> production_policy option" where
  "policy_of st m = map_option n_policy (objs st m)"

text \<open>One connection: possible between existing objects, appends to the successors of the producer and
  changes no kind and no policy.\<close>

lemma add_consumer_wires:
  assumes "kind_of st this \<noteq> None" "kind_of st next \<noteq> None"
  obtains st' where "add_consumer this next st = Inr st'" "kind_of st' = kind_of st" "policy_of st' = policy_of st"
    "world st' = world st" "succs st' = (succs st)(this := succs st this @ [next])"
proof -
  obtain nd nx where "objs st this = Some nd" "objs st next = Some nx"
    using assms by (auto simp: kind_of_def)
  then obtain st' where st': "add_consumer this next st = Inr st'"
    by (cases "this = next") (auto simp: add_consumer_def Let_def split_def)
  obtain nd' nx' where 1: "objs st this = Some nd'" and 2: "objs st next = Some nx'" and 3: "world st' = world st"
    and 4: "\<forall>m. objs st' m = map_option (connected this next (fst (register_producer nx')) m) (objs st m)"
    using st' by (rule add_consumer_objs)
  have "kind_of st' m = kind_of st m \<and> policy_of st' m = policy_of st m \<and>
      succs st' m = ((succs st)(this := succs st this @ [next])) m" for m
    using 1 4 by (cases "objs st m") (auto simp: kind_of_def policy_of_def succs_def)
  then show thesis using that [OF st'] 3 by (simp add: fun_eq_iff)
qed

lemma connect_all_wires:
  assumes "kind_of st f \<noteq> None" "\<forall>s \<in> set ss. kind_of st s \<noteq> None" "distinct ss"
  obtains st' where "connect_all ss f st = Inr st'" "kind_of st' = kind_of st" "policy_of st' = policy_of st"
    "world st' = world st" "succs st' = (\<lambda>m. if m \<in> set ss then succs st m @ [f] else succs st m)"
  using assms
proof (induction ss arbitrary: st thesis)
  case Nil
  then show ?case by simp
next
  case (Cons s ss)
  have "kind_of st s \<noteq> None" using Cons.prems(3) by simp
  then obtain st1 where st1: "add_consumer s f st = Inr st1" "kind_of st1 = kind_of st" "policy_of st1 = policy_of st"
    "world st1 = world st" "succs st1 = (succs st)(s := succs st s @ [f])"
    using Cons.prems(2) by (rule add_consumer_wires)
  obtain st2 where "connect_all ss f st1 = Inr st2" "kind_of st2 = kind_of st1" "policy_of st2 = policy_of st1"
    "world st2 = world st1" "succs st2 = (\<lambda>m. if m \<in> set ss then succs st1 m @ [f] else succs st1 m)"
    using Cons.prems st1(2) by (auto intro: Cons.IH [of st1])
  then show ?case using st1 Cons.prems(4) by (intro Cons.prems(1) [of st2]) (auto simp: fun_eq_iff)
qed

text \<open>The successors the documentation promises: sources feed the first node, nodes form a chain, the
  last node feeds every sink; without nodes the sources feed the sinks themselves.\<close>

definition pipe_succs :: "nid list \<Rightarrow> nid list \<Rightarrow> nid list \<Rightarrow> nid \<Rightarrow> nid list" where
  "pipe_succs ss ns ks m =
     (if m \<in> set ss then (if ns = [] then ks else [hd ns])
      else if ns \<noteq> [] \<and> m = last ns then ks
      else case map_of (zip ns (tl ns)) m of Some y \<Rightarrow> [y] | None \<Rightarrow> [])"

lemma zip_tl_snoc: "ns \<noteq> [] \<Longrightarrow> zip (ns @ [f]) (tl (ns @ [f])) = zip ns (tl ns) @ [(last ns, f)]"
proof (induction ns)
  case (Cons x xs)
  then show ?case by (cases xs) auto
qed simp

lemma keys_zip_tl: "map fst (zip ns (tl ns)) = butlast ns"
  by (cases ns) (simp_all add: map_fst_zip_take butlast_conv_take)

lemma pipe_succs_add_node:
  assumes "distinct (ss @ ns @ [f])"
  shows "pipe_succs ss (ns @ [f]) [] m =
    pipe_succs ss ns [] m @ (if ns \<noteq> [] then (if m = last ns then [f] else []) else if m \<in> set ss then [f] else [])"
proof (cases "ns = []")
  case False
  have keys: "fst ` set (zip ns (tl ns)) = set (butlast ns)"
    using keys_zip_tl [of ns] by (metis list.set_map)
  have "last ns \<notin> set (butlast ns)" "last ns \<notin> set ss" "f \<notin> set (butlast ns)" "f \<noteq> last ns" "f \<notin> set ss"
    using False assms distinct_append [of "butlast ns" "[last ns]"] by (auto dest: last_in_set in_set_butlastD)
  moreover from this have "map_of (zip ns (tl ns)) (last ns) = None" "map_of (zip ns (tl ns)) f = None"
    unfolding map_of_eq_None_iff keys by simp_all
  moreover have "map_of (zip (ns @ [f]) (tl (ns @ [f]))) m = (if m = last ns then Some f else map_of (zip ns (tl ns)) m)"
    using calculation(6) unfolding zip_tl_snoc [OF False] by (simp add: map_add_def split: option.split)
  ultimately show ?thesis
    using False unfolding pipe_succs_def by (cases "m \<in> set ss"; cases "m = last ns"; cases "m = f") simp_all
qed (simp add: pipe_succs_def)

lemma pipe_succs_add_sink:
  "pipe_succs ss ns (ks @ [f]) m = pipe_succs ss ns ks m @
     (if ns \<noteq> [] then (if m \<notin> set ss \<and> m = last ns then [f] else []) else if m \<in> set ss then [f] else [])"
  by (auto simp: pipe_succs_def split: option.split)

text \<open>The state of a pipeline under construction: it has been given the sources \<open>ss\<close>, the nodes \<open>ns\<close> and
  the sinks \<open>ks\<close>, starting from the objects of \<open>st0\<close>.\<close>

definition built :: "('p, 'u) flow_state \<Rightarrow> nid list \<Rightarrow> nid list \<Rightarrow> nid list \<Rightarrow> pipeline \<times> ('p, 'u) flow_state \<Rightarrow> bool" where
  "built st0 ss ns ks pst \<longleftrightarrow>
     fst pst = \<lparr>sources = ss, nodes = ns\<rparr> \<and> kind_of (snd pst) = kind_of st0 \<and> policy_of (snd pst) = policy_of st0 \<and>
     world (snd pst) = world st0 \<and> succs (snd pst) = pipe_succs ss ns ks \<and>
     (\<forall>m \<in> set ss \<union> set ns. kind_of st0 m \<noteq> None)"

fun is_source :: "kind \<Rightarrow> bool" where
  "is_source (KSource out) = True" | "is_source k = False"

fun is_node :: "kind \<Rightarrow> bool" where
  "is_node (KModule i out) = True" | "is_node (KAggregator i out) = True" | "is_node k = False"

fun is_sink :: "kind \<Rightarrow> bool" where
  "is_sink (KSink i) = True" | "is_sink k = False"

definition has_kind :: "(kind \<Rightarrow> bool) \<Rightarrow> ('p, 'u) flow_state \<Rightarrow> nid \<Rightarrow> bool" where
  "has_kind P st m \<longleftrightarrow> (\<exists>k. kind_of st m = Some k \<and> P k)"

lemma built_object:
  assumes "built st0 ss ns ks pst" "has_kind P st0 f"
  obtains nd where "objs (snd pst) f = Some nd" "P (n_kind nd)"
proof -
  from assms have "kind_of (snd pst) f = kind_of st0 f" by (simp add: built_def)
  with assms(2) obtain k where "map_option n_kind (objs (snd pst) f) = Some k" "P k"
    by (auto simp: has_kind_def kind_of_def)
  then show thesis using that by auto
qed

lemma wire_next_built:
  assumes "built st0 ss ns ks pst" "distinct (ss @ ns)" "kind_of st0 f \<noteq> None"
  obtains st' where "wire_next (fst pst) f (snd pst) = Inr st'" "kind_of st' = kind_of st0"
    "policy_of st' = policy_of st0" "world st' = world st0"
    "succs st' = (\<lambda>m. pipe_succs ss ns ks m @
       (if ns \<noteq> [] then (if m = last ns then [f] else []) else if m \<in> set ss then [f] else []))"
proof (cases "ns = []")
  case False
  have "last ns \<in> set ns" using False by simp
  then have "kind_of (snd pst) (last ns) \<noteq> None" "kind_of (snd pst) f \<noteq> None"
    using assms unfolding built_def by (metis UnI2) (metis assms(1,3) built_def)
  then obtain st' where "add_consumer (last ns) f (snd pst) = Inr st'" "kind_of st' = kind_of (snd pst)"
    "policy_of st' = policy_of (snd pst)" "world st' = world (snd pst)"
    "succs st' = (succs (snd pst))(last ns := succs (snd pst) (last ns) @ [f])"
    by (rule add_consumer_wires)
  with assms(1) False show thesis by (intro that [of st']) (auto simp: wire_next_def built_def fun_eq_iff)
next
  case True
  have "kind_of (snd pst) f \<noteq> None" "\<forall>s \<in> set ss. kind_of (snd pst) s \<noteq> None" "distinct ss"
    using assms by (simp_all add: built_def)
  then obtain st' where "connect_all ss f (snd pst) = Inr st'" "kind_of st' = kind_of (snd pst)"
    "policy_of st' = policy_of (snd pst)" "world st' = world (snd pst)"
    "succs st' = (\<lambda>m. if m \<in> set ss then succs (snd pst) m @ [f] else succs (snd pst) m)"
    by (rule connect_all_wires)
  with assms(1) True show thesis by (intro that [of st']) (auto simp: wire_next_def built_def fun_eq_iff)
qed

lemma pipeline_add_source:
  assumes "built st0 ss [] [] pst" "has_kind is_source st0 f"
  shows "\<exists>pst'. pipeline_add f pst = (Inr f, pst') \<and> built st0 (ss @ [f]) [] [] pst'"
proof -
  obtain out nd where "objs (snd pst) f = Some nd" "n_kind nd = KSource out"
    using built_object [OF assms] by (metis is_source.elims(2))
  then show ?thesis
    using assms by (cases pst) (auto simp: pipeline_add_def built_def pipe_succs_def has_kind_def Let_def fun_eq_iff)
qed

lemma pipeline_add_node:
  assumes "built st0 ss ns [] pst" "has_kind is_node st0 f" "distinct (ss @ ns @ [f])"
  shows "\<exists>pst'. pipeline_add f pst = (Inr f, pst') \<and> built st0 ss (ns @ [f]) [] pst'"
proof -
  obtain nd where nd: "objs (snd pst) f = Some nd" "is_node (n_kind nd)"
    using assms(1,2) by (rule built_object)
  have ex: "kind_of st0 f \<noteq> None" using assms(2) by (auto simp: has_kind_def)
  have d: "distinct (ss @ ns)" using assms(3) by simp
  obtain st' where st': "wire_next (fst pst) f (snd pst) = Inr st'" "kind_of st' = kind_of st0"
    "policy_of st' = policy_of st0" "world st' = world st0"
    "succs st' = (\<lambda>m. pipe_succs ss ns [] m @
       (if ns \<noteq> [] then (if m = last ns then [f] else []) else if m \<in> set ss then [f] else []))"
    using assms(1) d ex by (rule wire_next_built)
  have "succs st' = pipe_succs ss (ns @ [f]) []"
    using st'(5) pipe_succs_add_node [OF assms(3)] by (simp add: fun_eq_iff)
  then have "built st0 ss (ns @ [f]) [] (\<lparr>sources = ss, nodes = ns @ [f]\<rparr>, st')"
    using assms(1) ex st' by (auto simp: built_def)
  moreover have "pipeline_add f pst = (Inr f, \<lparr>sources = ss, nodes = ns @ [f]\<rparr>, st')"
    using nd st'(1) assms(1) by (cases pst) (auto simp: pipeline_add_def built_def elim!: is_node.elims)
  ultimately show ?thesis by blast
qed

lemma pipeline_add_sink:
  assumes "built st0 ss ns ks pst" "has_kind is_sink st0 f" "distinct (ss @ ns)"
  shows "\<exists>pst'. pipeline_add f pst = (Inr f, pst') \<and> built st0 ss ns (ks @ [f]) pst'"
proof -
  obtain nd where nd: "objs (snd pst) f = Some nd" "is_sink (n_kind nd)"
    using assms(1,2) by (rule built_object)
  have ex: "kind_of st0 f \<noteq> None" using assms(2) by (auto simp: has_kind_def)
  obtain st' where st': "wire_next (fst pst) f (snd pst) = Inr st'" "kind_of st' = kind_of st0"
    "policy_of st' = policy_of st0" "world st' = world st0"
    "succs st' = (\<lambda>m. pipe_succs ss ns ks m @
       (if ns \<noteq> [] then (if m = last ns then [f] else []) else if m \<in> set ss then [f] else []))"
    using assms(1,3) ex by (rule wire_next_built)
  have "ns \<noteq> [] \<Longrightarrow> last ns \<notin> set ss" using assms(3) by (auto dest: last_in_set)
  then have "succs st' = pipe_succs ss ns (ks @ [f])"
    using st'(5) pipe_succs_add_sink [of ss ns ks f] by (auto simp: fun_eq_iff)
  then have "built st0 ss ns (ks @ [f]) (fst pst, st')"
    using assms(1) st' by (auto simp: built_def)
  moreover have "pipeline_add f pst = (Inr f, fst pst, st')"
    using nd st'(1) by (cases pst) (auto simp: pipeline_add_def elim!: is_sink.elims)
  ultimately show ?thesis by blast
qed

lemma pipeline_add_all_append:
  "pipeline_add_all (xs @ ys) pst = and_then (pipeline_add_all xs pst) (\<lambda>_ pst. pipeline_add_all ys pst)"
proof (induction xs arbitrary: pst)
  case (Cons x xs)
  show ?case by (cases "pipeline_add x pst"; cases "fst (pipeline_add x pst)") (auto simp: Cons.IH)
qed simp

lemma add_all_sources:
  "built st0 ss [] [] pst \<Longrightarrow> (\<And>f. f \<in> set fs \<Longrightarrow> has_kind is_source st0 f) \<Longrightarrow>
   \<exists>pst'. pipeline_add_all fs pst = (Inr (), pst') \<and> built st0 (ss @ fs) [] [] pst'"
proof (induction fs arbitrary: ss pst)
  case (Cons f fs)
  have "has_kind is_source st0 f" using Cons.prems(2) by simp
  with Cons.prems(1) obtain pst1 where p: "pipeline_add f pst = (Inr f, pst1)" "built st0 (ss @ [f]) [] [] pst1"
    using pipeline_add_source by blast
  from p(2) have "\<exists>pst'. pipeline_add_all fs pst1 = (Inr (), pst') \<and> built st0 ((ss @ [f]) @ fs) [] [] pst'"
    by (rule Cons.IH) (simp add: Cons.prems(2))
  then show ?case using p(1) by simp
qed simp

lemma add_all_nodes:
  "built st0 ss ns [] pst \<Longrightarrow> (\<And>f. f \<in> set fs \<Longrightarrow> has_kind is_node st0 f) \<Longrightarrow> distinct (ss @ ns @ fs) \<Longrightarrow>
   \<exists>pst'. pipeline_add_all fs pst = (Inr (), pst') \<and> built st0 ss (ns @ fs) [] pst'"
proof (induction fs arbitrary: ns pst)
  case (Cons f fs)
  have f: "has_kind is_node st0 f" "distinct (ss @ ns @ [f])" using Cons.prems(2,3) by auto
  then obtain pst1 where p: "pipeline_add f pst = (Inr f, pst1)" "built st0 ss (ns @ [f]) [] pst1"
    using pipeline_add_node [OF Cons.prems(1) f] by blast
  from p(2) have "\<exists>pst'. pipeline_add_all fs pst1 = (Inr (), pst') \<and> built st0 ss ((ns @ [f]) @ fs) [] pst'"
    by (rule Cons.IH) (use Cons.prems(2,3) in simp_all)
  then show ?case using p(1) by simp
qed simp

lemma add_all_sinks:
  "built st0 ss ns ks pst \<Longrightarrow> (\<And>f. f \<in> set fs \<Longrightarrow> has_kind is_sink st0 f) \<Longrightarrow> distinct (ss @ ns) \<Longrightarrow>
   \<exists>pst'. pipeline_add_all fs pst = (Inr (), pst') \<and> built st0 ss ns (ks @ fs) pst'"
proof (induction fs arbitrary: ks pst)
  case (Cons f fs)
  have f: "has_kind is_sink st0 f" using Cons.prems(2) by simp
  then obtain pst1 where p: "pipeline_add f pst = (Inr f, pst1)" "built st0 ss ns (ks @ [f]) pst1"
    using pipeline_add_sink [OF Cons.prems(1) f Cons.prems(3)] by blast
  from p(2) have "\<exists>pst'. pipeline_add_all fs pst1 = (Inr (), pst') \<and> built st0 ss ns ((ks @ [f]) @ fs) pst'"
    by (rule Cons.IH) (use Cons.prems(2,3) in simp_all)
  then show ?case using p(1) by simp
qed simp

lemma add_all_built:
  assumes "\<forall>f \<in> set ss. has_kind is_source st f" "\<forall>f \<in> set ns. has_kind is_node st f"
    "\<forall>f \<in> set ks. has_kind is_sink st f" "distinct (ss @ ns)" "\<forall>m. succs st m = []"
  shows "\<exists>pst. pipeline_add_all (ss @ ns @ ks) (empty_pipeline, st) = (Inr (), pst) \<and> built st ss ns ks pst"
proof -
  have "built st [] [] [] (empty_pipeline, st)"
    using assms(5) by (auto simp: built_def empty_pipeline_def pipe_succs_def fun_eq_iff)
  then have "\<exists>p1. pipeline_add_all ss (empty_pipeline, st) = (Inr (), p1) \<and> built st ([] @ ss) [] [] p1"
    by (rule add_all_sources) (simp add: assms(1))
  then obtain p1 where p1: "pipeline_add_all ss (empty_pipeline, st) = (Inr (), p1)" "built st ss [] [] p1"
    by auto
  from p1(2) have "\<exists>p2. pipeline_add_all ns p1 = (Inr (), p2) \<and> built st ss ([] @ ns) [] p2"
    by (rule add_all_nodes) (use assms(2,4) in simp_all)
  then obtain p2 where p2: "pipeline_add_all ns p1 = (Inr (), p2)" "built st ss ns [] p2"
    by auto
  from p2(2) have "\<exists>p3. pipeline_add_all ks p2 = (Inr (), p3) \<and> built st ss ns ([] @ ks) p3"
    by (rule add_all_sinks) (use assms(3,4) in simp_all)
  then show ?thesis using p1(1) p2(1) by (auto simp: pipeline_add_all_append)
qed

section \<open>A linear pipeline\<close>

text \<open>What a chain of modules and a sink make of a value: each module's result is the next one's input;
  \<open>None\<close> where a type does not fit, an object throws or has no result.\<close>

fun chain :: "('a, 'p, 'u) runtime \<Rightarrow> (nid \<Rightarrow> kind option) \<Rightarrow> nid list \<Rightarrow> nid \<Rightarrow> 'p val \<Rightarrow> 'u \<Rightarrow> 'u option" where
  "chain rt kd [] k v u =
     (if kd k = Some (KSink (typeof v)) \<and> v \<noteq> Nullopt
      then (case sink_process rt k v u of (Inr _, u') \<Rightarrow> Some u' | _ \<Rightarrow> None) else None)"
| "chain rt kd (m # ms) k v u =
     (case kd m of
        Some (KModule i out) \<Rightarrow>
          if i = typeof v \<and> v \<noteq> Nullopt
          then (case module_process rt m v u of (Inr (Some w), u') \<Rightarrow> chain rt kd ms k w u' | _ \<Rightarrow> None) else None
      | _ \<Rightarrow> None)"

definition linked :: "('p, 'u) flow_state \<Rightarrow> nid list \<Rightarrow> bool" where
  "linked st xs \<longleftrightarrow> (\<forall>i. Suc i < length xs \<longrightarrow> succs st (xs ! i) = [xs ! Suc i])"

lemma linked_Cons: "linked st (x # y # zs) \<Longrightarrow> succs st x = [y] \<and> linked st (y # zs)"
  by (force simp: linked_def)

lemma world_update_simps [simp]:
  "succs (st\<lparr>world := u\<rparr>) = succs st" "kind_of (st\<lparr>world := u\<rparr>) = kind_of st"
  "policy_of (st\<lparr>world := u\<rparr>) = policy_of st" "linked (st\<lparr>world := u\<rparr>) xs = linked st xs"
  by (auto simp: succs_def kind_of_def policy_of_def linked_def fun_eq_iff)

lemma typeof_nullopt [simp]: "typeof v = TNullopt \<longleftrightarrow> v = Nullopt"
  by (cases v) auto

lemma fanout_single:
  assumes "any_laws rt" "objs st n = Some nd" "\<And>t. n_kind nd \<noteq> KSink t" "policy_of st n = Some Fanout" "succs st n = [m]"
    "process_any rt n nd a i st = (Inr (any_make rt v), st')" "any_type rt a \<noteq> TNullopt"
    "\<And>j. execute fuel rt m (any_make rt v) j st' = (Inr (), st'')"
  shows "execute (Suc fuel) rt n a i st = (Inr (), st'')"
proof -
  obtain j where "next_nodes nd = [(m, j)]" using assms(2,5) by (auto simp: succs_def)
  moreover have "n_policy nd = Fanout" using assms(2,4) by (simp add: policy_of_def)
  ultimately show ?thesis
    using execute_producing [OF assms(1-3,6,7), of fuel] assms(8)
    by (simp add: produce_targets_def fanout_targets_map del: execute.simps)
qed

lemma chain_NilE:
  assumes "chain rt kd [] k v u = Some u'"
  shows "kd k = Some (KSink (typeof v)) \<and> v \<noteq> Nullopt \<and> sink_process rt k v u = (Inr (), u')"
proof -
  have 1: "kd k = Some (KSink (typeof v)) \<and> v \<noteq> Nullopt" using assms by (simp split: if_split_asm)
  obtain r w where p: "sink_process rt k v u = (r, w)" by (cases "sink_process rt k v u")
  from assms 1 p show ?thesis by (cases r) simp_all
qed

lemma chain_ConsE:
  assumes "chain rt kd (m # ms) k v u = Some u'"
  shows "\<exists>out w u1. kd m = Some (KModule (typeof v) out) \<and> v \<noteq> Nullopt \<and>
    module_process rt m v u = (Inr (Some w), u1) \<and> chain rt kd ms k w u1 = Some u'"
proof -
  obtain t out where 1: "kd m = Some (KModule t out)"
    using assms by (simp split: option.split_asm kind.split_asm)
  have 2: "t = typeof v \<and> v \<noteq> Nullopt" using assms 1 by (simp split: if_split_asm)
  obtain r u1 where p: "module_process rt m v u = (r, u1)" by (cases "module_process rt m v u")
  show ?thesis
  proof (cases r)
    case (Inl e)
    then show ?thesis using assms 1 2 p by simp
  next
    case (Inr o1)
    then show ?thesis using assms 1 2 p by (cases o1) simp_all
  qed
qed

lemma linked_tl: "linked st (x # ys) \<Longrightarrow> ys \<noteq> [] \<Longrightarrow> succs st x = [hd ys] \<and> linked st ys"
  using linked_Cons [of st x "hd ys" "tl ys"] by simp

lemma execute_chain:
  assumes "any_laws rt"
  shows "chain rt (kind_of st) ms k v (world st) = Some u \<Longrightarrow> linked st (ms @ [k]) \<Longrightarrow>
    (\<forall>m \<in> set ms. policy_of st m = Some Fanout) \<Longrightarrow>
    execute (Suc (length ms)) rt (hd (ms @ [k])) (any_make rt v) i st = (Inr (), st\<lparr>world := u\<rparr>)"
proof (induction ms arbitrary: v st i)
  case Nil
  note k = chain_NilE [OF Nil.prems(1)]
  then obtain nd where nd: "objs st k = Some nd" "n_kind nd = KSink (typeof v)"
    by (auto simp: kind_of_def)
  from k have "sink_process rt k v (world st) = (Inr (), u)" by simp
  from in_world_Inr [of "sink_process rt k v", OF this] show ?case
    using nd k by (simp add: sink_execute_def sink_process_any_def any_simps [OF assms] any_cast_with_info_make [OF assms])
next
  case (Cons m ms)
  obtain out w u' where m: "kind_of st m = Some (KModule (typeof v) out)" "v \<noteq> Nullopt"
    "module_process rt m v (world st) = (Inr (Some w), u')" "chain rt (kind_of st) ms k w u' = Some u"
    using chain_ConsE [OF Cons.prems(1)] by blast
  then obtain md where md: "objs st m = Some md" "n_kind md = KModule (typeof v) out"
    by (auto simp: kind_of_def)
  have link: "succs st m = [hd (ms @ [k])]" "linked st (ms @ [k])"
    using linked_tl [of st m "ms @ [k]"] Cons.prems(2) by simp_all
  have p: "process_any rt m md (any_make rt v) i st = (Inr (any_make rt w), st\<lparr>world := u'\<rparr>)"
    using md m(2) in_world_Inr [of "module_process rt m v", OF m(3)]
    by (simp add: process_any_def module_process_any_def any_cast_with_info_make [OF assms]
        any_simps [OF assms])
  have IH: "execute (Suc (length ms)) rt (hd (ms @ [k])) (any_make rt w) j (st\<lparr>world := u'\<rparr>) = (Inr (), st\<lparr>world := u\<rparr>)" for j
    using Cons.IH [of "st\<lparr>world := u'\<rparr>" w j] m(4) link(2) Cons.prems(3) by (simp del: execute.simps)
  have "execute (Suc (Suc (length ms))) rt m (any_make rt v) i st = (Inr (), st\<lparr>world := u\<rparr>)"
    by (rule fanout_single [OF assms md(1) _ _ link(1) p _ IH])
      (use md m Cons.prems(3) in \<open>simp_all add: any_simps [OF assms]\<close>)
  then show ?case by (simp del: execute.simps)
qed

text \<open>The wiring of a pipeline of one source, modules and one sink is the chain of its objects.\<close>

lemma pipe_succs_linked:
  assumes "distinct (s # ms @ [k])" "succs st = pipe_succs [s] ms [k]"
  shows "linked st (s # ms @ [k])"
  unfolding linked_def
proof (intro allI impI)
  fix i assume i: "Suc i < length (s # ms @ [k])"
  show "succs st ((s # ms @ [k]) ! i) = [(s # ms @ [k]) ! Suc i]"
  proof (cases i)
    case 0
    then show ?thesis using assms(2) by (cases ms) (simp_all add: pipe_succs_def)
  next
    case (Suc j)
    with i have j: "j < length ms" by simp
    then have ne: "ms \<noteq> []" and s: "ms ! j \<noteq> s" using assms(1) by auto
    have d: "distinct ms" using assms(1) by simp
    have l: "ms ! j = last ms \<longleftrightarrow> Suc j = length ms"
      using nth_eq_iff_index_eq [OF d j, of "length ms - 1"] j ne by (auto simp: last_conv_nth)
    show ?thesis
    proof (cases "Suc j = length ms")
      case True
      then have "ms ! j = last ms" "(ms @ [k]) ! Suc j = k" "(ms @ [k]) ! j = ms ! j" using l j by (simp_all add: nth_append)
      moreover have "last ms \<noteq> s" using calculation(1) s by simp
      ultimately show ?thesis using Suc ne assms(2) by (simp only: pipe_succs_def nth_Cons_Suc) simp
    next
      case False
      then have j': "Suc j < length ms" using j by simp
      have "distinct (map fst (zip ms (tl ms)))" using d by (simp add: keys_zip_tl distinct_butlast)
      moreover have "(ms ! j, ms ! Suc j) \<in> set (zip ms (tl ms))"
        using j' by (auto simp: set_zip nth_tl intro!: exI [of _ j])
      ultimately have "map_of (zip ms (tl ms)) (ms ! j) = Some (ms ! Suc j)" by simp
      then show ?thesis using Suc j' ne s l False assms(2) by (simp add: pipe_succs_def nth_append)
    qed
  qed
qed

section \<open>Properties\<close>

text \<open>C9. Adding all sources, then all nodes, then all sinks succeeds and wires the objects as documented: every source feeds the first
  node, the nodes form a chain, the last node feeds every sink, and without nodes every source feeds every sink; kinds,
  policies and the rest of the world are unchanged.\<close>

theorem pipeline_wiring:
  assumes "\<forall>f \<in> set ss. has_kind is_source st f" "\<forall>f \<in> set ns. has_kind is_node st f"
    "\<forall>f \<in> set ks. has_kind is_sink st f" "distinct (ss @ ns)" "\<forall>m. succs st m = []"
  shows "\<exists>st'. pipeline_add_all (ss @ ns @ ks) (empty_pipeline, st) = (Inr (), \<lparr>sources = ss, nodes = ns\<rparr>, st') \<and>
    succs st' = pipe_succs ss ns ks \<and> kind_of st' = kind_of st \<and> policy_of st' = policy_of st \<and> world st' = world st"
proof -
  obtain pst where "pipeline_add_all (ss @ ns @ ks) (empty_pipeline, st) = (Inr (), pst)" "built st ss ns ks pst"
    using add_all_built [OF assms] by blast
  then show ?thesis by (cases pst) (simp add: built_def)
qed

text \<open>Two runs of a source: with a value, through the modules into the sink; without one, which a sink ignores.\<close>

lemma execute_line:
  assumes "any_laws rt" "linked st (s # ms @ [k])" "kind_of st s = Some (KSource out)"
    "\<forall>m \<in> set (s # ms). policy_of st m = Some Fanout"
    "source_process rt s (world st) = (Inr (Some v), u1)" "chain rt (kind_of st) ms k v u1 = Some u2"
  shows "execute (Suc (Suc (length ms))) rt s (any_empty rt) 0 st = (Inr (), st\<lparr>world := u2\<rparr>)"
proof -
  have link: "succs st s = [hd (ms @ [k])]" "linked st (ms @ [k])"
    using linked_tl [OF assms(2)] by simp_all
  obtain nd where nd: "objs st s = Some nd" "n_kind nd = KSource out"
    using assms(3) by (auto simp: kind_of_def)
  from in_world_Inr [of "source_process rt s", OF assms(5)]
  have p: "process_any rt s nd (any_empty rt) 0 st = (Inr (any_make rt v), st\<lparr>world := u1\<rparr>)"
    using nd by (simp add: process_any_def source_process_any_def)
  have run: "execute (Suc (length ms)) rt (hd (ms @ [k])) (any_make rt v) j (st\<lparr>world := u1\<rparr>) = (Inr (), st\<lparr>world := u2\<rparr>)" for j
    using execute_chain [OF assms(1), of "st\<lparr>world := u1\<rparr>" ms k v u2 j] assms(4,6) link(2)
    by (simp del: execute.simps)
  show ?thesis
    by (rule fanout_single [OF assms(1) nd(1) _ _ link(1) p _ run])
      (use nd assms(1,4) in \<open>simp_all add: any_simps\<close>)
qed

lemma execute_line_none:
  assumes "any_laws rt" "succs st s = [k]" "kind_of st s = Some (KSource out)" "policy_of st s = Some Fanout"
    "kind_of st k = Some (KSink i)" "source_process rt s (world st) = (Inr None, u)"
  shows "execute (Suc (Suc n)) rt s (any_empty rt) 0 st = (Inr (), st\<lparr>world := u\<rparr>)"
proof -
  obtain nd kd where nd: "objs st s = Some nd" "n_kind nd = KSource out" "objs st k = Some kd" "n_kind kd = KSink i"
    using assms(3,5) by (auto simp: kind_of_def)
  from in_world_Inr [of "source_process rt s", OF assms(6)]
  have p: "process_any rt s nd (any_empty rt) 0 st = (Inr (any_make rt Nullopt), st\<lparr>world := u\<rparr>)"
    using nd by (simp add: process_any_def source_process_any_def)
  have run: "execute (Suc n) rt k (any_make rt Nullopt) j (st\<lparr>world := u\<rparr>) = (Inr (), st\<lparr>world := u\<rparr>)" for j
    using nd by (simp add: sink_execute_def any_simps [OF assms(1)])
  show ?thesis
    by (rule fanout_single [OF assms(1) nd(1) _ _ assms(2) p _ run])
      (use nd assms(1,4) in \<open>simp_all add: any_simps\<close>)
qed

lemma pipeline_chain_run:
  assumes "any_laws rt" "distinct (s # ms @ [k])" "\<forall>m. succs st m = []"
    "has_kind is_source st s" "\<forall>m \<in> set ms. has_kind is_node st m" "has_kind is_sink st k"
    "\<forall>m \<in> set (s # ms). policy_of st m = Some Fanout"
    "source_process rt s (world st) = (Inr (Some v), u1)" "chain rt (kind_of st) ms k v u1 = Some u2"
  shows "\<exists>p st'. pipeline_add_all (s # ms @ [k]) (empty_pipeline, st) = (Inr (), p, st') \<and>
    pipeline_execute (length ms + 2) rt p st' = (Inr (), st'\<lparr>world := u2\<rparr>)"
proof -
  have "\<exists>pst. pipeline_add_all ([s] @ ms @ [k]) (empty_pipeline, st) = (Inr (), pst) \<and> built st [s] ms [k] pst"
    by (rule add_all_built) (use assms in simp_all)
  then obtain p st' where add: "pipeline_add_all (s # ms @ [k]) (empty_pipeline, st) = (Inr (), p, st')"
    and b: "built st [s] ms [k] (p, st')" by auto
  have kd: "kind_of st' = kind_of st" "policy_of st' = policy_of st" "world st' = world st"
    "succs st' = pipe_succs [s] ms [k]" "sources p = [s]"
    using b by (auto simp: built_def)
  obtain out where out: "kind_of st' s = Some (KSource out)"
    using assms(4) kd(1) by (auto simp: has_kind_def elim!: is_source.elims)
  have "execute (Suc (Suc (length ms))) rt s (any_empty rt) 0 st' = (Inr (), st'\<lparr>world := u2\<rparr>)"
    by (rule execute_line [OF assms(1) pipe_succs_linked [OF assms(2) kd(4)] out])
      (use assms(7-9) kd in \<open>simp_all del: execute.simps\<close>)
  then show ?thesis using add kd(5) by (auto simp: pipeline_execute_def simp del: execute.simps)
qed

text \<open>C19. A linear pipeline (one source, any number of modules, one sink, all with the fanout policy) runs its source once and
  pushes the value through every module, in order, into the sink; nothing else happens.  A recursion depth of the number of
  modules plus two is enough.\<close>

theorem pipeline_chain:
  assumes "any_laws rt" "distinct (s # ms @ [k])" "\<forall>m. succs st m = []"
    "has_kind is_source st s" "\<forall>m \<in> set ms. has_kind is_node st m" "has_kind is_sink st k"
    "\<forall>m \<in> set (s # ms). policy_of st m = Some Fanout"
    "source_process rt s (world st) = (Inr (Some v), u1)" "chain rt (kind_of st) ms k v u1 = Some u2"
  shows "\<exists>p st'. pipeline_add_all (s # ms @ [k]) (empty_pipeline, st) = (Inr (), p, st') \<and>
    pipeline_execute (length ms + 2) rt p st' = (Inr (), st'\<lparr>world := u2\<rparr>)"
  using assms by (rule pipeline_chain_run)

text \<open>A source added after a node is refused with \<open>unordered_sources\<close>, but it has been appended to the pipeline's sources all
  the same, unconnected: the next \<open>execute\<close> starts it first-class with the others.\<close>

theorem late_source_throws_but_stays:
  assumes "has_kind is_source st f" "nodes p \<noteq> []"
  shows "pipeline_add f (p, st) = (Inl (Exn Unordered_Sources), p\<lparr>sources := sources p @ [f]\<rparr>, st)"
proof -
  obtain nd out where "objs st f = Some nd" "n_kind nd = KSource out"
    using assms(1) by (auto simp: has_kind_def kind_of_def elim!: is_source.elims)
  then show ?thesis using assms(2) by (simp add: pipeline_add_def)
qed

subsection \<open>Concrete instances\<close>

definition line_st :: "(int, (nid \<times> int val) list) flow_state" where
  "line_st = \<lparr>objs = [0 \<mapsto> new_node (KSource tint) Fanout, 1 \<mapsto> new_node (KModule tint tint) Fanout,
     2 \<mapsto> new_node (KSink tint) Fanout], world = []\<rparr>"

lemma line_st_facts:
  "kind_of line_st = [0 \<mapsto> KSource tint, 1 \<mapsto> KModule tint tint, 2 \<mapsto> KSink tint]"
  "\<forall>m. succs line_st m = []" "policy_of line_st = [0 \<mapsto> Fanout, 1 \<mapsto> Fanout, 2 \<mapsto> Fanout]" "world line_st = []"
  by (auto simp: kind_of_def succs_def policy_of_def line_st_def new_node_def fun_eq_iff)

lemma line_st_kinds:
  "has_kind is_source line_st 0" "has_kind is_node line_st 1" "has_kind is_sink line_st 2"
  by (simp_all add: has_kind_def line_st_facts)

theorem pipeline_wiring_witness:
  "\<exists>st'. pipeline_add_all ([0] @ [1] @ [2]) (empty_pipeline, line_st) = (Inr (), \<lparr>sources = [0], nodes = [1]\<rparr>, st') \<and>
    succs st' = pipe_succs [0] [1] [2] \<and> kind_of st' = kind_of line_st \<and> policy_of st' = policy_of line_st \<and>
    world st' = world line_st"
  by (rule pipeline_wiring) (simp_all add: line_st_kinds line_st_facts(2) del: One_nat_def)

theorem pipeline_chain_witness:
  "\<exists>p st'. pipeline_add_all (0 # [1] @ [2]) (empty_pipeline, line_st) = (Inr (), p, st') \<and>
    pipeline_execute (length [1::nat] + 2) sample_rt p st' = (Inr (), st'\<lparr>world := [(2, vint 6)]\<rparr>)"
proof (rule pipeline_chain [OF any_laws_sample_rt])
  show "source_process sample_rt 0 (world line_st) = (Inr (Some (vint 5)), [])"
    by (simp add: sample_rt_simps line_st_facts)
  show "chain sample_rt (kind_of line_st) [1] 2 (vint 5) [] = Some [(2, vint 6)]"
    by (simp add: line_st_facts sample_rt_def)
qed (simp_all add: line_st_kinds line_st_facts del: One_nat_def)

theorem late_source_throws_but_stays_witness:
  "pipeline_add 0 (\<lparr>sources = [], nodes = [1]\<rparr>, line_st) =
   (Inl (Exn Unordered_Sources), \<lparr>sources = [0], nodes = [1]\<rparr>, line_st)"
  using late_source_throws_but_stays [OF line_st_kinds(1), of "\<lparr>sources = [], nodes = [1]\<rparr>"] by simp

end
