(* ===== verification/Mission.thy ===== *)
theory Mission
  imports Pipeline Queue_Props
begin

text \<open>
  \<open>core/src/flow/Mission.hpp\<close> and \<open>Mission.cpp\<close>: missions of several pipelines, connected
  automatically through queues.  The queues and the queue modules made by a mission live in the world
  that the \<open>process\<close> methods act on; the remaining user code is a parameter as before.
\<close>

section \<open>Deducing the element type of a queue\<close>

fun get_input_type_from_first_flow :: "kind list \<Rightarrow> ctype" where
  "get_input_type_from_first_flow [] = TVoid"
| "get_input_type_from_first_flow (First # Rest) = input_type First"

fun get_output_type_from_last_flow :: "kind list \<Rightarrow> ctype" where
  "get_output_type_from_last_flow [] = TVoid"
| "get_output_type_from_last_flow [T] = output_type T"
| "get_output_type_from_last_flow (T # Rest) = get_output_type_from_last_flow Rest"

section \<open>The world of a mission\<close>

text \<open>\<open>queue_heap\<close>: the queue objects that shared pointers name; \<open>queue_of\<close>: the queue a \<open>QueueSource\<close> or
  \<open>QueueSink\<close> was constructed with; \<open>next_obj\<close> and \<open>next_queue\<close> name the next objects made.\<close>

record ('p, 'w) m_world =
  queue_heap :: "nat \<Rightarrow> 'p val queue_obj option"
  queue_of :: "nid \<Rightarrow> nat option"
  next_queue :: nat
  next_obj :: nid
  user_world :: 'w

text \<open>Run an operation on a queue of the heap.\<close>

definition on_queue ::
  "nat \<Rightarrow> ('p val queue_obj \<Rightarrow> 'r result \<times> 'p val queue_obj) \<Rightarrow> ('p, 'w) m_world \<Rightarrow> 'r result \<times> ('p, 'w) m_world" where
  "on_queue qid f u =
     (case queue_heap u qid of
        None \<Rightarrow> (Inl UB, u)
      | Some q \<Rightarrow> let (r, q) = f q in (r, u\<lparr>queue_heap := (queue_heap u)(qid \<mapsto> q)\<rparr>))"

text \<open>Run user code on its own part of the world.\<close>

definition on_user :: "('w \<Rightarrow> 'r result \<times> 'w) \<Rightarrow> ('p, 'w) m_world \<Rightarrow> 'r result \<times> ('p, 'w) m_world" where
  "on_user f u = (let (r, w) = f (user_world u) in (r, u\<lparr>user_world := w\<rparr>))"

text \<open>The overriders of \<open>process\<close>: those of the queue modules for the objects the mission made, the
  program's own for all others.\<close>

definition mission_rt :: "('a, 'p, 'w) runtime \<Rightarrow> ('a, 'p, ('p, 'w) m_world) runtime" where
  "mission_rt rt =
     \<lparr>any_empty = any_empty rt, any_make = any_make rt, any_has_value = any_has_value rt, any_type = any_type rt,
      any_cast = any_cast rt,
      source_process = (\<lambda>n u. case queue_of u n of
          Some qid \<Rightarrow> on_queue qid (queue_source_process queue_pop) u
        | None \<Rightarrow> on_user (source_process rt n) u),
      module_process = (\<lambda>n v. on_user (module_process rt n v)),
      aggregator_process = (\<lambda>n vs. on_user (aggregator_process rt n vs)),
      sink_process = (\<lambda>n v u. case queue_of u n of
          Some qid \<Rightarrow> on_queue qid (queue_sink_process queue_push v) u
        | None \<Rightarrow> on_user (sink_process rt n v) u),
      flow_process_any = (\<lambda>n a i. on_user (flow_process_any rt n a i)),
      um_order = um_order rt, implicit_conv = implicit_conv rt\<rparr>"

section \<open>The mission\<close>

text \<open>\<open>QueueWrapper\<close>: the \<open>nstd::any\<close> holds a \<open>shared_ptr<IQueue<T>>\<close>, given by \<open>T\<close> and the queue.\<close>

record queue_wrapper =
  elem_type :: ctype
  queue :: nat
  used :: bool

record mission =
  pipelines :: "pipeline list"
  queues :: "queue_wrapper list"
  mission_queue_type :: queue_type

definition mission_new :: "queue_type \<Rightarrow> mission" where
  "mission_new t = \<lparr>pipelines = [], queues = [], mission_queue_type = t\<rparr>"

type_synonym ('p, 'w) m_state = "mission \<times> ('p, ('p, 'w) m_world) flow_state"

text \<open>\<open>make_queue\<close> puts the new queue on the heap; \<open>malloc\<close> answers for the allocations of its constructor.\<close>

definition new_queue :: "(nat \<Rightarrow> bool) \<Rightarrow> queue_type \<Rightarrow> ('p, 'w) m_world \<Rightarrow> nat result \<times> ('p, 'w) m_world" where
  "new_queue malloc t u =
     (case make_queue malloc t of
        Inl e \<Rightarrow> (Inl e, u)
      | Inr q \<Rightarrow> (Inr (next_queue u), u\<lparr>queue_heap := (queue_heap u)(next_queue u \<mapsto> q), next_queue := Suc (next_queue u)\<rparr>))"

text \<open>The last queue is marked before the cast that may throw.\<close>

definition get_or_create_queue :: "(nat \<Rightarrow> bool) \<Rightarrow> ctype \<Rightarrow> ('p, 'w) m_state \<Rightarrow> nat result \<times> ('p, 'w) m_state" where
  "get_or_create_queue malloc T ms =
     (let (m, st) = ms in
      if queues m \<noteq> [] \<and> \<not> used (last (queues m))
      then let w = last (queues m); m = m\<lparr>queues := butlast (queues m) @ [w\<lparr>used := True\<rparr>]\<rparr> in
           if elem_type w = T then (Inr (queue w), m, st)
           else (Inl (Exn (Bad_Any_Cast (TQueue (elem_type w)) (TQueue T))), m, st)
      else let (r, u) = new_queue malloc (mission_queue_type m) (world st); st = st\<lparr>world := u\<rparr> in
           case r of
             Inl e \<Rightarrow> (Inl e, m, st)
           | Inr q \<Rightarrow> (Inr q, m\<lparr>queues := queues m @ [\<lparr>elem_type = T, queue = q, used = False\<rparr>]\<rparr>, st))"

text \<open>\<open>make_shared\<close> of a queue module: a new flow object with the default production policy.\<close>

definition new_queue_module :: "kind \<Rightarrow> nat \<Rightarrow> ('p, 'w) m_state \<Rightarrow> nid result \<times> ('p, 'w) m_state" where
  "new_queue_module k qid ms =
     (let (m, st) = ms; n = next_obj (world st);
          u = (world st)\<lparr>queue_of := (queue_of (world st))(n \<mapsto> qid), next_obj := Suc n\<rparr> in
      (Inr n, m, (set_node n (new_node k Fanout) st)\<lparr>world := u\<rparr>))"

definition make_queue_source :: "(nat \<Rightarrow> bool) \<Rightarrow> kind list \<Rightarrow> ('p, 'w) m_state \<Rightarrow> nid result \<times> ('p, 'w) m_state" where
  "make_queue_source malloc Flows ms =
     (let queue_t = get_input_type_from_first_flow Flows in
      if queue_t = TVoid then (Inl Ill_Formed, ms)
      else and_then (get_or_create_queue malloc queue_t ms) (new_queue_module (KSource queue_t)))"

definition make_queue_sink :: "(nat \<Rightarrow> bool) \<Rightarrow> kind list \<Rightarrow> ('p, 'w) m_state \<Rightarrow> nid result \<times> ('p, 'w) m_state" where
  "make_queue_sink malloc Flows ms =
     (let queue_t = get_output_type_from_last_flow Flows in
      if queue_t = TVoid then (Inl Ill_Formed, ms)
      else and_then (get_or_create_queue malloc queue_t ms) (new_queue_module (KSink queue_t)))"

text \<open>\<open>apply_flows_to_pipeline\<close>, on the local pipeline \<open>p\<close>.\<close>

definition apply_flows_to_pipeline ::
  "nid list \<Rightarrow> pipeline \<Rightarrow> ('p, 'w) m_state \<Rightarrow> pipeline result \<times> ('p, 'w) m_state" where
  "apply_flows_to_pipeline fs p ms =
     (let (m, st) = ms; (r, p, st) = pipeline_add_all fs (p, st) in (rmap (\<lambda>_. p) r, m, st))"

text \<open>The kinds of the flow objects are the types of the tuples' elements.\<close>

definition kinds :: "('p, 'u) flow_state \<Rightarrow> nid list \<Rightarrow> kind list" where
  "kinds st fs = List.map_filter (\<lambda>f. map_option n_kind (objs st f)) fs"

definition mission_add ::
  "(nat \<Rightarrow> bool) \<Rightarrow> nid list \<Rightarrow> nid list \<Rightarrow> nid list \<Rightarrow> ('p, 'w) m_state \<Rightarrow> unit result \<times> ('p, 'w) m_state" where
  "mission_add malloc ss ns ks ms =
     (let kd = kinds (snd ms) in
      and_then (if ss \<noteq> [] then apply_flows_to_pipeline ss empty_pipeline ms
                else and_then (make_queue_source malloc (kd (ns @ ks)) ms) (\<lambda>s. apply_flows_to_pipeline [s] empty_pipeline))
        (\<lambda>p ms.
      and_then (apply_flows_to_pipeline ns p ms)
        (\<lambda>p ms.
      and_then (if ks \<noteq> [] then apply_flows_to_pipeline ks p ms
                else and_then (make_queue_sink malloc (kd (ss @ ns)) ms) (\<lambda>k. apply_flows_to_pipeline [k] p))
        (\<lambda>p (m, st). (Inr (), m\<lparr>pipelines := pipelines m @ [p]\<rparr>, st)))))"

text \<open>\<open>add(Pipeline&&)\<close>\<close>

definition mission_add_pipeline :: "pipeline \<Rightarrow> mission \<Rightarrow> mission" where
  "mission_add_pipeline p m = m\<lparr>pipelines := pipelines m @ [p]\<rparr>"

section \<open>Running\<close>

text \<open>The function of a pipeline's worker, given what its reads of the stop flag return; an exception leaves
  the loop (and ends the program).\<close>

fun worker_loop ::
  "nat \<Rightarrow> ('a, 'p, 'u) runtime \<Rightarrow> pipeline \<Rightarrow> bool list \<Rightarrow> ('p, 'u) flow_state \<Rightarrow> unit result \<times> ('p, 'u) flow_state" where
  "worker_loop fuel rt p [] st = (Inl No_Return, st)"
| "worker_loop fuel rt p (stop # reads) st =
     (if stop then (Inr (), st) else and_then (pipeline_execute fuel rt p st) (\<lambda>_. worker_loop fuel rt p reads))"

section \<open>Automatic connection\<close>

lemma new_queue_ok:
  fixes u :: "('p, 'w) m_world"
  assumes "malloc 0"
  obtains q where "new_queue malloc t u =
      (Inr (next_queue u), u\<lparr>queue_heap := (queue_heap u)(next_queue u \<mapsto> q), next_queue := Suc (next_queue u)\<rparr>)"
    "queue_repr q []" "is_std q \<longleftrightarrow> t = STD_QUEUE"
proof -
  obtain q :: "'p val queue_obj" where "make_queue malloc t = Inr q" "queue_repr q []"
    using make_queue_empty [where malloc = malloc, OF assms] by blast
  then show thesis using make_queue_class [of malloc t q] by (intro that [of q]) (simp_all add: new_queue_def)
qed

definition all_used :: "mission \<Rightarrow> bool" where
  "all_used m \<longleftrightarrow> (\<forall>w \<in> set (queues m). used w)"

text \<open>A request when every queue is in use makes a queue; the next request for the same type takes it.\<close>

lemma get_queue_new:
  assumes "malloc 0" "all_used m"
  obtains m' st' q where "get_or_create_queue malloc T (m, st) = (Inr (next_queue (world st)), m', st')"
    "queues m' = queues m @ [\<lparr>elem_type = T, queue = next_queue (world st), used = False\<rparr>]"
    "objs st' = objs st" "queue_repr q []" "pipelines m' = pipelines m"
    "world st' = (world st)\<lparr>queue_heap := (queue_heap (world st))(next_queue (world st) \<mapsto> q),
       next_queue := Suc (next_queue (world st))\<rparr>"
    "is_std q \<longleftrightarrow> mission_queue_type m = STD_QUEUE"
proof -
  obtain q where q: "new_queue malloc (mission_queue_type m) (world st) =
      (Inr (next_queue (world st)), (world st)\<lparr>queue_heap := (queue_heap (world st))(next_queue (world st) \<mapsto> q),
         next_queue := Suc (next_queue (world st))\<rparr>)" "queue_repr q []"
    "is_std q \<longleftrightarrow> mission_queue_type m = STD_QUEUE"
    using assms(1) by (rule new_queue_ok)
  have "queues m \<noteq> [] \<longrightarrow> used (last (queues m))"
    using assms(2) by (auto simp: all_used_def dest: bspec [OF _ last_in_set])
  then have none: "(queues m \<noteq> [] \<and> \<not> used (last (queues m))) = False" by blast
  let ?m = "m\<lparr>queues := queues m @ [\<lparr>elem_type = T, queue = next_queue (world st), used = False\<rparr>]\<rparr>"
  let ?st = "st\<lparr>world := (world st)\<lparr>queue_heap := (queue_heap (world st))(next_queue (world st) \<mapsto> q),
         next_queue := Suc (next_queue (world st))\<rparr>\<rparr>"
  have "get_or_create_queue malloc T (m, st) = (Inr (next_queue (world st)), ?m, ?st)"
    unfolding get_or_create_queue_def prod.case Let_def none if_False by (simp add: q(1))
  then show thesis using q(2,3) by (intro that [of ?m ?st q]) simp_all
qed

lemma get_queue_again:
  assumes "queues (fst ms) = ws @ [\<lparr>elem_type = T, queue = q, used = False\<rparr>]"
  shows "get_or_create_queue malloc T ms =
    (Inr q, (fst ms)\<lparr>queues := ws @ [\<lparr>elem_type = T, queue = q, used = True\<rparr>]\<rparr>, snd ms)"
  using assms by (cases ms) (simp add: get_or_create_queue_def)

text \<open>A sequence of requests, as \<open>mission_add\<close> makes them.\<close>

fun run_requests :: "(nat \<Rightarrow> bool) \<Rightarrow> ctype list \<Rightarrow> ('p, 'w) m_state \<Rightarrow> nat list result \<times> ('p, 'w) m_state" where
  "run_requests malloc [] ms = (Inr [], ms)"
| "run_requests malloc (T # Ts) ms =
     and_then (get_or_create_queue malloc T ms) (\<lambda>q ms.
       and_then (run_requests malloc Ts ms) (\<lambda>qs ms. (Inr (q # qs), ms)))"

lemma run_requests_pairs:
  assumes "malloc 0" "all_used (fst ms)"
  shows "\<exists>ms'. run_requests malloc (concat (map (\<lambda>T. [T, T]) Ts)) ms =
      (Inr (concat (map (\<lambda>i. [i, i]) [next_queue (world (snd ms))..<next_queue (world (snd ms)) + length Ts])), ms')"
  using assms(2)
proof (induction Ts arbitrary: ms)
  case (Cons T Ts)
  obtain m st where ms: "ms = (m, st)" by (cases ms)
  then have u0: "all_used m" using Cons.prems by simp
  let ?n = "next_queue (world st)"
  obtain m1 st1 q where 1: "get_or_create_queue malloc T (m, st) = (Inr ?n, m1, st1)"
    "queues m1 = queues m @ [\<lparr>elem_type = T, queue = ?n, used = False\<rparr>]"
    "world st1 = (world st)\<lparr>queue_heap := (queue_heap (world st))(?n \<mapsto> q), next_queue := Suc ?n\<rparr>"
    by (rule get_queue_new [where malloc = malloc and T = T, OF assms(1) u0]) blast
  let ?m2 = "m1\<lparr>queues := queues m @ [\<lparr>elem_type = T, queue = ?n, used = True\<rparr>]\<rparr>"
  have 2: "get_or_create_queue malloc T (m1, st1) = (Inr ?n, ?m2, st1)"
    using get_queue_again [of "(m1, st1)"] 1(2) by simp
  have u: "all_used (fst (?m2, st1))" using u0 by (auto simp: all_used_def)
  have n: "next_queue (world (snd (?m2, st1))) = Suc ?n" using 1(3) by simp
  from Cons.IH [OF u] obtain ms' where "run_requests malloc (concat (map (\<lambda>T. [T, T]) Ts)) (?m2, st1) =
      (Inr (concat (map (\<lambda>i. [i, i]) [Suc ?n..<Suc ?n + length Ts])), ms')"
    unfolding n by blast
  moreover have "[?n..<?n + length (T # Ts)] = ?n # [Suc ?n..<Suc ?n + length Ts]" by (simp add: upt_rec)
  ultimately show ?case using 1(1) 2 ms by simp
qed simp

section \<open>Properties\<close>

text \<open>C21. Automatic connection pairs pipelines up: when a mission asks for its queues in the order sink of a pipeline, source of the
  next one, and the two agree on the type, both get the same queue, and every pair gets a queue of its own.\<close>

theorem auto_connect_pairs:
  assumes "malloc 0" "\<forall>w \<in> set (queues m). used w"
  shows "\<exists>ms'. run_requests malloc (concat (map (\<lambda>T. [T, T]) Ts)) (m, st) =
      (Inr (concat (map (\<lambda>i. [i, i]) [next_queue (world st)..<next_queue (world st) + length Ts])), ms')"
  using run_requests_pairs [where malloc = malloc and ms = "(m, st)" and Ts = Ts, OF assms(1)] assms(2) by (simp add: all_used_def)

text \<open>What a pipeline puts into the queue between two pipelines, the next pipeline takes out: a \<open>QueueSink\<close> followed by the
  \<open>QueueSource\<close> made with the same queue delivers the value, whichever class of queue the mission uses.\<close>

theorem queue_between_pipelines_delivers:
  assumes "queue_of u k = Some qid" "queue_of u s = Some qid" "queue_heap u qid = Some q" "queue_repr q []"
    "fst (queue_push v q) = Inr True"
  shows "\<exists>q1 q2. sink_process (mission_rt rt) k v u = (Inr (), u\<lparr>queue_heap := (queue_heap u)(qid \<mapsto> q1)\<rparr>) \<and>
    source_process (mission_rt rt) s (u\<lparr>queue_heap := (queue_heap u)(qid \<mapsto> q1)\<rparr>) =
      (Inr (Some v), u\<lparr>queue_heap := (queue_heap u)(qid \<mapsto> q2)\<rparr>) \<and> queue_repr q2 []"
proof -
  obtain q1 where q1: "queue_push v q = (Inr True, q1)" using assms(5) by (cases "queue_push v q") simp
  from iqueue.sink_then_source [OF assms(4) q1] obtain q2 where
    q2: "queue_sink_process queue_push v q = (Inr (), q1)" "queue_source_process queue_pop q1 = (Inr (Some v), q2)"
    "queue_repr q2 []" by blast
  then show ?thesis using assms(1-3)
    by (intro exI [of _ q1] exI [of _ q2]) (simp add: mission_rt_def on_queue_def)
qed

subsection \<open>Concrete instances\<close>

definition empty_world :: "(int, (nid \<times> int val) list) m_world" where
  "empty_world = \<lparr>queue_heap = Map.empty, queue_of = Map.empty, next_queue = 0, next_obj = 10, user_world = []\<rparr>"

definition empty_state :: "(int, (int, (nid \<times> int val) list) m_world) flow_state" where
  "empty_state = \<lparr>objs = Map.empty, world = empty_world\<rparr>"

theorem auto_connect_pairs_witness:
  "\<exists>ms'. run_requests (\<lambda>_. True) (concat (map (\<lambda>T. [T, T]) [TClass ''int'', TClass ''float'']))
      (mission_new LOCK_FREE, empty_state) = (Inr [0, 0, 1, 1], ms')"
proof -
  have "\<exists>ms'. run_requests (\<lambda>_. True) (concat (map (\<lambda>T. [T, T]) [TClass ''int'', TClass ''float'']))
      (mission_new LOCK_FREE, empty_state) =
      (Inr (concat (map (\<lambda>i. [i, i]) [next_queue (world empty_state)..<
         next_queue (world empty_state) + length [TClass ''int'', TClass ''float'']])), ms')"
    by (rule auto_connect_pairs) (simp_all add: mission_new_def)
  then show ?thesis by (simp add: empty_state_def empty_world_def upt_rec)
qed

theorem queue_between_pipelines_delivers_witness:
  "\<exists>q1 q2. sink_process (mission_rt sample_rt) 1 (Scalar ''int'' (7::int))
      (empty_world\<lparr>queue_of := [1 \<mapsto> 0, 2 \<mapsto> 0], queue_heap := [0 \<mapsto> Std_Obj std_new]\<rparr>) =
      (Inr (), empty_world\<lparr>queue_of := [1 \<mapsto> 0, 2 \<mapsto> 0], queue_heap := [0 \<mapsto> q1]\<rparr>) \<and>
    source_process (mission_rt sample_rt) 2 (empty_world\<lparr>queue_of := [1 \<mapsto> 0, 2 \<mapsto> 0], queue_heap := [0 \<mapsto> q1]\<rparr>) =
      (Inr (Some (Scalar ''int'' (7::int))), empty_world\<lparr>queue_of := [1 \<mapsto> 0, 2 \<mapsto> 0], queue_heap := [0 \<mapsto> q2]\<rparr>)"
proof -
  let ?u = "empty_world\<lparr>queue_of := [1 \<mapsto> 0, 2 \<mapsto> 0], queue_heap := [0 \<mapsto> Std_Obj std_new]\<rparr>"
  have r: "queue_repr (Std_Obj (std_new :: int val std_queue)) []" by (simp add: std_repr_def std_new_def)
  have "fst (queue_push (Scalar ''int'' (7::int)) (Std_Obj std_new)) = Inr True" using std_accepts [OF _ r] by simp
  from queue_between_pipelines_delivers [of ?u 1 0 2, OF _ _ _ r this, of sample_rt] show ?thesis
    by auto
qed

end
