(* ===== verification/Worker.thy ===== *)
theory Worker
  imports CPU_Manager_Props Mission
begin

text \<open>
  The threads of a mission: \<open>threads/Worker.{h,cpp}\<close> and \<open>Mission::start\<close>/\<open>stop\<close>
  (\<open>flow/Mission.cpp\<close>).  The calls of \<open>pthread\<close> are parameters (whether each succeeds); a
  \<open>cpu_set_t\<close> is the list of the CPUs in it, \<open>None\<close> when it was never initialised.  The function a
  worker runs is a value of type \<open>'f\<close> that a parameter executes; in a mission it is the index of the
  pipeline its closure refers to.  The core manager is passed already constructed.
\<close>

type_synonym cpu_mask = "int list"

record os =
  os_setschedparam :: "int \<Rightarrow> bool"
  os_setaffinity :: "cpu_mask \<Rightarrow> bool"
  os_setname :: "string \<Rightarrow> bool"

section \<open>Workers\<close>

text \<open>What the lambda of \<open>start\<close> refers to: the parameter \<open>strict\<close> and the local \<open>mask\<close>, both of the frame
  of \<open>start\<close>.\<close>

record launch =
  captured_strict :: bool
  captured_mask :: "cpu_mask option"

record 'f worker =
  w_policy :: ThreadPolicy
  w_func :: 'f
  allocated_cores :: "Core list"
  work_thread :: "launch option"
  w_stop_flag :: bool

definition worker_new :: "ThreadPolicy \<Rightarrow> 'f \<Rightarrow> 'f worker" where
  "worker_new policy func =
     \<lparr>w_policy = policy, w_func = func, allocated_cores = [], work_thread = None, w_stop_flag = False\<rparr>"

text \<open>Copying and moving a worker take the policy and the function only.\<close>

definition worker_from :: "'f worker \<Rightarrow> 'f worker" where
  "worker_from other = worker_new (w_policy other) (w_func other)"

text \<open>\<open>CPU_ZERO\<close> and \<open>CPU_SET\<close>: a CPU outside the 1024 of a \<open>cpu_set_t\<close> is ignored.\<close>

definition cpu_set_of :: "Core list \<Rightarrow> cpu_mask" where
  "cpu_set_of cs = filter (\<lambda>c. 0 \<le> c \<and> c < 1024) (map cpu_id cs)"

definition allocate_cores ::
  "'f worker \<Rightarrow> cpu_manager \<Rightarrow> (bool \<times> cpu_mask option) result \<times> 'f worker \<times> cpu_manager" where
  "allocate_cores w m =
     (case cpu_allocate (w_policy w) m of
        (Inl e, m) \<Rightarrow>
          (case e of
             Exn (Runtime_Error _) \<Rightarrow> (Inr (False, None), w, snd (deallocate_all [] m))
           | _ \<Rightarrow> (Inl e, w, m))
      | (Inr cs, m) \<Rightarrow>
          if cs = [] then (Inl (Exn (Runtime_Error ''CPUManager failed allocating'')), w, m)
          else (Inr (True, Some (cpu_set_of cs)), w\<lparr>allocated_cores := cs\<rparr>, m))"

definition set_affinity :: "os \<Rightarrow> cpu_mask option \<Rightarrow> 'f worker \<Rightarrow> bool result" where
  "set_affinity os cpus w =
     (if cores (w_policy w) = 0 then Inr True
      else case cpus of None \<Rightarrow> Inl UB | Some m \<Rightarrow> Inr (os_setaffinity os m))"

definition set_priority :: "os \<Rightarrow> 'f worker \<Rightarrow> bool" where
  "set_priority os w = os_setschedparam os (priority (w_policy w))"

definition set_name :: "os \<Rightarrow> 'f worker \<Rightarrow> bool" where
  "set_name os w = (if thread_name (w_policy w) = [] then True else os_setname os (thread_name (w_policy w)))"

text \<open>What the thread runs: \<open>func\<close> executes the worker's function on the stop flag.  Failing calls are
  logged, and throw when strict.\<close>

definition worker_target ::
  "os \<Rightarrow> ('f \<Rightarrow> bool \<Rightarrow> 's \<Rightarrow> unit result \<times> 's) \<Rightarrow> bool \<Rightarrow> cpu_mask option \<Rightarrow> 'f worker \<Rightarrow> 's \<Rightarrow> unit result \<times> 's" where
  "worker_target os func strict cpus w s =
     (if \<not> set_priority os w \<and> strict
      then (Inl (Exn (Runtime_Error ''Couldn't set priority, are you running with privileges?'')), s)
      else case set_affinity os cpus w of
        Inl e \<Rightarrow> (Inl e, s)
      | Inr ok \<Rightarrow>
          if \<not> ok \<and> strict
          then (Inl (Exn (Runtime_Error ''Couldn't set affinity, are you running with privileges?'')), s)
          else func (w_func w) (w_stop_flag w) s)"

definition worker_start :: "bool \<Rightarrow> 'f worker \<Rightarrow> cpu_manager \<Rightarrow> unit result \<times> 'f worker \<times> cpu_manager" where
  "worker_start strict w m =
     (case allocate_cores (w\<lparr>w_stop_flag := False\<rparr>) m of
        (Inl e, w, m) \<Rightarrow> (Inl e, w, m)
      | (Inr (_, cpus), w, m) \<Rightarrow>
          (Inr (), w\<lparr>work_thread := Some \<lparr>captured_strict = strict, captured_mask = cpus\<rparr>\<rparr>, m))"

text \<open>The thread started: the lambda reads \<open>strict\<close> and \<open>mask\<close> through references into the frame of
  \<open>start\<close>, so \<open>returned\<close>, whether \<open>start\<close> has returned by then, decides.\<close>

definition thread_main ::
  "os \<Rightarrow> ('f \<Rightarrow> bool \<Rightarrow> 's \<Rightarrow> unit result \<times> 's) \<Rightarrow> bool \<Rightarrow> 'f worker \<Rightarrow> 's \<Rightarrow> unit result \<times> 's" where
  "thread_main os func returned w s =
     (case work_thread w of
        None \<Rightarrow> (Inr (), s)
      | Some l \<Rightarrow>
          if returned then (Inl UB, s)
          else worker_target os func (captured_strict l) (captured_mask l) w s)"

definition worker_stop :: "'f worker \<Rightarrow> cpu_manager \<Rightarrow> 'f worker \<times> cpu_manager" where
  "worker_stop w m =
     (w\<lparr>w_stop_flag := True, allocated_cores := []\<rparr>, snd (deallocate_all (allocated_cores w) m))"

section \<open>Starting and stopping a mission\<close>

definition mission_policy :: "int \<Rightarrow> ThreadPolicy" where
  "mission_policy lowest =
     \<lparr>thread_name = '''', cores = 1, affinity_type = PINNED, tp_strict = False, priority = lowest\<rparr>"

fun start_workers ::
  "bool \<Rightarrow> int \<Rightarrow> nat list \<Rightarrow> nat worker list \<Rightarrow> cpu_manager \<Rightarrow> unit result \<times> nat worker list \<times> cpu_manager" where
  "start_workers strict lowest [] ws m = (Inr (), ws, m)"
| "start_workers strict lowest (i # is) ws m =
     (case worker_start strict (worker_new (mission_policy lowest) i) m of
        (Inl e, w, m) \<Rightarrow> (Inl e, ws @ [w], m)
      | (Inr _, w, m) \<Rightarrow> start_workers strict lowest is (ws @ [w]) m)"

text \<open>\<open>build\<close> is the program's override point.\<close>

definition mission_start ::
  "('x \<Rightarrow> mission \<Rightarrow> unit result \<times> 'x \<times> mission) \<Rightarrow> bool \<Rightarrow> int \<Rightarrow> 'x \<Rightarrow> mission \<Rightarrow> nat worker list \<Rightarrow> cpu_manager \<Rightarrow>
     unit result \<times> 'x \<times> mission \<times> nat worker list \<times> cpu_manager" where
  "mission_start build strict lowest x mi ws m =
     (case build x mi of
        (Inl e, x, mi) \<Rightarrow> (Inl e, x, mi, ws, m)
      | (Inr _, x, mi) \<Rightarrow>
          (case start_workers strict lowest (rev [0..<length (pipelines mi)]) ws m of
             (r, ws, m) \<Rightarrow> (r, x, mi, ws, m)))"

fun stop_each :: "'f worker list \<Rightarrow> cpu_manager \<Rightarrow> 'f worker list \<times> cpu_manager" where
  "stop_each [] m = ([], m)"
| "stop_each (w # ws) m =
     (case worker_stop w m of (w, m) \<Rightarrow> (case stop_each ws m of (ws, m) \<Rightarrow> (w # ws, m)))"

definition mission_stop :: "'f worker list \<Rightarrow> cpu_manager \<Rightarrow> 'f worker list \<times> cpu_manager" where
  "mission_stop ws m = (case stop_each (rev ws) m of (ws, m) \<Rightarrow> (rev ws, m))"

section \<open>Lemmas\<close>

lemma snd_deallocate_all:
  "snd (deallocate_all (c # cs) m) = snd (deallocate_all cs (snd (deallocate c m)))"
  by (simp split: prod.splits)

lemma deallocate_all_pinned:
  "(\<And>c. c \<in> set cs \<Longrightarrow> core_type c = PINNED) \<Longrightarrow>
     snd (deallocate_all cs m) = m\<lparr>pinned_core_pool := pinned_core_pool m @ map cpu_id cs\<rparr>"
proof (induction cs arbitrary: m)
  case (Cons c cs)
  then have "snd (deallocate c m) = m\<lparr>pinned_core_pool := pinned_core_pool m @ [cpu_id c]\<rparr>"
    by (simp add: deallocate_def Let_def)
  then show ?case using Cons by (simp only: snd_deallocate_all) simp
qed simp

text \<open>The worker of pipeline \<open>i\<close>, started on the core \<open>c\<close>.\<close>

definition started :: "bool \<Rightarrow> int \<Rightarrow> nat \<Rightarrow> int \<Rightarrow> nat worker" where
  "started strict lowest i c =
     (worker_new (mission_policy lowest) i)\<lparr>allocated_cores := [core_of PINNED c],
       work_thread := Some \<lparr>captured_strict = strict, captured_mask = Some (filter (\<lambda>c. 0 \<le> c \<and> c < 1024) [c])\<rparr>\<rparr>"

lemma mission_worker_start:
  assumes "\<not> manager_mutex m" "pools_fit m" "pinned_core_pool m = P @ [c]"
  shows "worker_start strict (worker_new (mission_policy lowest) i) m =
    (Inr (), started strict lowest i c, m\<lparr>pinned_core_pool := P\<rparr>)"
proof -
  have "cpu_allocate (mission_policy lowest) m = (Inr [core_of PINNED c], m\<lparr>pinned_core_pool := P\<rparr>)"
    using allocate_pinned [OF assms(1,2), of "mission_policy lowest"] assms(3) by (simp add: mission_policy_def)
  then show ?thesis by (simp add: worker_start_def allocate_cores_def worker_new_def cpu_set_of_def started_def)
qed

lemma start_workers_eq:
  "\<not> manager_mutex m \<Longrightarrow> pools_fit m \<Longrightarrow> pinned_core_pool m = P @ rev cs \<Longrightarrow> length cs = length is \<Longrightarrow>
     start_workers strict lowest is ws m = (Inr (), ws @ map2 (started strict lowest) is cs, m\<lparr>pinned_core_pool := P\<rparr>)"
proof (induction "is" arbitrary: ws m cs)
  case Nil
  then have "m\<lparr>pinned_core_pool := P\<rparr> = m" by simp
  then show ?case using Nil by simp
next
  case (Cons i "is")
  then obtain c cs' where cs: "cs = c # cs'" by (cases cs) auto
  then have pool: "pinned_core_pool m = (P @ rev cs') @ [c]" using Cons.prems by simp
  let ?m = "m\<lparr>pinned_core_pool := P @ rev cs'\<rparr>"
  have fit: "pools_fit ?m" using Cons.prems(2) pool by (simp add: pools_fit_def)
  have rest: "start_workers strict lowest is ws' ?m = (Inr (), ws' @ map2 (started strict lowest) is cs', ?m\<lparr>pinned_core_pool := P\<rparr>)" for ws'
    by (rule Cons.IH) (use Cons.prems cs fit in simp_all)
  show ?case using mission_worker_start [OF Cons.prems(1,2) pool] rest cs by simp
qed

lemma stop_each_started:
  "(\<And>w. w \<in> set ws \<Longrightarrow> \<exists>i c. w = started strict lowest i c) \<Longrightarrow>
     stop_each ws m = (map (\<lambda>w. w\<lparr>w_stop_flag := True, allocated_cores := []\<rparr>) ws,
       m\<lparr>pinned_core_pool := pinned_core_pool m @ concat (map (map cpu_id \<circ> allocated_cores) ws)\<rparr>)"
proof (induction ws arbitrary: m)
  case (Cons w ws)
  have "\<exists>i c. w = started strict lowest i c" by (rule Cons.prems) simp
  then obtain i c where w: "w = started strict lowest i c" by blast
  have "snd (deallocate_all (allocated_cores w) m) = m\<lparr>pinned_core_pool := pinned_core_pool m @ [c]\<rparr>"
    by (subst deallocate_all_pinned) (auto simp: w started_def)
  then have "worker_stop w m = (w\<lparr>w_stop_flag := True, allocated_cores := []\<rparr>, m\<lparr>pinned_core_pool := pinned_core_pool m @ [c]\<rparr>)"
    by (simp add: worker_stop_def)
  moreover have "map cpu_id (allocated_cores w) = [c]" by (simp add: w started_def)
  ultimately show ?case using Cons by simp
qed simp

section \<open>Properties\<close>

text \<open>\<open>start\<close> of a worker that asks for pinned cores, with the mutex free.  With enough cores it takes
  them and starts the thread; with none asked for it throws; with too few it returns normally,
  without cores, and the thread uses an uninitialised CPU set.  In every case a thread that begins
  after \<open>start\<close> has returned reads through dangling references; one that begins before sets its
  priority and affinity and runs the function.\<close>

theorem worker_start_spec:
  assumes "\<not> manager_mutex m" "length (pinned_core_pool m) + length (isol_core_pool m) < 2 ^ 64"
    "affinity_type (w_policy w) = PINNED" "n = unat (cores (w_policy w))" "P = pinned_core_pool m"
  shows "if n = 0 then worker_start strict w m =
      (Inl (Exn (Runtime_Error ''CPUManager failed allocating'')), w\<lparr>w_stop_flag := False\<rparr>, m)
    else \<exists>w'. worker_start strict w m =
        (Inr (), w', if n \<le> length P then m\<lparr>pinned_core_pool := take (length P - n) P\<rparr> else m) \<and>
      allocated_cores w' = (if n \<le> length P then map (core_of PINNED) (take n (rev P)) else allocated_cores w) \<and>
      thread_main os func True w' s = (Inl UB, s) \<and>
      (os_setschedparam os (priority (w_policy w)) \<longrightarrow> \<not> n \<le> length P \<longrightarrow> thread_main os func False w' s = (Inl UB, s)) \<and>
      (os_setschedparam os (priority (w_policy w)) \<longrightarrow> n \<le> length P \<longrightarrow>
       os_setaffinity os (filter (\<lambda>c. 0 \<le> c \<and> c < 1024) (take n (rev P))) \<longrightarrow>
       thread_main os func False w' s = func (w_func w) False s)"
proof -
  have fit: "pools_fit m" using assms(2) by (simp add: pools_fit_def)
  let ?w = "w\<lparr>w_stop_flag := False\<rparr>"
  have al: "cpu_allocate (w_policy ?w) m =
    (if n \<le> length P then (Inr (map (core_of PINNED) (take n (rev P))), m\<lparr>pinned_core_pool := take (length P - n) P\<rparr>)
     else (Inl (Exn (Runtime_Error ''Not enough resources to allocate cpus'')), m))"
    using allocate_pinned [OF assms(1) fit, of "w_policy ?w"] assms(3-5) by simp
  show ?thesis
  proof (cases "n = 0")
    case True
    then have "cpu_allocate (w_policy ?w) m = (Inr [], m)" using al assms(5) by simp
    then show ?thesis using True by (simp add: worker_start_def allocate_cores_def)
  next
    case False
    then have nz: "cores (w_policy w) \<noteq> 0" using assms(4) by auto
    show ?thesis
    proof (cases "n \<le> length P")
      case True
      let ?cs = "map (core_of PINNED) (take n (rev P))"
      have "?cs \<noteq> []" using False True by auto
      then have "worker_start strict w m =
        (Inr (), ?w\<lparr>allocated_cores := ?cs, work_thread := Some \<lparr>captured_strict = strict, captured_mask = Some (cpu_set_of ?cs)\<rparr>\<rparr>,
         m\<lparr>pinned_core_pool := take (length P - n) P\<rparr>)"
        using al True by (simp add: worker_start_def allocate_cores_def)
      moreover have "cpu_set_of ?cs = filter (\<lambda>c. 0 \<le> c \<and> c < 1024) (take n (rev P))"
        by (simp add: cpu_set_of_def comp_def)
      ultimately show ?thesis using False True nz
        by (simp add: thread_main_def worker_target_def set_priority_def set_affinity_def)
    next
      case few: False
      have "worker_start strict w m =
        (Inr (), ?w\<lparr>work_thread := Some \<lparr>captured_strict = strict, captured_mask = None\<rparr>\<rparr>, m)"
        using al few by (simp add: worker_start_def allocate_cores_def)
      then show ?thesis using False few nz
        by (simp add: thread_main_def worker_target_def set_priority_def set_affinity_def)
    qed
  qed
qed

lemma started_simps:
  "w_func (started strict lowest i c) = i" "allocated_cores (started strict lowest i c) = [core_of PINNED c]"
  "work_thread (started strict lowest i c) =
     Some \<lparr>captured_strict = strict, captured_mask = Some (filter (\<lambda>c. 0 \<le> c \<and> c < 1024) [c])\<rparr>"
  by (simp_all add: started_def worker_new_def)

text \<open>The thread of a started worker, beginning before \<open>start\<close> has returned.\<close>

lemma started_runs:
  assumes "\<not> strict \<or> os_setschedparam os lowest \<and> (\<forall>m. os_setaffinity os m)"
  shows "thread_main os func False (started strict lowest i c) s = func i False s"
  using assms
  by (auto simp: thread_main_def worker_target_def set_priority_def set_affinity_def started_def worker_new_def mission_policy_def)


section \<open>Concrete inputs\<close>

definition sample_os :: os where
  "sample_os = \<lparr>os_setschedparam = (\<lambda>p. p < 50), os_setaffinity = (\<lambda>m. m \<noteq> []), os_setname = (\<lambda>_. True)\<rparr>"

definition sample_func :: "string \<Rightarrow> bool \<Rightarrow> string list \<Rightarrow> unit result \<times> string list" where
  "sample_func f stop s = (Inr (), if stop then s else s @ [f])"

theorem worker_start_spec_witness:
  "\<exists>w'. worker_start True (worker_new (sample_policy 2 PINNED) ''job'') sample_manager =
      (Inr (), w', sample_manager\<lparr>pinned_core_pool := [0]\<rparr>) \<and>
    thread_main sample_os sample_func True w' [] = (Inl UB, []) \<and>
    thread_main sample_os sample_func False w' [] = (Inr (), [''job''])"
proof -
  have "if (2::nat) = 0 then worker_start True (worker_new (sample_policy 2 PINNED) ''job'') sample_manager =
        (Inl (Exn (Runtime_Error ''CPUManager failed allocating'')),
         (worker_new (sample_policy 2 PINNED) ''job'')\<lparr>w_stop_flag := False\<rparr>, sample_manager)
    else \<exists>w'. worker_start True (worker_new (sample_policy 2 PINNED) ''job'') sample_manager =
        (Inr (), w', if 2 \<le> length [0, 1, 2 :: int] then sample_manager\<lparr>pinned_core_pool := take (length [0, 1, 2 :: int] - 2) [0, 1, 2]\<rparr>
          else sample_manager) \<and>
      allocated_cores w' = (if 2 \<le> length [0, 1, 2 :: int] then map (core_of PINNED) (take 2 (rev [0, 1, 2]))
        else allocated_cores (worker_new (sample_policy 2 PINNED) ''job'')) \<and>
      thread_main sample_os sample_func True w' [] = (Inl UB, []) \<and>
      (os_setschedparam sample_os (priority (w_policy (worker_new (sample_policy 2 PINNED) ''job''))) \<longrightarrow>
       \<not> 2 \<le> length [0, 1, 2 :: int] \<longrightarrow> thread_main sample_os sample_func False w' [] = (Inl UB, [])) \<and>
      (os_setschedparam sample_os (priority (w_policy (worker_new (sample_policy 2 PINNED) ''job''))) \<longrightarrow>
       2 \<le> length [0, 1, 2 :: int] \<longrightarrow>
       os_setaffinity sample_os (filter (\<lambda>c. 0 \<le> c \<and> c < 1024) (take 2 (rev [0, 1, 2]))) \<longrightarrow>
       thread_main sample_os sample_func False w' [] =
         sample_func (w_func (worker_new (sample_policy 2 PINNED) ''job'')) False [])"
    by (rule worker_start_spec) (simp_all add: sample_manager_def sample_policy_def worker_new_def)
  then show ?thesis
    by (auto simp: sample_os_def sample_func_def sample_policy_def worker_new_def)
qed


end
