(* ===== verification/Worker_Threads.thy ===== *)
theory Worker_Threads
  imports Worker
begin

text \<open>
  \<open>threads/Worker.{h,cpp}\<close> with the thread that owns the worker and the threads it starts taking their
  steps in any order.  \<open>std::jthread\<close> is part of the language's library: assigning a new thread to
  \<open>work_thread\<close> joins the old one, and so does its destructor; members are destroyed in the reverse of
  the order they are declared in.  The worker's function is the one a mission gives it: a loop that
  tests the stop flag before each execution of its pipeline.
\<close>

section \<open>The thread\<close>

text \<open>Where a thread is: in the lambda of \<open>start\<close>, in \<open>worker_target\<close>, in the loop of its function.\<close>

datatype thread_pc =
    T_Enter
  | T_Priority bool
  | T_Priority_Failed bool
  | T_Affinity bool
  | T_Affinity_Failed bool
  | T_Name
  | T_Name_Failed
  | T_Test
  | T_Body
  | T_Done

text \<open>\<open>t_frame\<close> names the call of \<open>start\<close> whose locals the lambda refers to.\<close>

record w_thread =
  t_pc :: thread_pc
  t_frame :: nat

text \<open>Where the owner is: between two calls, in \<open>start\<close>, in \<open>stop\<close>, in the destructor.\<close>

datatype owner_pc =
    O_Idle
  | O_Alloc
  | O_Create
  | O_Join "nat option" nat
  | O_Return
  | O_Give_Back bool
  | O_End_Logger
  | O_End_Flag
  | O_Last_Join
  | O_Gone

text \<open>\<open>frame\<close>: the locals of the call of \<open>start\<close> under way, number \<open>frame_no\<close>; \<open>w_threads\<close>: every thread started so
  far; \<open>handle\<close>: the one \<open>work_thread\<close> stands for; \<open>rounds\<close>: the executions of the pipeline.\<close>

record 'f w_state =
  wk :: "'f worker"
  mgr :: cpu_manager
  frame :: "launch option"
  frame_no :: nat
  w_threads :: "w_thread list"
  handle :: "nat option"
  logger_alive :: bool
  flag_alive :: bool
  owner :: owner_pc
  rounds :: nat

definition w_init :: "'f worker \<Rightarrow> cpu_manager \<Rightarrow> 'f w_state" where
  "w_init w m = \<lparr>wk = w, mgr = m, frame = None, frame_no = 0, w_threads = [], handle = None, logger_alive = True,
     flag_alive = True, owner = O_Idle, rounds = 0\<rparr>"

text \<open>Reading a captured reference: the call it refers to must not have returned.\<close>

definition deref :: "w_thread \<Rightarrow> 'f w_state \<Rightarrow> launch result" where
  "deref t st = (case frame st of None \<Rightarrow> Inl UB | Some l \<Rightarrow> if t_frame t = frame_no st then Inr l else Inl UB)"

definition move_to :: "nat \<Rightarrow> thread_pc \<Rightarrow> 'f w_state \<Rightarrow> 'f w_state" where
  "move_to i pc st = st\<lparr>w_threads := (w_threads st)[i := (w_threads st ! i)\<lparr>t_pc := pc\<rparr>]\<rparr>"

definition log_failure :: "bool \<Rightarrow> string \<Rightarrow> nat \<Rightarrow> thread_pc \<Rightarrow> 'f w_state \<Rightarrow> unit result \<times> 'f w_state" where
  "log_failure strict msg i pc st =
     (if \<not> logger_alive st then (Inl UB, st)
      else if strict then (Inl (Exn (Runtime_Error msg)), st)
      else (Inr (), move_to i pc st))"

definition thread_step :: "os \<Rightarrow> nat \<Rightarrow> 'f w_state \<Rightarrow> unit result \<times> 'f w_state" where
  "thread_step os i st =
     (let t = w_threads st ! i in
      case t_pc t of
        T_Enter \<Rightarrow>
          (case deref t st of Inl e \<Rightarrow> (Inl e, st) | Inr l \<Rightarrow> (Inr (), move_to i (T_Priority (captured_strict l)) st))
      | T_Priority strict \<Rightarrow>
          (Inr (), move_to i (if set_priority os (wk st) then T_Affinity strict else T_Priority_Failed strict) st)
      | T_Priority_Failed strict \<Rightarrow>
          log_failure strict ''Couldn't set priority, are you running with privileges?'' i (T_Affinity strict) st
      | T_Affinity strict \<Rightarrow>
          (if cores (w_policy (wk st)) = 0 then (Inr (), move_to i T_Name st)
           else case rbind (deref t st) (\<lambda>l. set_affinity os (captured_mask l) (wk st)) of
             Inl e \<Rightarrow> (Inl e, st)
           | Inr ok \<Rightarrow> (Inr (), move_to i (if ok then T_Name else T_Affinity_Failed strict) st))
      | T_Affinity_Failed strict \<Rightarrow>
          log_failure strict ''Couldn't set affinity, are you running with privileges?'' i T_Name st
      | T_Name \<Rightarrow> (Inr (), move_to i (if set_name os (wk st) then T_Test else T_Name_Failed) st)
      | T_Name_Failed \<Rightarrow> log_failure False ''Couldn't set name'' i T_Test st
      | T_Test \<Rightarrow>
          (if \<not> flag_alive st then (Inl UB, st)
           else (Inr (), move_to i (if w_stop_flag (wk st) then T_Done else T_Body) st))
      | T_Body \<Rightarrow> (Inr (), (move_to i T_Test st)\<lparr>rounds := Suc (rounds st)\<rparr>)
      | T_Done \<Rightarrow> (Inr (), st))"

text \<open>While a thread is at \<open>T_Body\<close> its function executes the pipeline, for as long as it takes; the step from there is the
  normal return of that execution.  It may throw instead, which no code of the worker or the mission catches.\<close>

definition body_throws :: "exn \<Rightarrow> 'f w_state \<Rightarrow> unit result \<times> 'f w_state" where
  "body_throws x st = (Inl (Exn x), st)"

section \<open>The owner\<close>

datatype owner_call = C_Start bool | C_Stop | C_Destroy

text \<open>The first step of each call: \<open>start\<close> clears the flag, \<open>stop\<close> sets it (nobody waits on it, so \<open>notify_all\<close> wakes
  nobody), and the destructor begins with \<open>stop\<close>.\<close>

fun do_call :: "owner_call \<Rightarrow> 'f w_state \<Rightarrow> 'f w_state" where
  "do_call (C_Start strict) st =
     st\<lparr>wk := (wk st)\<lparr>w_stop_flag := False\<rparr>, frame := Some \<lparr>captured_strict = strict, captured_mask = None\<rparr>,
        frame_no := Suc (frame_no st), owner := O_Alloc\<rparr>"
| "do_call C_Stop st = st\<lparr>wk := (wk st)\<lparr>w_stop_flag := True\<rparr>, owner := O_Give_Back False\<rparr>"
| "do_call C_Destroy st = st\<lparr>wk := (wk st)\<lparr>w_stop_flag := True\<rparr>, owner := O_Give_Back True\<rparr>"

text \<open>What a join waits for.\<close>

definition finished :: "nat option \<Rightarrow> 'f w_state \<Rightarrow> bool" where
  "finished h st = (case h of None \<Rightarrow> True | Some i \<Rightarrow> t_pc (w_threads st ! i) = T_Done)"

text \<open>The next step of the call under way; \<open>None\<close> where there is none or the owner waits in a join.\<close>

definition own_step :: "'f w_state \<Rightarrow> (unit result \<times> 'f w_state) option" where
  "own_step st =
     (case owner st of
        O_Alloc \<Rightarrow> Some
          (case allocate_cores (wk st) (mgr st) of
             (Inl e, w, m) \<Rightarrow> (Inl e, st\<lparr>wk := w, mgr := m, frame := None, owner := O_Idle\<rparr>)
           | (Inr (_, cpus), w, m) \<Rightarrow>
               (Inr (), st\<lparr>wk := w, mgr := m, frame := map_option (captured_mask_update (\<lambda>_. cpus)) (frame st), owner := O_Create\<rparr>))
      | O_Create \<Rightarrow> Some
          (Inr (), st\<lparr>w_threads := w_threads st @ [\<lparr>t_pc = T_Enter, t_frame = frame_no st\<rparr>],
             owner := O_Join (handle st) (length (w_threads st))\<rparr>)
      | O_Join old new \<Rightarrow>
          if finished old st
          then Some (Inr (), st\<lparr>wk := (wk st)\<lparr>work_thread := frame st\<rparr>, handle := Some new, owner := O_Return\<rparr>) else None
      | O_Return \<Rightarrow> Some (Inr (), st\<lparr>frame := None, owner := O_Idle\<rparr>)
      | O_Give_Back gone \<Rightarrow> Some
          (Inr (), st\<lparr>wk := (wk st)\<lparr>allocated_cores := []\<rparr>, mgr := snd (deallocate_all (allocated_cores (wk st)) (mgr st)),
             owner := (if gone then O_End_Logger else O_Idle)\<rparr>)
      | O_End_Logger \<Rightarrow> Some (Inr (), st\<lparr>logger_alive := False, owner := O_End_Flag\<rparr>)
      | O_End_Flag \<Rightarrow> Some (Inr (), st\<lparr>flag_alive := False, owner := O_Last_Join\<rparr>)
      | O_Last_Join \<Rightarrow> if finished (handle st) st then Some (Inr (), st\<lparr>owner := O_Gone\<rparr>) else None
      | _ \<Rightarrow> None)"

section \<open>Interleaving\<close>

datatype w_action = Call owner_call | Own | Thr nat | Thr_Throws nat exn

definition w_act :: "os \<Rightarrow> w_action \<Rightarrow> 'f w_state \<Rightarrow> (unit result \<times> 'f w_state) option" where
  "w_act os a st =
     (case a of
        Call c \<Rightarrow> if owner st = O_Idle then Some (Inr (), do_call c st) else None
      | Own \<Rightarrow> own_step st
      | Thr i \<Rightarrow> if i < length (w_threads st) \<and> t_pc (w_threads st ! i) \<noteq> T_Done then Some (thread_step os i st) else None
      | Thr_Throws i x \<Rightarrow> if i < length (w_threads st) \<and> t_pc (w_threads st ! i) = T_Body then Some (body_throws x st) else None)"

text \<open>A run: actions that are possible one after the other; it ends at the first that fails, also where that
  is a call of \<open>start\<close> that throws to its caller.\<close>

fun w_run :: "os \<Rightarrow> w_action list \<Rightarrow> 'f w_state \<Rightarrow> (unit result \<times> 'f w_state) option" where
  "w_run os [] st = Some (Inr (), st)"
| "w_run os (a # acts) st =
     (case w_act os a st of
        None \<Rightarrow> None
      | Some (Inl e, st) \<Rightarrow> Some (Inl e, st)
      | Some (Inr _, st) \<Rightarrow> w_run os acts st)"

lemma move_to_simps [simp]:
  "wk (move_to i pc st) = wk st" "mgr (move_to i pc st) = mgr st" "frame (move_to i pc st) = frame st"
  "frame_no (move_to i pc st) = frame_no st" "handle (move_to i pc st) = handle st"
  "logger_alive (move_to i pc st) = logger_alive st" "flag_alive (move_to i pc st) = flag_alive st"
  "owner (move_to i pc st) = owner st" "rounds (move_to i pc st) = rounds st"
  "w_threads (move_to i pc st) = (w_threads st)[i := (w_threads st ! i)\<lparr>t_pc := pc\<rparr>]"
  by (simp_all add: move_to_def)

text \<open>A step of a thread changes where that thread is and nothing else but the count of rounds.\<close>

lemma log_failure_moves:
  "log_failure strict msg i pc st = (r, st') \<Longrightarrow> st' = st \<or> st' = move_to i pc st"
  by (auto simp: log_failure_def split: if_splits)

lemma thread_step_moves:
  assumes "thread_step os i st = (r, st')"
  shows "\<exists>pc n. st' = (move_to i pc st)\<lparr>rounds := n\<rparr>"
proof -
  have same: "st = (move_to i (t_pc (w_threads st ! i)) st)\<lparr>rounds := rounds st\<rparr>" by (simp add: move_to_def)
  have to: "move_to i pc st = (move_to i pc st)\<lparr>rounds := rounds st\<rparr>" for pc by (simp add: move_to_def)
  have "st' = st \<or> (\<exists>pc n. st' = (move_to i pc st)\<lparr>rounds := n\<rparr>) \<or> (\<exists>pc. st' = move_to i pc st)"
    using assms unfolding thread_step_def Let_def
    by (cases "t_pc (w_threads st ! i)") (auto split: sum.splits if_splits dest!: log_failure_moves)
  then show ?thesis using same to by metis
qed

section \<open>An uninterrupted call is the operation as one step\<close>

text \<open>The steps of \<open>start\<close> and of \<open>stop\<close>, nobody else moving.\<close>

lemma finished_append:
  "w_threads st' = w_threads st @ [t] \<Longrightarrow> \<forall>i. h = Some i \<longrightarrow> i < length (w_threads st) \<Longrightarrow> finished h st' = finished h st"
  by (cases h) (simp_all add: finished_def nth_append)

lemma start_alone_steps:
  assumes "owner st = O_Idle" "\<forall>i. handle st = Some i \<longrightarrow> i < length (w_threads st)" "finished (handle st) st"
    "worker_start strict (wk st) (mgr st) = (r, w, m)"
  shows "case r of
      Inl e \<Rightarrow> \<exists>st'. w_run os [Call (C_Start strict), Own] st = Some (Inl e, st') \<and> wk st' = w \<and> mgr st' = m
    | Inr _ \<Rightarrow> \<exists>st'. w_run os [Call (C_Start strict), Own, Own, Own, Own] st = Some (Inr (), st') \<and> wk st' = w \<and> mgr st' = m \<and>
        owner st' = O_Idle \<and> frame st' = None \<and> handle st' = Some (length (w_threads st))"
proof -
  obtain r' w' m' where al: "allocate_cores ((wk st)\<lparr>w_stop_flag := False\<rparr>) (mgr st) = (r', w', m')"
    by (metis surj_pair)
  show ?thesis
  proof (cases r')
    case (Inl e)
    then have "r = Inl e" "w' = w" "m' = m" using assms(4) al by (simp_all add: worker_start_def)
    then show ?thesis using assms(1) al Inl by (simp add: w_act_def own_step_def)
  next
    case (Inr p)
    obtain b cpus where p: "p = (b, cpus)" by (cases p)
    then have r: "r = Inr ()" "w = w'\<lparr>work_thread := Some \<lparr>captured_strict = strict, captured_mask = cpus\<rparr>\<rparr>" "m = m'"
      using assms(4) al Inr by (auto simp: worker_start_def)
    note fin = finished_append [OF _ assms(2), where t = "\<lparr>t_pc = T_Enter, t_frame = Suc (frame_no st)\<rparr>"]
    show ?thesis using assms(1,3) al Inr p r
      by (simp add: w_act_def own_step_def fin)
  qed
qed

lemma stop_alone_steps:
  assumes "owner st = O_Idle" "worker_stop (wk st) (mgr st) = (w, m)"
  shows "w_run os [Call C_Stop, Own] st = Some (Inr (), st\<lparr>wk := w, mgr := m\<rparr>)"
  using assms by (auto simp: w_act_def own_step_def worker_stop_def)

text \<open>The thread, while \<open>start\<close> has not returned: it comes to the loop of its function, or fails as
  \<open>worker_target\<close> fails.\<close>

lemma w_run_append:
  "w_run os (as @ bs) st =
     (case w_run os as st of Some (Inr _, st') \<Rightarrow> w_run os bs st' | failed \<Rightarrow> failed)"
  by (induction os as st rule: w_run.induct) (auto split: option.splits sum.splits)

text \<open>\<open>n\<close> steps of thread \<open>i\<close> alone lead from \<open>st\<close> to \<open>st'\<close> with result \<open>r\<close>.\<close>

definition thread_runs :: "os \<Rightarrow> nat \<Rightarrow> 'f w_state \<Rightarrow> unit result \<Rightarrow> 'f w_state \<Rightarrow> bool" where
  "thread_runs os i st r st' \<longleftrightarrow> (\<exists>n. w_run os (replicate n (Thr i)) st = Some (r, st'))"

lemma thread_runs_refl: "thread_runs os i st (Inr ()) st"
  by (auto simp: thread_runs_def intro: exI [of _ 0])

lemma thread_runs_trans [trans]:
  assumes "thread_runs os i st (Inr ()) st1" "thread_runs os i st1 r st2"
  shows "thread_runs os i st r st2"
proof -
  obtain n k where "w_run os (replicate n (Thr i)) st = Some (Inr (), st1)" "w_run os (replicate k (Thr i)) st1 = Some (r, st2)"
    using assms by (auto simp: thread_runs_def)
  then have "w_run os (replicate (n + k) (Thr i)) st = Some (r, st2)" by (simp add: replicate_add w_run_append)
  then show ?thesis unfolding thread_runs_def by blast
qed

lemma thread_runs_step:
  assumes "i < length (w_threads st)" "t_pc (w_threads st ! i) \<noteq> T_Done" "thread_step os i st = (r, st')"
  shows "thread_runs os i st r st'"
  unfolding thread_runs_def by (rule exI [of _ 1]) (use assms in \<open>simp add: w_act_def split: sum.split\<close>)

lemma thread_runs_log:
  assumes "i < length (w_threads st)" "t_pc (w_threads st ! i) \<noteq> T_Done" "thread_step os i st = log_failure strict msg i pc st"
    "logger_alive st"
  shows "thread_runs os i st (if strict then Inl (Exn (Runtime_Error msg)) else Inr ()) (if strict then st else move_to i pc st)"
  by (rule thread_runs_step [OF assms(1,2)]) (use assms(3,4) in \<open>simp add: log_failure_def\<close>)

lemma move_to_again [simp]: "i < length (w_threads st) \<Longrightarrow> move_to i pc (move_to i pc' st) = move_to i pc st"
  by (simp add: move_to_def)

lemma setup_priority:
  assumes i: "i < length (w_threads st)" and p: "set_priority os (wk st) \<or> \<not> strict" and l: "logger_alive st"
  shows "thread_runs os i (move_to i (T_Priority strict) st) (Inr ()) (move_to i (T_Affinity strict) st)"
proof (cases "set_priority os (wk st)")
  case True
  then show ?thesis using i by (intro thread_runs_step) (simp_all add: thread_step_def Let_def)
next
  case False
  have 1: "thread_runs os i (move_to i (T_Priority strict) st) (Inr ()) (move_to i (T_Priority_Failed strict) st)"
    using i False by (intro thread_runs_step) (simp_all add: thread_step_def Let_def)
  have "thread_runs os i (move_to i (T_Priority_Failed strict) st) (Inr ()) (move_to i (T_Affinity strict) st)"
    using i False p l by (intro thread_runs_step) (simp_all add: thread_step_def Let_def log_failure_def)
  with 1 show ?thesis by (rule thread_runs_trans)
qed

lemma setup_name:
  assumes i: "i < length (w_threads st)" and l: "logger_alive st"
  shows "thread_runs os i (move_to i T_Name st) (Inr ()) (move_to i T_Test st)"
proof (cases "set_name os (wk st)")
  case True
  then show ?thesis using i by (intro thread_runs_step) (simp_all add: thread_step_def Let_def)
next
  case False
  have 1: "thread_runs os i (move_to i T_Name st) (Inr ()) (move_to i T_Name_Failed st)"
    using i False by (intro thread_runs_step) (simp_all add: thread_step_def Let_def)
  have "thread_runs os i (move_to i T_Name_Failed st) (Inr ()) (move_to i T_Test st)"
    using i l by (intro thread_runs_step) (simp_all add: thread_step_def Let_def log_failure_def)
  with 1 show ?thesis by (rule thread_runs_trans)
qed

lemma setup_affinity:
  assumes i: "i < length (w_threads st)" and l: "logger_alive st"
    and f: "t_frame (w_threads st ! i) = frame_no st" "frame st = Some f"
    and a: "set_affinity os (captured_mask f) (wk st) = Inr ok" "ok \<or> \<not> strict"
  shows "thread_runs os i (move_to i (T_Affinity strict) st) (Inr ()) (move_to i T_Name st)"
proof (cases "cores (w_policy (wk st)) = 0 \<or> ok")
  case True
  then show ?thesis using i f a by (intro thread_runs_step) (auto simp: thread_step_def Let_def deref_def set_affinity_def)
next
  case False
  have 1: "thread_runs os i (move_to i (T_Affinity strict) st) (Inr ()) (move_to i (T_Affinity_Failed strict) st)"
    using i False f a(1) by (intro thread_runs_step) (simp_all add: thread_step_def Let_def deref_def)
  have "thread_runs os i (move_to i (T_Affinity_Failed strict) st) (Inr ()) (move_to i T_Name st)"
    using i False l a(2) by (intro thread_runs_step) (simp_all add: thread_step_def Let_def log_failure_def)
  with 1 show ?thesis by (rule thread_runs_trans)
qed

lemma thread_setup_alone:
  assumes i: "i < length (w_threads st)" and e: "t_pc (w_threads st ! i) = T_Enter" "t_frame (w_threads st ! i) = frame_no st"
    and f: "frame st = Some \<lparr>captured_strict = strict, captured_mask = cpus\<rparr>" and l: "logger_alive st"
    and w: "worker_target os (\<lambda>_ _ s. (Inr (), s)) strict cpus (wk st) () = (Inr (), ())"
  shows "thread_runs os i st (Inr ()) (move_to i T_Test st)"
proof -
  have p: "set_priority os (wk st) \<or> \<not> strict" using w by (auto simp: worker_target_def split: if_splits)
  obtain ok where ok: "set_affinity os cpus (wk st) = Inr ok" "ok \<or> \<not> strict"
    using w by (auto simp: worker_target_def split: if_splits sum.splits)
  have "thread_runs os i st (Inr ()) (move_to i (T_Priority strict) st)"
    by (rule thread_runs_step [OF i]) (use e f in \<open>simp_all add: thread_step_def Let_def deref_def\<close>)
  also have "thread_runs os i (move_to i (T_Priority strict) st) (Inr ()) (move_to i (T_Affinity strict) st)"
    by (rule setup_priority [OF i p l])
  also have "thread_runs os i (move_to i (T_Affinity strict) st) (Inr ()) (move_to i T_Name st)"
    by (rule setup_affinity [OF i l e(2) f _ ok(2)]) (use ok(1) in simp)
  also have "thread_runs os i (move_to i T_Name st) (Inr ()) (move_to i T_Test st)"
    by (rule setup_name [OF i l])
  finally show ?thesis .
qed

text \<open>A thread that cannot set itself up fails with the error of \<open>worker_target\<close>.\<close>

lemma setup_priority_fails:
  assumes i: "i < length (w_threads st)" and p: "\<not> set_priority os (wk st)" and l: "logger_alive st"
  shows "\<exists>st2. thread_runs os i (move_to i (T_Priority True) st)
    (Inl (Exn (Runtime_Error ''Couldn't set priority, are you running with privileges?''))) st2"
proof -
  have 1: "thread_runs os i (move_to i (T_Priority True) st) (Inr ()) (move_to i (T_Priority_Failed True) st)"
    using i p by (intro thread_runs_step) (simp_all add: thread_step_def Let_def)
  have "thread_runs os i (move_to i (T_Priority_Failed True) st)
      (Inl (Exn (Runtime_Error ''Couldn't set priority, are you running with privileges?''))) (move_to i (T_Priority_Failed True) st)"
    using i l by (intro thread_runs_step) (simp_all add: thread_step_def Let_def log_failure_def)
  from thread_runs_trans [OF 1 this] show ?thesis by (rule exI)
qed

lemma setup_affinity_fails:
  assumes i: "i < length (w_threads st)" and l: "logger_alive st"
    and f: "t_frame (w_threads st ! i) = frame_no st" "frame st = Some f"
    and a: "set_affinity os (captured_mask f) (wk st) = Inr False"
  shows "\<exists>st2. thread_runs os i (move_to i (T_Affinity True) st)
    (Inl (Exn (Runtime_Error ''Couldn't set affinity, are you running with privileges?''))) st2"
proof -
  have 1: "thread_runs os i (move_to i (T_Affinity True) st) (Inr ()) (move_to i (T_Affinity_Failed True) st)"
    using i f a by (intro thread_runs_step) (auto simp: thread_step_def Let_def deref_def set_affinity_def)
  have "thread_runs os i (move_to i (T_Affinity_Failed True) st)
      (Inl (Exn (Runtime_Error ''Couldn't set affinity, are you running with privileges?''))) (move_to i (T_Affinity_Failed True) st)"
    using i l by (intro thread_runs_step) (simp_all add: thread_step_def Let_def log_failure_def)
  from thread_runs_trans [OF 1 this] show ?thesis by (rule exI)
qed

lemma setup_affinity_undefined:
  assumes i: "i < length (w_threads st)"
    and f: "t_frame (w_threads st ! i) = frame_no st" "frame st = Some f"
    and a: "set_affinity os (captured_mask f) (wk st) = Inl e"
  shows "\<exists>st2. thread_runs os i (move_to i (T_Affinity strict) st) (Inl e) st2"
proof -
  have "cores (w_policy (wk st)) \<noteq> 0" using a by (auto simp: set_affinity_def)
  then have "thread_runs os i (move_to i (T_Affinity strict) st) (Inl e) (move_to i (T_Affinity strict) st)"
    using i f a by (intro thread_runs_step) (simp_all add: thread_step_def Let_def deref_def)
  then show ?thesis by (rule exI)
qed

lemma thread_setup_fails:
  assumes i: "i < length (w_threads st)" and e: "t_pc (w_threads st ! i) = T_Enter" "t_frame (w_threads st ! i) = frame_no st"
    and f: "frame st = Some \<lparr>captured_strict = strict, captured_mask = cpus\<rparr>" and l: "logger_alive st"
    and w: "worker_target os (\<lambda>_ _ s. (Inr (), s)) strict cpus (wk st) () = (Inl x, ())"
  shows "\<exists>st2. thread_runs os i st (Inl x) st2"
proof -
  have enter: "thread_runs os i st (Inr ()) (move_to i (T_Priority strict) st)"
    by (rule thread_runs_step [OF i]) (use e f in \<open>simp_all add: thread_step_def Let_def deref_def\<close>)
  show ?thesis
  proof (cases "\<not> set_priority os (wk st) \<and> strict")
    case True
    then have "x = Exn (Runtime_Error ''Couldn't set priority, are you running with privileges?'')"
      using w by (simp add: worker_target_def)
    then show ?thesis using setup_priority_fails [OF i _ l] True enter by (metis (full_types) thread_runs_trans)
  next
    case False
    then have "thread_runs os i (move_to i (T_Priority strict) st) (Inr ()) (move_to i (T_Affinity strict) st)"
      by (intro setup_priority [OF i _ l]) blast
    then have run: "thread_runs os i st (Inr ()) (move_to i (T_Affinity strict) st)" by (rule thread_runs_trans [OF enter])
    have "\<exists>st2. thread_runs os i (move_to i (T_Affinity strict) st) (Inl x) st2"
    proof (cases "set_affinity os cpus (wk st)")
      case (Inl y)
      moreover from this have "x = y" using w False by (simp add: worker_target_def split: if_splits)
      ultimately show ?thesis by (intro setup_affinity_undefined [OF i e(2) f]) simp
    next
      case (Inr ok)
      then have x: "\<not> ok" "strict" "x = Exn (Runtime_Error ''Couldn't set affinity, are you running with privileges?'')"
        using w False by (auto simp: worker_target_def split: if_splits)
      then show ?thesis using setup_affinity_fails [OF i l e(2) f] Inr by simp
    qed
    then show ?thesis using thread_runs_trans [OF run] by blast
  qed
qed

end
