(* ===== verification/Worker_Threads_Props.thy ===== *)
theory Worker_Threads_Props
  imports Worker_Threads
begin

text \<open>
  What the interleaved steps of a worker's owner and its threads promise, and where they fail: the code lets the
  thread read the locals of a call of \<open>start\<close> that may be over, and members of a worker that may be destroyed;
  a stopped thread ends; and a restart may wait forever.
\<close>

section \<open>Where the owner and the threads can be\<close>

text \<open>The calls of \<open>start\<close> in a run, by their argument.\<close>

fun starts :: "w_action list \<Rightarrow> bool list" where
  "starts [] = []"
| "starts (Call (C_Start strict) # acts) = strict # starts acts"
| "starts (a # acts) = starts acts"

text \<open>The call of \<open>start\<close> that made thread \<open>i\<close> has not returned.\<close>

definition in_its_start :: "nat \<Rightarrow> 'f w_state \<Rightarrow> bool" where
  "in_its_start i st \<longleftrightarrow> (\<exists>old. owner st = O_Join old i) \<or> owner st = O_Return \<and> Suc i = length (w_threads st)"

text \<open>That call could not allocate the cores.\<close>

definition no_mask :: "'f w_state \<Rightarrow> bool" where
  "no_mask st \<longleftrightarrow> (\<exists>l. frame st = Some l \<and> captured_mask l = None)"

fun logs :: "thread_pc \<Rightarrow> bool" where
  "logs (T_Priority_Failed strict) = True"
| "logs (T_Affinity_Failed strict) = True"
| "logs T_Name_Failed = True"
| "logs pc = False"

section \<open>The invariant\<close>

text \<open>What a thread remembers of the argument of \<open>start\<close>.\<close>

fun pc_strict :: "thread_pc \<Rightarrow> bool option" where
  "pc_strict (T_Priority strict) = Some strict"
| "pc_strict (T_Priority_Failed strict) = Some strict"
| "pc_strict (T_Affinity strict) = Some strict"
| "pc_strict (T_Affinity_Failed strict) = Some strict"
| "pc_strict pc = None"

definition handle_ok :: "'f w_state \<Rightarrow> bool" where
  "handle_ok st \<longleftrightarrow> handle st = (if w_threads st = [] then None else Some (length (w_threads st) - 1))"

definition frame_ok :: "bool list \<Rightarrow> 'f w_state \<Rightarrow> bool" where
  "frame_ok ss st \<longleftrightarrow> (\<exists>l. frame st = Some l \<and> captured_strict l = last ss)"

definition owner_ok :: "bool list \<Rightarrow> 'f w_state \<Rightarrow> bool" where
  "owner_ok ss st =
     (case owner st of
        O_Alloc \<Rightarrow> handle_ok st \<and> frame_no st = Suc (length (w_threads st)) \<and> frame_ok ss st
      | O_Create \<Rightarrow> handle_ok st \<and> frame_no st = Suc (length (w_threads st)) \<and> frame_ok ss st
      | O_Join old new \<Rightarrow> Suc new = length (w_threads st) \<and> old = (if new = 0 then None else Some (new - 1)) \<and>
          frame_no st = length (w_threads st) \<and> frame_ok ss st
      | O_Return \<Rightarrow> handle_ok st \<and> frame_no st = length (w_threads st) \<and> frame_ok ss st
      | _ \<Rightarrow> handle_ok st \<and> frame_no st = length (w_threads st) \<and> frame st = None)"

text \<open>A thread that is neither the last one nor waited for by \<open>start\<close> has ended.\<close>

definition thread_ok :: "bool list \<Rightarrow> 'f w_state \<Rightarrow> nat \<Rightarrow> bool" where
  "thread_ok ss st i \<longleftrightarrow>
     t_frame (w_threads st ! i) = Suc i \<and> pc_strict (t_pc (w_threads st ! i)) \<in> {None, Some (ss ! i)} \<and>
     (t_pc (w_threads st ! i) = T_Done \<or> (\<exists>new. owner st = O_Join (Some i) new) \<or> Suc i = length (w_threads st) \<and> owner st \<noteq> O_Gone)"

definition w_inv :: "bool list \<Rightarrow> 'f w_state \<Rightarrow> bool" where
  "w_inv ss st \<longleftrightarrow>
     length ss = frame_no st \<and> owner_ok ss st \<and> (\<forall>i < length (w_threads st). thread_ok ss st i) \<and>
     (logger_alive st \<longleftrightarrow> owner st \<notin> {O_End_Flag, O_Last_Join, O_Gone}) \<and>
     (flag_alive st \<longleftrightarrow> owner st \<notin> {O_Last_Join, O_Gone})"

lemma starts_append: "starts (as @ bs) = starts as @ starts bs"
  by (induction as rule: starts.induct) simp_all

lemma inv_init: "w_inv [] (w_init w m)"
  by (simp add: w_inv_def w_init_def owner_ok_def handle_ok_def)

lemma thread_count: "w_inv ss st \<Longrightarrow> length (w_threads st) \<le> length ss"
  by (auto simp: w_inv_def owner_ok_def split: owner_pc.splits)

text \<open>The captured references of thread \<open>i\<close> are alive exactly while the call that made it is under way.\<close>

lemma deref_inv:
  assumes "w_inv ss st" "i < length (w_threads st)"
  shows "in_its_start i st \<Longrightarrow> \<exists>l. frame st = Some l \<and> deref (w_threads st ! i) st = Inr l \<and> captured_strict l = ss ! i"
    and "\<not> in_its_start i st \<Longrightarrow> deref (w_threads st ! i) st = Inl UB"
proof -
  have f: "t_frame (w_threads st ! i) = Suc i" using assms by (simp add: w_inv_def thread_ok_def)
  have o: "owner_ok ss st" "length ss = frame_no st" using assms(1) by (simp_all add: w_inv_def)
  show "\<exists>l. frame st = Some l \<and> deref (w_threads st ! i) st = Inr l \<and> captured_strict l = ss ! i" if s: "in_its_start i st"
  proof -
    have "Suc i = frame_no st" "frame_ok ss st" using s o by (auto simp: in_its_start_def owner_ok_def)
    moreover from this(1) have "last ss = ss ! i" using o(2) by (metis diff_Suc_1 last_conv_nth length_0_conv nat.simps(3))
    ultimately show ?thesis using f by (auto simp: frame_ok_def deref_def)
  qed
  show "deref (w_threads st ! i) st = Inl UB" if s: "\<not> in_its_start i st"
    using s o(1) assms(2) f by (auto simp: in_its_start_def owner_ok_def deref_def split: owner_pc.splits option.split)
qed

subsection \<open>Steps of a thread\<close>

lemma thread_step_keeps:
  assumes "thread_step os j st = (r, st')"
  shows "wk st' = wk st" "flag_alive st' = flag_alive st" "owner st' = owner st" "length (w_threads st') = length (w_threads st)"
    "handle st' = handle st" "frame st' = frame st" "frame_no st' = frame_no st" "logger_alive st' = logger_alive st"
  using thread_step_moves [OF assms] by auto

lemma thread_step_other:
  assumes "thread_step os j st = (r, st')" "j \<noteq> i"
  shows "w_threads st' ! i = w_threads st ! i"
  using thread_step_moves [OF assms(1)] assms(2) by auto

text \<open>The thread that moves keeps what it knows of its \<open>start\<close>.\<close>

lemma thread_step_strict:
  assumes inv: "w_inv ss st" and i: "i < length (w_threads st)" "thread_step os i st = (r, st')"
  shows "t_frame (w_threads st' ! i) = Suc i \<and> pc_strict (t_pc (w_threads st' ! i)) \<in> {None, Some (ss ! i)}"
proof -
  have ok: "t_frame (w_threads st ! i) = Suc i" "pc_strict (t_pc (w_threads st ! i)) \<in> {None, Some (ss ! i)}"
    using inv i(1) by (simp_all add: w_inv_def thread_ok_def)
  have deref: "captured_strict l = ss ! i" if "deref (w_threads st ! i) st = Inr l" for l
    using deref_inv [OF inv i(1)] that by (cases "in_its_start i st") auto
  show ?thesis
    using i(2) i(1) ok deref unfolding thread_step_def Let_def log_failure_def
    by (cases "t_pc (w_threads st ! i)") (auto split: sum.splits if_splits)
qed

lemma inv_thread:
  assumes inv: "w_inv ss st" and i: "i < length (w_threads st)" "t_pc (w_threads st ! i) \<noteq> T_Done" "thread_step os i st = (r, st')"
  shows "w_inv ss st'"
proof -
  note same = thread_step_keeps [OF i(3)]
  have h: "handle_ok st' = handle_ok st" using same(4) by (auto simp: handle_ok_def same(5))
  have "owner_ok ss st'" using inv by (auto simp: w_inv_def owner_ok_def frame_ok_def same h split: owner_pc.splits)
  moreover have "thread_ok ss st' j" if j: "j < length (w_threads st)" for j
  proof (cases "j = i")
    case True
    then show ?thesis using thread_step_strict [OF inv i(1,3)] inv i(1,2) by (auto simp: thread_ok_def w_inv_def same)
  next
    case False
    then show ?thesis using thread_step_other [OF i(3), of j] inv j by (simp add: thread_ok_def w_inv_def same)
  qed
  ultimately show ?thesis using inv by (simp add: w_inv_def same)
qed

subsection \<open>Steps of the owner\<close>

text \<open>The steps that leave the threads alone.\<close>

lemma threads_keep:
  assumes "w_inv ss st" "w_threads st' = w_threads st" "\<And>old new. owner st \<noteq> O_Join old new" "owner st' \<noteq> O_Gone"
    "\<And>i. i < length (w_threads st) \<Longrightarrow> ss' ! i = ss ! i"
  shows "\<forall>i < length (w_threads st'). thread_ok ss' st' i"
  using assms unfolding w_inv_def thread_ok_def by auto

lemma inv_call:
  assumes inv: "w_inv ss st" and o: "owner st = O_Idle"
  shows "w_inv (ss @ starts [Call c]) (do_call c st)"
proof -
  have n: "length (w_threads st) \<le> length ss" by (rule thread_count [OF inv])
  have "\<forall>i < length (w_threads (do_call c st)). thread_ok (ss @ starts [Call c]) (do_call c st) i"
    by (rule threads_keep [OF inv]) (cases c; use o n in \<open>simp add: nth_append\<close>)+
  then show ?thesis using inv o by (cases c) (simp_all add: w_inv_def owner_ok_def handle_ok_def frame_ok_def)
qed

lemma inv_create:
  assumes inv: "w_inv ss st" and o: "owner st = O_Create" and s: "own_step st = Some (Inr (), st')"
  shows "w_inv ss st'"
proof -
  have st': "st' = st\<lparr>w_threads := w_threads st @ [\<lparr>t_pc = T_Enter, t_frame = frame_no st\<rparr>],
      owner := O_Join (handle st) (length (w_threads st))\<rparr>" using s o by (simp add: own_step_def)
  have h: "handle_ok st" "frame_no st = Suc (length (w_threads st))" "frame_ok ss st" using inv o by (simp_all add: w_inv_def owner_ok_def)
  have "thread_ok ss st' i" if "i < length (w_threads st')" for i
  proof (cases "i = length (w_threads st)")
    case True
    then show ?thesis using h(2) by (simp add: thread_ok_def st')
  next
    case False
    then have i: "i < length (w_threads st)" using that by (simp add: st')
    then have "thread_ok ss st i" using inv by (simp add: w_inv_def)
    then show ?thesis using h(1) i o by (auto simp: thread_ok_def st' nth_append handle_ok_def split: if_splits)
  qed
  then show ?thesis using inv o h by (auto simp: w_inv_def st' owner_ok_def handle_ok_def frame_ok_def)
qed

lemma inv_join:
  assumes inv: "w_inv ss st" and o: "owner st = O_Join old new" and s: "own_step st = Some (Inr (), st')"
  shows "w_inv ss st'"
proof -
  have st': "finished old st" "st' = st\<lparr>wk := (wk st)\<lparr>work_thread := frame st\<rparr>, handle := Some new, owner := O_Return\<rparr>"
    using s o by (simp_all add: own_step_def split: if_splits)
  have "thread_ok ss st' i" if "i < length (w_threads st')" for i
    using inv that st'(1) o by (auto simp: w_inv_def thread_ok_def st'(2) finished_def)
  then show ?thesis using inv o by (auto simp: w_inv_def st'(2) owner_ok_def handle_ok_def frame_ok_def)
qed

lemma inv_last_join:
  assumes inv: "w_inv ss st" and o: "owner st = O_Last_Join" and s: "own_step st = Some (Inr (), st')"
  shows "w_inv ss st'"
proof -
  have st': "finished (handle st) st" "st' = st\<lparr>owner := O_Gone\<rparr>"
    using s o by (simp_all add: own_step_def split: if_splits)
  have h: "handle_ok st" using inv o by (simp add: w_inv_def owner_ok_def)
  have "thread_ok ss st' i" if "i < length (w_threads st')" for i
  proof -
    have "t_pc (w_threads st ! i) = T_Done \<or> Suc i = length (w_threads st)" and i: "i < length (w_threads st)"
      using inv that o by (auto simp: w_inv_def thread_ok_def st'(2))
    moreover from i have "t_pc (w_threads st ! (length (w_threads st) - 1)) = T_Done"
      using st'(1) h by (cases "w_threads st = []") (simp_all add: handle_ok_def finished_def)
    ultimately have "t_pc (w_threads st ! i) = T_Done" by (metis diff_Suc_1)
    then show ?thesis using inv i by (simp add: w_inv_def thread_ok_def st'(2))
  qed
  then show ?thesis using inv o by (simp add: w_inv_def st'(2) owner_ok_def handle_ok_def)
qed

lemma inv_own:
  assumes inv: "w_inv ss st" and s: "own_step st = Some (Inr (), st')"
  shows "w_inv ss st'"
proof -
  have parts: "length ss = frame_no st" "owner_ok ss st" "logger_alive st \<longleftrightarrow> owner st \<notin> {O_End_Flag, O_Last_Join, O_Gone}"
    "flag_alive st \<longleftrightarrow> owner st \<notin> {O_Last_Join, O_Gone}" using inv by (simp_all add: w_inv_def)
  have easy: ?thesis if "\<And>old new. owner st \<noteq> O_Join old new" "w_threads st' = w_threads st" "owner st' \<noteq> O_Gone"
    "length ss = frame_no st'" "owner_ok ss st'" "logger_alive st' \<longleftrightarrow> owner st' \<notin> {O_End_Flag, O_Last_Join, O_Gone}"
    "flag_alive st' \<longleftrightarrow> owner st' \<notin> {O_Last_Join, O_Gone}"
    using threads_keep [OF inv that(2,1,3) refl] that by (simp add: w_inv_def)
  show ?thesis
  proof (cases "owner st")
    case O_Alloc
    then obtain b cpus w m where "st' = st\<lparr>wk := w, mgr := m, frame := map_option (captured_mask_update (\<lambda>_. cpus)) (frame st), owner := O_Create\<rparr>"
      using s by (auto simp: own_step_def split: prod.splits sum.splits)
    then show ?thesis using O_Alloc parts by (intro easy) (auto simp: owner_ok_def handle_ok_def frame_ok_def)
  next
    case O_Return
    then have "st' = st\<lparr>frame := None, owner := O_Idle\<rparr>" using s by (simp add: own_step_def)
    then show ?thesis using O_Return parts by (intro easy) (auto simp: owner_ok_def handle_ok_def)
  next
    case (O_Give_Back gone)
    then have "st' = st\<lparr>wk := (wk st)\<lparr>allocated_cores := []\<rparr>, mgr := snd (deallocate_all (allocated_cores (wk st)) (mgr st)),
        owner := (if gone then O_End_Logger else O_Idle)\<rparr>" using s by (simp add: own_step_def)
    then show ?thesis using O_Give_Back parts by (intro easy) (auto simp: owner_ok_def handle_ok_def)
  next
    case O_End_Logger
    then have "st' = st\<lparr>logger_alive := False, owner := O_End_Flag\<rparr>" using s by (simp add: own_step_def)
    then show ?thesis using O_End_Logger parts by (intro easy) (auto simp: owner_ok_def handle_ok_def)
  next
    case O_End_Flag
    then have "st' = st\<lparr>flag_alive := False, owner := O_Last_Join\<rparr>" using s by (simp add: own_step_def)
    then show ?thesis using O_End_Flag parts by (intro easy) (auto simp: owner_ok_def handle_ok_def)
  next
    case O_Create
    then show ?thesis using inv_create [OF inv _ s] by simp
  next
    case (O_Join old new)
    then show ?thesis using inv_join [OF inv _ s] by simp
  next
    case O_Last_Join
    then show ?thesis using inv_last_join [OF inv _ s] by simp
  qed (use s in \<open>simp_all add: own_step_def\<close>)
qed

subsection \<open>Runs\<close>

lemma inv_act:
  assumes "w_inv ss st" "w_act os a st = Some (Inr (), st')"
  shows "w_inv (ss @ starts [a]) st'"
proof (cases a)
  case (Call c)
  then have "owner st = O_Idle" "st' = do_call c st" using assms(2) by (simp_all add: w_act_def split: if_splits)
  then show ?thesis using inv_call [OF assms(1)] Call by simp
next
  case Own
  then show ?thesis using inv_own assms by (simp add: w_act_def)
next
  case (Thr i)
  then show ?thesis using inv_thread [OF assms(1), of i os "Inr ()" st'] assms(2) by (simp add: w_act_def split: if_splits)
next
  case (Thr_Throws i x)
  then show ?thesis using assms(2) by (simp add: w_act_def body_throws_def split: if_splits)
qed

lemma inv_run:
  "w_inv ss st \<Longrightarrow> w_run os acts st = Some (Inr (), st') \<Longrightarrow> w_inv (ss @ starts acts) st'"
proof (induction acts arbitrary: ss st)
  case (Cons a acts)
  obtain st1 where a: "w_act os a st = Some (Inr (), st1)" "w_run os acts st1 = Some (Inr (), st')"
    using Cons.prems(2) by (auto split: option.splits sum.splits)
  have "w_inv ((ss @ starts [a]) @ starts acts) st'"
    by (rule Cons.IH [OF inv_act [OF Cons.prems(1) a(1)] a(2)])
  then show ?case using starts_append [of "[a]" acts] by simp
qed simp

subsection \<open>Failures\<close>

text \<open>What a thread that has not ended can fail with, by where the owner is.\<close>

definition thread_failure :: "bool list \<Rightarrow> nat \<Rightarrow> 'f w_state \<Rightarrow> error \<Rightarrow> bool" where
  "thread_failure ss i st e =
     (case t_pc (w_threads st ! i) of
        T_Enter \<Rightarrow> e = UB \<and> \<not> in_its_start i st
      | T_Affinity strict \<Rightarrow> e = UB \<and> cores (w_policy (wk st)) \<noteq> 0 \<and> (in_its_start i st \<longrightarrow> no_mask st)
      | T_Test \<Rightarrow> e = UB \<and> owner st = O_Last_Join
      | pc \<Rightarrow> logs pc \<and>
          (if owner st \<in> {O_End_Flag, O_Last_Join} then e = UB
           else ss ! i \<and>
             ((\<exists>s. pc = T_Priority_Failed s) \<and> e = Exn (Runtime_Error ''Couldn't set priority, are you running with privileges?'') \<or>
              (\<exists>s. pc = T_Affinity_Failed s) \<and> e = Exn (Runtime_Error ''Couldn't set affinity, are you running with privileges?''))))"

lemma thread_fails_iff:
  assumes inv: "w_inv ss st" and i: "i < length (w_threads st)"
  shows "fst (thread_step os i st) = Inl e \<longleftrightarrow> thread_failure ss i st e"
proof -
  let ?pc = "t_pc (w_threads st ! i)"
  note d = deref_inv [OF inv i]
  have s: "pc_strict ?pc \<in> {None, Some (ss ! i)}" using inv i by (simp add: w_inv_def thread_ok_def)
  have gone: "owner st \<noteq> O_Gone" if "?pc \<noteq> T_Done" using inv i that by (auto simp: w_inv_def thread_ok_def)
  have l: "logger_alive st \<longleftrightarrow> owner st \<notin> {O_End_Flag, O_Last_Join}" "flag_alive st \<longleftrightarrow> owner st \<noteq> O_Last_Join" if "?pc \<noteq> T_Done"
    using inv gone that by (auto simp: w_inv_def)
  show ?thesis
  proof (cases ?pc)
    case T_Enter
    then show ?thesis using d by (cases "in_its_start i st") (auto simp: thread_failure_def thread_step_def)
  next
    case (T_Affinity x)
    show ?thesis
    proof (cases "in_its_start i st")
      case True
      then obtain l where "frame st = Some l" "deref (w_threads st ! i) st = Inr l" using d(1) by blast
      then show ?thesis using T_Affinity True
        by (cases "captured_mask l") (auto simp: thread_failure_def thread_step_def no_mask_def set_affinity_def)
    next
      case False
      then show ?thesis using T_Affinity d(2) by (auto simp: thread_failure_def thread_step_def)
    qed
  next
    case (T_Priority_Failed x)
    then show ?thesis using l s by (auto simp: thread_failure_def thread_step_def log_failure_def)
  next
    case (T_Affinity_Failed x)
    then show ?thesis using l s by (auto simp: thread_failure_def thread_step_def log_failure_def)
  next
    case T_Name_Failed
    then show ?thesis using l by (auto simp: thread_failure_def thread_step_def log_failure_def)
  next
    case T_Test
    then show ?thesis using l by (auto simp: thread_failure_def thread_step_def)
  qed (simp_all add: thread_failure_def thread_step_def)
qed

section \<open>Stopping\<close>

text \<open>Thread \<open>i\<close> is in its loop and the flag is set; nobody but \<open>start\<close> clears it and only the destructor ends it.\<close>

definition ending :: "nat \<Rightarrow> 'f w_state \<Rightarrow> bool" where
  "ending i st \<longleftrightarrow> i < length (w_threads st) \<and> t_pc (w_threads st ! i) \<in> {T_Test, T_Body, T_Done} \<and> w_stop_flag (wk st) \<and>
     flag_alive st \<and> owner st \<in> {O_Idle, O_Give_Back False}"

fun steps_left :: "thread_pc \<Rightarrow> nat" where
  "steps_left T_Body = 2"
| "steps_left T_Test = 1"
| "steps_left pc = 0"

lemma ending_thread:
  assumes "ending i st" "t_pc (w_threads st ! i) \<noteq> T_Done" "thread_step os i st = (r, st')"
  shows "r = Inr () \<and> ending i st' \<and> Suc (steps_left (t_pc (w_threads st' ! i))) = steps_left (t_pc (w_threads st ! i))"
  using assms by (auto simp: ending_def thread_step_def)

lemma ending_act:
  assumes e: "ending i st" and a: "w_act os a st = Some (Inr (), st')" "\<And>s. a \<noteq> Call (C_Start s)" "a \<noteq> Call C_Destroy"
  shows "ending i st' \<and>
    steps_left (t_pc (w_threads st' ! i)) + count_list [a] (Thr i) = steps_left (t_pc (w_threads st ! i))"
proof (cases a)
  case (Call c)
  then have "c = C_Stop" using a(2,3) by (cases c) auto
  then show ?thesis using a(1) e Call by (auto simp: w_act_def ending_def split: if_splits)
next
  case Own
  then show ?thesis using a(1) e by (auto simp: w_act_def ending_def own_step_def split: if_splits)
next
  case (Thr j)
  then have j: "t_pc (w_threads st ! j) \<noteq> T_Done" "thread_step os j st = (Inr (), st')"
    using a(1) by (simp_all add: w_act_def split: if_splits)
  show ?thesis
  proof (cases "j = i")
    case True
    then show ?thesis using ending_thread [OF e] j Thr by simp
  next
    case False
    then show ?thesis using thread_step_other [OF j(2) False] thread_step_keeps [OF j(2)] e Thr by (simp add: ending_def)
  qed
next
  case (Thr_Throws j x)
  then show ?thesis using a(1) by (simp add: w_act_def body_throws_def split: if_splits)
qed

lemma ending_run:
  "ending i st \<Longrightarrow> \<forall>a \<in> set acts. (\<forall>s. a \<noteq> Call (C_Start s)) \<and> a \<noteq> Call C_Destroy \<Longrightarrow> w_run os acts st = Some (Inr (), st') \<Longrightarrow>
   ending i st' \<and> steps_left (t_pc (w_threads st' ! i)) + count_list acts (Thr i) = steps_left (t_pc (w_threads st ! i))"
proof (induction acts arbitrary: st)
  case (Cons a acts)
  obtain st1 where a: "w_act os a st = Some (Inr (), st1)" "w_run os acts st1 = Some (Inr (), st')"
    using Cons.prems(3) by (auto split: option.splits sum.splits)
  have 1: "ending i st1 \<and> steps_left (t_pc (w_threads st1 ! i)) + count_list [a] (Thr i) = steps_left (t_pc (w_threads st ! i))"
    by (rule ending_act [OF Cons.prems(1) a(1)]) (use Cons.prems(2) in auto)
  have "ending i st' \<and> steps_left (t_pc (w_threads st' ! i)) + count_list acts (Thr i) = steps_left (t_pc (w_threads st1 ! i))"
    by (rule Cons.IH [OF _ _ a(2)]) (use 1 Cons.prems(2) in auto)
  with 1 show ?case by auto
qed simp

section \<open>Restarting\<close>

text \<open>\<open>start\<close> waits for a thread whose flag it has cleared.\<close>

definition hanging :: "nat \<Rightarrow> 'f w_state \<Rightarrow> bool" where
  "hanging i st \<longleftrightarrow> i < length (w_threads st) \<and> t_pc (w_threads st ! i) \<in> {T_Test, T_Body} \<and> \<not> w_stop_flag (wk st) \<and>
     (\<exists>new. owner st = O_Join (Some i) new)"

lemma hanging_act:
  assumes h: "hanging i st" and a: "w_act os a st = Some (r, st')"
  shows "hanging i st'"
proof (cases a)
  case (Call c)
  then show ?thesis using h a by (auto simp: hanging_def w_act_def)
next
  case Own
  then show ?thesis using h a by (auto simp: hanging_def w_act_def own_step_def finished_def split: if_splits)
next
  case (Thr j)
  then have j: "thread_step os j st = (r, st')" using a by (simp add: w_act_def split: if_splits)
  show ?thesis
  proof (cases "j = i")
    case True
    then show ?thesis using h j by (auto simp: hanging_def thread_step_def split: if_splits)
  next
    case False
    then show ?thesis using thread_step_other [OF j False] thread_step_keeps [OF j] h by (simp add: hanging_def)
  qed
next
  case (Thr_Throws j x)
  then show ?thesis using h a by (simp add: w_act_def body_throws_def split: if_splits)
qed

lemma hanging_run: "hanging i st \<Longrightarrow> w_run os acts st = Some (r, st') \<Longrightarrow> hanging i st'"
proof (induction acts arbitrary: st)
  case (Cons a acts)
  obtain r1 st1 where a: "w_act os a st = Some (r1, st1)" using Cons.prems(2) by (cases "w_act os a st") auto
  have "hanging i st1" by (rule hanging_act [OF Cons.prems(1) a])
  then show ?case using Cons.IH Cons.prems(2) a by (cases r1) auto
qed simp

lemma restart_hangs:
  assumes "owner st = O_Idle" "handle st = Some i" "i < length (w_threads st)" "t_pc (w_threads st ! i) \<in> {T_Test, T_Body}"
    and cores: "worker_stop (wk st) (mgr st) = (w1, m1)" "worker_start strict w1 m1 = (Inr (), w2, m2)"
  shows "\<exists>st1. w_run os [Call C_Stop, Own, Call (C_Start strict), Own, Own] st = Some (Inr (), st1) \<and> hanging i st1"
proof -
  define st0 where "st0 = st\<lparr>wk := w1, mgr := m1\<rparr>"
  have stop: "w_run os [Call C_Stop, Own] st = Some (Inr (), st0)"
    unfolding st0_def by (rule stop_alone_steps [OF assms(1) cores(1)])
  obtain p w3 m3 where al: "allocate_cores (w1\<lparr>w_stop_flag := False\<rparr>) m1 = (Inr p, w3, m3)"
    using cores(2) by (auto simp: worker_start_def split: prod.splits sum.splits)
  have flag: "\<not> w_stop_flag w3"
    using al by (auto simp: allocate_cores_def split: prod.splits sum.splits error.splits exn.splits if_splits)
  obtain b cpus where p: "p = (b, cpus)" by (cases p)
  have "\<exists>st1. w_run os [Call (C_Start strict), Own, Own] st0 = Some (Inr (), st1) \<and> hanging i st1"
    using assms(1-4) al p flag by (simp add: st0_def w_act_def own_step_def hanging_def nth_append)
  then show ?thesis using stop w_run_append [of os "[Call C_Stop, Own]" "[Call (C_Start strict), Own, Own]" st] by simp
qed

section \<open>Properties\<close>


text \<open>C18. A thread in its loop ends after \<open>stop\<close>, as long as the worker is neither started again nor destroyed: however the steps
  of the owner and of other threads are interleaved with its own, it takes at most two more of them (the return of
  the execution it is in, if it is in one, and a test of the flag), it is done after its last one, and until then
  its next step is possible and does not fail, so a join returns.\<close>

theorem stopped_thread_ends:
  assumes "i < length (w_threads st)" "t_pc (w_threads st ! i) \<in> {T_Test, T_Body}" "owner st = O_Idle" "flag_alive st"
    "\<forall>a \<in> set acts. (\<forall>s. a \<noteq> Call (C_Start s)) \<and> a \<noteq> Call C_Destroy"
    "w_run os (Call C_Stop # acts) st = Some (Inr (), st')"
  shows "count_list acts (Thr i) \<le> 2 \<and>
    (if t_pc (w_threads st' ! i) = T_Done then finished (Some i) st'
     else count_list acts (Thr i) < 2 \<and> (\<exists>st2. w_act os (Thr i) st' = Some (Inr (), st2)))"
proof -
  have "ending i (do_call C_Stop st)" "w_run os acts (do_call C_Stop st) = Some (Inr (), st')"
    using assms by (auto simp: ending_def w_act_def)
  from ending_run [OF this(1) assms(5) this(2)] assms(2) have e: "ending i st'"
    and c: "steps_left (t_pc (w_threads st' ! i)) + count_list acts (Thr i) = steps_left (t_pc (w_threads st ! i))"
    by simp_all
  have "steps_left (t_pc (w_threads st ! i)) \<le> 2" using assms(2) by auto
  moreover have "0 < steps_left (t_pc (w_threads st' ! i))" if "t_pc (w_threads st' ! i) \<noteq> T_Done"
    using e that by (auto simp: ending_def)
  moreover have "\<exists>st2. w_act os (Thr i) st' = Some (Inr (), st2)" if nd: "t_pc (w_threads st' ! i) \<noteq> T_Done"
  proof -
    obtain r st2 where s: "thread_step os i st' = (r, st2)" by fastforce
    then have "r = Inr ()" using ending_thread [OF e nd] by simp
    then show ?thesis using s e nd by (simp add: w_act_def ending_def)
  qed
  ultimately show ?thesis using c by (auto simp: finished_def)
qed

text \<open>C35. Restarting a worker may never return: when the owner calls \<open>stop\<close> and then \<open>start\<close> while the thread is in its loop, and
  the thread does not test the flag in between, \<open>start\<close> has cleared the flag it waits for; whatever happens from
  then on, the call stays in the join.\<close>

theorem restart_never_returns:
  assumes "owner st = O_Idle" "handle st = Some i" "i < length (w_threads st)" "t_pc (w_threads st ! i) \<in> {T_Test, T_Body}"
    "worker_stop (wk st) (mgr st) = (w1, m1)" "worker_start strict w1 m1 = (Inr (), w2, m2)"
  shows "\<exists>st1. w_run os [Call C_Stop, Own, Call (C_Start strict), Own, Own] st = Some (Inr (), st1) \<and>
    (\<forall>acts r st2. w_run os acts st1 = Some (r, st2) \<longrightarrow> (\<exists>new. owner st2 = O_Join (Some i) new))"
proof -
  obtain st1 where st1: "w_run os [Call C_Stop, Own, Call (C_Start strict), Own, Own] st = Some (Inr (), st1)" "hanging i st1"
    using restart_hangs [where os = os, OF assms] by blast
  have "\<exists>new. owner st2 = O_Join (Some i) new" if "w_run os acts st1 = Some (r, st2)" for acts r st2
    using hanging_run [OF st1(2) that] by (simp add: hanging_def)
  then show ?thesis using st1(1) by blast
qed

lemma worker_target_thread:
  "worker_target os f strict cpus (w\<lparr>work_thread := l\<rparr>) s = worker_target os f strict cpus w s"
  unfolding worker_target_def set_priority_def set_affinity_def by (cases w) (simp only: worker.simps worker.update_convs)

lemma start_sets_up:
  assumes o: "owner st = O_Idle" "logger_alive st" and w: "worker_start strict (wk st) (mgr st) = (Inr (), w, m)"
  shows "\<exists>cpus st1. work_thread w = Some \<lparr>captured_strict = strict, captured_mask = cpus\<rparr> \<and>
    w_run os [Call (C_Start strict), Own, Own] st = Some (Inr (), st1) \<and>
    (case fst (worker_target os (\<lambda>_ _ s. (Inr (), s)) strict cpus w ()) of
       Inl e \<Rightarrow> \<exists>st2. thread_runs os (length (w_threads st)) st1 (Inl e) st2
     | Inr _ \<Rightarrow> thread_runs os (length (w_threads st)) st1 (Inr ()) (move_to (length (w_threads st)) T_Test st1))"
proof -
  obtain p w' m' where al: "allocate_cores ((wk st)\<lparr>w_stop_flag := False\<rparr>) (mgr st) = (Inr p, w', m')"
    using w by (auto simp: worker_start_def split: prod.splits sum.splits)
  obtain b cpus where p: "p = (b, cpus)" by (cases p)
  have w': "w = w'\<lparr>work_thread := Some \<lparr>captured_strict = strict, captured_mask = cpus\<rparr>\<rparr>"
    using w al p by (auto simp: worker_start_def)
  define st1 where "st1 = st\<lparr>wk := w', mgr := m', frame := Some \<lparr>captured_strict = strict, captured_mask = cpus\<rparr>,
    frame_no := Suc (frame_no st), w_threads := w_threads st @ [\<lparr>t_pc = T_Enter, t_frame = Suc (frame_no st)\<rparr>],
    owner := O_Join (handle st) (length (w_threads st))\<rparr>"
  have run: "w_run os [Call (C_Start strict), Own, Own] st = Some (Inr (), st1)"
    using o(1) al p by (simp add: w_act_def own_step_def st1_def)
  have t: "length (w_threads st) < length (w_threads st1)" "t_pc (w_threads st1 ! length (w_threads st)) = T_Enter"
    "t_frame (w_threads st1 ! length (w_threads st)) = frame_no st1"
    "frame st1 = Some \<lparr>captured_strict = strict, captured_mask = cpus\<rparr>" "logger_alive st1" "wk st1 = w'"
    using o(2) by (simp_all add: st1_def nth_append)
  obtain r where r: "worker_target os (\<lambda>_ _ s. (Inr (), s)) strict cpus w () = (r, ())" by (cases "worker_target os (\<lambda>_ _ s. (Inr (), s)) strict cpus w ()") auto
  then have target: "worker_target os (\<lambda>_ _ s. (Inr (), s)) strict cpus (wk st1) () = (r, ())"
    by (simp only: w' worker_target_thread t(6))
  have "case r of Inl e \<Rightarrow> \<exists>st2. thread_runs os (length (w_threads st)) st1 (Inl e) st2
     | Inr _ \<Rightarrow> thread_runs os (length (w_threads st)) st1 (Inr ()) (move_to (length (w_threads st)) T_Test st1)"
  proof (cases r)
    case (Inl e)
    then show ?thesis using thread_setup_fails [OF t(1-5)] target by simp
  next
    case (Inr u)
    then show ?thesis using thread_setup_alone [OF t(1-5)] target by simp
  qed
  then show ?thesis using run r by (intro exI [of _ cpus] exI [of _ st1] conjI) (simp_all add: w')
qed

text \<open>A worker that is destroyed while its thread is in its loop: the flag is set, but destroyed before the join, and the thread
  reads it; only a thread that tests the flag before that ends in order.\<close>

theorem destroyed_flag_is_read:
  assumes "owner st = O_Idle" "i < length (w_threads st)" "t_pc (w_threads st ! i) = T_Test"
  shows "\<exists>st1. w_run os [Call C_Destroy, Own, Own, Own, Thr i] st = Some (Inl UB, st1)"
  using assms by (simp add: w_act_def own_step_def thread_step_def)

text \<open>C36. Uninterrupted, the steps do what the operations as one step do, on every branch.  Where \<open>start\<close> throws, so do its
  steps, with the same error and leaving the same worker and manager.  Where it returns, its steps return with the
  same worker and manager, and the steps of \<open>stop\<close> then do what \<open>stop\<close> does; and the new thread, moving while \<open>start\<close>
  has not returned, does what \<open>worker_target\<close> does: it comes to the loop of its function where \<open>worker_target\<close> does,
  and fails with the same error where that fails, which a strict start whose priority or affinity cannot be set
  does and one without a CPU set.\<close>

theorem worker_steps_alone:
  assumes "owner st = O_Idle" "\<forall>i. handle st = Some i \<longrightarrow> i < length (w_threads st)" "finished (handle st) st" "logger_alive st"
    "worker_start strict (wk st) (mgr st) = (r, w, m)"
  shows "case r of
      Inl e \<Rightarrow> \<exists>st1. w_run os [Call (C_Start strict), Own] st = Some (Inl e, st1) \<and> wk st1 = w \<and> mgr st1 = m
    | Inr _ \<Rightarrow>
       (\<exists>st1. w_run os [Call (C_Start strict), Own, Own, Own, Own] st = Some (Inr (), st1) \<and> wk st1 = w \<and> mgr st1 = m \<and>
         handle st1 = Some (length (w_threads st)) \<and>
         (\<exists>st2. w_run os [Call C_Stop, Own] st1 = Some (Inr (), st2) \<and> (wk st2, mgr st2) = worker_stop w m)) \<and>
       (\<exists>cpus st1. work_thread w = Some \<lparr>captured_strict = strict, captured_mask = cpus\<rparr> \<and>
         w_run os [Call (C_Start strict), Own, Own] st = Some (Inr (), st1) \<and>
         (case fst (worker_target os (\<lambda>_ _ s. (Inr (), s)) strict cpus w ()) of
            Inl e \<Rightarrow> \<exists>st2. thread_runs os (length (w_threads st)) st1 (Inl e) st2
          | Inr _ \<Rightarrow> thread_runs os (length (w_threads st)) st1 (Inr ()) (move_to (length (w_threads st)) T_Test st1)))"
proof (cases r)
  case (Inl e)
  then show ?thesis using start_alone_steps [OF assms(1-3,5), where os = os] by simp
next
  case (Inr u)
  then have w: "worker_start strict (wk st) (mgr st) = (Inr (), w, m)" using assms(5) by simp
  obtain st1 where st1: "w_run os [Call (C_Start strict), Own, Own, Own, Own] st = Some (Inr (), st1)" "wk st1 = w" "mgr st1 = m"
    "owner st1 = O_Idle" "handle st1 = Some (length (w_threads st))"
    using start_alone_steps [OF assms(1-3) w, where os = os] by auto
  obtain w' m' where sp: "worker_stop w m = (w', m')" by (cases "worker_stop w m")
  have stop: "w_run os [Call C_Stop, Own] st1 = Some (Inr (), st1\<lparr>wk := w', mgr := m'\<rparr>)"
    by (rule stop_alone_steps) (use st1 sp in simp_all)
  have "\<exists>st2. w_run os [Call C_Stop, Own] st1 = Some (Inr (), st2) \<and> (wk st2, mgr st2) = worker_stop w m"
    by (rule exI, rule conjI, rule stop) (simp add: sp)
  with st1 show ?thesis using start_sets_up [OF assms(1,4) w, where os = os] Inr by auto
qed

subsection \<open>Concrete inputs\<close>

definition sample_worker :: "string worker" where
  "sample_worker = worker_new (sample_policy 1 PINNED) ''job''"

lemma sample_worker_facts:
  "priority (w_policy sample_worker) = 1" "cores (w_policy sample_worker) = 1" "thread_name (w_policy sample_worker) = ''worker''"
  "allocated_cores sample_worker = []"
  by (simp_all add: sample_worker_def worker_new_def sample_policy_def)

text \<open>A thread in its loop, after a start on the core 2.\<close>

definition looping :: "string w_state" where
  "looping = (w_init (sample_worker\<lparr>allocated_cores := [core_of PINNED 2]\<rparr>) (sample_manager\<lparr>pinned_core_pool := [0, 1]\<rparr>))
     \<lparr>w_threads := [\<lparr>t_pc = T_Body, t_frame = 1\<rparr>], handle := Some 0, frame_no := 1\<rparr>"

lemma sample_start:
  "allocate_cores (sample_worker\<lparr>w_stop_flag := b\<rparr>) sample_manager =
     (Inr (True, Some [2]), sample_worker\<lparr>w_stop_flag := b, allocated_cores := [core_of PINNED 2]\<rparr>, sample_manager\<lparr>pinned_core_pool := [0, 1]\<rparr>)"
  by (cases b; code_simp)

theorem stopped_thread_ends_witness:
  "\<exists>st'. w_run sample_os [Call C_Stop, Own, Thr 0, Thr 0] looping = Some (Inr (), st') \<and> finished (Some 0) st'"
proof -
  obtain st' where st': "w_run sample_os [Call C_Stop, Own, Thr 0, Thr 0] looping = Some (Inr (), st')"
    "t_pc (w_threads st' ! 0) = T_Done"
    by (simp add: looping_def w_init_def w_act_def own_step_def thread_step_def)
  have "count_list [Own, Thr 0, Thr 0] (Thr 0) \<le> 2 \<and>
    (if t_pc (w_threads st' ! 0) = T_Done then finished (Some 0) st'
     else count_list [Own, Thr 0, Thr 0] (Thr 0) < 2 \<and> (\<exists>st2. w_act sample_os (Thr 0) st' = Some (Inr (), st2)))"
    by (rule stopped_thread_ends [OF _ _ _ _ _ st'(1)]) (simp_all add: looping_def w_init_def)
  then show ?thesis using st' by auto
qed

lemma sample_worker_start:
  "worker_start False sample_worker sample_manager = (Inr (), sample_worker\<lparr>allocated_cores := [core_of PINNED 2],
     work_thread := Some \<lparr>captured_strict = False, captured_mask = Some [2]\<rparr>\<rparr>, sample_manager\<lparr>pinned_core_pool := [0, 1]\<rparr>)"
  by code_simp

theorem restart_never_returns_witness:
  "\<exists>st1. w_run sample_os [Call C_Stop, Own, Call (C_Start False), Own, Own] looping = Some (Inr (), st1) \<and>
    (\<forall>acts r st2. w_run sample_os acts st1 = Some (r, st2) \<longrightarrow> (\<exists>new. owner st2 = O_Join (Some 0) new))"
proof (rule restart_never_returns)
  show "worker_stop (wk looping) (mgr looping) =
      (sample_worker\<lparr>w_stop_flag := True\<rparr>, sample_manager)"
    by code_simp
  show "worker_start False (sample_worker\<lparr>w_stop_flag := True\<rparr>) sample_manager = 
      (Inr (), sample_worker\<lparr>allocated_cores := [core_of PINNED 2],
        work_thread := Some \<lparr>captured_strict = False, captured_mask = Some [2]\<rparr>\<rparr>, sample_manager\<lparr>pinned_core_pool := [0, 1]\<rparr>)"
    by code_simp
qed (simp_all add: looping_def w_init_def)

text \<open>A worker whose priority the system refuses, started strictly.\<close>

definition refused_worker :: "string worker" where
  "refused_worker = sample_worker\<lparr>w_policy := (sample_policy 1 PINNED)\<lparr>priority := 99\<rparr>\<rparr>"

theorem worker_steps_alone_witness:
  "\<exists>st1 st2. w_run sample_os [Call (C_Start True), Own, Own] (w_init refused_worker sample_manager) = Some (Inr (), st1) \<and>
    thread_runs sample_os 0 st1 (Inl (Exn (Runtime_Error ''Couldn't set priority, are you running with privileges?''))) st2"
proof -
  let ?st = "w_init refused_worker sample_manager"
  have ws: "worker_start True (wk ?st) (mgr ?st) = (Inr (), refused_worker\<lparr>allocated_cores := [core_of PINNED 2],
     work_thread := Some \<lparr>captured_strict = True, captured_mask = Some [2]\<rparr>\<rparr>, sample_manager\<lparr>pinned_core_pool := [0, 1]\<rparr>)"
    by code_simp
  have "fst (worker_target sample_os (\<lambda>_ _ s. (Inr (), s)) True cpus (refused_worker\<lparr>allocated_cores := cs, work_thread := l\<rparr>) ()) =
      Inl (Exn (Runtime_Error ''Couldn't set priority, are you running with privileges?''))" for cpus cs l
    by (simp add: worker_target_def set_priority_def refused_worker_def sample_os_def)
  then show ?thesis
    using worker_steps_alone [OF _ _ _ _ ws, where os = sample_os] by (auto simp: w_init_def finished_def)
qed


end
