(* ===== verification/Mission_Run.thy ===== *)
theory Mission_Run
  imports Mission "HOL-Library.Sublist"
begin

text \<open>
  A mission from its \<open>add\<close> calls to the loops of its workers (\<open>core/src/flow/Mission.hpp\<close>,
  \<open>Mission.cpp\<close>): two pipelines connected automatically, their workers executing them in any interleaving.
  One \<open>pipeline.execute()\<close> is one step: the pipelines share the queue between them and nothing else, and
  each execution performs one operation on it.
\<close>

section \<open>The workers' loops, interleaved\<close>

text \<open>\<open>sched\<close>: the order in which the workers come to execute their pipelines.\<close>

fun mission_run ::
  "nat \<Rightarrow> ('a, 'p, 'u) runtime \<Rightarrow> pipeline list \<Rightarrow> nat list \<Rightarrow> ('p, 'u) flow_state \<Rightarrow> unit result \<times> ('p, 'u) flow_state" where
  "mission_run fuel rt ps [] st = (Inr (), st)"
| "mission_run fuel rt ps (i # sched) st =
     (if i < length ps then and_then (pipeline_execute fuel rt (ps ! i) st) (\<lambda>_. mission_run fuel rt ps sched)
      else (Inl UB, st))"

section \<open>What a line of modules makes of a value\<close>

fun chain_val ::
  "('a, 'p, 'u) runtime \<Rightarrow> (nid \<Rightarrow> kind option) \<Rightarrow> nid list \<Rightarrow> 'p val \<Rightarrow> 'u \<Rightarrow> ('p val \<times> 'u) option" where
  "chain_val rt kd [] v u = Some (v, u)"
| "chain_val rt kd (m # ms) v u =
     (case kd m of
        Some (KModule i out) \<Rightarrow>
          if i = typeof v \<and> v \<noteq> Nullopt
          then (case module_process rt m v u of (Inr (Some w), u') \<Rightarrow> chain_val rt kd ms w u' | _ \<Rightarrow> None) else None
      | _ \<Rightarrow> None)"

text \<open>The value a source and the modules behind it bring to the end of the line.\<close>

definition line_val ::
  "('a, 'p, 'u) runtime \<Rightarrow> (nid \<Rightarrow> kind option) \<Rightarrow> nid \<Rightarrow> nid list \<Rightarrow> 'u \<Rightarrow> ('p val \<times> 'u) option" where
  "line_val rt kd s ms u =
     (case source_process rt s u of (Inr (Some v), u') \<Rightarrow> chain_val rt kd ms v u' | _ \<Rightarrow> None)"

lemma chain_val_ConsE:
  assumes "chain_val rt kd (m # ms) v u = Some r"
  obtains out w u1 where "kd m = Some (KModule (typeof v) out)" "v \<noteq> Nullopt"
    "module_process rt m v u = (Inr (Some w), u1)" "chain_val rt kd ms w u1 = Some r"
  using assms by (auto split: option.splits kind.splits if_splits prod.splits sum.splits)

lemma line_valE:
  assumes "line_val rt kd s ms u = Some r"
  obtains v u1 where "source_process rt s u = (Inr (Some v), u1)" "chain_val rt kd ms v u1 = Some r"
  using assms by (auto simp: line_val_def split: prod.splits sum.splits option.splits)

text \<open>A line that ends in a sink is a chain.\<close>

lemma chain_of_val:
  assumes "chain_val rt kd ms v u = Some (x, u1)" "kd k = Some (KSink (typeof x))" "x \<noteq> Nullopt"
    "sink_process rt k x u1 = (Inr (), u2)"
  shows "chain rt kd ms k v u = Some u2"
  using assms
proof (induction ms arbitrary: v u)
  case (Cons m ms)
  then show ?case by (elim chain_val_ConsE) simp
qed simp

text \<open>Inside a mission the user's modules act on the user's part of the world, and the kinds of other
  objects do not matter.\<close>

lemma chain_val_mission:
  assumes "chain_val rt kd ms v w = Some (x, w')" "\<forall>m \<in> set ms. kd' m = kd m"
  shows "chain_val (mission_rt rt) kd' ms v (u\<lparr>user_world := w\<rparr>) = Some (x, u\<lparr>user_world := w'\<rparr>)"
  using assms
proof (induction ms arbitrary: v w)
  case (Cons m ms)
  from Cons.prems(1) obtain out w1 u1 where 1: "kd m = Some (KModule (typeof v) out)" "v \<noteq> Nullopt"
    "module_process rt m v w = (Inr (Some w1), u1)" "chain_val rt kd ms w1 u1 = Some (x, w')"
    by (rule chain_val_ConsE)
  have "module_process (mission_rt rt) m v (u\<lparr>user_world := w\<rparr>) = (Inr (Some w1), u\<lparr>user_world := u1\<rparr>)"
    using 1(3) by (simp add: mission_rt_def on_user_def)
  then show ?case using Cons.IH [OF 1(4)] 1(1,2) Cons.prems(2) by simp
qed simp

lemma any_laws_mission_rt: "any_laws rt \<Longrightarrow> any_laws (mission_rt rt)"
  by (simp add: any_laws_def mission_rt_def)

lemma mission_source:
  "queue_of u n = None \<Longrightarrow> source_process (mission_rt rt) n u = on_user (source_process rt n) u"
  "queue_of u n = Some q \<Longrightarrow> source_process (mission_rt rt) n u = on_queue q (queue_source_process queue_pop) u"
  by (simp_all add: mission_rt_def)

lemma mission_sink:
  "queue_of u n = None \<Longrightarrow> sink_process (mission_rt rt) n v u = on_user (sink_process rt n v) u"
  "queue_of u n = Some q \<Longrightarrow> sink_process (mission_rt rt) n v u = on_queue q (queue_sink_process queue_push v) u"
  by (simp_all add: mission_rt_def)

section \<open>One execution of each pipeline\<close>

text \<open>The graph two \<open>add\<close> calls build: the line \<open>s # ms\<close> into the \<open>QueueSink\<close> \<open>a\<close>, the \<open>QueueSource\<close> \<open>b\<close>
  into the sink \<open>k\<close>, over the queue \<open>qid\<close> of elements of type \<open>T\<close>.\<close>

definition two_lines ::
  "(nid \<Rightarrow> kind option) \<Rightarrow> nid \<Rightarrow> nid list \<Rightarrow> nid \<Rightarrow> nid \<Rightarrow> nid \<Rightarrow> ctype \<Rightarrow> ('p, 'u) flow_state \<Rightarrow> bool" where
  "two_lines kd s ms a b k T st \<longleftrightarrow>
     linked st (s # ms @ [a]) \<and> succs st b = [k] \<and>
     (\<forall>n \<in> set (s # ms). kind_of st n = kd n \<and> policy_of st n = Some Fanout) \<and> is_source (the (kd s)) \<and> kd s \<noteq> None \<and>
     kind_of st a = Some (KSink T) \<and> kind_of st b = Some (KSource T) \<and> policy_of st b = Some Fanout \<and>
     kind_of st k = Some (KSink T)"

lemma two_lines_world [simp]: "two_lines kd s ms a b k T (st\<lparr>world := u\<rparr>) = two_lines kd s ms a b k T st"
  by (simp add: two_lines_def)

text \<open>The state of the world between executions: the queue \<open>q\<close> and the user's world \<open>w\<close>.\<close>

definition at_world ::
  "nat \<Rightarrow> ('p, ('p, 'w) m_world) flow_state \<Rightarrow> 'p val queue_obj \<Rightarrow> 'w \<Rightarrow> ('p, ('p, 'w) m_world) flow_state" where
  "at_world qid st q w =
     st\<lparr>world := (world st)\<lparr>queue_heap := (queue_heap (world st))(qid \<mapsto> q), user_world := w\<rparr>\<rparr>"

lemma first_execute:
  assumes laws: "any_laws rt" and g: "two_lines kd s ms a b k T st" and T: "T \<noteq> TNullopt"
    and qo: "queue_of (world st) s = None" "queue_of (world st) a = Some qid"
    and line: "line_val rt kd s ms w = Some (x, w')" "typeof x = T"
    and push: "queue_push x q = (Inr ok, q')"
  shows "pipeline_execute (length ms + 2) (mission_rt rt) \<lparr>sources = [s], nodes = ms\<rparr> (at_world qid st q w) =
    (Inr (), at_world qid st q' w')"
proof -
  let ?u = "(world st)\<lparr>queue_heap := (queue_heap (world st))(qid \<mapsto> q)\<rparr>"
  let ?st = "at_world qid st q w"
  have u: "world ?st = ?u\<lparr>user_world := w\<rparr>" by (simp add: at_world_def)
  from line(1) obtain v w1 where v: "source_process rt s w = (Inr (Some v), w1)" "chain_val rt kd ms v w1 = Some (x, w')"
    by (rule line_valE)
  have src: "source_process (mission_rt rt) s (world ?st) = (Inr (Some v), ?u\<lparr>user_world := w1\<rparr>)"
    using v(1) qo(1) by (simp add: u mission_source on_user_def)
  have kinds: "\<forall>m \<in> set ms. kind_of ?st m = kd m" using g by (simp add: two_lines_def at_world_def)
  have sink: "sink_process (mission_rt rt) a x (?u\<lparr>user_world := w'\<rparr>) =
      (Inr (), ?u\<lparr>queue_heap := (queue_heap ?u)(qid \<mapsto> q'), user_world := w'\<rparr>)"
    using push qo(2) by (simp add: mission_sink on_queue_def queue_sink_process_def)
  have x: "x \<noteq> Nullopt" "kind_of ?st a = Some (KSink (typeof x))"
    using T line(2) g by (auto simp: two_lines_def at_world_def)
  have "chain (mission_rt rt) (kind_of ?st) ms a v (?u\<lparr>user_world := w1\<rparr>) =
      Some (?u\<lparr>queue_heap := (queue_heap ?u)(qid \<mapsto> q'), user_world := w'\<rparr>)"
    by (rule chain_of_val [OF chain_val_mission [OF v(2) kinds] x(2,1) sink])
  moreover obtain out where "kind_of ?st s = Some (KSource out)"
    using g by (auto simp: two_lines_def at_world_def elim!: is_source.elims)
  moreover have "linked ?st (s # ms @ [a])" "\<forall>m \<in> set (s # ms). policy_of ?st m = Some Fanout"
    using g by (simp_all add: two_lines_def at_world_def)
  ultimately have "execute (Suc (Suc (length ms))) (mission_rt rt) s (any_empty (mission_rt rt)) 0 ?st =
      (Inr (), ?st\<lparr>world := ?u\<lparr>queue_heap := (queue_heap ?u)(qid \<mapsto> q'), user_world := w'\<rparr>\<rparr>)"
    using execute_line [OF any_laws_mission_rt [OF laws], of ?st s ms a] src by blast
  then show ?thesis by (simp add: pipeline_execute_def at_world_def del: execute.simps)
qed

lemma second_execute_empty:
  assumes laws: "any_laws rt" and g: "two_lines kd s ms a b k T st" and qo: "queue_of (world st) b = Some qid"
    and pop: "queue_pop q = (Inr None, q')"
  shows "pipeline_execute (Suc (Suc n)) (mission_rt rt) \<lparr>sources = [b], nodes = []\<rparr> (at_world qid st q w) =
    (Inr (), at_world qid st q' w)"
proof -
  let ?st = "at_world qid st q w"
  have "source_process (mission_rt rt) b (world ?st) =
      (Inr None, (world ?st)\<lparr>queue_heap := (queue_heap (world ?st))(qid \<mapsto> q')\<rparr>)"
    using pop qo by (simp add: at_world_def mission_source on_queue_def queue_source_process_def)
  moreover have "succs ?st b = [k]" "kind_of ?st b = Some (KSource T)" "policy_of ?st b = Some Fanout"
    "kind_of ?st k = Some (KSink T)"
    using g by (simp_all add: two_lines_def at_world_def)
  ultimately have "execute (Suc (Suc n)) (mission_rt rt) b (any_empty (mission_rt rt)) 0 ?st =
      (Inr (), ?st\<lparr>world := (world ?st)\<lparr>queue_heap := (queue_heap (world ?st))(qid \<mapsto> q')\<rparr>\<rparr>)"
    using execute_line_none [OF any_laws_mission_rt [OF laws]] by blast
  then show ?thesis by (simp add: pipeline_execute_def at_world_def del: execute.simps)
qed

lemma second_execute_value:
  assumes laws: "any_laws rt" and g: "two_lines kd s ms a b k T st" and T: "T \<noteq> TNullopt"
    and qo: "queue_of (world st) b = Some qid" "queue_of (world st) k = None"
    and pop: "queue_pop q = (Inr (Some x), q')" and x: "typeof x = T"
    and sink: "sink_process rt k x w = (Inr (), w')"
  shows "pipeline_execute (Suc (Suc n)) (mission_rt rt) \<lparr>sources = [b], nodes = []\<rparr> (at_world qid st q w) =
    (Inr (), at_world qid st q' w')"
proof -
  let ?st = "at_world qid st q w"
  let ?u = "(world ?st)\<lparr>queue_heap := (queue_heap (world ?st))(qid \<mapsto> q')\<rparr>"
  have src: "source_process (mission_rt rt) b (world ?st) = (Inr (Some x), ?u)"
    using pop qo(1) by (simp add: at_world_def mission_source on_queue_def queue_source_process_def)
  have "sink_process (mission_rt rt) k x ?u = (Inr (), ?u\<lparr>user_world := w'\<rparr>)"
    using sink qo(2) by (simp add: mission_sink on_user_def at_world_def)
  moreover have "kind_of ?st k = Some (KSink (typeof x))" "x \<noteq> Nullopt"
    using g x T by (auto simp: two_lines_def at_world_def)
  ultimately have ch: "chain (mission_rt rt) (kind_of ?st) [] k x ?u = Some (?u\<lparr>user_world := w'\<rparr>)"
    using chain_of_val [of "mission_rt rt" "kind_of ?st" "[]" x ?u x ?u k] by simp
  have lk: "linked ?st (b # [] @ [k])" "kind_of ?st b = Some (KSource T)" "\<forall>m \<in> set [b]. policy_of ?st m = Some Fanout"
    using g by (simp_all add: two_lines_def at_world_def linked_def)
  have e: "execute (Suc (Suc 0)) (mission_rt rt) b (any_empty (mission_rt rt)) 0 ?st =
      (Inr (), ?st\<lparr>world := ?u\<lparr>user_world := w'\<rparr>\<rparr>)"
    using execute_line [OF any_laws_mission_rt [OF laws] lk src ch] by (simp del: execute.simps)
  have "execute (Suc (Suc n)) (mission_rt rt) b (any_empty (mission_rt rt)) 0 ?st =
      (Inr (), ?st\<lparr>world := ?u\<lparr>user_world := w'\<rparr>\<rparr>)"
    using execute_more_fuel [of "Suc (Suc 0)" "mission_rt rt" b "any_empty (mission_rt rt)" 0 ?st "Suc (Suc n)"] unfolding e by (simp del: execute.simps)
  then show ?thesis by (simp add: pipeline_execute_def at_world_def del: execute.simps)
qed

section \<open>Any interleaving\<close>

text \<open>What a part of a run does: it takes the elements waiting from \<open>xs\<close> to \<open>ys\<close>, makes \<open>new\<close> and delivers
  \<open>out\<close>; nothing is invented, repeated or reordered, and nothing lost as long as nothing is refused.\<close>

definition moved :: "bool \<Rightarrow> 'v list \<Rightarrow> 'v list \<Rightarrow> 'v list \<Rightarrow> 'v list \<Rightarrow> bool" where
  "moved std xs new out ys \<longleftrightarrow>
     subseq (out @ ys) (xs @ new) \<and> (std \<or> length xs + length new \<le> 15 \<longrightarrow> out @ ys = xs @ new)"

lemma moved_trans:
  assumes "moved std xs new1 out1 ys" "moved std ys new2 out2 zs"
  shows "moved std xs (new1 @ new2) (out1 @ out2) zs"
  unfolding moved_def
proof (intro conjI impI)
  have "subseq (out1 @ (out2 @ zs)) (out1 @ (ys @ new2))"
    by (rule list_emb_append_mono [OF subseq_order.refl]) (use assms(2) in \<open>simp add: moved_def\<close>)
  moreover have "subseq ((out1 @ ys) @ new2) ((xs @ new1) @ new2)"
    by (rule list_emb_append_mono [OF _ subseq_order.refl]) (use assms(1) in \<open>simp add: moved_def\<close>)
  ultimately have "subseq (out1 @ out2 @ zs) ((xs @ new1) @ new2)" using subseq_order.trans by simp
  then show "subseq ((out1 @ out2) @ zs) (xs @ new1 @ new2)" by simp
  assume c: "std \<or> length xs + length (new1 @ new2) \<le> 15"
  then have 1: "out1 @ ys = xs @ new1" using assms(1) by (auto simp: moved_def)
  then have "length out1 + length ys = length xs + length new1" by (metis length_append)
  then have "std \<or> length ys + length new2 \<le> 15" using c by auto
  then have "out2 @ zs = ys @ new2" using assms(2) by (auto simp: moved_def)
  then show "(out1 @ out2) @ zs = xs @ new1 @ new2" using 1 by (metis append.assoc)
qed

lemma two_step:
  fixes made log :: "'w \<Rightarrow> 'p val list"
  assumes laws: "any_laws rt" and g: "two_lines kd s ms a b k T st" and T: "T \<noteq> TNullopt"
    and qo: "queue_of (world st) s = None" "queue_of (world st) a = Some qid" "queue_of (world st) b = Some qid"
      "queue_of (world st) k = None"
    and src: "\<And>w. \<exists>x w'. line_val rt kd s ms w = Some (x, w') \<and> typeof x = T \<and> made w' = made w @ [x] \<and> log w' = log w"
    and snk: "\<And>x w. typeof x = T \<Longrightarrow> \<exists>w'. sink_process rt k x w = (Inr (), w') \<and> made w' = made w \<and> log w' = log w @ [x]"
    and repr: "queue_repr q xs" "\<forall>x \<in> set xs. typeof x = T" and i: "i \<in> {0, 1}"
  obtains q1 w1 ys new out where
    "pipeline_execute (length ms + 2) (mission_rt rt) ([\<lparr>sources = [s], nodes = ms\<rparr>, \<lparr>sources = [b], nodes = []\<rparr>] ! i)
       (at_world qid st q w) = (Inr (), at_world qid st q1 w1)"
    "queue_repr q1 ys" "\<forall>x \<in> set ys. typeof x = T" "is_std q1 = is_std q" "made w1 = made w @ new"
    "log w1 = log w @ out" "length new = count_list [i] 0" "moved (is_std q) xs new out ys"
proof (cases "i = 0")
  case True
  obtain x w1 where x: "line_val rt kd s ms w = Some (x, w1)" "typeof x = T" "made w1 = made w @ [x]" "log w1 = log w"
    using src by blast
  obtain ok q1 where q1: "queue_push x q = (Inr ok, q1)" "queue_repr q1 (if ok then xs @ [x] else xs)"
    using queue_push_law [OF repr(1)] by blast
  have "is_std q \<or> length xs < 15 \<Longrightarrow> ok"
    using std_accepts [OF _ repr(1), of x] moody_accepts [OF _ repr(1), of x] q1(1) by auto
  then have "moved (is_std q) xs [x] [] (if ok then xs @ [x] else xs)" by (cases ok) (auto simp: moved_def)
  then show thesis
    using True x q1(2) repr(2) is_std_ops(1) [OF q1(1)] first_execute [OF laws g T qo(1,2) x(1,2) q1(1)]
    by (intro that [of q1 w1 "if ok then xs @ [x] else xs" "[x]" "[]"]) auto
next
  case i1: False
  then have i1: "i = 1" using i by simp
  show thesis
  proof (cases xs)
    case Nil
    obtain q1 where q1: "queue_pop q = (Inr None, q1)" "queue_repr q1 []"
      using queue_pop_none [of q] repr(1) Nil by auto
    then show thesis
      using i1 Nil is_std_ops(2) [OF q1(1)] second_execute_empty [OF laws g qo(3) q1(1), of "length ms"]
      by (intro that [of q1 w "[]" "[]" "[]"]) (simp_all add: moved_def)
  next
    case (Cons x ys)
    obtain q1 where q1: "queue_pop q = (Inr (Some x), q1)" "queue_repr q1 ys"
      using queue_pop_some [of q x ys] repr(1) Cons by auto
    have x: "typeof x = T" "\<forall>y \<in> set ys. typeof y = T" using repr(2) Cons by simp_all
    obtain w1 where w1: "sink_process rt k x w = (Inr (), w1)" "made w1 = made w" "log w1 = log w @ [x]"
      using snk [OF x(1)] by blast
    then show thesis
      using i1 Cons x q1(2) is_std_ops(2) [OF q1(1)] second_execute_value [OF laws g T qo(3,4) q1(1) x(1) w1(1), of "length ms"]
      by (intro that [of q1 w1 ys "[]" "[x]"]) (simp_all add: moved_def)
  qed
qed

lemma mission_run_two:
  fixes made log :: "'w \<Rightarrow> 'p val list"
  assumes laws: "any_laws rt" and g: "two_lines kd s ms a b k T st" and T: "T \<noteq> TNullopt"
    and qo: "queue_of (world st) s = None" "queue_of (world st) a = Some qid" "queue_of (world st) b = Some qid"
      "queue_of (world st) k = None"
    and src: "\<And>w. \<exists>x w'. line_val rt kd s ms w = Some (x, w') \<and> typeof x = T \<and> made w' = made w @ [x] \<and> log w' = log w"
    and snk: "\<And>x w. typeof x = T \<Longrightarrow> \<exists>w'. sink_process rt k x w = (Inr (), w') \<and> made w' = made w \<and> log w' = log w @ [x]"
  shows "set sched \<subseteq> {0, 1} \<Longrightarrow> queue_repr q xs \<Longrightarrow> \<forall>x \<in> set xs. typeof x = T \<Longrightarrow>
    \<exists>q' w' new out rest.
      mission_run (length ms + 2) (mission_rt rt) [\<lparr>sources = [s], nodes = ms\<rparr>, \<lparr>sources = [b], nodes = []\<rparr>] sched
        (at_world qid st q w) = (Inr (), at_world qid st q' w') \<and>
      made w' = made w @ new \<and> log w' = log w @ out \<and> length new = count_list sched 0 \<and> queue_repr q' rest \<and>
      moved (is_std q) xs new out rest"
proof (induction sched arbitrary: q xs w)
  case Nil
  then show ?case
    by (intro exI [of _ q] exI [of _ w] exI [of _ "[]"] exI [of _ "[]"] exI [of _ xs]) (simp add: moved_def)
next
  case (Cons i sched)
  let ?ps = "[\<lparr>sources = [s], nodes = ms\<rparr>, \<lparr>sources = [b], nodes = []\<rparr>]"
  have i: "i \<in> {0, 1}" "i < length ?ps" and sched: "set sched \<subseteq> {0, 1}" using Cons.prems(1) by auto
  obtain q1 w1 ys new1 out1 where 1:
    "pipeline_execute (length ms + 2) (mission_rt rt) (?ps ! i) (at_world qid st q w) = (Inr (), at_world qid st q1 w1)"
    "queue_repr q1 ys" "\<forall>x \<in> set ys. typeof x = T" "is_std q1 = is_std q" "made w1 = made w @ new1"
    "log w1 = log w @ out1" "length new1 = count_list [i] 0" "moved (is_std q) xs new1 out1 ys"
    by (rule two_step [where made = made and log = log, OF laws g T qo src snk Cons.prems(2,3) i(1)])
  from Cons.IH [OF sched 1(2,3), of w1] obtain q' w' new2 out2 rest where 2:
    "mission_run (length ms + 2) (mission_rt rt) ?ps sched (at_world qid st q1 w1) = (Inr (), at_world qid st q' w')"
    "made w' = made w1 @ new2" "log w' = log w1 @ out2" "length new2 = count_list sched 0" "queue_repr q' rest"
    "moved (is_std q1) ys new2 out2 rest"
    by blast
  have "mission_run (length ms + 2) (mission_rt rt) ?ps (i # sched) (at_world qid st q w) = (Inr (), at_world qid st q' w')"
    using 1(1) 2(1) i(2) unfolding mission_run.simps by simp
  moreover have "moved (is_std q) xs (new1 @ new2) (out1 @ out2) rest"
    using moved_trans [OF 1(8)] 2(6) unfolding 1(4) by blast
  moreover have "length (new1 @ new2) = count_list (i # sched) 0" using 1(7) 2(4) by simp
  ultimately show ?case using 1(5,6) 2(2,3,5)
    by (intro exI [of _ q'] exI [of _ w'] exI [of _ "new1 @ new2"] exI [of _ "out1 @ out2"] exI [of _ rest]) simp
qed

section \<open>The two calls of \<open>add\<close>\<close>

text \<open>A new flow object nobody is connected to, as \<open>new_queue_module\<close> makes it.\<close>

definition with_obj :: "nid \<Rightarrow> kind \<Rightarrow> 'u \<Rightarrow> ('p, 'u) flow_state \<Rightarrow> ('p, 'u) flow_state" where
  "with_obj n k u st = (set_node n (new_node k Fanout) st)\<lparr>world := u\<rparr>"

lemma with_obj_simps:
  "kind_of (with_obj n k u st) = (kind_of st)(n \<mapsto> k)" "policy_of (with_obj n k u st) = (policy_of st)(n \<mapsto> Fanout)"
  "succs (with_obj n k u st) = (succs st)(n := [])" "world (with_obj n k u st) = u"
  by (auto simp: with_obj_def kind_of_def policy_of_def succs_def new_node_def fun_eq_iff)

lemma new_queue_module_with_obj:
  "new_queue_module k qid (m, st) =
     (Inr (next_obj (world st)), m, with_obj (next_obj (world st)) k
        ((world st)\<lparr>queue_of := (queue_of (world st))(next_obj (world st) \<mapsto> qid), next_obj := Suc (next_obj (world st))\<rparr>) st)"
  by (simp add: new_queue_module_def with_obj_def Let_def)

lemma kind_of_objs: "objs st' = objs st \<Longrightarrow> kind_of st' = kind_of st \<and> policy_of st' = policy_of st \<and> succs st' = succs st"
  by (simp add: kind_of_def policy_of_def succs_def fun_eq_iff)

lemma built_with_obj:
  assumes "built st0 ss ns [] (p, st)" "kind_of st0 n = None" "kind_of st' = kind_of st" "policy_of st' = policy_of st"
    "succs st' = succs st"
  shows "built (with_obj n k u st0) ss ns [] (p, with_obj n k u st')"
proof -
  have "\<forall>m \<in> set ss \<union> set ns. kind_of st0 m \<noteq> None" using assms(1) by (simp add: built_def)
  then have n: "n \<notin> set ss" "n \<notin> set ns" using assms(2) by blast+
  then have "map_of (zip ns (tl ns)) n = None"
    by (auto simp: map_of_eq_None_iff dest: set_zip_leftD)
  then have "pipe_succs ss ns [] n = []" using n by (auto simp: pipe_succs_def)
  then show ?thesis using assms n by (auto simp: built_def with_obj_simps fun_eq_iff)
qed

lemma add_first:
  assumes m: "malloc 0" "all_used m"
    and kinds: "has_kind is_source st s" "\<forall>f \<in> set ms. has_kind is_node st f" and d: "distinct (s # ms)"
    and free: "\<forall>n. succs st n = []" "kind_of st (next_obj (world st)) = None"
    and T: "get_output_type_from_last_flow (kinds st (s # ms)) = T" "T \<noteq> TVoid"
  obtains m1 st1 q where "mission_add malloc [s] ms [] (m, st) = (Inr (), m1, st1)"
    "pipelines m1 = pipelines m @ [\<lparr>sources = [s], nodes = ms\<rparr>]"
    "queues m1 = queues m @ [\<lparr>elem_type = T, queue = next_queue (world st), used = False\<rparr>]"
    "kind_of st1 = (kind_of st)(next_obj (world st) \<mapsto> KSink T)" "policy_of st1 = (policy_of st)(next_obj (world st) \<mapsto> Fanout)"
    "succs st1 = pipe_succs [s] ms [next_obj (world st)]"
    "world st1 = (world st)\<lparr>queue_heap := (queue_heap (world st))(next_queue (world st) \<mapsto> q),
       next_queue := Suc (next_queue (world st)),
       queue_of := (queue_of (world st))(next_obj (world st) \<mapsto> next_queue (world st)), next_obj := Suc (next_obj (world st))\<rparr>"
    "queue_repr q []" "is_std q \<longleftrightarrow> mission_queue_type m = STD_QUEUE"
proof -
  let ?n = "next_obj (world st)"
  have "built st [] [] [] (empty_pipeline, st)"
    using free(1) by (auto simp: built_def empty_pipeline_def pipe_succs_def fun_eq_iff)
  then obtain p1 st1 where p1: "pipeline_add_all [s] (empty_pipeline, st) = (Inr (), p1, st1)" "built st [s] [] [] (p1, st1)"
    using add_all_sources [of st "[]" "(empty_pipeline, st)" "[s]"] kinds(1) by auto
  have dn: "distinct ([s] @ [] @ ms)" using d by simp
  obtain p2 st2 where p2: "pipeline_add_all ms (p1, st1) = (Inr (), p2, st2)" "built st [s] ms [] (p2, st2)"
    using add_all_nodes [OF p1(2), of ms, OF _ dn] kinds(2) by auto
  have w2: "world st2 = world st" using p2(2) by (simp add: built_def)
  obtain m3 st3 q where q0: "get_or_create_queue malloc T (m, st2) = (Inr (next_queue (world st2)), m3, st3)"
    "queues m3 = queues m @ [\<lparr>elem_type = T, queue = next_queue (world st2), used = False\<rparr>]"
    "objs st3 = objs st2" "queue_repr q []" "pipelines m3 = pipelines m"
    "world st3 = (world st2)\<lparr>queue_heap := (queue_heap (world st2))(next_queue (world st2) \<mapsto> q),
       next_queue := Suc (next_queue (world st2))\<rparr>"
    "is_std q \<longleftrightarrow> mission_queue_type m = STD_QUEUE"
    by (rule get_queue_new [where malloc = malloc and T = T, OF m])
  note q = q0 [unfolded w2]
  let ?u = "(world st3)\<lparr>queue_of := (queue_of (world st3))(?n \<mapsto> next_queue (world st)), next_obj := Suc ?n\<rparr>"
  have k: "make_queue_sink malloc (kinds st ([s] @ ms)) (m, st2) = (Inr ?n, m3, with_obj ?n (KSink T) ?u st3)"
    using q(1,6) T by (simp add: make_queue_sink_def new_queue_module_with_obj)
  have b3: "built (with_obj ?n (KSink T) ?u st) [s] ms [] (p2, with_obj ?n (KSink T) ?u st3)"
    using kind_of_objs [OF q(3)] by (intro built_with_obj [OF p2(2) free(2)]) simp_all
  have "has_kind is_sink (with_obj ?n (KSink T) ?u st) ?n" by (simp add: has_kind_def with_obj_simps)
  then have "\<exists>pst. pipeline_add ?n (p2, with_obj ?n (KSink T) ?u st3) = (Inr ?n, pst) \<and>
      built (with_obj ?n (KSink T) ?u st) [s] ms ([] @ [?n]) pst"
    by (rule pipeline_add_sink [OF b3]) (use d in simp)
  then obtain p4 st4 where p4: "pipeline_add ?n (p2, with_obj ?n (KSink T) ?u st3) = (Inr ?n, p4, st4)"
    "built (with_obj ?n (KSink T) ?u st) [s] ms ([] @ [?n]) (p4, st4)"
    by (elim exE conjE) (metis surj_pair)
  let ?m = "m3\<lparr>pipelines := pipelines m3 @ [p4]\<rparr>"
  have "mission_add malloc [s] ms [] (m, st) = (Inr (), ?m, st4)"
    using p1(1) p2(1) k p4(1) by (simp add: mission_add_def apply_flows_to_pipeline_def)
  then show thesis using q p4(2) by (intro that [of ?m st4 q]) (simp_all add: built_def with_obj_simps)
qed

lemma add_second:
  assumes qs: "queues m = ws @ [\<lparr>elem_type = T, queue = qid, used = False\<rparr>]" and k: "kind_of st k = Some (KSink T)"
    and free: "kind_of st (next_obj (world st)) = None" and T: "T \<noteq> TVoid"
  obtains m1 st1 where "mission_add malloc [] [] [k] (m, st) = (Inr (), m1, st1)"
    "pipelines m1 = pipelines m @ [\<lparr>sources = [next_obj (world st)], nodes = []\<rparr>]"
    "queues m1 = ws @ [\<lparr>elem_type = T, queue = qid, used = True\<rparr>]"
    "kind_of st1 = (kind_of st)(next_obj (world st) \<mapsto> KSource T)" "policy_of st1 = (policy_of st)(next_obj (world st) \<mapsto> Fanout)"
    "succs st1 = (succs st)(next_obj (world st) := [k])"
    "world st1 = (world st)\<lparr>queue_of := (queue_of (world st))(next_obj (world st) \<mapsto> qid), next_obj := Suc (next_obj (world st))\<rparr>"
proof -
  let ?n = "next_obj (world st)"
  let ?u = "(world st)\<lparr>queue_of := (queue_of (world st))(?n \<mapsto> qid), next_obj := Suc ?n\<rparr>"
  let ?st = "with_obj ?n (KSource T) ?u st"
  let ?m = "m\<lparr>queues := ws @ [\<lparr>elem_type = T, queue = qid, used = True\<rparr>]\<rparr>"
  obtain kd where kd: "objs st k = Some kd" "n_kind kd = KSink T" using k by (auto simp: kind_of_def)
  then have kk: "kinds st [k] = [KSink T]" by (simp add: kinds_def List.map_filter_def)
  have q: "get_or_create_queue malloc T (m, st) = (Inr qid, ?m, st)"
    using get_queue_again [of "(m, st)" ws T qid malloc] qs by simp
  have s: "make_queue_source malloc (kinds st [k]) (m, st) = (Inr ?n, ?m, ?st)"
    using q T by (simp add: kk make_queue_source_def new_queue_module_with_obj)
  have p1: "pipeline_add ?n (empty_pipeline, ?st) = (Inr ?n, \<lparr>sources = [?n], nodes = []\<rparr>, ?st)"
    by (simp add: pipeline_add_def empty_pipeline_def with_obj_def new_node_def Let_def)
  have nk: "k \<noteq> ?n" using k free by auto
  have "kind_of ?st ?n \<noteq> None" "kind_of ?st k \<noteq> None" using k nk by (simp_all add: with_obj_simps)
  then obtain st2 where st2: "add_consumer ?n k ?st = Inr st2" "kind_of st2 = kind_of ?st" "policy_of st2 = policy_of ?st"
    "world st2 = world ?st" "succs st2 = (succs ?st)(?n := succs ?st ?n @ [k])"
    by (rule add_consumer_wires)
  have "objs ?st k = Some kd" using kd(1) nk by (simp add: with_obj_def)
  then have p2: "pipeline_add k (\<lparr>sources = [?n], nodes = []\<rparr>, ?st) = (Inr k, \<lparr>sources = [?n], nodes = []\<rparr>, st2)"
    using st2(1) kd(2) by (simp add: pipeline_add_def wire_next_def)
  let ?m2 = "?m\<lparr>pipelines := pipelines m @ [\<lparr>sources = [?n], nodes = []\<rparr>]\<rparr>"
  have "mission_add malloc [] [] [k] (m, st) = (Inr (), ?m2, st2)"
    using s p1 p2 by (simp add: mission_add_def apply_flows_to_pipeline_def)
  then show thesis using st2 by (intro that [of ?m2 st2]) (simp_all add: with_obj_simps)
qed

lemma linked_cong: "(\<And>x. x \<in> set xs \<Longrightarrow> succs st' x = succs st x) \<Longrightarrow> linked st' xs = linked st xs"
  by (simp add: linked_def Suc_lessD)

text \<open>After both calls the graph has its two lines and the queue between them is empty.\<close>

lemma two_pipelines_built:
  assumes m: "malloc 0"
    and kinds: "has_kind is_source st s" "\<forall>f \<in> set ms. has_kind is_node st f" "distinct (s # ms)" "kind_of st k = Some (KSink T)"
    and free: "\<forall>n. succs st n = []" "\<forall>n. kind_of st n \<noteq> None \<longrightarrow> n < next_obj (world st)" "queue_of (world st) = Map.empty"
    and pol: "\<forall>n \<in> set (s # ms). policy_of st n = Some Fanout"
    and T: "get_output_type_from_last_flow (kinds st (s # ms)) = T" "T \<noteq> TVoid"
  obtains m1 st1 m2 st2 a b qid q where "mission_add malloc [s] ms [] (mission_new t, st) = (Inr (), m1, st1)"
    "mission_add malloc [] [] [k] (m1, st1) = (Inr (), m2, st2)"
    "pipelines m2 = [\<lparr>sources = [s], nodes = ms\<rparr>, \<lparr>sources = [b], nodes = []\<rparr>]"
    "two_lines (kind_of st) s ms a b k T st2" "queue_of (world st2) = [a \<mapsto> qid, b \<mapsto> qid]" "{s, k} \<inter> {a, b} = {}"
    "a \<noteq> b" "at_world qid st2 q (user_world (world st)) = st2" "queue_repr q []" "is_std q \<longleftrightarrow> t = STD_QUEUE"
proof -
  let ?a = "next_obj (world st)"
  have na: "kind_of st ?a = None" "kind_of st (Suc ?a) = None" using free(2) [THEN spec, of ?a] free(2) [THEN spec, of "Suc ?a"] by auto
  have mn: "all_used (mission_new t)" "pipelines (mission_new t) = []" "queues (mission_new t) = []" "mission_queue_type (mission_new t) = t"
    by (simp_all add: mission_new_def all_used_def)
  obtain m1 st1 q where 1: "mission_add malloc [s] ms [] (mission_new t, st) = (Inr (), m1, st1)"
    "pipelines m1 = pipelines (mission_new t) @ [\<lparr>sources = [s], nodes = ms\<rparr>]"
    "queues m1 = queues (mission_new t) @ [\<lparr>elem_type = T, queue = next_queue (world st), used = False\<rparr>]"
    "kind_of st1 = (kind_of st)(?a \<mapsto> KSink T)" "policy_of st1 = (policy_of st)(?a \<mapsto> Fanout)"
    "succs st1 = pipe_succs [s] ms [?a]"
    "world st1 = (world st)\<lparr>queue_heap := (queue_heap (world st))(next_queue (world st) \<mapsto> q),
       next_queue := Suc (next_queue (world st)),
       queue_of := (queue_of (world st))(?a \<mapsto> next_queue (world st)), next_obj := Suc ?a\<rparr>"
    "queue_repr q []" "is_std q \<longleftrightarrow> mission_queue_type (mission_new t) = STD_QUEUE"
    by (rule add_first [where malloc = malloc, OF m mn(1) kinds(1-3) free(1) na(1) T])
  have b: "next_obj (world st1) = Suc ?a" using 1(7) by simp
  have k1: "kind_of st1 k = Some (KSink T)" "kind_of st1 (next_obj (world st1)) = None"
    using 1(4) kinds(4) na b by (auto split: if_splits)
  have q1: "queues m1 = [] @ [\<lparr>elem_type = T, queue = next_queue (world st), used = False\<rparr>]" using 1(3) mn by simp
  obtain m2 st2 where 2: "mission_add malloc [] [] [k] (m1, st1) = (Inr (), m2, st2)"
    "pipelines m2 = pipelines m1 @ [\<lparr>sources = [next_obj (world st1)], nodes = []\<rparr>]"
    "kind_of st2 = (kind_of st1)(next_obj (world st1) \<mapsto> KSource T)"
    "policy_of st2 = (policy_of st1)(next_obj (world st1) \<mapsto> Fanout)"
    "succs st2 = (succs st1)(next_obj (world st1) := [k])"
    "world st2 = (world st1)\<lparr>queue_of := (queue_of (world st1))(next_obj (world st1) \<mapsto> next_queue (world st)),
       next_obj := Suc (next_obj (world st1))\<rparr>"
    by (rule add_second [OF q1 k1 T(2)]) 
  have "kind_of st n \<noteq> None \<Longrightarrow> n \<noteq> ?a \<and> n \<noteq> Suc ?a" for n using na by auto
  moreover have "\<forall>n \<in> set (s # ms). kind_of st n \<noteq> None" using kinds(1,2) by (auto simp: has_kind_def)
  ultimately have ne: "\<forall>n \<in> set (s # ms). n \<noteq> ?a \<and> n \<noteq> Suc ?a" "k \<noteq> ?a" "k \<noteq> Suc ?a" using kinds(4) by auto
  have "distinct (s # ms @ [?a])" using kinds(3) ne(1) by auto
  then have "linked st1 (s # ms @ [?a])" by (rule pipe_succs_linked [OF _ 1(6)])
  moreover have "linked st2 (s # ms @ [?a]) = linked st1 (s # ms @ [?a])"
    by (rule linked_cong) (use 2(5) ne(1) b in auto)
  ultimately have "two_lines (kind_of st) s ms ?a (Suc ?a) k T st2"
    using ne pol kinds(1,4) by (auto simp: two_lines_def 1(4,5) 2(3-5) b has_kind_def)
  moreover have "at_world (next_queue (world st)) st2 q (user_world (world st)) = st2"
    using 1(7) 2(6) by (simp add: at_world_def)
  ultimately show thesis using 1 2 mn free(3) ne b
    by (intro that [of m1 st1 m2 st2 "Suc ?a" ?a "next_queue (world st)" q]) auto
qed

section \<open>Properties\<close>

text \<open>C30. A mission of two pipelines, the first of a source and any number of modules, the second of a sink, delivers what the first
  one makes: the two \<open>add\<close> calls succeed and connect them through one queue, the workers' executions succeed in every
  interleaving, the sink has been given values the source made, in their order and none twice, and where the mission uses
  standard queues, or no more values were made than a queue of the other kinds holds, what it has not been given yet is
  what still waits: no value is lost.\<close>

theorem mission_two_pipelines:
  fixes made log :: "'w \<Rightarrow> 'p val list"
  assumes "any_laws rt" "malloc 0"
    and kinds: "has_kind is_source st s" "\<forall>f \<in> set ms. has_kind is_node st f" "distinct (s # ms)" "kind_of st k = Some (KSink T)"
    and free: "\<forall>n. succs st n = []" "\<forall>n. kind_of st n \<noteq> None \<longrightarrow> n < next_obj (world st)" "queue_of (world st) = Map.empty"
    and pol: "\<forall>n \<in> set (s # ms). policy_of st n = Some Fanout"
    and T: "get_output_type_from_last_flow (kinds st (s # ms)) = T" "T \<noteq> TVoid" "T \<noteq> TNullopt"
    and src: "\<And>w. \<exists>x w'. line_val rt (kind_of st) s ms w = Some (x, w') \<and> typeof x = T \<and> made w' = made w @ [x] \<and> log w' = log w"
    and snk: "\<And>x w. typeof x = T \<Longrightarrow> \<exists>w'. sink_process rt k x w = (Inr (), w') \<and> made w' = made w \<and> log w' = log w @ [x]"
    and start: "made (user_world (world st)) = []" "log (user_world (world st)) = []" and sched: "set sched \<subseteq> {0, 1}"
  shows "\<exists>m1 st1 m2 st2 st3 rest. mission_add malloc [s] ms [] (mission_new t, st) = (Inr (), m1, st1) \<and>
    mission_add malloc [] [] [k] (m1, st1) = (Inr (), m2, st2) \<and>
    mission_run (length ms + 2) (mission_rt rt) (pipelines m2) sched st2 = (Inr (), st3) \<and>
    length (made (user_world (world st3))) = count_list sched 0 \<and>
    subseq (log (user_world (world st3)) @ rest) (made (user_world (world st3))) \<and>
    (t = STD_QUEUE \<or> count_list sched 0 \<le> 15 \<longrightarrow> log (user_world (world st3)) @ rest = made (user_world (world st3)))"
proof -
  obtain m1 st1 m2 st2 a b qid q where b: "mission_add malloc [s] ms [] (mission_new t, st) = (Inr (), m1, st1)"
    "mission_add malloc [] [] [k] (m1, st1) = (Inr (), m2, st2)"
    "pipelines m2 = [\<lparr>sources = [s], nodes = ms\<rparr>, \<lparr>sources = [b], nodes = []\<rparr>]"
    "two_lines (kind_of st) s ms a b k T st2" "queue_of (world st2) = [a \<mapsto> qid, b \<mapsto> qid]" "{s, k} \<inter> {a, b} = {}"
    "a \<noteq> b" "at_world qid st2 q (user_world (world st)) = st2" "queue_repr q []" "is_std q \<longleftrightarrow> t = STD_QUEUE"
    by (rule two_pipelines_built [where malloc = malloc, OF assms(2) kinds free pol T(1,2)])
  have qo: "queue_of (world st2) s = None" "queue_of (world st2) a = Some qid" "queue_of (world st2) b = Some qid"
    "queue_of (world st2) k = None"
    using b(5-7) by auto
  have none: "\<forall>x \<in> set []. typeof x = T" by simp
  obtain q' w' new out rest where r:
    "mission_run (length ms + 2) (mission_rt rt) (pipelines m2) sched st2 = (Inr (), at_world qid st2 q' w')"
    "made w' = new" "log w' = out" "length new = count_list sched 0" "moved (is_std q) [] new out rest"
    using mission_run_two [where made = made and log = log, OF assms(1) b(4) T(3) qo src snk sched b(9) none,
        of "user_world (world st)", unfolded b(8)] start b(3)
    by auto
  have "user_world (world (at_world qid st2 q' w')) = w'" by (simp add: at_world_def)
  then show ?thesis using b(1,2,10) r
    by (intro exI [of _ m1] exI [of _ st1] exI [of _ m2] exI [of _ st2] exI [of _ "at_world qid st2 q' w'"] exI [of _ rest])
      (auto simp: moved_def)
qed

subsection \<open>A concrete instance\<close>

text \<open>A source that counts, a module that adds one and notes what it made, a sink that notes what it was given.\<close>

definition counting_rt :: "(int val option, int, int val list \<times> int val list) runtime" where
  "counting_rt = \<lparr>any_empty = None, any_make = Some, any_has_value = (\<lambda>a. a \<noteq> None),
     any_type = (\<lambda>a. case a of None \<Rightarrow> TVoid | Some v \<Rightarrow> typeof v), any_cast = opt_any_cast,
     source_process = (\<lambda>n u. (Inr (Some (vint (int (length (fst u))))), u)),
     module_process = (\<lambda>n v u. (Inr (Some (vint (int_of_val v + 1))), (fst u @ [vint (int_of_val v + 1)], snd u))),
     aggregator_process = (\<lambda>n vs u. (Inr None, u)),
     sink_process = (\<lambda>n v u. (Inr (), (fst u, snd u @ [v]))),
     flow_process_any = (\<lambda>n a i u. (Inr a, u)),
     um_order = (\<lambda>es. es), implicit_conv = (\<lambda>t v. v)\<rparr>"

definition counting_st :: "(int, (int, int val list \<times> int val list) m_world) flow_state" where
  "counting_st = \<lparr>objs = objs line_st, world = \<lparr>queue_heap = Map.empty, queue_of = Map.empty, next_queue = 0, next_obj = 10,
     user_world = ([], [])\<rparr>\<rparr>"

lemma counting_st_facts:
  "kind_of counting_st = [0 \<mapsto> KSource tint, 1 \<mapsto> KModule tint tint, 2 \<mapsto> KSink tint]"
  "\<forall>m. succs counting_st m = []" "policy_of counting_st = [0 \<mapsto> Fanout, 1 \<mapsto> Fanout, 2 \<mapsto> Fanout]"
  "next_obj (world counting_st) = 10" "queue_of (world counting_st) = Map.empty" "user_world (world counting_st) = ([], [])"
  "kinds counting_st (0 # [1]) = [KSource tint, KModule tint tint]"
  by (auto simp: kind_of_def succs_def policy_of_def counting_st_def line_st_def new_node_def kinds_def List.map_filter_def
      fun_eq_iff)

theorem mission_two_pipelines_witness:
  "\<exists>m1 st1 m2 st2 st3 rest. mission_add (\<lambda>_. True) [0] [1] [] (mission_new LOCK_FREE, counting_st) = (Inr (), m1, st1) \<and>
    mission_add (\<lambda>_. True) [] [] [2] (m1, st1) = (Inr (), m2, st2) \<and>
    mission_run (length [1::nid] + 2) (mission_rt counting_rt) (pipelines m2) [0, 0, 1, 0, 1, 1, 1] st2 = (Inr (), st3) \<and>
    length (fst (user_world (world st3))) = count_list [0, 0, 1, 0, 1, 1, (1::nat)] 0 \<and>
    subseq (snd (user_world (world st3)) @ rest) (fst (user_world (world st3))) \<and>
    (LOCK_FREE = STD_QUEUE \<or> count_list [0, 0, 1, 0, 1, 1, (1::nat)] 0 \<le> 15 \<longrightarrow>
      snd (user_world (world st3)) @ rest = fst (user_world (world st3)))"
proof (rule mission_two_pipelines [where T = tint])
  show "any_laws counting_rt" by (simp add: any_laws_def counting_rt_def opt_any_cast_def)
  show "\<exists>x w'. line_val counting_rt (kind_of counting_st) 0 [1] w = Some (x, w') \<and> typeof x = tint \<and>
      fst w' = fst w @ [x] \<and> snd w' = snd w" for w
    by (simp add: line_val_def counting_st_facts counting_rt_def)
  show "\<exists>w'. sink_process counting_rt 2 x w = (Inr (), w') \<and> fst w' = fst w \<and> snd w' = snd w @ [x]" for x w
    by (simp add: counting_rt_def)
qed (simp_all add: counting_st_facts has_kind_def del: One_nat_def)

end
