(* ===== verification/Flow_Types.thy ===== *)
theory Flow_Types
  imports Pipeline
begin

text \<open>
  Type safety of the flow engine (\<open>core/src/flow\<close>).  Objects exchange type erased values, and nothing in
  the code checks at a connection that the types fit; \<open>any_cast_with_info\<close> throws when a value arrives.
  Here: a graph in which they do fit, driven by user code that keeps to its declared types, never meets
  such an exception, nor undefined behaviour of the engine itself.
\<close>

section \<open>Well-typed graphs\<close>

text \<open>The type of what an object hands to each consumer: its output under \<open>Fanout\<close>, an element of it under
  \<open>RoundRobin\<close>.\<close>

definition delivered_type :: "'p node \<Rightarrow> ctype option" where
  "delivered_type nd =
     (case n_policy nd of
        Fanout \<Rightarrow> Some (output_type (n_kind nd))
      | RoundRobin \<Rightarrow> (case output_type (n_kind nd) of TVector t \<Rightarrow> Some t | _ \<Rightarrow> None))"

fun typed_block :: "kind \<Rightarrow> bool" where
  "typed_block (KFlow c) = False"
| "typed_block k = True"

text \<open>Every object is a block, and every block but a sink has consumers, whose input type is what it delivers.\<close>

definition well_typed :: "('p, 'u) flow_state \<Rightarrow> bool" where
  "well_typed st \<longleftrightarrow>
     (\<forall>n nd. objs st n = Some nd \<longrightarrow> typed_block (n_kind nd) \<and>
        (\<not> is_sink (n_kind nd) \<longrightarrow> next_nodes nd \<noteq> [] \<and>
          (\<exists>t. delivered_type nd = Some t \<and> t \<noteq> TNullopt \<and>
             (\<forall>m \<in> fst ` set (next_nodes nd). \<exists>k. kind_of st m = Some k \<and> input_type k = t))))"

text \<open>An object that may have nothing to deliver feeds sinks only, which ignore \<open>nullopt\<close>; all others take it for
  a value.\<close>

definition feeds_sinks :: "('p, 'u) flow_state \<Rightarrow> nid \<Rightarrow> bool" where
  "feeds_sinks st n \<longleftrightarrow>
     policy_of st n = Some Fanout \<and> (\<forall>m \<in> set (succs st n). \<exists>t. kind_of st m = Some (KSink t))"

fun elements_typed :: "'p val \<Rightarrow> bool" where
  "elements_typed (Vector t vs) = (\<forall>v \<in> set vs. typeof v = t)"
| "elements_typed v = True"

text \<open>A result of user code that keeps to the declared type \<open>out\<close>; \<open>E\<close> are the errors user code may raise.\<close>

definition good_output :: "(error \<Rightarrow> bool) \<Rightarrow> bool \<Rightarrow> ctype \<Rightarrow> 'p val option result \<Rightarrow> bool" where
  "good_output E skip out r =
     (case r of
        Inl e \<Rightarrow> E e
      | Inr None \<Rightarrow> skip
      | Inr (Some v) \<Rightarrow> typeof v = out \<and> v \<noteq> Nullopt \<and> elements_typed v)"

definition user_typed :: "(error \<Rightarrow> bool) \<Rightarrow> ('a, 'p, 'u) runtime \<Rightarrow> ('p, 'u) flow_state \<Rightarrow> bool" where
  "user_typed E rt st \<longleftrightarrow>
     (\<forall>n out u. kind_of st n = Some (KSource out) \<longrightarrow> good_output E (feeds_sinks st n) out (fst (source_process rt n u))) \<and>
     (\<forall>n i out v u. kind_of st n = Some (KModule i out) \<longrightarrow> typeof v = i \<longrightarrow>
        good_output E (feeds_sinks st n) out (fst (module_process rt n v u))) \<and>
     (\<forall>n i out vs u. kind_of st n = Some (KAggregator i out) \<longrightarrow> good_output E True out (fst (aggregator_process rt n vs u))) \<and>
     (\<forall>n i v u e. kind_of st n = Some (KSink i) \<longrightarrow> typeof v = i \<longrightarrow> fst (sink_process rt n v u) = Inl e \<longrightarrow> E e)"

text \<open>What an object may be executed on.\<close>

definition input_ok :: "('a, 'p, 'u) runtime \<Rightarrow> ('p, 'u) flow_state \<Rightarrow> nid \<Rightarrow> 'a \<Rightarrow> bool" where
  "input_ok rt st m a \<longleftrightarrow>
     (\<exists>k. kind_of st m = Some k \<and>
        (is_source k \<and> a = any_empty rt \<or> is_sink k \<and> a = any_make rt Nullopt \<or>
         (\<exists>v. a = any_make rt v \<and> v \<noteq> Nullopt \<and> typeof v = input_type k)))"

text \<open>All of this depends on the wiring only.\<close>

lemma same_wiring_kind_of:
  assumes "same_wiring st st'"
  shows "kind_of st' = kind_of st" "policy_of st' = policy_of st" "succs st' = succs st"
proof -
  have "kind_of st' n = kind_of st n \<and> policy_of st' n = policy_of st n \<and> succs st' n = succs st n" for n
  proof -
    have "map_option shape (objs st' n) = map_option shape (objs st n)" using assms by (simp add: same_wiring_def)
    then show ?thesis unfolding kind_of_def policy_of_def succs_def
      by (cases "objs st n"; cases "objs st' n") (simp_all add: shape_def)
  qed
  then show "kind_of st' = kind_of st" "policy_of st' = policy_of st" "succs st' = succs st" by (simp_all add: fun_eq_iff)
qed

lemma well_typed_same_wiring:
  assumes "same_wiring st st'" "well_typed st"
  shows "well_typed st'"
  unfolding well_typed_def
proof (intro allI impI)
  fix n nd assume "objs st' n = Some nd"
  then obtain nd0 where 0: "objs st n = Some nd0" "shape nd = shape nd0"
    using same_wiring_objs [OF same_wiring_sym [OF assms(1)]] by metis
  then have "n_kind nd = n_kind nd0" "n_policy nd = n_policy nd0" by (simp_all add: shape_def)
  then have "delivered_type nd = delivered_type nd0" by (simp only: delivered_type_def)
  then show "typed_block (n_kind nd) \<and>
        (\<not> is_sink (n_kind nd) \<longrightarrow> next_nodes nd \<noteq> [] \<and>
          (\<exists>t. delivered_type nd = Some t \<and> t \<noteq> TNullopt \<and>
             (\<forall>m \<in> fst ` set (next_nodes nd). \<exists>k. kind_of st' m = Some k \<and> input_type k = t)))"
    using assms(2) 0 unfolding well_typed_def same_wiring_kind_of(1) [OF assms(1)] by (simp add: shape_def)
qed

lemma feeds_sinks_same_wiring: "same_wiring st st' \<Longrightarrow> feeds_sinks st' = feeds_sinks st"
  using same_wiring_kind_of [of st st'] by (simp add: feeds_sinks_def fun_eq_iff)

lemma user_typed_same_wiring: "same_wiring st st' \<Longrightarrow> user_typed E rt st' = user_typed E rt st"
  using same_wiring_kind_of(1) [of st st'] feeds_sinks_same_wiring [of st st'] by (simp add: user_typed_def)

lemma input_ok_same_wiring: "same_wiring st st' \<Longrightarrow> input_ok rt st' m a = input_ok rt st m a"
  using same_wiring_kind_of(1) [of st st'] by (simp add: input_ok_def)

section \<open>One object\<close>

definition output_ok :: "('a, 'p, 'u) runtime \<Rightarrow> ('p, 'u) flow_state \<Rightarrow> nid \<Rightarrow> kind \<Rightarrow> 'a \<Rightarrow> bool" where
  "output_ok rt st n k a \<longleftrightarrow>
     a = any_empty rt \<or> a = any_make rt Nullopt \<and> feeds_sinks st n \<or>
     (\<exists>v. a = any_make rt v \<and> v \<noteq> Nullopt \<and> typeof v = output_type k \<and> elements_typed v)"

lemma in_world_fst: "in_world f st = (r, st') \<Longrightarrow> r = fst (f (world st))"
  by (auto simp: in_world_def split: prod.splits)

lemma optional_output:
  assumes "and_then (in_world f st) (\<lambda>r st. (Inr (optional_to_any rt r), st)) = (res, st')"
    "good_output E (feeds_sinks st n) (output_type k) (fst (f (world st)))"
  shows "case res of Inl e \<Rightarrow> E e | Inr out \<Rightarrow> output_ok rt st n k out"
proof -
  obtain r st1 where w: "in_world f st = (r, st1)" by fastforce
  then have "r = fst (f (world st))" by (rule in_world_fst)
  with assms(2) have g: "good_output E (feeds_sinks st n) (output_type k) r" by simp
  show ?thesis
  proof (cases r)
    case (Inl e)
    then show ?thesis using assms(1) w g by (auto simp: good_output_def)
  next
    case (Inr x)
    then show ?thesis using assms(1) w g by (cases x) (auto simp: good_output_def output_ok_def)
  qed
qed

lemma process_any_typed:
  assumes laws: "any_laws rt" and user: "user_typed E rt st" and inv: "flow_inv st" and wt: "well_typed st"
    and n: "objs st n = Some nd" "\<not> is_sink (n_kind nd)" "is_agg (n_kind nd) \<longrightarrow> i < producer_count nd" and a: "input_ok rt st n a"
    and p: "process_any rt n nd a i st = (res, st')"
  shows "case res of Inl e \<Rightarrow> E e | Inr out \<Rightarrow> output_ok rt st n (n_kind nd) out"
proof -
  have k: "kind_of st n = Some (n_kind nd)" using n(1) by (simp add: kind_of_def)
  have typed: "\<exists>v. a = any_make rt v \<and> typeof v = input_type (n_kind nd)" if "\<not> is_source (n_kind nd)"
    using a n(2) k that by (auto simp: input_ok_def)
  show ?thesis
  proof (cases "n_kind nd")
    case (KSource out)
    then have "good_output E (feeds_sinks st n) (output_type (n_kind nd)) (fst (source_process rt n (world st)))"
      using user k by (simp add: user_typed_def)
    then show ?thesis
      using p KSource optional_output [of "source_process rt n" st rt res st' E n "n_kind nd"]
      by (simp add: process_any_def source_process_any_def)
  next
    case (KModule t out)
    then obtain v where v: "a = any_make rt v" "typeof v = t" using typed by auto
    have "good_output E (feeds_sinks st n) (output_type (n_kind nd)) (fst (module_process rt n v (world st)))"
      using user k KModule v by (simp add: user_typed_def)
    then show ?thesis
      using p KModule v optional_output [of "module_process rt n v" st rt res st' E n "n_kind nd"]
      by (simp add: process_any_def module_process_any_def any_cast_with_info_make [OF laws])
  next
    case (KAggregator t out)
    then obtain v where v: "a = any_make rt v" "typeof v = t" using typed by auto
    have agg: "agg_inv nd" "i < producer_count nd" using inv n KAggregator by (auto simp: flow_inv_def)
    then have c: "unat (producer_count nd) < 31" "unat i < 31" by (auto simp: agg_inv_def word_less_nat_alt)
    have g: "good_output E True out (fst (aggregator_process rt n vs u))" for vs u
      using user k KAggregator by (simp add: user_typed_def)
    have fin: "case res of Inl e \<Rightarrow> E e | Inr o' \<Rightarrow> output_ok rt st n (KAggregator t out) o'"
      if h: "and_then (in_world (aggregator_process rt n vs) s)
        (\<lambda>r st. (Inr (case r of Some o' \<Rightarrow> any_make rt o' | None \<Rightarrow> any_empty rt), st)) = (res, st')" for vs s
    proof -
      obtain r s1 where w: "in_world (aggregator_process rt n vs) s = (r, s1)" by fastforce
      then have "r = fst (aggregator_process rt n vs (world s))" by (rule in_world_fst)
      with g have "good_output E True out r" by simp
      then show ?thesis using h w by (cases r) (auto simp: good_output_def output_ok_def split: option.splits)
    qed
    define nd' where "nd' = agg_store i (2 ^ unat i) (implicit_conv rt out v) nd"
    have cnt: "producer_count (agg_store j b w nd) = producer_count nd" "n_kind (agg_store j b w nd) = n_kind nd" for j b w
      by (simp_all add: agg_store_def)
    have none: "output_ok rt st n k (any_empty rt)" for k by (simp add: output_ok_def)
    note simps = process_any_def aggregator_process_any_def KAggregator v producer_bit_exp [OF c(2)] Let_def cnt
      full_mask_mask [OF c(1)] any_cast_with_info_make [OF laws]
    show ?thesis
    proof (cases "agg_state nd AND 2 ^ unat i = 0")
      case False
      then have "res = Inr (any_empty rt)" using p by (simp add: simps)
      then show ?thesis using none by simp
    next
      case True
      have "(if agg_state nd' = mask (unat (producer_count nd))
         then and_then (in_world (aggregator_process rt n (aggregator_collect rt (n_kind nd) (latest nd'))) (set_node n (agg_reset nd') st))
           (\<lambda>r st. (Inr (case r of Some o' \<Rightarrow> any_make rt o' | None \<Rightarrow> any_empty rt), st))
         else (Inr (any_empty rt), set_node n nd' st)) = (res, st')"
        using p True by (simp add: simps nd'_def cong: if_cong)
      then show ?thesis unfolding KAggregator using fin none by (auto split: if_split_asm)
    qed
  next
    case (KSink t)
    then show ?thesis using n(2) by simp
  next
    case (KFlow c)
    moreover have "typed_block (n_kind nd)" using wt n(1) by (simp add: well_typed_def)
    ultimately show ?thesis by simp
  qed
qed

text \<open>What an object hands to its consumers, they may be executed on.\<close>

lemma targets_typed:
  assumes laws: "any_laws rt" and wt: "well_typed st" and n: "objs st n = Some nd" "\<not> is_sink (n_kind nd)"
    and out: "output_ok rt st n (n_kind nd) out" "any_has_value rt out"
  shows "\<exists>ts. produce_targets rt nd out = Inr ts \<and> (\<forall>(m, i, a) \<in> set ts. input_ok rt st m a)"
proof -
  obtain t where t: "next_nodes nd \<noteq> []" "delivered_type nd = Some t" "t \<noteq> TNullopt"
    "\<And>m. m \<in> fst ` set (next_nodes nd) \<Longrightarrow> \<exists>k. kind_of st m = Some k \<and> input_type k = t"
    using wt [unfolded well_typed_def, THEN spec, THEN spec, THEN mp, OF n(1), THEN conjunct2, THEN mp, OF n(2)]
    by (elim conjE exE) (rule that, assumption+, erule bspec)
  have some: "out \<noteq> any_empty rt" using out(2) any_empty_simps(1) [OF laws] by auto
  have fits: "input_ok rt st m (any_make rt v)" if "m \<in> fst ` set (next_nodes nd)" "typeof v = t" for m v
    using t(4) [OF that(1)] that(2) t(3) unfolding input_ok_def by (auto simp: typeof_nullopt)
  show ?thesis
  proof (cases "n_policy nd")
    case Fanout
    then have o: "output_type (n_kind nd) = t" using t(2) by (simp add: delivered_type_def)
    have "input_ok rt st m out" if m: "m \<in> fst ` set (next_nodes nd)" for m
    proof (cases "out = any_make rt Nullopt \<and> feeds_sinks st n")
      case True
      then have "\<exists>s. kind_of st m = Some (KSink s)" using m n(1) by (auto simp: feeds_sinks_def succs_def)
      then show ?thesis using True by (auto simp: input_ok_def)
    next
      case False
      then obtain v where "out = any_make rt v" "typeof v = t" using out(1) some o by (auto simp: output_ok_def)
      then show ?thesis using fits [OF m] by simp
    qed
    then show ?thesis using Fanout t(1) by (force simp: produce_targets_def fanout_targets_map)
  next
    case RoundRobin
    then have o: "output_type (n_kind nd) = TVector t" using t(2) by (auto simp: delivered_type_def split: ctype.splits)
    have "\<not> feeds_sinks st n" using RoundRobin n(1) by (simp add: feeds_sinks_def policy_of_def)
    then obtain v where v: "out = any_make rt v" "typeof v = TVector t" "elements_typed v"
      using out(1) some o by (auto simp: output_ok_def)
    then obtain vs where vs: "v = Vector t vs" "\<forall>w \<in> set vs. typeof w = t" by (cases v) auto
    have r: "round_robin_targets rt nd out = Inr (map (\<lambda>i. (fst (next_nodes nd ! i), snd (next_nodes nd ! i), any_make rt (vs ! i)))
        [0..<min (length vs) (length (next_nodes nd))])"
      using o v(1) vs(1) by (simp add: round_robin_targets_def any_cast_with_info_make [OF laws] Let_def)
    then show ?thesis using RoundRobin vs(2) by (auto simp: produce_targets_def intro!: fits)
  qed
qed

section \<open>A whole execution\<close>

lemma run_consumers_typed:
  assumes step: "\<And>m a i s r s'. same_wiring st s \<Longrightarrow> flow_inv s \<Longrightarrow> valid_target s m i \<Longrightarrow> input_ok rt s m a \<Longrightarrow>
      exec m a i s = (r, s') \<Longrightarrow> same_wiring st s' \<and> flow_inv s' \<and> (\<forall>e. r = Inl e \<longrightarrow> e = No_Return \<or> E e)"
  shows "same_wiring st s \<Longrightarrow> flow_inv s \<Longrightarrow> \<forall>(m, i, a) \<in> set ts. valid_target st m i \<and> input_ok rt st m a \<Longrightarrow>
    fst (run_consumers exec ts s) = Inl e \<Longrightarrow> e = No_Return \<or> E e"
proof (induction ts arbitrary: s)
  case (Cons t ts)
  obtain m i a where t: "t = (m, i, a)" by (cases t)
  obtain r s' where x: "exec m a i s = (r, s')" by fastforce
  have head: "valid_target st m i" "input_ok rt st m a" using Cons.prems(3) t by simp_all
  have "valid_target s m i" unfolding same_wiring_valid_target [OF Cons.prems(1)] by (rule head(1))
  moreover have "input_ok rt s m a" unfolding input_ok_same_wiring [OF Cons.prems(1)] by (rule head(2))
  ultimately have this: "valid_target s m i" "input_ok rt s m a" by simp_all
  from step [OF Cons.prems(1,2) this x] have s': "same_wiring st s'" "flow_inv s'" "\<forall>e. r = Inl e \<longrightarrow> e = No_Return \<or> E e"
    by simp_all
  show ?case
  proof (cases r)
    case (Inl e')
    then show ?thesis using Cons.prems(4) t x s'(3) by simp
  next
    case (Inr u)
    then have "fst (run_consumers exec ts s') = Inl e" using Cons.prems(4) t x by simp
    then show ?thesis using Cons.IH [OF s'(1,2)] Cons.prems(3) by simp
  qed
qed simp

lemma sink_typed:
  assumes laws: "any_laws rt" and user: "user_typed E rt st" and k: "kind_of st n = Some (KSink t)"
    and a: "input_ok rt st n a" and e: "fst (sink_execute rt t n a st) = Inl e"
  shows "E e"
proof (cases "\<exists>v. a = any_make rt v \<and> v \<noteq> Nullopt \<and> typeof v = t")
  case True
  then obtain v where v: "a = any_make rt v" "v \<noteq> Nullopt" "typeof v = t" by blast
  obtain r st1 where w: "in_world (sink_process rt n v) st = (r, st1)" by fastforce
  then have r: "r = fst (sink_process rt n v (world st))" by (rule in_world_fst)
  have "t \<noteq> TNullopt" using v(2,3) typeof_nullopt by auto
  then have "r = Inl e" using e v(1,3) w
    by (cases r) (simp_all add: sink_execute_def sink_process_any_def any_simps [OF laws] any_cast_with_info_make [OF laws])
  moreover have "fst (sink_process rt n v u) = Inl e' \<Longrightarrow> E e'" for u e'
    using user [unfolded user_typed_def, THEN conjunct2, THEN conjunct2, THEN conjunct2, rule_format, OF k v(3)] .
  ultimately show ?thesis using r by simp
next
  case False
  then have "a = any_make rt Nullopt" using a k by (auto simp: input_ok_def)
  then show ?thesis using e by (simp add: sink_execute_def any_simps [OF laws])
qed

lemma execute_typed:
  assumes laws: "any_laws rt"
  shows "user_typed E rt st \<Longrightarrow> flow_inv st \<Longrightarrow> well_typed st \<Longrightarrow> valid_target st n i \<Longrightarrow> input_ok rt st n a \<Longrightarrow>
    fst (execute fuel rt n a i st) = Inl e \<Longrightarrow> e = No_Return \<or> E e"
proof (induction fuel arbitrary: n a i st e)
  case (Suc fuel)
  obtain nd where n: "objs st n = Some nd" "is_agg (n_kind nd) \<longrightarrow> i < producer_count nd"
    using Suc.prems(4) by (auto simp: valid_target_def)
  then have k: "kind_of st n = Some (n_kind nd)" by (simp add: kind_of_def)
  show ?case
  proof (cases "is_sink (n_kind nd)")
    case True
    then obtain t where t: "n_kind nd = KSink t" by (auto elim!: is_sink.elims)
    then have "fst (sink_execute rt t n a st) = Inl e" using Suc.prems(6) n(1) by simp
    then show ?thesis using sink_typed [OF laws Suc.prems(1) _ Suc.prems(5)] k t by simp
  next
    case False
    obtain r st' where p: "process_any rt n nd a i st = (r, st')" by fastforce
    have ok: "case r of Inl e \<Rightarrow> E e | Inr out \<Rightarrow> output_ok rt st n (n_kind nd) out"
      by (rule process_any_typed [OF laws Suc.prems(1-3) n(1) False n(2) Suc.prems(5) p])
    have wiring: "same_wiring st st'" using process_any_same_wiring [OF n(1), of rt a i] p by simp
    have inv': "flow_inv st'" using process_any_flow_inv [OF Suc.prems(2) n, of rt a] p by simp
    show ?thesis
    proof (cases r)
      case (Inl e')
      then show ?thesis using Suc.prems(6) n(1) p ok False by (auto split: kind.splits)
    next
      case (Inr out)
      then have out: "output_ok rt st n (n_kind nd) out" using ok by simp
      show ?thesis
      proof (cases "any_has_value rt out \<and> any_type rt a \<noteq> TNullopt")
        case True
        then obtain ts where ts: "produce_targets rt nd out = Inr ts" "\<forall>(m, i, a) \<in> set ts. input_ok rt st m a"
          using targets_typed [OF laws Suc.prems(3) n(1) False out] by blast
        have "valid_target st m j" if "(m, j, b) \<in> set ts" for m j b
        proof -
          have "(m, j) \<in> set (next_nodes nd)" by (rule produce_targets_consumers [OF ts(1) that])
          then obtain l where "edge st n l m j" using n(1) by (auto simp: edge_def in_set_conv_nth)
          then show ?thesis using Suc.prems(2) by (auto simp: flow_inv_def)
        qed
        then have tg: "\<forall>(m, j, b) \<in> set ts. valid_target st m j \<and> input_ok rt st m b" using ts(2) by auto
        have "fst (run_consumers (execute fuel rt) ts st') = Inl e"
          using Suc.prems(6) n(1) p Inr True ts(1) False by (auto split: kind.splits)
        then show ?thesis
        proof (rule run_consumers_typed [where st = st and rt = rt, rotated -1])
          fix m b j s q s'
          assume h: "same_wiring st s" "flow_inv s" "valid_target s m j" "input_ok rt s m b" "execute fuel rt m b j s = (q, s')"
          have "user_typed E rt s" "well_typed s"
            using Suc.prems(1,3) h(1) user_typed_same_wiring well_typed_same_wiring by blast+
          then have "\<forall>e. q = Inl e \<longrightarrow> e = No_Return \<or> E e" using Suc.IH [OF _ h(2) _ h(3,4)] h(5) by simp
          moreover have "same_wiring st s'" using same_wiring_trans [OF h(1) execute_same_wiring, of fuel rt m b j] h(5) by simp
          moreover have "flow_inv s'" using execute_flow_inv [OF h(2,3), of fuel rt b] h(5) by simp
          ultimately show "same_wiring st s' \<and> flow_inv s' \<and> (\<forall>e. q = Inl e \<longrightarrow> e = No_Return \<or> E e)" by blast
        qed (use wiring inv' tg in simp_all)
      next
        case nothing: False
        then show ?thesis using Suc.prems(6) n(1) p Inr False by (auto split: kind.splits if_splits)
      qed
    qed
  qed
qed simp

section \<open>Well-typed graphs are safe\<close>

text \<open>C12. Type safety: take a graph without cycles in which every connection joins matching types (under
  \<open>RoundRobin\<close>, an element of the output), and user code that throws at most errors in \<open>E\<close>, returns values of
  its declared types, and returns nothing only where just sinks are fed.  Then executing an object on what it
  takes returns normally or with an error of the user code: no cast fails, no policy is refused, nothing is
  undefined, and no fuel above the object's rank runs out.  The graph is well typed and consistent
  afterwards, whatever was thrown.\<close>

theorem well_typed_flow_safe:
  assumes "any_laws rt" "user_terminates rt" "user_typed E rt st" "flow_inv st" "well_typed st" "ranked rk st"
    "valid_target st n i" "input_ok rt st n a" "rk n < fuel"
  shows "\<exists>res st'. (\<forall>fuel' \<ge> fuel. execute fuel' rt n a i st = (res, st')) \<and>
    (res = Inr () \<or> (\<exists>e. res = Inl e \<and> E e)) \<and> well_typed st' \<and> flow_inv st'"
proof -
  obtain res st' where x: "execute fuel rt n a i st = (res, st')" by fastforce
  have "returns (fst (execute fuel rt n a i st))" by (rule execute_returns [OF assms(2,6,9)])
  with x have ret: "returns res" by simp
  then have "fst (execute fuel rt n a i st) \<noteq> Inl No_Return" using x by (auto simp: returns_def)
  then have more: "execute fuel' rt n a i st = (res, st')" if "fuel \<le> fuel'" for fuel'
    using execute_more_fuel [of fuel rt n a i st fuel'] x that by simp
  have "res = Inr () \<or> (\<exists>e. res = Inl e \<and> E e)"
  proof (cases res)
    case (Inl e)
    then have "fst (execute fuel rt n a i st) = Inl e" using x by simp
    from execute_typed [OF assms(1,3,4,5,7,8) this] show ?thesis using ret Inl by (auto simp: returns_def)
  qed simp
  moreover have "same_wiring st st'" using execute_same_wiring [of st fuel rt n a i] x by simp
  then have "well_typed st'" using assms(5) by (rule well_typed_same_wiring)
  moreover have "flow_inv st'" using execute_flow_inv [OF assms(4,7), of fuel rt a] x by simp
  ultimately show ?thesis using more by blast
qed

text \<open>A source that feeds an aggregator through two modules, and a sink behind it.\<close>

definition diamond :: "(int, (nid \<times> int val) list) flow_state" where
  "diamond = \<lparr>objs = [0 \<mapsto> (new_node (KSource tint) Fanout)\<lparr>next_nodes := [(1, 0), (2, 0)]\<rparr>,
     1 \<mapsto> (new_node (KModule tint tint) Fanout)\<lparr>next_nodes := [(3, 0)]\<rparr>,
     2 \<mapsto> (new_node (KModule tint tint) Fanout)\<lparr>next_nodes := [(3, 1)]\<rparr>,
     3 \<mapsto> (new_node (KAggregator tint tint) Fanout)\<lparr>next_nodes := [(4, 0)], producer_count := 2\<rparr>,
     4 \<mapsto> new_node (KSink tint) Fanout], world = []\<rparr>"

lemma diamond_kind_of: "kind_of diamond = [0 \<mapsto> KSource tint, 1 \<mapsto> KModule tint tint, 2 \<mapsto> KModule tint tint,
    3 \<mapsto> KAggregator tint tint, 4 \<mapsto> KSink tint]"
  by (simp add: kind_of_def diamond_def new_node_def fun_eq_iff)

lemma diamond_flow_inv: "flow_inv diamond"
proof -
  have "valid_target diamond m i" if "edge diamond n k m i" for n k m i
    using that by (auto simp: edge_def valid_target_def diamond_def new_node_def nth_Cons' split: if_splits)
  moreover have "n = n' \<and> k = k'" if "edge diamond n k m i" "edge diamond n' k' m i" "objs diamond m = Some md" "is_agg (n_kind md)"
    for n k n' k' m i md
    using that by (auto simp: edge_def diamond_def new_node_def nth_Cons' split: if_splits)
  moreover have "agg_inv nd" if "objs diamond n = Some nd" "is_agg (n_kind nd)" for n nd
  proof -
    have "(0 :: size_t) \<in> {i. i < 2}" by simp
    then have "{i :: size_t. i < 2} \<noteq> {}" by blast
    then show ?thesis using that by (auto simp: agg_inv_def diamond_def new_node_def split: if_splits)
  qed
  ultimately show ?thesis unfolding flow_inv_def by blast
qed

theorem well_typed_flow_safe_witness:
  "\<exists>st'. (\<forall>fuel \<ge> 4. execute fuel sample_rt 0 None 0 diamond = (Inr (), st')) \<and> well_typed st' \<and> flow_inv st'"
proof -
  have user: "user_typed (\<lambda>_. False) sample_rt diamond"
    unfolding user_typed_def diamond_kind_of by (auto simp: good_output_def sample_rt_def split: if_splits)
  have wt: "well_typed diamond"
    unfolding well_typed_def diamond_kind_of by (auto simp: diamond_def new_node_def delivered_type_def split: if_splits)
  have "input_ok sample_rt diamond 0 None" unfolding input_ok_def diamond_kind_of by (simp add: sample_rt_def)
  moreover have "ranked (\<lambda>n. 4 - (if n = 0 then 1 else if n \<le> 2 then 2 else n)) diamond"
    by (auto simp: ranked_def diamond_def new_node_def split: if_splits)
  moreover have "valid_target diamond 0 0" by (simp add: valid_target_def diamond_def new_node_def)
  ultimately show ?thesis
    using well_typed_flow_safe [OF any_laws_sample_rt user_terminates_sample_rt user diamond_flow_inv wt, of _ 0 0 None 4] by auto
qed

end
