(* ===== verification/Buffers.thy ===== *)
theory Buffers
  imports Prelude
begin

text \<open>
  The buffers of \<open>src/core/src/utils/memory/smart_buffers\<close>: the non-owning \<open>buffer_base\<close>, the
  plain \<open>released_buffer\<close> and the move-only owner \<open>unique_buffer\<close>.  A buffer is its data pointer, its
  element count, its location and (for the owners) its deleter; the elements themselves are not
  modelled, since no operation reads them.  A deleter is a \<open>std::function\<close> and may change whatever
  state its closure captured, so it is a function on a state \<open>'w\<close>; no deleter is \<open>None\<close>.  The last
  part states, as the locale \<open>block_provider\<close>, what the buffers need of the place their memory comes
  from, and shows that under it every block has exactly one owner whatever moves, swaps, resets,
  releases and destructions happen.
\<close>

section \<open>The data\<close>

datatype MemoryLocation = Host | HostPinned | Device | Unified

type_synonym 'w deleter = "addr \<Rightarrow> 'w \<Rightarrow> unit result \<times> 'w"

record buffer_base =
  data_ptr :: addr
  elem_count :: size_t
  mem_location :: MemoryLocation

record 'w released_buffer =
  rb_ptr :: addr
  rb_count :: size_t
  rb_deleter :: "'w deleter option"
  rb_location :: MemoryLocation

record 'w unique_buffer = buffer_base +
  del_fn :: "'w deleter option"

section \<open>Observers of \<open>buffer_base\<close>\<close>

definition empty_base :: buffer_base where
  "empty_base = \<lparr>data_ptr = nullptr, elem_count = 0, mem_location = Host\<rparr>"

definition buffer_data :: "'z buffer_base_scheme \<Rightarrow> addr" where "buffer_data b = data_ptr b"

definition buffer_size :: "'z buffer_base_scheme \<Rightarrow> size_t" where "buffer_size b = elem_count b"

definition buffer_empty :: "'z buffer_base_scheme \<Rightarrow> bool" where "buffer_empty b = (elem_count b = 0)"

definition buffer_location :: "'z buffer_base_scheme \<Rightarrow> MemoryLocation" where
  "buffer_location b = mem_location b"

definition buffer_span :: "'z buffer_base_scheme \<Rightarrow> addr \<times> size_t" where
  "buffer_span b = (data_ptr b, elem_count b)"

text \<open>\<open>sizeT\<close> is \<open>sizeof(T)\<close>; both products wrap as \<open>size_t\<close> does.\<close>

definition size_bytes :: "size_t \<Rightarrow> 'z buffer_base_scheme \<Rightarrow> size_t" where
  "size_bytes sizeT b = snd (buffer_span b) * sizeT"

definition byte_span :: "size_t \<Rightarrow> 'z buffer_base_scheme \<Rightarrow> addr \<times> size_t" where
  "byte_span sizeT b = (data_ptr b, elem_count b * sizeT)"

section \<open>Operations of \<open>unique_buffer\<close>\<close>

definition empty_unique :: "'w unique_buffer" where
  "empty_unique = \<lparr>data_ptr = nullptr, elem_count = 0, mem_location = Host, del_fn = None\<rparr>"

definition unique_raw :: "addr \<Rightarrow> size_t \<Rightarrow> 'w deleter option \<Rightarrow> MemoryLocation \<Rightarrow> 'w unique_buffer" where
  "unique_raw p c d loc = \<lparr>data_ptr = p, elem_count = c, mem_location = loc, del_fn = d\<rparr>"

definition unique_from_released :: "'w released_buffer \<Rightarrow> 'w unique_buffer" where
  "unique_from_released rb =
     \<lparr>data_ptr = rb_ptr rb, elem_count = rb_count rb, mem_location = rb_location rb, del_fn = rb_deleter rb\<rparr>"

text \<open>\<open>steal_from\<close>: what \<open>this\<close> and \<open>other\<close> are afterwards.\<close>

definition steal_from :: "'w unique_buffer \<Rightarrow> 'w unique_buffer \<times> 'w unique_buffer" where
  "steal_from other =
     (unique_raw (data_ptr other) (elem_count other) (del_fn other) (mem_location other),
      other\<lparr>data_ptr := nullptr, elem_count := 0, mem_location := Host, del_fn := None\<rparr>)"

definition unique_get :: "'w unique_buffer \<Rightarrow> addr" where "unique_get b = data_ptr b"

definition release :: "'w unique_buffer \<Rightarrow> 'w released_buffer \<times> 'w unique_buffer" where
  "release b =
     (\<lparr>rb_ptr = data_ptr b, rb_count = elem_count b, rb_deleter = del_fn b, rb_location = mem_location b\<rparr>,
      b\<lparr>data_ptr := nullptr, elem_count := 0, mem_location := Host, del_fn := None\<rparr>)"

text \<open>\<open>try { deleter(p); } catch (...) {}\<close>: an exception of the deleter is dropped.\<close>

fun swallow :: "unit result \<Rightarrow> unit result" where
  "swallow (Inl (Exn x)) = Inr ()"
| "swallow r = r"

definition call_deleter :: "'w deleter option \<Rightarrow> addr \<Rightarrow> 'w \<Rightarrow> unit result \<times> 'w" where
  "call_deleter d p w =
     (case d of None \<Rightarrow> (Inr (), w) | Some f \<Rightarrow> (case f p w of (r, w') \<Rightarrow> (swallow r, w')))"

definition reset :: "'w unique_buffer \<Rightarrow> 'w \<Rightarrow> unit result \<times> 'w unique_buffer \<times> 'w" where
  "reset b w =
     (if data_ptr b \<noteq> nullptr then
        (case call_deleter (del_fn b) (data_ptr b) w of
           (Inl e, w) \<Rightarrow> (Inl e, b, w)
         | (Inr _, w) \<Rightarrow>
             (Inr (), b\<lparr>data_ptr := nullptr, elem_count := 0, mem_location := Host, del_fn := None\<rparr>, w))
      else (Inr (), b\<lparr>del_fn := None\<rparr>, w))"

definition unique_swap :: "'w unique_buffer \<Rightarrow> 'w unique_buffer \<Rightarrow> 'w unique_buffer \<times> 'w unique_buffer" where
  "unique_swap b c =
     (b\<lparr>data_ptr := data_ptr c, elem_count := elem_count c, mem_location := mem_location c, del_fn := del_fn c\<rparr>,
      c\<lparr>data_ptr := data_ptr b, elem_count := elem_count b, mem_location := mem_location b, del_fn := del_fn b\<rparr>)"

definition unique_is_null :: "'w unique_buffer \<Rightarrow> bool" where "unique_is_null b = (data_ptr b = nullptr)"

definition unique_bool :: "'w unique_buffer \<Rightarrow> bool" where "unique_bool b = (data_ptr b \<noteq> nullptr)"

definition unique_view :: "'w unique_buffer \<Rightarrow> buffer_base" where
  "unique_view b = \<lparr>data_ptr = data_ptr b, elem_count = elem_count b, mem_location = mem_location b\<rparr>"

definition get_deleter :: "'w unique_buffer \<Rightarrow> 'w deleter option" where "get_deleter b = del_fn b"

section \<open>Objects in variables\<close>

text \<open>
  The operations that take two buffers compare or change two objects, so they work on a store from
  variables to the objects alive: \<open>U\<close> a \<open>unique_buffer\<close>, \<open>R\<close> a \<open>released_buffer\<close>.  A variable whose
  object is not a \<open>unique_buffer\<close> does not type check.
\<close>

datatype 'w obj = U "'w unique_buffer" | R "'w released_buffer"

type_synonym ('v, 'w) store = "'v \<Rightarrow> 'w obj option"

definition unique_at :: "('v, 'w) store \<Rightarrow> 'v \<Rightarrow> 'w unique_buffer option" where
  "unique_at objs x = (case objs x of Some (U b) \<Rightarrow> Some b | _ \<Rightarrow> None)"

definition move_construct :: "'v \<Rightarrow> 'v \<Rightarrow> ('v, 'w) store \<Rightarrow> ('v, 'w) store option" where
  "move_construct x y objs =
     (case (objs x, unique_at objs y) of
        (None, Some other) \<Rightarrow> (case steal_from other of (this, other) \<Rightarrow> Some (objs(x \<mapsto> U this, y \<mapsto> U other)))
      | _ \<Rightarrow> None)"

definition move_assign :: "'v \<Rightarrow> 'v \<Rightarrow> ('v, 'w) store \<Rightarrow> 'w \<Rightarrow> unit result \<times> ('v, 'w) store \<times> 'w" where
  "move_assign x y objs w =
     (case (unique_at objs x, unique_at objs y) of
        (Some this, Some other) \<Rightarrow>
          if x \<noteq> y then
            (case reset this w of
               (Inl e, this, w) \<Rightarrow> (Inl e, objs(x \<mapsto> U this), w)
             | (Inr _, this, w) \<Rightarrow>
                 (case steal_from other of (this, other) \<Rightarrow> (Inr (), objs(x \<mapsto> U this, y \<mapsto> U other), w)))
          else (Inr (), objs, w)
      | _ \<Rightarrow> (Inl Ill_Formed, objs, w))"

definition reset_at :: "'v \<Rightarrow> ('v, 'w) store \<Rightarrow> 'w \<Rightarrow> unit result \<times> ('v, 'w) store \<times> 'w" where
  "reset_at x objs w =
     (case unique_at objs x of
        Some b \<Rightarrow> (case reset b w of (r, b, w) \<Rightarrow> (r, objs(x \<mapsto> U b), w))
      | None \<Rightarrow> (Inl Ill_Formed, objs, w))"

definition unique_destroy :: "'v \<Rightarrow> ('v, 'w) store \<Rightarrow> 'w \<Rightarrow> unit result \<times> ('v, 'w) store \<times> 'w" where
  "unique_destroy x objs w =
     (case unique_at objs x of
        Some b \<Rightarrow> (case reset b w of (r, b, w) \<Rightarrow> (r, objs(x := None), w))
      | None \<Rightarrow> (Inl Ill_Formed, objs, w))"

definition swap_at :: "'v \<Rightarrow> 'v \<Rightarrow> ('v, 'w) store \<Rightarrow> ('v, 'w) store option" where
  "swap_at x y objs =
     (case (unique_at objs x, unique_at objs y) of
        (Some b, Some c) \<Rightarrow>
          if x = y then Some objs
          else (case unique_swap b c of (b, c) \<Rightarrow> Some (objs(x \<mapsto> U b, y \<mapsto> U c)))
      | _ \<Rightarrow> None)"

text \<open>\<open>x = y.release()\<close> and \<open>unique_buffer x(std::move(y))\<close> for a released buffer \<open>y\<close>, which the caller
  gives up.\<close>

definition release_at :: "'v \<Rightarrow> 'v \<Rightarrow> ('v, 'w) store \<Rightarrow> ('v, 'w) store option" where
  "release_at x y objs =
     (case (objs x, unique_at objs y) of
        (None, Some b) \<Rightarrow> (case release b of (rb, b) \<Rightarrow> Some (objs(x \<mapsto> R rb, y \<mapsto> U b)))
      | _ \<Rightarrow> None)"

definition adopt_at :: "'v \<Rightarrow> 'v \<Rightarrow> ('v, 'w) store \<Rightarrow> ('v, 'w) store option" where
  "adopt_at x y objs =
     (case (objs x, objs y) of
        (None, Some (R rb)) \<Rightarrow> Some (objs(x \<mapsto> U (unique_from_released rb), y := None))
      | _ \<Rightarrow> None)"

section \<open>Programs over buffers\<close>

text \<open>One statement of a program that works on buffers; \<open>acquire\<close> is the call that hands out a buffer
  (a self-allocating constructor, a pool).  It may throw, which leaves the objects as they are; its arguments are \<open>a\<close>.\<close>

type_synonym ('v, 'w) buf_state = "('v, 'w) store \<times> 'w"

inductive buf_step ::
  "('p \<Rightarrow> 'w \<Rightarrow> 'w unique_buffer result \<times> 'w) \<Rightarrow> ('v, 'w) buf_state \<Rightarrow> ('v, 'w) buf_state \<Rightarrow> bool"
  for acquire where
  Acquire: "objs x = None \<Longrightarrow> acquire a w = (Inr b, w') \<Longrightarrow> buf_step acquire (objs, w) (objs(x \<mapsto> U b), w')"
| Acquire_Throws: "acquire a w = (Inl e, w') \<Longrightarrow> buf_step acquire (objs, w) (objs, w')"
| Move_Construct: "move_construct x y objs = Some objs' \<Longrightarrow> buf_step acquire (objs, w) (objs', w)"
| Move_Assign: "move_assign x y objs w = (Inr u, objs', w') \<Longrightarrow> buf_step acquire (objs, w) (objs', w')"
| Reset: "reset_at x objs w = (Inr u, objs', w') \<Longrightarrow> buf_step acquire (objs, w) (objs', w')"
| Destroy: "unique_destroy x objs w = (Inr u, objs', w') \<Longrightarrow> buf_step acquire (objs, w) (objs', w')"
| Swap: "swap_at x y objs = Some objs' \<Longrightarrow> buf_step acquire (objs, w) (objs', w)"
| Release: "release_at x y objs = Some objs' \<Longrightarrow> buf_step acquire (objs, w) (objs', w)"
| Adopt: "adopt_at x y objs = Some objs' \<Longrightarrow> buf_step acquire (objs, w) (objs', w)"

abbreviation buf_run ::
  "('p \<Rightarrow> 'w \<Rightarrow> 'w unique_buffer result \<times> 'w) \<Rightarrow> ('v, 'w) buf_state \<Rightarrow> ('v, 'w) buf_state \<Rightarrow> bool" where
  "buf_run acquire \<equiv> (buf_step acquire)\<^sup>*\<^sup>*"

text \<open>The block a variable owns, and the objects that own one.\<close>

fun obj_ptr :: "'w obj \<Rightarrow> addr" where
  "obj_ptr (U b) = data_ptr b"
| "obj_ptr (R rb) = rb_ptr rb"

fun obj_deleter :: "'w obj \<Rightarrow> 'w deleter option" where
  "obj_deleter (U b) = del_fn b"
| "obj_deleter (R rb) = rb_deleter rb"

definition block_of :: "('v, 'w) store \<Rightarrow> 'v \<Rightarrow> addr option" where
  "block_of objs x =
     (case objs x of None \<Rightarrow> None | Some obj \<Rightarrow> if obj_ptr obj = nullptr then None else Some (obj_ptr obj))"

fun obj_count :: "'w obj \<Rightarrow> size_t" where
  "obj_count (U b) = elem_count b"
| "obj_count (R rb) = rb_count rb"

text \<open>Every object that owns a block has the deleter \<open>d\<close> and a size in \<open>fits\<close>.\<close>

definition deleters_are :: "'w deleter \<Rightarrow> (size_t \<Rightarrow> bool) \<Rightarrow> ('v, 'w) store \<Rightarrow> bool" where
  "deleters_are d fits objs \<longleftrightarrow>
     (\<forall>x obj. objs x = Some obj \<longrightarrow> obj_ptr obj \<noteq> nullptr \<longrightarrow> obj_deleter obj = Some d \<and> fits (obj_count obj))"

lemma unique_at_Some: "unique_at objs x = Some b \<longleftrightarrow> objs x = Some (U b)"
  by (auto simp: unique_at_def split: option.splits obj.splits)

lemma unique_at_None: "objs x = None \<Longrightarrow> unique_at objs x = None"
  by (simp add: unique_at_def)

lemmas store_ops = move_construct_def release_at_def adopt_at_def swap_at_def
  steal_from_def release_def unique_swap_def unique_raw_def unique_from_released_def

lemma block_of_upd: "block_of (objs(x \<mapsto> obj)) = (block_of objs)(x := if obj_ptr obj = nullptr then None else Some (obj_ptr obj))"
  by (auto simp: block_of_def fun_eq_iff)

lemma block_of_del: "block_of (objs(x := None)) = (block_of objs)(x := None)"
  by (auto simp: block_of_def fun_eq_iff)

lemma block_of_empty: "block_of (\<lambda>_. None) = Map.empty"
  by (simp add: block_of_def fun_eq_iff)

lemma block_of_at: "objs x = Some obj \<Longrightarrow> block_of objs x = (if obj_ptr obj = nullptr then None else Some (obj_ptr obj))"
  by (simp add: block_of_def)

lemmas block_of_simps = block_of_upd block_of_del block_of_at

lemma deleters_are_upd:
  "deleters_are d fits objs \<Longrightarrow> (obj_ptr obj \<noteq> nullptr \<Longrightarrow> obj_deleter obj = Some d \<and> fits (obj_count obj)) \<Longrightarrow> deleters_are d fits (objs(x \<mapsto> obj))"
  by (auto simp: deleters_are_def)

lemma deleters_are_del: "deleters_are d fits objs \<Longrightarrow> deleters_are d fits (objs(x := None))"
  by (auto simp: deleters_are_def)

lemma deleters_areD: "deleters_are d fits objs \<Longrightarrow> objs x = Some obj \<Longrightarrow> obj_ptr obj \<noteq> nullptr \<Longrightarrow>
     obj_deleter obj = Some d \<and> fits (obj_count obj)"
  by (auto simp: deleters_are_def)

lemmas deleters_intro = deleters_are_upd deleters_are_del

subsection \<open>What the operations that free nothing do\<close>

lemma move_construct_block:
  "move_construct x y objs = Some objs' \<Longrightarrow>
     block_of objs x = None \<and> x \<noteq> y \<and> block_of objs' = (block_of objs)(x := block_of objs y, y := None)"
  by (auto simp: store_ops block_of_simps unique_at_Some block_of_def split: option.splits)

lemma release_at_block:
  "release_at x y objs = Some objs' \<Longrightarrow>
     block_of objs x = None \<and> x \<noteq> y \<and> block_of objs' = (block_of objs)(x := block_of objs y, y := None)"
  by (auto simp: store_ops block_of_simps unique_at_Some block_of_def split: option.splits)

lemma adopt_at_block:
  "adopt_at x y objs = Some objs' \<Longrightarrow>
     block_of objs x = None \<and> x \<noteq> y \<and> block_of objs' = (block_of objs)(x := block_of objs y, y := None)"
  by (auto simp: store_ops block_of_simps block_of_def split: option.splits obj.splits)

lemma swap_at_block:
  "swap_at x y objs = Some objs' \<Longrightarrow> block_of objs' = (block_of objs)(x := block_of objs y, y := block_of objs x)"
  by (rule ext) (auto simp: store_ops unique_at_Some block_of_def split: option.split_asm if_split_asm)

lemma move_construct_deleters: "deleters_are d fits objs \<Longrightarrow> move_construct x y objs = Some objs' \<Longrightarrow> deleters_are d fits objs'"
  by (auto simp: store_ops unique_at_Some intro!: deleters_intro dest: deleters_areD split: option.splits)

lemma release_at_deleters: "deleters_are d fits objs \<Longrightarrow> release_at x y objs = Some objs' \<Longrightarrow> deleters_are d fits objs'"
  by (auto simp: store_ops unique_at_Some intro!: deleters_intro dest: deleters_areD split: option.splits)

lemma adopt_at_deleters: "deleters_are d fits objs \<Longrightarrow> adopt_at x y objs = Some objs' \<Longrightarrow> deleters_are d fits objs'"
  by (auto simp: store_ops intro!: deleters_intro dest: deleters_areD split: option.splits obj.splits)

lemma swap_at_deleters: "deleters_are d fits objs \<Longrightarrow> swap_at x y objs = Some objs' \<Longrightarrow> deleters_are d fits objs'"
  by (auto simp: store_ops unique_at_Some intro!: deleters_intro dest: deleters_areD split: option.splits if_splits)

text \<open>Moving a block from one variable to another keeps the set of owned blocks and who owns them
  unique.\<close>

lemma ran_subI: "(\<And>a p. pm a = Some p \<Longrightarrow> \<exists>b. qm b = Some p) \<Longrightarrow> ran pm \<subseteq> ran qm"
  by (auto simp: ran_def)

lemma ran_move:
  assumes "pm x = None" "x \<noteq> y"
  shows "ran (pm(x := pm y, y := None)) = ran pm"
proof (intro subset_antisym ran_subI)
  fix a p assume "pm a = Some p"
  then show "\<exists>b. (pm(x := pm y, y := None)) b = Some p"
    using assms by (intro exI [of _ "if a = y then x else a"]) auto
qed (auto split: if_splits)

lemma inj_move: "pm x = None \<Longrightarrow> x \<noteq> y \<Longrightarrow> inj_on pm (dom pm) \<Longrightarrow> inj_on (pm(x := pm y, y := None)) (dom (pm(x := pm y, y := None)))"
  unfolding inj_on_def by (auto split: if_splits)

lemma ran_swap: "ran (pm(x := pm y, y := pm x)) = ran pm"
proof (intro subset_antisym ran_subI)
  fix a p assume "pm a = Some p"
  then show "\<exists>b. (pm(x := pm y, y := pm x)) b = Some p"
    by (intro exI [of _ "if a = y then x else if a = x then y else a"]) auto
qed (auto split: if_splits)

lemma inj_swap: "inj_on pm (dom pm) \<Longrightarrow> inj_on (pm(x := pm y, y := pm x)) (dom (pm(x := pm y, y := pm x)))"
  unfolding inj_on_def by (auto split: if_splits)

lemma ran_drop:
  assumes "inj_on pm (dom pm)" "pm x = Some p"
  shows "ran (pm(x := None)) = ran pm - {p}"
proof -
  have only: "a = x" if "pm a = Some p" for a
    using inj_onD [OF assms(1), of a x] assms(2) that by auto
  show ?thesis
  proof (intro set_eqI iffI)
    fix q assume "q \<in> ran (pm(x := None))"
    then obtain a where "a \<noteq> x" "pm a = Some q" by (auto simp: ran_def split: if_splits)
    then show "q \<in> ran pm - {p}" using only by (auto intro: ranI)
  next
    fix q assume "q \<in> ran pm - {p}"
    then obtain a where "pm a = Some q" "q \<noteq> p" by (auto simp: ran_def)
    then have "(pm(x := None)) a = Some q" using assms(2) by auto
    then show "q \<in> ran (pm(x := None))" by (rule ranI)
  qed
qed

lemma ran_drop_None: "pm x = None \<Longrightarrow> pm(x := None) = pm"
  by auto

lemma inj_drop: "inj_on pm (dom pm) \<Longrightarrow> inj_on (pm(x := None)) (dom (pm(x := None)))"
  unfolding inj_on_def by auto

lemma inj_add: "inj_on pm (dom pm) \<Longrightarrow> p \<notin> ran pm \<Longrightarrow> inj_on (pm(x \<mapsto> p)) (dom (pm(x \<mapsto> p)))"
  unfolding inj_on_def by (auto simp: ran_def)

section \<open>Where the memory comes from\<close>

text \<open>
  \<open>acquire\<close> hands out a buffer over a block that nothing else owns; \<open>give_back\<close> is the deleter that
  buffer carries; \<open>outstanding\<close> is the set of blocks handed out and not given back, \<open>fits\<close> a bound on the sizes of
  the buffers handed out.  A block may be
  given back once.
\<close>

locale block_provider =
  fixes acquire :: "'p \<Rightarrow> 'w \<Rightarrow> 'w unique_buffer result \<times> 'w"
    and give_back :: "'w deleter"
    and sound :: "'w \<Rightarrow> bool"
    and outstanding :: "'w \<Rightarrow> addr set"
    and fits :: "size_t \<Rightarrow> bool"
  assumes acquire_ok: "sound w \<Longrightarrow> acquire a w = (Inr b, w') \<Longrightarrow>
      sound w' \<and> data_ptr b \<noteq> nullptr \<and> del_fn b = Some give_back \<and>
      fits (elem_count b) \<and> data_ptr b \<notin> outstanding w \<and> outstanding w' = insert (data_ptr b) (outstanding w)"
    and acquire_throws: "sound w \<Longrightarrow> acquire a w = (Inl e, w') \<Longrightarrow>
      sound w' \<and> outstanding w' = outstanding w"
    and give_back_ok: "sound w \<Longrightarrow> p \<in> outstanding w \<Longrightarrow>
      \<exists>w'. give_back p w = (Inr (), w') \<and> sound w' \<and> outstanding w' = outstanding w - {p}"
begin

text \<open>Every block handed out, but those in \<open>S\<close> that others own, is owned by exactly one object, and no
  object owns anything else.\<close>

definition owned :: "addr set \<Rightarrow> ('v, 'w) buf_state \<Rightarrow> bool" where
  "owned S = (\<lambda>(objs, w). sound w \<and> deleters_are give_back fits objs \<and> ran (block_of objs) = outstanding w - S \<and>
     inj_on (block_of objs) (dom (block_of objs)) \<and> S \<subseteq> outstanding w)"

lemma ownedI:
  "sound w \<Longrightarrow> deleters_are give_back fits objs \<Longrightarrow> ran (block_of objs) = outstanding w - S \<Longrightarrow>
     inj_on (block_of objs) (dom (block_of objs)) \<Longrightarrow> S \<subseteq> outstanding w \<Longrightarrow> owned S (objs, w)"
  by (simp add: owned_def)

lemma ownedD:
  assumes "owned S (objs, w)"
  shows "sound w" "deleters_are give_back fits objs" "ran (block_of objs) = outstanding w - S"
    "inj_on (block_of objs) (dom (block_of objs))" "S \<subseteq> outstanding w"
  using assms by (auto simp: owned_def)

lemma owned_start: "sound w \<Longrightarrow> outstanding w = {} \<Longrightarrow> owned {} (\<lambda>_. None, w)"
  by (simp add: owned_def deleters_are_def block_of_empty)

lemma owned_acquire:
  assumes "owned S (objs, w)" "objs x = None" "acquire a w = (Inr b, w')"
  shows "owned S (objs(x \<mapsto> U b), w')"
proof (rule ownedI)
  note o = ownedD [OF assms(1)] and a = acquire_ok [OF ownedD(1) [OF assms(1)] assms(3)]
  have x: "block_of objs x = None" using assms(2) by (simp add: block_of_def)
  have upd: "block_of (objs(x \<mapsto> U b)) = (block_of objs)(x \<mapsto> data_ptr b)"
    using a by (simp add: block_of_upd)
  show "sound w'" using a by simp
  show "deleters_are give_back fits (objs(x \<mapsto> U b))" using o(2) a by (intro deleters_intro) auto
  show "ran (block_of (objs(x \<mapsto> U b))) = outstanding w' - S" using o(3,5) a x by (auto simp: upd)
  show "S \<subseteq> outstanding w'" using o(5) a by auto
  show "inj_on (block_of (objs(x \<mapsto> U b))) (dom (block_of (objs(x \<mapsto> U b))))"
    unfolding upd using o a by (intro inj_add) auto
qed

text \<open>A reset of an object that owns a block gives exactly that block back, and never fails.\<close>

lemma owned_reset:
  assumes "owned S (objs, w)" "objs x = Some (U b)"
  obtains b' w' where "reset b w = (Inr (), b', w')" "sound w'" "data_ptr b' = nullptr" "del_fn b' = None"
    "outstanding w' = outstanding w - set_option (block_of objs x)"
proof (cases "data_ptr b = nullptr")
  case True
  then show ?thesis using that [of "b\<lparr>del_fn := None\<rparr>" w] assms ownedD(1) [OF assms(1)]
    by (simp add: reset_def block_of_at)
next
  case False
  note o = ownedD [OF assms(1)]
  have blk: "block_of objs x = Some (data_ptr b)" using False assms(2) by (simp add: block_of_at)
  then have "data_ptr b \<in> outstanding w" using o(3) by (auto intro: ranI)
  then obtain w' where w': "give_back (data_ptr b) w = (Inr (), w')" "sound w'"
    "outstanding w' = outstanding w - {data_ptr b}" using give_back_ok [OF o(1)] by blast
  have "del_fn b = Some give_back" using deleters_areD [OF o(2) assms(2)] False by simp
  then show ?thesis using that False w' blk by (simp add: reset_def call_deleter_def)
qed

lemma owned_drop:
  assumes "owned S (objs, w)" "sound w'" "outstanding w' = outstanding w - set_option (block_of objs x)"
    "block_of objs' = (block_of objs)(x := None)" "deleters_are give_back fits objs'"
  shows "owned S (objs', w')"
proof (rule ownedI)
  note o = ownedD [OF assms(1)]
  have S: "set_option (block_of objs x) \<inter> S = {}" using o(3) by (auto intro: ranI)
  show "S \<subseteq> outstanding w'" using o(5) S assms(3) by auto
  show "ran (block_of objs') = outstanding w' - S"
  proof (cases "block_of objs x")
    case None
    then show ?thesis using assms o(3) by (simp add: ran_drop_None)
  next
    case (Some p)
    then show ?thesis using assms ran_drop [OF o(4) Some] o(3) by auto
  qed
  show "inj_on (block_of objs') (dom (block_of objs'))" unfolding assms(4) by (rule inj_drop [OF o(4)])
qed (use assms in auto)

lemma owned_reset_at:
  assumes "owned S (objs, w)" "unique_at objs x = Some b"
  shows "\<exists>objs' w'. reset_at x objs w = (Inr (), objs', w') \<and> owned S (objs', w') \<and>
     block_of objs' = (block_of objs)(x := None)"
proof -
  have x: "objs x = Some (U b)" using assms(2) by (simp add: unique_at_Some)
  obtain b' w' where r: "reset b w = (Inr (), b', w')" "sound w'" "data_ptr b' = nullptr" "del_fn b' = None"
    "outstanding w' = outstanding w - set_option (block_of objs x)"
    by (rule owned_reset [OF assms(1) x])
  have upd: "block_of (objs(x \<mapsto> U b')) = (block_of objs)(x := None)" using r by (simp add: block_of_upd)
  have "deleters_are give_back fits (objs(x \<mapsto> U b'))" using ownedD(2) [OF assms(1)] r by (intro deleters_intro) auto
  then have "owned S (objs(x \<mapsto> U b'), w')" by (rule owned_drop [OF assms(1) r(2,5) upd])
  then show ?thesis using assms(2) r upd by (simp add: reset_at_def)
qed

lemma owned_unique_destroy:
  assumes "owned S (objs, w)" "unique_at objs x = Some b"
  shows "\<exists>objs' w'. unique_destroy x objs w = (Inr (), objs', w') \<and> owned S (objs', w') \<and> objs' = objs(x := None)"
proof -
  have x: "objs x = Some (U b)" using assms(2) by (simp add: unique_at_Some)
  obtain b' w' where r: "reset b w = (Inr (), b', w')" "sound w'" "data_ptr b' = nullptr" "del_fn b' = None"
    "outstanding w' = outstanding w - set_option (block_of objs x)"
    by (rule owned_reset [OF assms(1) x])
  have "deleters_are give_back fits (objs(x := None))" using ownedD(2) [OF assms(1)] by (intro deleters_intro)
  then have "owned S (objs(x := None), w')" by (rule owned_drop [OF assms(1) r(2,5) block_of_del])
  then show ?thesis using assms(2) r by (simp add: unique_destroy_def)
qed

lemma owned_moved:
  assumes "owned S (objs, w)" "block_of objs x = None" "x \<noteq> y"
    "block_of objs' = (block_of objs)(x := block_of objs y, y := None)" "deleters_are give_back fits objs'"
  shows "owned S (objs', w)"
proof (rule ownedI)
  note o = ownedD [OF assms(1)]
  show "ran (block_of objs') = outstanding w - S" unfolding assms(4) using o(3) assms(2,3) by (simp add: ran_move)
  show "inj_on (block_of objs') (dom (block_of objs'))"
    unfolding assms(4) by (rule inj_move [OF assms(2,3) o(4)])
qed (use assms ownedD [OF assms(1)] in auto)

lemma owned_move_assign:
  assumes "owned S (objs, w)" "unique_at objs x = Some b" "unique_at objs y = Some c"
  shows "\<exists>objs' w'. move_assign x y objs w = (Inr (), objs', w') \<and> owned S (objs', w')"
proof (cases "x = y")
  case True
  then show ?thesis using assms by (simp add: move_assign_def)
next
  case False
  have x: "objs x = Some (U b)" "objs y = Some (U c)" using assms(2,3) by (simp_all add: unique_at_Some)
  obtain b' w' where r: "reset b w = (Inr (), b', w')" "sound w'" "data_ptr b' = nullptr" "del_fn b' = None"
    "outstanding w' = outstanding w - set_option (block_of objs x)"
    by (rule owned_reset [OF assms(1) x(1)])
  let ?mid = "objs(x \<mapsto> U b')"
  have upd: "block_of ?mid = (block_of objs)(x := None)" using r by (simp add: block_of_upd)
  have del: "deleters_are give_back fits ?mid" using ownedD(2) [OF assms(1)] r by (intro deleters_intro) auto
  have mid: "owned S (?mid, w')" by (rule owned_drop [OF assms(1) r(2,5) upd del])
  obtain this other where st: "steal_from c = (this, other)" by (cases "steal_from c") auto
  let ?objs = "objs(x \<mapsto> U this, y \<mapsto> U other)"
  have "block_of ?objs = (block_of ?mid)(x := block_of ?mid y, y := None)"
    using st x False by (auto simp: steal_from_def unique_raw_def block_of_simps)
  moreover have "deleters_are give_back fits ?objs"
    using st ownedD(2) [OF assms(1)] deleters_areD [OF ownedD(2) [OF assms(1)] x(2)]
    by (intro deleters_intro) (auto simp: steal_from_def unique_raw_def)
  ultimately have "owned S (?objs, w')"
    using False by (intro owned_moved [OF mid, where x = x and y = y]) (simp_all add: upd)
  then show ?thesis using assms False r st by (simp add: move_assign_def)
qed

lemma owned_step: "buf_step acquire st st' \<Longrightarrow> owned S st \<Longrightarrow> owned S st'"
proof (induction rule: buf_step.induct)
  case (Acquire objs x a w b w')
  then show ?case by (intro owned_acquire)
next
  case (Acquire_Throws a w e w' objs)
  note o = ownedD [OF Acquire_Throws(2)]
  show ?case by (rule ownedI) (use o acquire_throws [OF o(1) Acquire_Throws(1)] in simp_all)
next
  case (Move_Construct x y objs objs' w)
  note m = move_construct_block [OF Move_Construct(1)]
  show ?case by (rule owned_moved [OF Move_Construct(2), of x y])
    (use m move_construct_deleters [OF ownedD(2) [OF Move_Construct(2)] Move_Construct(1)] in auto)
next
  case (Move_Assign x y objs w u objs' w')
  then obtain b c where "unique_at objs x = Some b" "unique_at objs y = Some c"
    by (auto simp: move_assign_def split: option.splits)
  then show ?case using owned_move_assign [OF Move_Assign(2)] Move_Assign(1) by fastforce
next
  case (Reset x objs w u objs' w')
  then obtain b where "unique_at objs x = Some b" by (auto simp: reset_at_def split: option.splits)
  then show ?case using owned_reset_at [OF Reset(2)] Reset(1) by fastforce
next
  case (Destroy x objs w u objs' w')
  then obtain b where "unique_at objs x = Some b" by (auto simp: unique_destroy_def split: option.splits)
  then show ?case using owned_unique_destroy [OF Destroy(2)] Destroy(1) by fastforce
next
  case (Swap x y objs objs' w)
  note o = ownedD [OF Swap(2)]
  show ?case
    by (rule ownedI) (use o swap_at_block [OF Swap(1)] swap_at_deleters [OF o(2) Swap(1)] inj_swap [OF o(4)]
      in \<open>auto simp: ran_swap\<close>)
next
  case (Release x y objs objs' w)
  note m = release_at_block [OF Release(1)]
  show ?case by (rule owned_moved [OF Release(2), of x y])
    (use m release_at_deleters [OF ownedD(2) [OF Release(2)] Release(1)] in auto)
next
  case (Adopt x y objs objs' w)
  note m = adopt_at_block [OF Adopt(1)]
  show ?case by (rule owned_moved [OF Adopt(2), of x y])
    (use m adopt_at_deleters [OF ownedD(2) [OF Adopt(2)] Adopt(1)] in auto)
qed

lemma owned_run: "buf_run acquire st st' \<Longrightarrow> owned S st \<Longrightarrow> owned S st'"
  by (induction rule: rtranclp_induct) (auto intro: owned_step)

text \<open>When no object is alive, everything has been given back.\<close>

lemma owned_no_objects: "owned S (objs, w) \<Longrightarrow> (\<And>x. objs x = None) \<Longrightarrow> outstanding w \<subseteq> S"
  using ownedD(3) [of S objs w] by (auto simp: block_of_def ran_def)

lemma owned_unique_owner:
  assumes "owned S (objs, w)" "p \<in> outstanding w" "p \<notin> S"
  shows "\<exists>!x. block_of objs x = Some p"
proof -
  have "p \<in> ran (block_of objs)" using ownedD(3) [OF assms(1)] assms(2,3) by simp
  then obtain x where x: "block_of objs x = Some p" by (auto simp: ran_def)
  show ?thesis
  proof (rule ex1I [where a = x])
    show "block_of objs x = Some p" by (rule x)
  next
    fix y assume "block_of objs y = Some p"
    then show "y = x" using inj_onD [OF ownedD(4) [OF assms(1)], of y x] x by auto
  qed
qed

text \<open>An object hands its block over to the others, and the others hand one over to a new object or
  give it back.\<close>

lemma owned_lend:
  assumes "owned S (objs, w)" "block_of objs y = Some p" "block_of objs' = (block_of objs)(y := None)"
    "deleters_are give_back fits objs'"
  shows "owned (insert p S) (objs', w)" "p \<notin> S" "p \<in> outstanding w"
proof -
  note o = ownedD [OF assms(1)]
  have p: "p \<in> ran (block_of objs)" using assms(2) by (rule ranI)
  then show "p \<notin> S" "p \<in> outstanding w" using o(3) by auto
  then show "owned (insert p S) (objs', w)"
    using assms ran_drop [OF o(4) assms(2)] inj_drop [OF o(4), of y] o by (intro ownedI) auto
qed

lemma owned_borrow:
  assumes "owned (insert p S) (objs, w)" "p \<notin> S" "block_of objs x = None"
    "block_of objs' = (block_of objs)(x \<mapsto> p)" "deleters_are give_back fits objs'"
  shows "owned S (objs', w)"
proof -
  note o = ownedD [OF assms(1)]
  have "p \<notin> ran (block_of objs)" using o(3) by auto
  then have "inj_on ((block_of objs)(x \<mapsto> p)) (dom ((block_of objs)(x \<mapsto> p)))" by (rule inj_add [OF o(4)])
  moreover have "ran ((block_of objs)(x \<mapsto> p)) = outstanding w - S" using o(3,5) assms(2,3) by auto
  ultimately show ?thesis using assms o by (intro ownedI) auto
qed

lemma owned_give_back:
  assumes "owned (insert p S) (objs, w)" "p \<notin> S"
  shows "\<exists>w'. give_back p w = (Inr (), w') \<and> owned S (objs, w') \<and> outstanding w' = outstanding w - {p}"
proof -
  note o = ownedD [OF assms(1)]
  obtain w' where w': "give_back p w = (Inr (), w')" "sound w'" "outstanding w' = outstanding w - {p}"
    using give_back_ok [OF o(1), of p] o(5) by auto
  have "owned S (objs, w')" by (rule ownedI) (use o w' assms(2) in auto)
  then show ?thesis using w' by blast
qed

end

end
