(* ===== verification/Mem_Pool.thy ===== *)
theory Mem_Pool
  imports Buffers
begin

text \<open>
  Two places a \<open>unique_buffer\<close> gets its memory from: the heap, through its self-allocating
  constructor (\<open>smart_buffers/unique_buffer.hpp\<close>), and a \<open>MemPool\<close> (\<open>mempool/MemPool.hpp\<close>).  Both are
  shown to be block providers, so that the ownership results of \<open>Buffers\<close> hold of either.
\<close>

section \<open>The heap\<close>

text \<open>
  The heap is the list of arrays that are live.  \<open>new T[n]\<close> yields the lowest address, in steps of
  the 16 bytes \<open>operator new\<close> aligns to, that no live array has, and fails when the size in bytes
  does not fit \<open>size_t\<close> or the addresses are used up; \<open>delete[]\<close> of anything but a live array has no
  meaning.
\<close>

type_synonym heap = "addr list"

fun probe :: "nat \<Rightarrow> heap \<Rightarrow> addr \<Rightarrow> addr option" where
  "probe 0 h a = None"
| "probe (Suc n) h a = (if a = nullptr \<or> a \<in> set h then probe n h (a + 16) else Some a)"

definition new_array :: "size_t \<Rightarrow> size_t \<Rightarrow> heap \<Rightarrow> addr result \<times> heap" where
  "new_array sizeT n h =
     (if unat n * unat sizeT \<ge> 2 ^ 63 then (Inl (Exn Bad_Alloc), h)
      else case probe (length h + 2) h 16 of
        None \<Rightarrow> (Inl (Exn Bad_Alloc), h)
      | Some a \<Rightarrow> (Inr a, a # h))"

definition delete_array :: "addr \<Rightarrow> heap \<Rightarrow> unit result \<times> heap" where
  "delete_array p h = (if p \<in> set h then (Inr (), remove1 p h) else (Inl UB, h))"

definition unique_alloc ::
  "size_t \<Rightarrow> size_t \<times> MemoryLocation \<Rightarrow> heap \<Rightarrow> heap unique_buffer result \<times> heap" where
  "unique_alloc sizeT = (\<lambda>(n, loc) h.
     (case new_array sizeT n h of
        (Inl e, h) \<Rightarrow> (Inl e, h)
      | (Inr p, h) \<Rightarrow> (Inr (unique_raw p n (Some delete_array) loc), h)))"

definition heap_sound :: "heap \<Rightarrow> bool" where
  "heap_sound h \<longleftrightarrow> distinct h \<and> nullptr \<notin> set h"

lemma probe_fresh: "probe n h a = Some p \<Longrightarrow> p \<noteq> nullptr \<and> p \<notin> set h"
  by (induction n h a rule: probe.induct) (auto split: if_splits)

lemma unique_alloc_ok:
  "unique_alloc sizeT a h = (Inr b, h') \<Longrightarrow>
     data_ptr b \<noteq> nullptr \<and> data_ptr b \<notin> set h \<and> h' = data_ptr b # h \<and> del_fn b = Some delete_array \<and>
     elem_count b = fst a \<and> mem_location b = snd a"
  by (cases a) (auto simp: unique_alloc_def new_array_def unique_raw_def dest: probe_fresh split: if_splits option.splits)

lemma unique_alloc_throws: "unique_alloc sizeT a h = (Inl e, h') \<Longrightarrow> e = Exn Bad_Alloc \<and> h' = h"
  by (cases a) (auto simp: unique_alloc_def new_array_def split: if_splits option.splits)

interpretation heap: block_provider "unique_alloc sizeT" delete_array heap_sound set "\<lambda>_. True" for sizeT
proof unfold_locales
  fix h h' :: heap and a b
  assume "heap_sound h" "unique_alloc sizeT a h = (Inr b, h')"
  then show "heap_sound h' \<and> data_ptr b \<noteq> nullptr \<and> del_fn b = Some delete_array \<and> True \<and>
      data_ptr b \<notin> set h \<and> set h' = insert (data_ptr b) (set h)"
    using unique_alloc_ok [of sizeT a h b h'] by (auto simp: heap_sound_def)
next
  fix h h' :: heap and a e
  assume "heap_sound h" "unique_alloc sizeT a h = (Inl e, h')"
  then show "heap_sound h' \<and> set h' = set h" using unique_alloc_throws [of sizeT a h e h'] by simp
next
  fix h :: heap and p
  assume "heap_sound h" "p \<in> set h"
  then show "\<exists>h'. delete_array p h = (Inr (), h') \<and> heap_sound h' \<and> set h' = set h - {p}"
    by (auto simp: delete_array_def heap_sound_def set_remove1_eq)
qed

section \<open>The pool\<close>

text \<open>
  \<open>storage\<close> is where the vector \<open>data_\<close> keeps its \<open>storage_len\<close> elements, each \<open>elem_bytes\<close> long
  (\<open>sizeof(T)\<close>); \<open>mtx_held\<close> is whether the mutex is taken.  \<open>std::vector::resize\<close> is a parameter: where
  it puts a given number of elements, or that it throws.
\<close>

record pool =
  block_size :: size_t
  block_count :: size_t
  pool_location :: MemoryLocation
  elem_bytes :: size_t
  storage :: addr
  storage_len :: size_t
  free_blocks :: "addr list"
  mtx_held :: bool

text \<open>The loop of the constructor from index \<open>i\<close> on: \<open>&data_[i * block_size_]\<close> of an index outside the vector has
  no meaning.\<close>

function (sequential) push_blocks :: "nat \<Rightarrow> pool \<Rightarrow> pool result" where
  "push_blocks i p =
     (if i < unat (block_count p) then
        if of_nat i * block_size p < storage_len p then
          push_blocks (Suc i)
            (p\<lparr>free_blocks := free_blocks p @ [storage p + of_nat i * block_size p * elem_bytes p]\<rparr>)
        else Inl UB
      else Inr p)"
  by pat_completeness auto
termination by (relation "measure (\<lambda>(i, p). unat (block_count p) - i)") auto

declare push_blocks.simps [simp del]

definition mempool_new ::
  "(size_t \<Rightarrow> addr option) \<Rightarrow> size_t \<Rightarrow> size_t \<Rightarrow> size_t \<Rightarrow> MemoryLocation \<Rightarrow> pool result" where
  "mempool_new resize sizeT bs bc loc =
     (if bs = 0 \<or> bc = 0 then
        Inl (Exn (Invalid_Argument ''allocation_size and allocation_count must be > 0''))
      else case resize (bs * bc) of
        None \<Rightarrow> Inl (Exn Bad_Alloc)
      | Some base \<Rightarrow>
          push_blocks 0 \<lparr>block_size = bs, block_count = bc, pool_location = loc, elem_bytes = sizeT,
            storage = base, storage_len = bs * bc, free_blocks = [], mtx_held = False\<rparr>)"

definition pool_lock :: "(pool \<Rightarrow> 'a result \<times> pool) \<Rightarrow> pool \<Rightarrow> 'a result \<times> pool" where
  "pool_lock = lock_guard mtx_held (\<lambda>b p. p\<lparr>mtx_held := b\<rparr>)"

definition release_block :: "pool deleter" where
  "release_block p = pool_lock (\<lambda>s. (Inr (), s\<lparr>free_blocks := free_blocks s @ [p]\<rparr>))"

definition allocate :: "pool \<Rightarrow> pool unique_buffer result \<times> pool" where
  "allocate = pool_lock (\<lambda>s.
     case free_blocks s of
       [] \<Rightarrow> (Inl (Exn (Runtime_Error ''MemPool: out of buffers'')), s)
     | ptr # rest \<Rightarrow>
         (Inr (unique_raw ptr (block_size s) (Some release_block) (pool_location s)), s\<lparr>free_blocks := rest\<rparr>))"

definition pool_block_size :: "pool \<Rightarrow> size_t" where "pool_block_size p = block_size p"

definition capacity :: "pool \<Rightarrow> size_t" where "capacity p = block_count p"

definition available :: "pool \<Rightarrow> size_t result \<times> pool" where
  "available = pool_lock (\<lambda>s. (Inr (of_nat (length (free_blocks s))), s))"

text \<open>The blocks of a pool, and what holds of it between calls.\<close>

definition block_at :: "pool \<Rightarrow> nat \<Rightarrow> addr" where
  "block_at p i = storage p + of_nat i * block_size p * elem_bytes p"

definition blocks :: "pool \<Rightarrow> addr list" where
  "blocks p = map (block_at p) [0..<unat (block_count p)]"

definition pool_sound :: "pool \<Rightarrow> bool" where
  "pool_sound p \<longleftrightarrow> \<not> mtx_held p \<and> distinct (blocks p) \<and> nullptr \<notin> set (blocks p) \<and>
     distinct (free_blocks p) \<and> set (free_blocks p) \<subseteq> set (blocks p)"

definition handed_out :: "pool \<Rightarrow> addr set" where
  "handed_out p = set (blocks p) - set (free_blocks p)"

lemma blocks_upd [simp]: "blocks (p\<lparr>free_blocks := f\<rparr>) = blocks p" "blocks (p\<lparr>mtx_held := b\<rparr>) = blocks p"
  by (simp_all add: blocks_def block_at_def cong: map_cong)

lemma allocate_cases:
  assumes "\<not> mtx_held p"
  shows "allocate p =
     (case free_blocks p of
        [] \<Rightarrow> (Inl (Exn (Runtime_Error ''MemPool: out of buffers'')), p)
      | q # rest \<Rightarrow> (Inr (unique_raw q (block_size p) (Some release_block) (pool_location p)), p\<lparr>free_blocks := rest\<rparr>))"
  using assms by (auto simp: allocate_def pool_lock_def lock_guard_def split: list.split)

lemma release_block_free:
  "\<not> mtx_held p \<Longrightarrow> release_block q p = (Inr (), p\<lparr>free_blocks := free_blocks p @ [q]\<rparr>)"
  by (simp add: release_block_def pool_lock_def lock_guard_def)

text \<open>No call changes which blocks a pool has: \<open>B\<close>.\<close>

definition pool_over :: "addr list \<Rightarrow> pool \<Rightarrow> bool" where
  "pool_over B p \<longleftrightarrow> pool_sound p \<and> blocks p = B \<and> block_size p \<noteq> 0"

interpretation pool: block_provider "\<lambda>_ :: unit. allocate" release_block "pool_over B" handed_out "\<lambda>n. n \<noteq> 0" for B
proof unfold_locales
  fix p p' :: pool and b and a :: unit
  assume p: "pool_over B p" and al: "allocate p = (Inr b, p')"
  then obtain q rest where fr: "free_blocks p = q # rest" "p' = p\<lparr>free_blocks := rest\<rparr>"
    "b = unique_raw q (block_size p) (Some release_block) (pool_location p)"
    by (auto simp: pool_over_def pool_sound_def allocate_cases split: list.splits)
  then show "pool_over B p' \<and> data_ptr b \<noteq> nullptr \<and> del_fn b = Some release_block \<and> elem_count b \<noteq> 0 \<and>
      data_ptr b \<notin> handed_out p \<and> handed_out p' = insert (data_ptr b) (handed_out p)"
    using p by (auto simp: pool_over_def pool_sound_def handed_out_def unique_raw_def)
next
  fix p p' :: pool and e and a :: unit
  assume "pool_over B p" "allocate p = (Inl e, p')"
  then show "pool_over B p' \<and> handed_out p' = handed_out p"
    by (auto simp: pool_over_def pool_sound_def allocate_cases split: list.splits)
next
  fix p :: pool and q
  assume "pool_over B p" "q \<in> handed_out p"
  then show "\<exists>p'. release_block q p = (Inr (), p') \<and> pool_over B p' \<and> handed_out p' = handed_out p - {q}"
    by (auto simp: pool_over_def pool_sound_def handed_out_def release_block_free)
qed

section \<open>What the constructor builds\<close>

lemma push_blocks_all:
  "(\<And>j. i \<le> j \<Longrightarrow> j < unat (block_count p) \<Longrightarrow> of_nat j * block_size p < storage_len p) \<Longrightarrow>
   push_blocks i p = Inr (p\<lparr>free_blocks := free_blocks p @ map (block_at p) [i..<unat (block_count p)]\<rparr>)"
proof (induction i p rule: push_blocks.induct)
  case (1 i p)
  show ?case
  proof (cases "i < unat (block_count p)")
    case False
    then show ?thesis by (simp add: push_blocks.simps)
  next
    case True
    let ?p = "p\<lparr>free_blocks := free_blocks p @ [storage p + of_nat i * block_size p * elem_bytes p]\<rparr>"
    have at: "block_at ?p = block_at p" by (simp add: block_at_def fun_eq_iff)
    have i: "of_nat i * block_size p < storage_len p" using 1(2) True by simp
    have "push_blocks (Suc i) ?p = Inr (?p\<lparr>free_blocks := free_blocks ?p @ map (block_at ?p) [Suc i..<unat (block_count ?p)]\<rparr>)"
      by (rule 1(1) [OF True i]) (use 1(2) in simp)
    then show ?thesis unfolding at using True i
      by (simp add: push_blocks.simps [of i p] upt_rec [of i] block_at_def)
  qed
qed

lemma push_blocks_UB:
  "i \<le> k \<Longrightarrow> k < unat (block_count p) \<Longrightarrow> \<not> of_nat k * block_size p < storage_len p \<Longrightarrow> push_blocks i p = Inl UB"
proof (induction i p rule: push_blocks.induct)
  case (1 i p)
  show ?case
  proof (cases "of_nat i * block_size p < storage_len p")
    case True
    then have "i \<noteq> k" using 1(4) by auto
    then show ?thesis using 1 True by (simp add: push_blocks.simps [of i p])
  qed (use 1 in \<open>simp add: push_blocks.simps [of i p]\<close>)
qed

text \<open>What the code relies on \<open>resize\<close> for: the elements lie inside the address space, not at the null
  pointer.\<close>

definition resize_ok :: "size_t \<Rightarrow> (size_t \<Rightarrow> addr option) \<Rightarrow> bool" where
  "resize_ok sizeT resize \<longleftrightarrow>
     (\<forall>n base. resize n = Some base \<longrightarrow> base \<noteq> nullptr \<and> unat base + unat n * unat sizeT < 2 ^ 64)"

lemma mult_lt_total:
  fixes i :: nat
  assumes "i < bc" "0 < bs"
  shows "i * bs + bs \<le> bs * bc"
proof -
  have "Suc i * bs \<le> bc * bs" using assms by (intro mult_le_mono1) simp
  then show ?thesis by (simp add: mult.commute)
qed

lemma mempool_new_Inr:
  assumes bs: "bs \<noteq> 0" "bc \<noteq> 0" and no: "unat bs * unat bc < 2 ^ 64" and base: "resize (bs * bc) = Some base"
  shows "\<exists>p. mempool_new resize sizeT bs bc loc = Inr p \<and> free_blocks p = blocks p \<and> block_size p = bs \<and>
     block_count p = bc \<and> pool_location p = loc \<and> elem_bytes p = sizeT \<and> storage p = base \<and>
     storage_len p = bs * bc \<and> \<not> mtx_held p"
proof -
  let ?p = "\<lparr>block_size = bs, block_count = bc, pool_location = loc, elem_bytes = sizeT,
    storage = base, storage_len = bs * bc, free_blocks = [], mtx_held = False\<rparr>"
  have pos: "0 < unat bs" "0 < unat bc" using bs by (simp_all add: unat_gt_0)
  have "push_blocks 0 ?p = Inr (?p\<lparr>free_blocks := free_blocks ?p @ map (block_at ?p) [0..<unat (block_count ?p)]\<rparr>)"
  proof (rule push_blocks_all)
    fix j assume "j < unat (block_count ?p)"
    then have j: "j * unat bs + unat bs \<le> unat bs * unat bc" using pos by (intro mult_lt_total) simp_all
    have "unat (of_nat j :: size_t) = j"
      using \<open>j < unat (block_count ?p)\<close> unat_below_2p [of bc] by (intro unat_of_nat_small) simp
    then have "unat (of_nat j * bs) = j * unat bs" using j no pos by (simp add: unat_mult_small)
    moreover have "unat (bs * bc) = unat bs * unat bc" using no by (simp add: unat_mult_small)
    ultimately show "of_nat j * block_size ?p < storage_len ?p"
      using \<open>j < unat (block_count ?p)\<close> pos by (simp add: word_less_nat_alt)
  qed
  then show ?thesis using bs base by (simp add: mempool_new_def blocks_def block_at_def)
qed

text \<open>Without overflow, block \<open>i\<close> starts \<open>i * block_size * sizeof(T)\<close> bytes into the storage.\<close>

lemma block_at_unat:
  assumes "unat (block_size p) * unat (block_count p) < 2 ^ 64" "0 < unat (block_size p)" "i < unat (block_count p)"
    "unat (storage p) + unat (block_size p) * unat (block_count p) * unat (elem_bytes p) < 2 ^ 64"
  shows "unat (block_at p i) = unat (storage p) + i * unat (block_size p) * unat (elem_bytes p)"
proof -
  have i: "i * unat (block_size p) + unat (block_size p) \<le> unat (block_size p) * unat (block_count p)"
    by (rule mult_lt_total [OF assms(3,2)])
  have "i * unat (block_size p) * unat (elem_bytes p) \<le> unat (block_size p) * unat (block_count p) * unat (elem_bytes p)"
    by (rule mult_le_mono1) (use i in linarith)
  then have b: "i * unat (block_size p) * unat (elem_bytes p) + unat (storage p) < 2 ^ 64"
    using assms(4) by linarith
  have "unat (of_nat i :: size_t) = i" using assms(3) unat_below_2p [of "block_count p"] by (intro unat_of_nat_small) simp
  then have "unat (of_nat i * block_size p) = i * unat (block_size p)" using i assms(1,2) by (simp add: unat_mult_small)
  then have "unat (of_nat i * block_size p * elem_bytes p) = i * unat (block_size p) * unat (elem_bytes p)"
    using b by (simp add: unat_mult_small)
  then show ?thesis using b by (simp add: block_at_def unat_add_small)
qed

lemma new_pool_sound:
  assumes "mempool_new resize sizeT bs bc loc = Inr p" "resize_ok sizeT resize" "sizeT \<noteq> 0" "unat bs * unat bc < 2 ^ 64"
  shows "pool_sound p \<and> handed_out p = {} \<and> free_blocks p = blocks p \<and> block_size p \<noteq> 0"
proof -
  have nz: "bs \<noteq> 0" "bc \<noteq> 0" using assms(1) by (auto simp: mempool_new_def split: if_splits)
  then obtain base where base: "resize (bs * bc) = Some base"
    using assms(1) by (auto simp: mempool_new_def split: option.splits)
  obtain p' where p': "mempool_new resize sizeT bs bc loc = Inr p'" "free_blocks p' = blocks p'" "block_size p' = bs"
     "block_count p' = bc" "elem_bytes p' = sizeT" "storage p' = base" "\<not> mtx_held p'"
    using mempool_new_Inr [where resize = resize and sizeT = sizeT and loc = loc, OF nz assms(4) base] by blast
  have p: "p' = p" using p'(1) assms(1) by simp
  have total: "unat (bs * bc) = unat bs * unat bc" using assms(4) by (simp add: unat_mult_small)
  have "base \<noteq> nullptr" "unat base + unat (bs * bc) * unat sizeT < 2 ^ 64"
    using assms(2) base unfolding resize_ok_def by blast+
  then have bound: "unat (storage p) + unat (block_size p) * unat (block_count p) * unat (elem_bytes p) < 2 ^ 64"
    and base0: "0 < unat (storage p)"
    using p' unfolding p total by (simp_all add: unat_gt_0)
  have at: "unat (block_at p i) = unat (storage p) + i * unat (block_size p) * unat (elem_bytes p)" if "i < unat (block_count p)" for i
    by (rule block_at_unat) (use p' nz assms(4) that bound in \<open>simp_all add: p unat_gt_0\<close>)
  have "inj_on (block_at p) {0..<unat (block_count p)}"
  proof (rule inj_onI)
    fix i j assume ij: "i \<in> {0..<unat (block_count p)}" "j \<in> {0..<unat (block_count p)}" "block_at p i = block_at p j"
    then have "i * unat (block_size p) * unat (elem_bytes p) = j * unat (block_size p) * unat (elem_bytes p)"
      using at [of i] at [of j] by auto
    moreover have "unat (block_size p) \<noteq> 0" "unat (elem_bytes p) \<noteq> 0"
      using nz assms(3) p' unfolding p by (simp_all add: unsigned_eq_0_iff)
    ultimately show "i = j" by auto
  qed
  then have "distinct (blocks p)" by (simp add: blocks_def distinct_map)
  moreover have "nullptr \<notin> set (blocks p)"
  proof
    assume "nullptr \<in> set (blocks p)"
    then obtain i where "i < unat (block_count p)" "block_at p i = 0" by (auto simp: blocks_def)
    then show False using at [of i] base0 by simp
  qed
  ultimately show ?thesis using p' nz unfolding p by (simp add: pool_sound_def handed_out_def)
qed

section \<open>Properties\<close>

lemma card_outstanding: "inj_on pm (dom pm) \<Longrightarrow> card (dom pm) = card (ran pm)"
proof -
  assume inj: "inj_on pm (dom pm)"
  have "inj_on (\<lambda>x. the (pm x)) (dom pm)"
  proof (rule inj_onI)
    fix x y assume "x \<in> dom pm" "y \<in> dom pm" "the (pm x) = the (pm y)"
    then have "pm x = pm y" by auto
    then show "x = y" using inj \<open>x \<in> dom pm\<close> \<open>y \<in> dom pm\<close> by (simp add: inj_onD)
  qed
  then have "card ((\<lambda>x. the (pm x)) ` dom pm) = card (dom pm)" by (rule card_image)
  moreover have "(\<lambda>x. the (pm x)) ` dom pm = ran pm" by (force simp: ran_def)
  ultimately show ?thesis by simp
qed

lemma pool_free_count:
  assumes "pool.owned B {} (objs, p)"
  shows "length (free_blocks p) + card (dom (block_of objs)) = length B"
proof -
  note o = pool.ownedD [OF assms]
  have p: "pool_sound p" "blocks p = B" using o(1) by (simp_all add: pool_over_def)
  then have sub: "set (free_blocks p) \<subseteq> set B" and dist: "distinct (free_blocks p)" "distinct B"
    by (auto simp: pool_sound_def)
  have "card (dom (block_of objs)) = card (set B - set (free_blocks p))"
    using card_outstanding [OF o(4)] o(3) p(2) by (simp add: handed_out_def)
  also have "\<dots> = card (set B) - card (set (free_blocks p))" using sub by (intro card_Diff_subset) auto
  moreover have "card (set (free_blocks p)) \<le> card (set B)" by (rule card_mono [OF _ sub]) simp
  ultimately show ?thesis using dist by (simp add: distinct_card)
qed

lemma pool_run_owned:
  assumes "mempool_new resize sizeT bs bc loc = Inr p0" "resize_ok sizeT resize" "sizeT \<noteq> 0" "unat bs * unat bc < 2 ^ 64"
    "buf_run (\<lambda>_ :: unit. allocate) (\<lambda>_. None, p0) (objs, p)"
  shows "pool.owned (blocks p0) {} (objs, p)"
proof -
  have "pool_sound p0" "handed_out p0 = {}" "block_size p0 \<noteq> 0" using new_pool_sound [OF assms(1-4)] by auto
  then have "pool.owned (blocks p0) {} (\<lambda>_. None, p0)"
    by (intro pool.owned_start) (simp_all add: pool_over_def)
  then show ?thesis by (rule pool.owned_run [OF assms(5)])
qed

text \<open>C11. However a program allocates from a pool, moves, swaps, resets, releases, adopts and destroys
  the buffers: no block is twice in the free list, every block of the pool is either free or owned by
  exactly one object, and the free blocks and the owning objects add up to the capacity (so nothing
  is lost or freed twice).\<close>

theorem pool_blocks_accounted:
  assumes "mempool_new resize sizeT bs bc loc = Inr p0" "resize_ok sizeT resize" "sizeT \<noteq> 0" "unat bs * unat bc < 2 ^ 64"
    "buf_run (\<lambda>_ :: unit. allocate) (\<lambda>_. None, p0) (objs, p)"
  shows "distinct (free_blocks p) \<and> set (free_blocks p) \<union> ran (block_of objs) = set (blocks p0) \<and>
    (\<forall>q \<in> set (free_blocks p). \<forall>x. block_of objs x \<noteq> Some q) \<and>
    (\<forall>q \<in> ran (block_of objs). \<exists>!x. block_of objs x = Some q) \<and>
    length (free_blocks p) + card (dom (block_of objs)) = unat (block_count p0)"
proof -
  have own: "pool.owned (blocks p0) {} (objs, p)" by (rule pool_run_owned [OF assms])
  note o = pool.ownedD [OF own]
  have p: "pool_sound p" "blocks p = blocks p0" using o(1) by (simp_all add: pool_over_def)
  then have sub: "set (free_blocks p) \<subseteq> set (blocks p0)" and dist: "distinct (free_blocks p)"
    by (auto simp: pool_sound_def)
  have ran: "ran (block_of objs) = set (blocks p0) - set (free_blocks p)" using o(3) p(2) by (simp add: handed_out_def)
  have one: "\<forall>q \<in> ran (block_of objs). \<exists>!x. block_of objs x = Some q"
    using pool.owned_unique_owner [OF own] o(3) by simp
  have none: "\<forall>q \<in> set (free_blocks p). \<forall>x. block_of objs x \<noteq> Some q"
    using ran by (auto simp: ran_def)
  have "length (blocks p0) = unat (block_count p0)" by (simp add: blocks_def)
  then show ?thesis using pool_free_count [OF own] sub dist ran one none by auto
qed

text \<open>In every such state \<open>allocate\<close> throws \<open>out of buffers\<close> exactly when as many buffers own a
  block as the pool has blocks, and then changes nothing; otherwise it hands out a buffer of
  \<open>block_size\<close> elements over a block no object owns, and the pool stays unlocked.\<close>

theorem pool_allocate_spec:
  assumes "mempool_new resize sizeT bs bc loc = Inr p0" "resize_ok sizeT resize" "sizeT \<noteq> 0" "unat bs * unat bc < 2 ^ 64"
    "buf_run (\<lambda>_ :: unit. allocate) (\<lambda>_. None, p0) (objs, p)"
  shows "if card (dom (block_of objs)) = unat (block_count p0)
    then allocate p = (Inl (Exn (Runtime_Error ''MemPool: out of buffers'')), p)
    else \<exists>q p'. allocate p = (Inr (unique_raw q (block_size p) (Some release_block) (pool_location p)), p') \<and>
      q \<in> set (blocks p0) \<and> q \<notin> ran (block_of objs) \<and> \<not> mtx_held p' \<and>
      length (free_blocks p') + 1 = length (free_blocks p)"
proof -
  have own: "pool.owned (blocks p0) {} (objs, p)" by (rule pool_run_owned [OF assms])
  note o = pool.ownedD [OF own]
  have p: "pool_sound p" "blocks p = blocks p0" using o(1) by (simp_all add: pool_over_def)
  have ran: "ran (block_of objs) = set (blocks p0) - set (free_blocks p)" using o(3) p(2) by (simp add: handed_out_def)
  have "length (blocks p0) = unat (block_count p0)" by (simp add: blocks_def)
  then have count: "length (free_blocks p) + card (dom (block_of objs)) = unat (block_count p0)"
    using pool_free_count [OF own] by simp
  show ?thesis
  proof (cases "free_blocks p")
    case Nil
    then show ?thesis using count p by (simp add: allocate_cases pool_sound_def)
  next
    case (Cons q rest)
    then show ?thesis using count p ran by (auto simp: allocate_cases pool_sound_def)
  qed
qed

text \<open>When \<open>block_size * block_count\<close> fits \<open>size_t\<close>, the blocks a new pool hands out, in the order of
  its free list, lie one after the other inside the storage of the vector, none overlapping the next,
  each \<open>block_size\<close> elements long; all are free.\<close>

theorem new_pool_blocks_disjoint:
  assumes "mempool_new resize sizeT bs bc loc = Inr p" "resize_ok sizeT resize" "unat bs * unat bc < 2 ^ 64"
  shows "length (free_blocks p) = unat bc \<and> available p = (Inr bc, p) \<and>
    (\<forall>i j. i < j \<longrightarrow> j < unat bc \<longrightarrow>
      unat (storage p) \<le> unat (free_blocks p ! i) \<and>
      unat (free_blocks p ! i) + unat bs * unat sizeT \<le> unat (free_blocks p ! j) \<and>
      unat (free_blocks p ! j) + unat bs * unat sizeT \<le> unat (storage p) + unat (storage_len p) * unat sizeT)"
proof -
  have nz: "bs \<noteq> 0" "bc \<noteq> 0" using assms(1) by (auto simp: mempool_new_def split: if_splits)
  then obtain base where base: "resize (bs * bc) = Some base"
    using assms(1) by (auto simp: mempool_new_def split: option.splits)
  obtain p' where p': "mempool_new resize sizeT bs bc loc = Inr p'" "free_blocks p' = blocks p'" "block_size p' = bs"
     "block_count p' = bc" "elem_bytes p' = sizeT" "storage p' = base" "storage_len p' = bs * bc" "\<not> mtx_held p'"
    using mempool_new_Inr [where resize = resize and sizeT = sizeT and loc = loc, OF nz assms(3) base] by blast
  have p: "p' = p" using p'(1) assms(1) by simp
  have total: "unat (bs * bc) = unat bs * unat bc" using assms(3) by (simp add: unat_mult_small)
  have "unat base + unat (bs * bc) * unat sizeT < 2 ^ 64" using assms(2) base unfolding resize_ok_def by blast
  then have bound: "unat (storage p) + unat (block_size p) * unat (block_count p) * unat (elem_bytes p) < 2 ^ 64"
    using p' unfolding p total by simp
  have len: "length (free_blocks p) = unat bc" using p' unfolding p by (simp add: blocks_def)
  have at: "unat (free_blocks p ! i) = unat (storage p) + i * unat bs * unat sizeT" if "i < unat bc" for i
  proof -
    have "unat (block_at p i) = unat (storage p) + i * unat (block_size p) * unat (elem_bytes p)"
      by (rule block_at_unat) (use p' nz assms(3) that bound in \<open>simp_all add: p unat_gt_0\<close>)
    then show ?thesis using p' that unfolding p by (simp add: blocks_def)
  qed
  have step: "i * unat bs * unat sizeT + unat bs * unat sizeT \<le> j * unat bs * unat sizeT" if "i < j" for i j
  proof -
    have "Suc i * (unat bs * unat sizeT) \<le> j * (unat bs * unat sizeT)" using that by (intro mult_le_mono1) simp
    then show ?thesis by (simp add: algebra_simps)
  qed
  have sl: "unat (storage_len p) = unat bs * unat bc" using p' unfolding p by (simp add: total)
  have fin: "j * unat bs * unat sizeT + unat bs * unat sizeT \<le> unat (storage_len p) * unat sizeT" if "j < unat bc" for j
    using step [OF that] by (simp add: sl algebra_simps)
  have av: "available p = (Inr bc, p)" using p' unfolding p
    by (simp add: available_def pool_lock_def lock_guard_def len blocks_def)
  show ?thesis
  proof (intro conjI allI impI len av)
    fix i j assume ij: "i < j" "j < unat bc"
    then have i: "i < unat bc" by simp
    show "unat (storage p) \<le> unat (free_blocks p ! i)" using at [OF i] by simp
    show "unat (free_blocks p ! i) + unat bs * unat sizeT \<le> unat (free_blocks p ! j)"
      using at [OF i] at [OF ij(2)] step [OF ij(1)] by simp
    show "unat (free_blocks p ! j) + unat bs * unat sizeT \<le> unat (storage p) + unat (storage_len p) * unat sizeT"
      using at [OF ij(2)] fin [OF ij(2)] by simp
  qed
qed

lemma overflow_index:
  assumes over: "2 ^ 64 \<le> unat bs * unat bc" and small: "unat (bs * bc) < 2 ^ 63"
  obtains k where "k < unat bc" "\<not> of_nat k * bs < (bs * bc :: size_t)"
proof -
  define L b where "L = unat (bs * bc)" and "b = unat bs"
  have b: "0 < b" "b < 2 ^ 64" using over unat_below_2p [of bs] by (auto simp: b_def intro: Suc_leI gr0I)
  show ?thesis
  proof (cases "b < 2 ^ 63")
    case False
    have "1 < unat bc"
    proof (rule ccontr)
      assume "\<not> 1 < unat bc"
      then have "b * unat bc \<le> b" by simp
      then show False using over b unfolding b_def by linarith
    qed
    moreover have "\<not> of_nat 1 * bs < bs * bc"
      using False small unfolding b_def by (simp add: word_less_nat_alt)
    ultimately show ?thesis by (rule that)
  next
    case True
    define k where "k = (L + b - 1) div b"
    have kb: "L \<le> k * b" "k * b < L + b"
      using b div_mult_mod_eq [of "L + b - 1" b] mod_less_divisor [OF b(1), of "L + b - 1"]
      unfolding k_def by linarith+
    have small_k: "k * b < 2 ^ 64" using kb(2) small True by (simp add: L_def)
    moreover have "2 ^ 64 \<le> unat bc * b" using over by (simp add: b_def mult.commute)
    ultimately have "k * b < unat bc * b" by linarith
    then have k: "k < unat bc" by simp
    then have "unat (of_nat k :: size_t) = k"
      using unat_below_2p [of bc] by (intro unat_of_nat_small) simp
    then have "unat (of_nat k * bs) = k * b" using small_k by (simp add: unat_mult_small b_def)
    then have "\<not> of_nat k * bs < bs * bc" using kb(1) unfolding L_def by (simp add: word_less_nat_alt)
    then show ?thesis by (rule that [OF k])
  qed
qed

text \<open>When \<open>block_size * block_count\<close> does not fit \<open>size_t\<close> the product wraps, and a constructor that
  does not throw indexes \<open>data_\<close> out of range: there is no such pool.  (\<open>resize\<close> throws above
  \<open>max_size\<close>, which is below \<open>2 ^ 63\<close>.)\<close>

theorem pool_size_overflow:
  assumes "2 ^ 64 \<le> unat bs * unat bc" "\<forall>n base. resize n = Some base \<longrightarrow> unat n < 2 ^ 63"
  shows "mempool_new resize sizeT bs bc loc \<in> {Inl UB, Inl (Exn Bad_Alloc)}"
proof -
  have nz: "bs \<noteq> 0" "bc \<noteq> 0" using assms(1) by auto
  show ?thesis
  proof (cases "resize (bs * bc)")
    case None
    then show ?thesis using nz by (simp add: mempool_new_def)
  next
    case (Some base)
    let ?p = "\<lparr>block_size = bs, block_count = bc, pool_location = loc, elem_bytes = sizeT,
      storage = base, storage_len = bs * bc, free_blocks = [], mtx_held = False\<rparr>"
    have "unat (bs * bc) < 2 ^ 63" using assms(2) Some by auto
    then obtain k where k: "k < unat bc" "\<not> of_nat k * bs < bs * bc" by (rule overflow_index [OF assms(1)])
    have "push_blocks 0 ?p = Inl UB" by (rule push_blocks_UB [of 0 k]) (use k in simp_all)
    then show ?thesis using nz Some by (simp add: mempool_new_def)
  qed
qed

text \<open>C24. However a program moves, swaps, resets, releases, adopts and destroys buffers it allocated with
  the self-allocating constructor: the live arrays are exactly those some object owns, each owned by
  one object, so no array leaks; and resetting, assigning over or destroying a buffer never deletes
  an array twice.\<close>

theorem unique_buffers_own_the_heap:
  assumes "buf_run (unique_alloc sizeT) (\<lambda>_. None, []) (objs, h)"
  shows "distinct h \<and> set h = ran (block_of objs) \<and> (\<forall>q \<in> set h. \<exists>!x. block_of objs x = Some q) \<and>
    (\<forall>x y b c. unique_at objs x = Some b \<longrightarrow> unique_at objs y = Some c \<longrightarrow>
       fst (reset_at x objs h) = Inr () \<and> fst (unique_destroy x objs h) = Inr () \<and> fst (move_assign x y objs h) = Inr ())"
proof -
  have own: "heap.owned {} (objs, h)"
    by (rule heap.owned_run [OF assms heap.owned_start]) (simp_all add: heap_sound_def)
  note o = heap.ownedD [OF own]
  have ops: "fst (reset_at x objs h) = Inr () \<and> fst (unique_destroy x objs h) = Inr () \<and> fst (move_assign x y objs h) = Inr ()"
    if "unique_at objs x = Some b" "unique_at objs y = Some c" for x y b c
    using heap.owned_reset_at [OF own that(1)] heap.owned_unique_destroy [OF own that(1)]
      heap.owned_move_assign [OF own that] by fastforce
  show ?thesis using o heap.owned_unique_owner [OF own] ops by (simp add: heap_sound_def)
qed

section \<open>Concrete inputs\<close>

definition sample_resize :: "size_t \<Rightarrow> addr option" where
  "sample_resize n = (if n \<le> 64 then Some 4096 else None)"

definition sample_pool :: pool where
  "sample_pool = \<lparr>block_size = 2, block_count = 3, pool_location = Device, elem_bytes = 4, storage = 4096,
     storage_len = 6, free_blocks = [4096, 4104, 4112], mtx_held = False\<rparr>"

lemma sample_resize_ok: "resize_ok 4 sample_resize"
  by (auto simp: resize_ok_def sample_resize_def word_le_nat_alt split: if_splits)

lemma sample_new: "mempool_new sample_resize 4 2 3 Device = Inr sample_pool"
  by (simp add: mempool_new_def sample_resize_def push_blocks.simps sample_pool_def)

lemma sample_at: "block_size sample_pool = 2" "block_count sample_pool = 3" "pool_location sample_pool = Device"
  "length (free_blocks sample_pool) = 3"
  by (simp_all add: sample_pool_def)

text \<open>Variable 0 takes a buffer, which is then moved to variable 1.\<close>

lemma sample_run:
  "\<exists>objs p. buf_run (\<lambda>_ :: unit. allocate) (\<lambda>_ :: nat. None, sample_pool) (objs, p) \<and>
     block_of objs 1 = Some 4096 \<and> free_blocks p = [4104, 4112]"
proof -
  let ?b = "unique_raw 4096 2 (Some release_block) Device"
  let ?p = "sample_pool\<lparr>free_blocks := [4104, 4112]\<rparr>"
  let ?o1 = "(\<lambda>_ :: nat. None)(0 \<mapsto> U ?b)"
  let ?o2 = "?o1(1 \<mapsto> U ?b, 0 \<mapsto> U empty_unique)"
  have "buf_step (\<lambda>_ :: unit. allocate) (\<lambda>_ :: nat. None, sample_pool) (?o1, ?p)"
    by (rule Acquire) (simp_all add: allocate_cases sample_pool_def)
  moreover have "buf_step (\<lambda>_ :: unit. allocate) (?o1, ?p) (?o2, ?p)"
    by (rule Move_Construct [of 1 0])
      (simp add: move_construct_def unique_at_def steal_from_def unique_raw_def empty_unique_def)
  ultimately have "buf_run (\<lambda>_ :: unit. allocate) (\<lambda>_ :: nat. None, sample_pool) (?o2, ?p)" by simp
  moreover have "block_of ?o2 1 = Some 4096" by (simp add: block_of_def unique_raw_def)
  moreover have "free_blocks ?p = [4104, 4112]" by simp
  ultimately show ?thesis by blast
qed

theorem pool_blocks_accounted_witness:
  "\<exists>objs p. buf_run (\<lambda>_ :: unit. allocate) (\<lambda>_ :: nat. None, sample_pool) (objs, p) \<and> block_of objs 1 = Some 4096 \<and>
     length (free_blocks p) + card (dom (block_of objs)) = 3"
proof -
  obtain objs p where r: "buf_run (\<lambda>_ :: unit. allocate) (\<lambda>_ :: nat. None, sample_pool) (objs, p)" "block_of objs 1 = Some 4096"
    using sample_run by blast
  have "length (free_blocks p) + card (dom (block_of objs)) = unat (block_count sample_pool)"
    using pool_blocks_accounted [OF sample_new sample_resize_ok _ _ r(1)] by simp
  then show ?thesis using r by (intro exI conjI) (simp_all add: sample_pool_def)
qed

theorem pool_allocate_spec_witness:
  "\<exists>q p'. allocate sample_pool = (Inr (unique_raw q 2 (Some release_block) Device), p') \<and> length (free_blocks p') = 2"
proof -
  show ?thesis
    using pool_allocate_spec [OF sample_new sample_resize_ok _ _ rtranclp.rtrancl_refl [of _ "(\<lambda>_ :: nat. None, sample_pool)"]]
    by (auto simp: sample_at block_of_empty)
qed

theorem new_pool_blocks_disjoint_witness:
  "unat (free_blocks sample_pool ! 0) + 8 \<le> unat (free_blocks sample_pool ! 2) \<and> available sample_pool = (Inr 3, sample_pool)"
proof -
  note all = new_pool_blocks_disjoint [OF sample_new sample_resize_ok]
  have "available sample_pool = (Inr 3, sample_pool)" using all by simp
  moreover have "unat (free_blocks sample_pool ! 0) + unat (2 :: size_t) * unat (4 :: size_t) \<le> unat (free_blocks sample_pool ! 2)"
    using all [THEN conjunct2, THEN conjunct2, rule_format, of 0 2] by simp
  ultimately show ?thesis by simp
qed

theorem pool_size_overflow_witness:
  "mempool_new sample_resize 4 (2 ^ 32) (2 ^ 32) Host \<in> {Inl UB, Inl (Exn Bad_Alloc)}"
  by (rule pool_size_overflow) (auto simp: sample_resize_def word_le_nat_alt split: if_splits)

theorem unique_buffers_own_the_heap_witness:
  "\<exists>objs h. buf_run (unique_alloc 4) (\<lambda>_ :: nat. None, []) (objs, h) \<and> h = [16] \<and> block_of objs 0 = Some 16 \<and>
     fst (reset_at 0 objs h) = Inr ()"
proof -
  let ?b = "unique_raw 16 10 (Some delete_array) Host"
  let ?o = "(\<lambda>_ :: nat. None)(0 \<mapsto> U ?b)"
  have "buf_step (unique_alloc 4) (\<lambda>_ :: nat. None, []) (?o, [16])"
    by (rule Acquire [where a = "(10, Host)"]) (simp_all add: unique_alloc_def new_array_def)
  then have run: "buf_run (unique_alloc 4) (\<lambda>_ :: nat. None, []) (?o, [16])" by simp
  have at: "unique_at ?o 0 = Some ?b" by (simp add: unique_at_def)
  have "fst (reset_at 0 ?o [16]) = Inr ()" using unique_buffers_own_the_heap [OF run] at by blast
  moreover have "block_of ?o 0 = Some 16" by (simp add: block_of_def unique_raw_def)
  ultimately show ?thesis using run by (intro exI conjI) simp_all
qed

end
