(* ===== verification/Shared_Buffer.thy ===== *)
theory Shared_Buffer
  imports Mem_Pool
begin

text \<open>
  \<open>shared_buffer\<close> (\<open>src/core/src/utils/memory/smart_buffers/shared_buffer.hpp\<close>): a reference-counted
  owner.  Its control blocks are shared mutable objects, so the state has an explicit store of them;
  references to control blocks are drawn from a counter, so a deleted block's reference is never seen
  again and using it is an error.  A \<open>shared_buffer\<close> object is identified by its address (\<open>this\<close>); the
  buffers it is made from and released to are the objects of \<open>Buffers\<close>.  Here each operation is
  one step; \<open>Shared_Buffer_Threads\<close> cuts them at the accesses to the reference count.
\<close>

section \<open>The data\<close>

record 'w control_block =
  ref :: size_t
  cb_ptr :: addr
  cb_size :: size_t
  cb_deleter :: "'w deleter option"
  cb_location :: MemoryLocation

type_synonym ctrl = nat

text \<open>\<open>handles\<close>: the \<open>shared_buffer\<close> objects alive and their \<open>ctrl_\<close> (\<open>None\<close> the null pointer).\<close>

record 'w sb_state =
  handles :: "addr \<Rightarrow> ctrl option option"
  ctrls :: "ctrl \<Rightarrow> 'w control_block option"
  next_ctrl :: ctrl
  uniq :: "(addr, 'w) store"
  env :: 'w

definition new_control_block :: "addr \<Rightarrow> size_t \<Rightarrow> 'w deleter option \<Rightarrow> MemoryLocation \<Rightarrow> 'w control_block" where
  "new_control_block p c d loc = \<lparr>ref = 1, cb_ptr = p, cb_size = c, cb_deleter = d, cb_location = loc\<rparr>"

definition set_handle :: "addr \<Rightarrow> ctrl option \<Rightarrow> 'w sb_state \<Rightarrow> 'w sb_state" where
  "set_handle x r st = st\<lparr>handles := (handles st)(x \<mapsto> r)\<rparr>"

section \<open>Operations\<close>

text \<open>An operation on an object that is not alive does not type check; one that needs a fresh object
  is given an address where none is.\<close>

definition shared_default :: "addr \<Rightarrow> 'w sb_state \<Rightarrow> unit result \<times> 'w sb_state" where
  "shared_default x st = (Inr (), set_handle x None st)"

definition shared_raw ::
  "addr \<Rightarrow> addr \<Rightarrow> size_t \<Rightarrow> 'w deleter option \<Rightarrow> MemoryLocation \<Rightarrow> 'w sb_state \<Rightarrow> unit result \<times> 'w sb_state" where
  "shared_raw x ptr n d loc st =
     (if ptr = nullptr \<or> n = 0 then (Inr (), set_handle x None st)
      else (Inr (), set_handle x (Some (next_ctrl st))
        (st\<lparr>ctrls := (ctrls st)(next_ctrl st \<mapsto> new_control_block ptr n d loc), next_ctrl := Suc (next_ctrl st)\<rparr>)))"

definition shared_from_released :: "addr \<Rightarrow> 'w released_buffer \<Rightarrow> 'w sb_state \<Rightarrow> unit result \<times> 'w sb_state" where
  "shared_from_released x rb = shared_raw x (rb_ptr rb) (rb_count rb) (rb_deleter rb) (rb_location rb)"

definition shared_from_unique :: "addr \<Rightarrow> addr \<Rightarrow> 'w sb_state \<Rightarrow> unit result \<times> 'w sb_state" where
  "shared_from_unique x y st =
     (case unique_at (uniq st) y of
        None \<Rightarrow> (Inl Ill_Formed, st)
      | Some b \<Rightarrow>
          (case release b of (rb, b) \<Rightarrow> shared_from_released x rb (st\<lparr>uniq := (uniq st)(y \<mapsto> U b)\<rparr>)))"

text \<open>\<open>ref.fetch_add(1)\<close> on the control block \<open>c\<close>.\<close>

definition add_ref :: "ctrl \<Rightarrow> 'w sb_state \<Rightarrow> unit result \<times> 'w sb_state" where
  "add_ref c st =
     (case ctrls st c of
        None \<Rightarrow> (Inl UB, st)
      | Some cb \<Rightarrow> (Inr (), st\<lparr>ctrls := (ctrls st)(c \<mapsto> cb\<lparr>ref := ref cb + 1\<rparr>)\<rparr>))"

definition release_ctrl :: "addr \<Rightarrow> 'w sb_state \<Rightarrow> unit result \<times> 'w sb_state" where
  "release_ctrl x st =
     (case handles st x of
        None \<Rightarrow> (Inl Ill_Formed, st)
      | Some None \<Rightarrow> (Inr (), st)
      | Some (Some c) \<Rightarrow>
          (case ctrls st c of
             None \<Rightarrow> (Inl UB, st)
           | Some cb \<Rightarrow>
               (let prev = ref cb; st = st\<lparr>ctrls := (ctrls st)(c \<mapsto> cb\<lparr>ref := ref cb - 1\<rparr>)\<rparr> in
                if prev = 1 then
                  (case call_deleter (cb_deleter cb) (cb_ptr cb) (env st) of
                     (Inl e, w) \<Rightarrow> (Inl e, st\<lparr>env := w\<rparr>)
                   | (Inr _, w) \<Rightarrow>
                       (Inr (), set_handle x None (st\<lparr>env := w, ctrls := (ctrls st)(c := None)\<rparr>)))
                else (Inr (), set_handle x None st))))"

definition shared_copy_construct :: "addr \<Rightarrow> addr \<Rightarrow> 'w sb_state \<Rightarrow> unit result \<times> 'w sb_state" where
  "shared_copy_construct x y st =
     (case handles st y of
        None \<Rightarrow> (Inl Ill_Formed, st)
      | Some None \<Rightarrow> (Inr (), set_handle x None st)
      | Some (Some c) \<Rightarrow> add_ref c (set_handle x (Some c) st))"

definition shared_copy_assign :: "addr \<Rightarrow> addr \<Rightarrow> 'w sb_state \<Rightarrow> unit result \<times> 'w sb_state" where
  "shared_copy_assign x y st =
     (if x = y then (Inr (), st)
      else case handles st y of
        None \<Rightarrow> (Inl Ill_Formed, st)
      | Some None \<Rightarrow> and_then (release_ctrl x st) (\<lambda>_ st. (Inr (), set_handle x None st))
      | Some (Some c) \<Rightarrow>
          and_then (add_ref c st) (\<lambda>_ st.
          and_then (release_ctrl x st) (\<lambda>_ st. (Inr (), set_handle x (Some c) st))))"

definition shared_move_construct :: "addr \<Rightarrow> addr \<Rightarrow> 'w sb_state \<Rightarrow> unit result \<times> 'w sb_state" where
  "shared_move_construct x y st =
     (case handles st y of
        None \<Rightarrow> (Inl Ill_Formed, st)
      | Some r \<Rightarrow> (Inr (), set_handle y None (set_handle x r st)))"

definition shared_move_assign :: "addr \<Rightarrow> addr \<Rightarrow> 'w sb_state \<Rightarrow> unit result \<times> 'w sb_state" where
  "shared_move_assign x y st =
     (if x = y then (Inr (), st)
      else and_then (release_ctrl x st) (\<lambda>_ st.
        (case handles st y of
           None \<Rightarrow> (Inl Ill_Formed, st)
         | Some r \<Rightarrow> (Inr (), set_handle y None (set_handle x r st)))))"

definition shared_reset :: "addr \<Rightarrow> 'w sb_state \<Rightarrow> unit result \<times> 'w sb_state" where
  "shared_reset x st = and_then (release_ctrl x st) (\<lambda>_ st. (Inr (), set_handle x None st))"

definition shared_destroy :: "addr \<Rightarrow> 'w sb_state \<Rightarrow> unit result \<times> 'w sb_state" where
  "shared_destroy x st =
     and_then (release_ctrl x st) (\<lambda>_ st. (Inr (), st\<lparr>handles := (handles st)(x := None)\<rparr>))"

definition shared_swap :: "addr \<Rightarrow> addr \<Rightarrow> 'w sb_state \<Rightarrow> unit result \<times> 'w sb_state" where
  "shared_swap x y st =
     (case (handles st x, handles st y) of
        (Some r, Some s) \<Rightarrow> (Inr (), set_handle y r (set_handle x s st))
      | _ \<Rightarrow> (Inl Ill_Formed, st))"

text \<open>\<open>release\<close>: the compare-and-exchange from 1 to 0 decides.\<close>

definition shared_release :: "addr \<Rightarrow> 'w sb_state \<Rightarrow> 'w released_buffer option result \<times> 'w sb_state" where
  "shared_release x st =
     (case handles st x of
        None \<Rightarrow> (Inl Ill_Formed, st)
      | Some None \<Rightarrow> (Inr None, st)
      | Some (Some c) \<Rightarrow>
          (case ctrls st c of
             None \<Rightarrow> (Inl UB, st)
           | Some cb \<Rightarrow>
               if ref cb \<noteq> 1 then (Inr None, st)
               else (Inr (Some \<lparr>rb_ptr = cb_ptr cb, rb_count = cb_size cb, rb_deleter = cb_deleter cb,
                       rb_location = cb_location cb\<rparr>),
                     set_handle x None (st\<lparr>ctrls := (ctrls st)(c := None)\<rparr>))))"

section \<open>Observers\<close>

text \<open>An observer reads the control block of the object: \<open>read_ctrl\<close> with the value of an empty one.\<close>

definition read_ctrl :: "('w control_block \<Rightarrow> 'b) \<Rightarrow> 'b \<Rightarrow> addr \<Rightarrow> 'w sb_state \<Rightarrow> 'b result" where
  "read_ctrl f none x st =
     (case handles st x of
        None \<Rightarrow> Inl Ill_Formed
      | Some None \<Rightarrow> Inr none
      | Some (Some c) \<Rightarrow> (case ctrls st c of None \<Rightarrow> Inl UB | Some cb \<Rightarrow> Inr (f cb)))"

definition shared_data :: "addr \<Rightarrow> 'w sb_state \<Rightarrow> addr result" where
  "shared_data = read_ctrl cb_ptr nullptr"

definition shared_size :: "addr \<Rightarrow> 'w sb_state \<Rightarrow> size_t result" where
  "shared_size = read_ctrl cb_size 0"

definition shared_empty :: "addr \<Rightarrow> 'w sb_state \<Rightarrow> bool result" where
  "shared_empty x st = rmap (\<lambda>n. n = 0) (shared_size x st)"

definition shared_location :: "addr \<Rightarrow> 'w sb_state \<Rightarrow> MemoryLocation result" where
  "shared_location = read_ctrl cb_location Host"

definition shared_view :: "addr \<Rightarrow> 'w sb_state \<Rightarrow> buffer_base result" where
  "shared_view x st =
     rbind (shared_data x st) (\<lambda>p.
     rbind (shared_size x st) (\<lambda>n.
     rmap (\<lambda>loc. \<lparr>data_ptr = p, elem_count = n, mem_location = loc\<rparr>) (shared_location x st)))"

definition shared_span :: "addr \<Rightarrow> 'w sb_state \<Rightarrow> (addr \<times> size_t) result" where
  "shared_span x st = rmap buffer_span (shared_view x st)"

definition shared_byte_span :: "size_t \<Rightarrow> addr \<Rightarrow> 'w sb_state \<Rightarrow> (addr \<times> size_t) result" where
  "shared_byte_span sizeT x st = rmap (byte_span sizeT) (shared_view x st)"

definition use_count :: "addr \<Rightarrow> 'w sb_state \<Rightarrow> size_t result" where
  "use_count = read_ctrl ref 0"

definition shared_bool :: "addr \<Rightarrow> 'w sb_state \<Rightarrow> bool result" where
  "shared_bool x st = (case handles st x of None \<Rightarrow> Inl Ill_Formed | Some r \<Rightarrow> Inr (r \<noteq> None))"

section \<open>Programs over shared buffers\<close>

text \<open>Where an object can be created: its address is a multiple of 8, not null, and no object of the
  same kind is there.\<close>

definition fresh_at :: "addr \<Rightarrow> 'w sb_state \<Rightarrow> bool" where
  "fresh_at x st \<longleftrightarrow> x \<noteq> nullptr \<and> x AND 7 = 0 \<and> handles st x = None"

inductive shared_step ::
  "('p \<Rightarrow> 'w \<Rightarrow> 'w unique_buffer result \<times> 'w) \<Rightarrow> 'w sb_state \<Rightarrow> 'w sb_state \<Rightarrow> bool" for acquire where
  On_Unique: "buf_step acquire (uniq st, env st) (objs, w) \<Longrightarrow> shared_step acquire st (st\<lparr>uniq := objs, env := w\<rparr>)"
| Default: "fresh_at x st \<Longrightarrow> shared_default x st = (Inr u, st') \<Longrightarrow> shared_step acquire st st'"
| From_Unique: "fresh_at x st \<Longrightarrow> shared_from_unique x y st = (Inr u, st') \<Longrightarrow> shared_step acquire st st'"
| From_Released: "fresh_at x st \<Longrightarrow> uniq st y = Some (R rb) \<Longrightarrow>
    shared_from_released x rb (st\<lparr>uniq := (uniq st)(y := None)\<rparr>) = (Inr u, st') \<Longrightarrow> shared_step acquire st st'"
| Copy_Construct: "fresh_at x st \<Longrightarrow> shared_copy_construct x y st = (Inr u, st') \<Longrightarrow> shared_step acquire st st'"
| Copy_Assign: "shared_copy_assign x y st = (Inr u, st') \<Longrightarrow> shared_step acquire st st'"
| Move_Construct_S: "fresh_at x st \<Longrightarrow> x \<noteq> y \<Longrightarrow> shared_move_construct x y st = (Inr u, st') \<Longrightarrow> shared_step acquire st st'"
| Move_Assign_S: "shared_move_assign x y st = (Inr u, st') \<Longrightarrow> shared_step acquire st st'"
| Reset_S: "shared_reset x st = (Inr u, st') \<Longrightarrow> shared_step acquire st st'"
| Destroy_S: "shared_destroy x st = (Inr u, st') \<Longrightarrow> shared_step acquire st st'"
| Swap_S: "shared_swap x y st = (Inr u, st') \<Longrightarrow> shared_step acquire st st'"
| Release_Fails: "shared_release x st = (Inr None, st') \<Longrightarrow> shared_step acquire st st'"
| Release_S: "shared_release x st = (Inr (Some rb), st') \<Longrightarrow> uniq st z = None \<Longrightarrow>
    shared_step acquire st (st'\<lparr>uniq := (uniq st')(z \<mapsto> R rb)\<rparr>)"

abbreviation shared_run ::
  "('p \<Rightarrow> 'w \<Rightarrow> 'w unique_buffer result \<times> 'w) \<Rightarrow> 'w sb_state \<Rightarrow> 'w sb_state \<Rightarrow> bool" where
  "shared_run acquire \<equiv> (shared_step acquire)\<^sup>*\<^sup>*"

definition sb_start :: "'w \<Rightarrow> 'w sb_state" where
  "sb_start w = \<lparr>handles = Map.empty, ctrls = Map.empty, next_ctrl = 0, uniq = Map.empty, env = w\<rparr>"

end
