(* ===== verification/Shared_Buffer_Props.thy ===== *)
theory Shared_Buffer_Props
  imports Shared_Buffer
begin

text \<open>
  What the reference counts of \<open>Shared_Buffer\<close> mean: the count of a control block is the number of
  objects that point to it, so the block goes back to where it came from exactly when the last of
  them lets go of it.
\<close>

section \<open>Reference counts\<close>

definition holders :: "'w sb_state \<Rightarrow> ctrl \<Rightarrow> addr set" where
  "holders st c = {x. handles st x = Some (Some c)}"

text \<open>\<open>E c\<close> are the references to \<open>c\<close> an operation has taken and not yet stored in an object.\<close>

definition refs_inv :: "(ctrl \<Rightarrow> nat) \<Rightarrow> 'w sb_state \<Rightarrow> bool" where
  "refs_inv E st \<longleftrightarrow>
     (\<forall>c cb. ctrls st c = Some cb \<longrightarrow> unat (ref cb) = card (holders st c) + E c \<and> 0 < card (holders st c) + E c) \<and>
     (\<forall>x c. handles st x = Some (Some c) \<longrightarrow> ctrls st c \<noteq> None) \<and>
     (\<forall>x. handles st x \<noteq> None \<longrightarrow> x \<noteq> nullptr \<and> x AND 7 = 0)"

lemma refs_invI:
  assumes "\<And>c cb. ctrls st c = Some cb \<Longrightarrow> unat (ref cb) = card (holders st c) + E c \<and> 0 < card (holders st c) + E c"
    "\<And>x c. handles st x = Some (Some c) \<Longrightarrow> ctrls st c \<noteq> None"
    "\<And>x. handles st x \<noteq> None \<Longrightarrow> x \<noteq> nullptr \<and> x AND 7 = 0"
  shows "refs_inv E st"
  unfolding refs_inv_def using assms by blast

lemma refs_invD:
  assumes "refs_inv E st"
  shows "ctrls st c = Some cb \<Longrightarrow> unat (ref cb) = card (holders st c) + E c"
    "ctrls st c = Some cb \<Longrightarrow> 0 < card (holders st c) + E c"
    "handles st x = Some (Some c) \<Longrightarrow> ctrls st c \<noteq> None"
    "handles st x \<noteq> None \<Longrightarrow> x \<noteq> nullptr \<and> x AND 7 = 0"
proof -
  note i = assms [unfolded refs_inv_def]
  note c = conjunct1 [OF i, rule_format, of c cb]
  show "ctrls st c = Some cb \<Longrightarrow> unat (ref cb) = card (holders st c) + E c" by (rule conjunct1 [OF c])
  show "ctrls st c = Some cb \<Longrightarrow> 0 < card (holders st c) + E c" by (rule conjunct2 [OF c])
  show "handles st x = Some (Some c) \<Longrightarrow> ctrls st c \<noteq> None"
    by (rule conjunct1 [OF conjunct2 [OF i], rule_format])
  show "handles st x \<noteq> None \<Longrightarrow> x \<noteq> nullptr \<and> x AND 7 = 0"
    by (rule conjunct2 [OF conjunct2 [OF i], rule_format])
qed

lemma set_handle_simps [simp]:
  "handles (set_handle x r st) = (handles st)(x \<mapsto> r)" "ctrls (set_handle x r st) = ctrls st"
  "next_ctrl (set_handle x r st) = next_ctrl st" "uniq (set_handle x r st) = uniq st" "env (set_handle x r st) = env st"
  by (simp_all add: set_handle_def)

lemma finite_holders [simp]: "finite (holders st c)"
  by simp

lemma holders_cong: "handles st = handles st' \<Longrightarrow> holders st = holders st'"
  by (simp add: holders_def fun_eq_iff)

lemma holders_set_handle:
  "holders (set_handle x r st) c = (if r = Some c then insert x (holders st c) else holders st c - {x})"
  by (auto simp: holders_def)

lemma holders_not: "handles st x = None \<or> handles st x = Some None \<Longrightarrow> x \<notin> holders st c"
  by (auto simp: holders_def)

text \<open>There are fewer objects than \<open>2 ^ 64 - 1\<close>, so a count and one more reference fit \<open>size_t\<close>.\<close>

lemma holders_room:
  assumes "refs_inv E st" "E c = 0"
  shows "card (holders st c) + 1 < 2 ^ 64"
proof -
  have "holders st c \<subseteq> UNIV - {0, 1}"
    using refs_invD(4) [OF assms(1)] by (fastforce simp: holders_def)
  then have "card (holders st c) \<le> card (UNIV - {0, 1 :: addr})" by (intro card_mono) auto
  also have "\<dots> = 2 ^ 64 - 2" by (subst card_Diff_subset) (auto simp: card_word)
  finally show ?thesis by simp
qed

lemma refs_add_ref:
  assumes "refs_inv E st" "ctrls st c = Some cb" "card (holders st c) + E c + 1 < 2 ^ 64"
  shows "refs_inv (E(c := E c + 1)) (st\<lparr>ctrls := (ctrls st)(c \<mapsto> cb\<lparr>ref := ref cb + 1\<rparr>)\<rparr>)"
proof -
  have "unat (ref cb) + unat (1 :: size_t) < 2 ^ 64"
    using refs_invD(1) [OF assms(1,2)] assms(3) by simp
  then have "unat (ref cb + 1) = unat (ref cb) + 1" by (simp add: unat_add_small)
  moreover have "holders (st\<lparr>ctrls := cs\<rparr>) = holders st" for cs by (rule holders_cong) simp
  ultimately show ?thesis
    using refs_invD [OF assms(1)] assms(2,3) by (intro refs_invI) (auto split: if_splits)
qed

lemma refs_attach:
  assumes "refs_inv (E(c := E c + 1)) st" "ctrls st c \<noteq> None" "x \<notin> holders st c" "\<And>d. x \<notin> holders st d"
    "x \<noteq> nullptr \<and> x AND 7 = 0"
  shows "refs_inv E (set_handle x (Some c) st)"
proof (rule refs_invI)
  fix d cb assume "ctrls (set_handle x (Some c) st) d = Some cb"
  then show "unat (ref cb) = card (holders (set_handle x (Some c) st) d) + E d \<and>
      0 < card (holders (set_handle x (Some c) st) d) + E d"
    using refs_invD(1,2) [OF assms(1), of d cb] assms(3,4) by (auto simp: holders_set_handle)
next
  fix y d assume "handles (set_handle x (Some c) st) y = Some (Some d)"
  then show "ctrls (set_handle x (Some c) st) d \<noteq> None"
    using refs_invD(3) [OF assms(1), of y d] assms(2) by (auto split: if_splits)
next
  fix y assume "handles (set_handle x (Some c) st) y \<noteq> None"
  then show "y \<noteq> nullptr \<and> y AND 7 = 0"
    using refs_invD(4) [OF assms(1), of y] assms(5) by (auto split: if_splits)
qed

lemma refs_null:
  assumes "refs_inv E st" "\<And>c. x \<notin> holders st c" "x \<noteq> nullptr \<and> x AND 7 = 0"
  shows "refs_inv E (set_handle x None st)"
  using assms(1) by (rule_tac refs_invI)
    (use assms in \<open>auto simp: holders_set_handle dest: refs_invD split: if_splits\<close>)

text \<open>Exchanging what two objects point to, or moving it from one to an object that points nowhere.\<close>

lemma refs_exchange:
  assumes inv: "refs_inv E st" and same: "ctrls st' = ctrls st"
    and ex: "\<And>z c. handles st' z = Some (Some c) \<longleftrightarrow>
      handles st (if z = x then y else if z = y then x else z) = Some (Some c)"
    and addr: "\<And>z. handles st' z \<noteq> None \<Longrightarrow> z \<noteq> nullptr \<and> z AND 7 = 0"
  shows "refs_inv E st'"
proof -
  let ?t = "\<lambda>z. if z = x then y else if z = y then x else z"
  have t: "?t (?t z) = z" for z by auto
  have "holders st' c = ?t ` holders st c" for c
  proof (intro set_eqI iffI)
    fix z assume "z \<in> holders st' c"
    then have "?t z \<in> holders st c" using ex [of z c] by (simp add: holders_def)
    then have "?t (?t z) \<in> ?t ` holders st c" by (rule imageI)
    then show "z \<in> ?t ` holders st c" unfolding t .
  next
    fix z assume "z \<in> ?t ` holders st c"
    then obtain a where a: "z = ?t a" "a \<in> holders st c" by (rule imageE)
    then have "?t z = a" using t by simp
    then have "handles st (?t z) = Some (Some c)" using a(2) by (simp add: holders_def)
    then show "z \<in> holders st' c" using ex [of z c] by (simp add: holders_def)
  qed
  moreover have "inj_on ?t A" for A by (rule inj_on_inverseI [where g = ?t]) (rule t)
  ultimately have card: "card (holders st' c) = card (holders st c)" for c by (simp only: card_image)
  show ?thesis
  proof (rule refs_invI)
    fix c cb assume "ctrls st' c = Some cb"
    then show "unat (ref cb) = card (holders st' c) + E c \<and> 0 < card (holders st' c) + E c"
      unfolding card same by (intro conjI refs_invD(1,2) [OF inv])
  next
    fix z c assume "handles st' z = Some (Some c)"
    then show "ctrls st' c \<noteq> None" using refs_invD(3) [OF inv, of "?t z" c] ex [of z c] unfolding same by simp
  qed (rule addr)
qed

lemma refs_move:
  assumes inv: "refs_inv E st" and x: "\<And>c. x \<notin> holders st c" "x \<noteq> nullptr \<and> x AND 7 = 0" and y: "handles st y = Some r" "x \<noteq> y"
  shows "refs_inv E (set_handle y None (set_handle x r st))"
proof (rule refs_exchange [OF inv, where x = x and y = y])
  fix z c
  have "handles st x \<noteq> Some (Some c)" using x(1) [of c] by (simp add: holders_def)
  then show "handles (set_handle y None (set_handle x r st)) z = Some (Some c) \<longleftrightarrow>
      handles st (if z = x then y else if z = y then x else z) = Some (Some c)" using y by auto
next
  fix z assume "handles (set_handle y None (set_handle x r st)) z \<noteq> None"
  then show "z \<noteq> nullptr \<and> z AND 7 = 0"
    using refs_invD(4) [OF inv, of z] refs_invD(4) [OF inv, of y] x(2) y by (auto split: if_splits)
qed simp

lemma refs_swap:
  assumes inv: "refs_inv E st" and xy: "handles st x = Some r" "handles st y = Some r'"
  shows "refs_inv E (set_handle y r (set_handle x r' st))"
proof (rule refs_exchange [OF inv, where x = x and y = y])
  fix z assume "handles (set_handle y r (set_handle x r' st)) z \<noteq> None"
  then show "z \<noteq> nullptr \<and> z AND 7 = 0"
    using refs_invD(4) [OF inv, of z] refs_invD(4) [OF inv, of y] refs_invD(4) [OF inv, of x] xy
    by (auto split: if_splits)
qed (use xy in auto)

text \<open>Letting go of a reference: others remain, or it was the last.\<close>

lemma unat_minus_one_ref: "unat (r :: size_t) \<noteq> 0 \<Longrightarrow> unat (r - 1) = unat r - 1"
  by (metis unat_minus_one unat_eq_zero unsigned_0)

lemma refs_let_go:
  assumes inv: "refs_inv E st" and x: "handles st x = Some (Some c)" and cb: "ctrls st c = Some cb" and more: "ref cb \<noteq> 1"
  shows "refs_inv E (set_handle x None (st\<lparr>ctrls := (ctrls st)(c \<mapsto> cb\<lparr>ref := ref cb - 1\<rparr>)\<rparr>))"
    (is "refs_inv E ?st")
proof -
  have h: "holders ?st d = holders st d - {x}" for d by (auto simp: holders_def)
  have mem: "x \<in> holders st c" and only: "x \<notin> holders st d" if "d \<noteq> c" for d
    using x that by (auto simp: holders_def)
  have mem: "x \<in> holders st c" using x by (simp add: holders_def)
  have "unat (ref cb) \<noteq> 1" using more by (metis unsigned_1 word_unat_eq_iff)
  moreover have "0 < unat (ref cb)" using refs_invD(1,2) [OF inv cb] by simp
  ultimately have r: "unat (ref cb - 1) = unat (ref cb) - 1" "1 < unat (ref cb)"
    by (simp_all add: unat_minus_one_ref)
  have card: "card (holders st c - {x}) = card (holders st c) - 1" "0 < card (holders st c)"
    using mem by (auto simp: card_gt_0_iff)
  show ?thesis
  proof (rule refs_invI)
    fix d db assume d: "ctrls ?st d = Some db"
    show "unat (ref db) = card (holders ?st d) + E d \<and> 0 < card (holders ?st d) + E d"
    proof (cases "d = c")
      case True
      then have "db = cb\<lparr>ref := ref cb - 1\<rparr>" using d by simp
      then show ?thesis unfolding h True using r card refs_invD(1) [OF inv cb] by simp
    next
      case False
      then show ?thesis using d refs_invD(1,2) [OF inv, of d db] only [OF False] by (simp add: h)
    qed
  next
    fix z d assume "handles ?st z = Some (Some d)"
    then show "ctrls ?st d \<noteq> None" using refs_invD(3) [OF inv, of z d] by (auto split: if_splits)
  next
    fix z assume "handles ?st z \<noteq> None"
    then show "z \<noteq> nullptr \<and> z AND 7 = 0"
      using refs_invD(4) [OF inv, of z] refs_invD(4) [OF inv, of x] x by (auto split: if_splits)
  qed
qed

lemma refs_last:
  assumes inv: "refs_inv E st" and x: "handles st x = Some (Some c)" and cb: "ctrls st c = Some cb" and one: "ref cb = 1"
  shows "holders st c = {x}" "E c = 0"
    "refs_inv E (set_handle x None (st\<lparr>ctrls := (ctrls st)(c := None)\<rparr>))" (is "refs_inv E ?st")
proof -
  have mem: "x \<in> holders st c" using x by (simp add: holders_def)
  then have "0 < card (holders st c)" by (auto simp: card_gt_0_iff)
  moreover have "card (holders st c) + E c = 1" using refs_invD(1) [OF inv cb] one by simp
  ultimately have "card (holders st c) = 1" and e: "E c = 0" by linarith+
  then show only: "holders st c = {x}" "E c = 0" using mem by (auto simp: card_1_singleton_iff)
  have h: "holders ?st d = holders st d - {x}" for d by (auto simp: holders_def)
  show "refs_inv E ?st"
  proof (rule refs_invI)
    fix d db assume d: "ctrls ?st d = Some db"
    then have "d \<noteq> c" by auto
    then have "x \<notin> holders st d" using x by (auto simp: holders_def)
    then show "unat (ref db) = card (holders ?st d) + E d \<and> 0 < card (holders ?st d) + E d"
      using d \<open>d \<noteq> c\<close> refs_invD(1,2) [OF inv, of d db] by (simp add: h)
  next
    fix z d assume z: "handles ?st z = Some (Some d)"
    then have "z \<in> holders st d" "z \<noteq> x" by (auto simp: holders_def split: if_splits)
    then have "d \<noteq> c" using only(1) by auto
    then show "ctrls ?st d \<noteq> None" using z refs_invD(3) [OF inv, of z d] by (auto split: if_splits)
  next
    fix z assume "handles ?st z \<noteq> None"
    then show "z \<noteq> nullptr \<and> z AND 7 = 0"
      using refs_invD(4) [OF inv, of z] refs_invD(4) [OF inv, of x] x by (auto split: if_splits)
  qed
qed

text \<open>A new object points to a new control block.\<close>

lemma refs_new:
  assumes inv: "refs_inv E st" and c: "ctrls st c = None" "E c = 0" and x: "fresh_at x st"
    and st': "handles st' = (handles st)(x \<mapsto> Some c)" "ctrls st' = (ctrls st)(c \<mapsto> cb)" and one: "ref cb = 1"
  shows "refs_inv E st'"
proof -
  have none: "holders st c = {}"
  proof (rule ccontr)
    assume "holders st c \<noteq> {}"
    then obtain z where "handles st z = Some (Some c)" by (auto simp: holders_def)
    then show False using refs_invD(3) [OF inv, of z c] c(1) by simp
  qed
  have h: "holders st' d = (if d = c then insert x (holders st d) else holders st d)" for d
    using x by (auto simp: holders_def st'(1) fresh_at_def)
  have x0: "x \<noteq> nullptr \<and> x AND 7 = 0" using x by (simp add: fresh_at_def)
  show ?thesis
  proof (rule refs_invI)
    fix d db assume "ctrls st' d = Some db"
    then show "unat (ref db) = card (holders st' d) + E d \<and> 0 < card (holders st' d) + E d"
      using refs_invD(1,2) [OF inv, of d db] none one c(2) by (simp add: h st'(2) split: if_splits)
  next
    fix z d assume "handles st' z = Some (Some d)"
    then show "ctrls st' d \<noteq> None" using refs_invD(3) [OF inv, of z d] by (auto simp: st' split: if_splits)
  next
    fix z assume "handles st' z \<noteq> None"
    then show "z \<noteq> nullptr \<and> z AND 7 = 0" using refs_invD(4) [OF inv, of z] x0 by (auto simp: st'(1) split: if_splits)
  qed
qed

section \<open>The blocks the control blocks own\<close>

definition cptr :: "'w sb_state \<Rightarrow> ctrl \<Rightarrow> addr option" where
  "cptr st c = map_option cb_ptr (ctrls st c)"

lemma cptr_set_handle [simp]: "cptr (set_handle x r st) = cptr st"
  by (simp add: cptr_def fun_eq_iff)

lemma cptr_uniq_env [simp]: "cptr (st\<lparr>uniq := u\<rparr>) = cptr st" "cptr (st\<lparr>env := w\<rparr>) = cptr st"
  "cptr (st\<lparr>handles := h\<rparr>) = cptr st" "cptr (st\<lparr>next_ctrl := n\<rparr>) = cptr st"
  by (simp_all add: cptr_def fun_eq_iff)

lemma cptr_upd: "cptr (st\<lparr>ctrls := (ctrls st)(c \<mapsto> cb)\<rparr>) = (cptr st)(c \<mapsto> cb_ptr cb)"
  by (simp add: cptr_def fun_eq_iff)

lemma cptr_del: "cptr (st\<lparr>ctrls := (ctrls st)(c := None)\<rparr>) = (cptr st)(c := None)"
  by (simp add: cptr_def fun_eq_iff)

lemma cptr_at: "ctrls st c = Some cb \<Longrightarrow> cptr st c = Some (cb_ptr cb)"
  by (simp add: cptr_def)

text \<open>A provider that never hands out an empty buffer: a \<open>shared_buffer\<close> made from a non-null pointer
  and size 0 would forget the pointer and its deleter.\<close>

locale sized_provider = block_provider acquire give_back sound outstanding fits
  for acquire :: "'p \<Rightarrow> 'w \<Rightarrow> 'w unique_buffer result \<times> 'w" and give_back and sound and outstanding and fits +
  assumes fits_pos: "fits n \<Longrightarrow> n \<noteq> 0"
begin

definition blocks_inv :: "'w sb_state \<Rightarrow> bool" where
  "blocks_inv st \<longleftrightarrow> owned (ran (cptr st)) (uniq st, env st) \<and> inj_on (cptr st) (dom (cptr st)) \<and>
     (\<forall>c cb. ctrls st c = Some cb \<longrightarrow> cb_deleter cb = Some give_back \<and> cb_ptr cb \<noteq> nullptr \<and> fits (cb_size cb)) \<and>
     (\<forall>c \<ge> next_ctrl st. ctrls st c = None)"

lemma blocks_invI:
  assumes "owned (ran (cptr st)) (uniq st, env st)" "inj_on (cptr st) (dom (cptr st))"
    "\<And>c cb. ctrls st c = Some cb \<Longrightarrow> cb_deleter cb = Some give_back \<and> cb_ptr cb \<noteq> nullptr \<and> fits (cb_size cb)"
    "\<And>c. next_ctrl st \<le> c \<Longrightarrow> ctrls st c = None"
  shows "blocks_inv st"
  using assms by (simp add: blocks_inv_def)

lemma blocks_invD:
  assumes "blocks_inv st"
  shows "owned (ran (cptr st)) (uniq st, env st)" "inj_on (cptr st) (dom (cptr st))"
    "ctrls st c = Some cb \<Longrightarrow> cb_deleter cb = Some give_back \<and> cb_ptr cb \<noteq> nullptr \<and> fits (cb_size cb)"
    "next_ctrl st \<le> c \<Longrightarrow> ctrls st c = None"
  using assms by (simp_all add: blocks_inv_def)

lemma blocks_set_handle [simp]: "blocks_inv (set_handle x r st) = blocks_inv st"
  by (simp add: blocks_inv_def)

lemma blocks_handles [simp]: "blocks_inv (st\<lparr>handles := h\<rparr>) = blocks_inv st"
  by (simp add: blocks_inv_def)

lemma blocks_cong:
  assumes "blocks_inv st" "uniq st' = uniq st" "env st' = env st" "ctrls st' = ctrls st" "next_ctrl st' = next_ctrl st"
  shows "blocks_inv st'"
proof -
  have "cptr st' = cptr st" using assms(4) by (simp add: cptr_def fun_eq_iff)
  then show ?thesis using assms by (simp add: blocks_inv_def)
qed

lemma blocks_ref:
  assumes "blocks_inv st" "ctrls st c = Some cb"
  shows "blocks_inv (st\<lparr>ctrls := (ctrls st)(c \<mapsto> cb\<lparr>ref := v\<rparr>)\<rparr>)"
proof -
  note b = blocks_invD [OF assms(1)]
  have same: "cptr (st\<lparr>ctrls := (ctrls st)(c \<mapsto> cb\<lparr>ref := v\<rparr>)\<rparr>) = cptr st"
    using assms(2) by (auto simp: cptr_def)
  show ?thesis
  proof (rule blocks_invI)
    fix d assume "next_ctrl (st\<lparr>ctrls := (ctrls st)(c \<mapsto> cb\<lparr>ref := v\<rparr>)\<rparr>) \<le> d"
    then show "ctrls (st\<lparr>ctrls := (ctrls st)(c \<mapsto> cb\<lparr>ref := v\<rparr>)\<rparr>) d = None"
      using b(4) [of d] assms(2) by auto
  next
    fix d db assume "ctrls (st\<lparr>ctrls := (ctrls st)(c \<mapsto> cb\<lparr>ref := v\<rparr>)\<rparr>) d = Some db"
    then show "cb_deleter db = Some give_back \<and> cb_ptr db \<noteq> nullptr \<and> fits (cb_size db)"
      using b(3) [of d] b(3) [OF assms(2)] by (auto split: if_splits)
  qed (use b same in auto)
qed

text \<open>Deleting a control block: its block is \<open>p\<close>'s to give back or to hand to a released buffer.\<close>

lemma blocks_ran:
  assumes "blocks_inv st" "ctrls st c = Some cb"
  shows "ran (cptr st) = insert (cb_ptr cb) (ran ((cptr st)(c := None)))" "cb_ptr cb \<notin> ran ((cptr st)(c := None))"
proof -
  have "ran ((cptr st)(c := None)) = ran (cptr st) - {cb_ptr cb}"
    by (rule ran_drop [OF blocks_invD(2) [OF assms(1)] cptr_at [OF assms(2)]])
  moreover have "cb_ptr cb \<in> ran (cptr st)" using cptr_at [OF assms(2)] by (auto simp: ran_def)
  ultimately show "ran (cptr st) = insert (cb_ptr cb) (ran ((cptr st)(c := None)))"
    "cb_ptr cb \<notin> ran ((cptr st)(c := None))" by auto
qed

lemma blocks_delete:
  assumes "blocks_inv st" "ctrls st c = Some cb" "owned (ran ((cptr st)(c := None))) (objs, w)"
  shows "blocks_inv (st\<lparr>uniq := objs, env := w, ctrls := (ctrls st)(c := None)\<rparr>)"
proof -
  note b = blocks_invD [OF assms(1)]
  have cp: "cptr (st\<lparr>uniq := objs, env := w, ctrls := (ctrls st)(c := None)\<rparr>) = (cptr st)(c := None)"
    by (auto simp: cptr_def)
  show ?thesis
    by (rule blocks_invI) (use assms(3) inj_drop [OF b(2), of c] b(3,4) in \<open>auto simp: cp split: if_splits\<close>)
qed

lemma blocks_last:
  assumes "blocks_inv st" "ctrls st c = Some cb"
  shows "\<exists>w. call_deleter (cb_deleter cb) (cb_ptr cb) (env st) = (Inr (), w) \<and>
    blocks_inv (st\<lparr>env := w, ctrls := (ctrls st)(c := None)\<rparr>) \<and> give_back (cb_ptr cb) (env st) = (Inr (), w)"
proof -
  note r = blocks_ran [OF assms]
  obtain w where w: "give_back (cb_ptr cb) (env st) = (Inr (), w)" "owned (ran ((cptr st)(c := None))) (uniq st, w)"
    using owned_give_back [OF blocks_invD(1) [OF assms(1), unfolded r(1)] r(2)] by blast
  have "blocks_inv (st\<lparr>uniq := uniq st, env := w, ctrls := (ctrls st)(c := None)\<rparr>)"
    by (rule blocks_delete [OF assms w(2)])
  then show ?thesis using w(1) blocks_invD(3) [OF assms] by (simp add: call_deleter_def)
qed

section \<open>Every operation keeps both\<close>

definition sinv :: "(ctrl \<Rightarrow> nat) \<Rightarrow> 'w sb_state \<Rightarrow> bool" where
  "sinv E st \<longleftrightarrow> blocks_inv st \<and> refs_inv E st"

abbreviation no_extra :: "ctrl \<Rightarrow> nat" where "no_extra \<equiv> \<lambda>_. 0"

text \<open>Letting go never fails, and gives the block back exactly when no other reference is left.\<close>

lemma release_ctrl_ok:
  assumes inv: "sinv E st" and x: "handles st x = Some r"
  obtains st' where "release_ctrl x st = (Inr (), st')" "sinv E st'" "handles st' = (handles st)(x \<mapsto> None)"
    "uniq st' = uniq st" "\<forall>c. E c \<noteq> 0 \<longrightarrow> ctrls st c \<noteq> None \<longrightarrow> ctrls st' c \<noteq> None"
    "case r of None \<Rightarrow> env st' = env st
     | Some c \<Rightarrow> if holders st c = {x} \<and> E c = 0 then give_back (cb_ptr (the (ctrls st c))) (env st) = (Inr (), env st')
                else env st' = env st"
proof (cases r)
  case None
  then have "handles st = (handles st)(x \<mapsto> None)" using x by (auto simp: fun_eq_iff)
  then show ?thesis using that [of st] inv x None by (simp add: release_ctrl_def)
next
  case (Some c)
  have bi: "blocks_inv st" and ri: "refs_inv E st" using inv by (simp_all add: sinv_def)
  have x: "handles st x = Some (Some c)" using x Some by simp
  then obtain cb where cb: "ctrls st c = Some cb" using refs_invD(3) [OF ri] by blast
  show ?thesis
  proof (cases "ref cb = 1")
    case True
    note l = refs_last [OF ri x cb True]
    obtain w where w: "call_deleter (cb_deleter cb) (cb_ptr cb) (env st) = (Inr (), w)"
      "blocks_inv (st\<lparr>env := w, ctrls := (ctrls st)(c := None)\<rparr>)" "give_back (cb_ptr cb) (env st) = (Inr (), w)"
      using blocks_last [OF bi cb] by blast
    let ?st = "set_handle x None (st\<lparr>env := w, ctrls := (ctrls st)(c := None)\<rparr>)"
    have "refs_inv E ?st"
      using l(3) by (rule refs_exchange [where x = x and y = x]) (use refs_invD(4) [OF l(3)] in auto)
    then have "sinv E ?st" using w(2) by (simp add: sinv_def)
    moreover have "release_ctrl x st = (Inr (), ?st)" using x cb True w(1) by (simp add: release_ctrl_def Let_def)
    moreover have "\<forall>d. E d \<noteq> 0 \<longrightarrow> ctrls st d \<noteq> None \<longrightarrow> ctrls ?st d \<noteq> None"
      using l(2) by auto
    ultimately show ?thesis using that [of ?st] l(1,2) cb w(3) Some by simp
  next
    case False
    let ?st = "set_handle x None (st\<lparr>ctrls := (ctrls st)(c \<mapsto> cb\<lparr>ref := ref cb - 1\<rparr>)\<rparr>)"
    have "sinv E ?st" using refs_let_go [OF ri x cb False] blocks_ref [OF bi cb] by (simp add: sinv_def)
    moreover have "release_ctrl x st = (Inr (), ?st)" using x cb False by (simp add: release_ctrl_def Let_def)
    moreover have "(holders st c = {x} \<and> E c = 0) = False"
    proof (rule iffI)
      assume "holders st c = {x} \<and> E c = 0"
      then have "unat (ref cb) = 1" using refs_invD(1) [OF ri cb] by simp
      then show False using False by (metis unsigned_1 word_unat_eq_iff)
    qed simp
    moreover have "\<forall>d. E d \<noteq> 0 \<longrightarrow> ctrls st d \<noteq> None \<longrightarrow> ctrls ?st d \<noteq> None" by simp
    ultimately show ?thesis by (intro that [of ?st]) (simp_all only: Some option.case if_False set_handle_simps, simp_all)
  qed
qed

lemma not_holder: "handles st x = None \<or> handles st x = Some None \<Longrightarrow> x \<notin> holders st c"
  by (auto simp: holders_def)

lemma sinv_null:
  assumes "sinv E st" "handles st x = None \<or> handles st x = Some None" "x \<noteq> nullptr \<and> x AND 7 = 0"
  shows "sinv E (set_handle x None st)"
  using assms refs_null [of E st x] not_holder [OF assms(2)] by (simp add: sinv_def)

lemma sinv_move:
  assumes "sinv E st" "handles st x = None \<or> handles st x = Some None" "x \<noteq> nullptr \<and> x AND 7 = 0"
    "handles st y = Some r" "x \<noteq> y"
  shows "sinv E (set_handle y None (set_handle x r st))"
  using assms refs_move [OF _ not_holder [OF assms(2)] assms(3,4,5)] by (simp add: sinv_def)

lemma sinv_add_ref:
  assumes "sinv no_extra st" "ctrls st c = Some cb"
  shows "\<exists>st'. add_ref c st = (Inr (), st') \<and> sinv (no_extra(c := 1)) st' \<and> handles st' = handles st \<and>
    uniq st' = uniq st \<and> env st' = env st \<and> ctrls st' c \<noteq> None"
  using assms refs_add_ref [of no_extra st c cb] holders_room [of no_extra st c] blocks_ref [of st c cb]
  by (simp add: sinv_def add_ref_def)

lemma sinv_attach:
  assumes "sinv (no_extra(c := 1)) st" "ctrls st c \<noteq> None" "handles st x = None \<or> handles st x = Some None"
    "x \<noteq> nullptr \<and> x AND 7 = 0"
  shows "sinv no_extra (set_handle x (Some c) st)"
  using assms refs_attach [of no_extra c st x] not_holder [OF assms(3)] by (simp add: sinv_def)

lemma sinv_addr: "sinv E st \<Longrightarrow> handles st x = Some r \<Longrightarrow> x \<noteq> nullptr \<and> x AND 7 = 0"
  unfolding sinv_def by (drule conjunct2) (rule refs_invD(4), auto)

lemma sinv_forget:
  assumes "sinv E st" "handles st x = Some None"
  shows "sinv E (st\<lparr>handles := (handles st)(x := None)\<rparr>)"
proof -
  have r: "refs_inv E st" using assms(1) by (simp add: sinv_def)
  have "refs_inv E (st\<lparr>handles := (handles st)(x := None)\<rparr>)"
    by (rule refs_exchange [OF r, where x = x and y = x])
      (use assms(2) refs_invD(4) [OF r] in \<open>auto split: if_splits\<close>)
  then show ?thesis using assms(1) by (simp add: sinv_def)
qed

lemma shared_reset_ok:
  assumes "sinv no_extra st" "handles st x = Some r"
  shows "\<exists>st'. shared_reset x st = (Inr (), st') \<and> sinv no_extra st'"
proof -
  obtain st' where st': "release_ctrl x st = (Inr (), st')" "sinv no_extra st'" "handles st' = (handles st)(x \<mapsto> None)"
    by (rule release_ctrl_ok [OF assms])
  have "sinv no_extra (set_handle x None st')"
    by (rule sinv_null [OF st'(2)]) (use st'(3) sinv_addr [OF assms] in auto)
  then show ?thesis using st'(1) by (simp add: shared_reset_def)
qed

lemma shared_destroy_ok:
  assumes "sinv no_extra st" "handles st x = Some r"
  obtains st' where "shared_destroy x st = (Inr (), st')" "sinv no_extra st'" "handles st' = (handles st)(x := None)"
    "case r of None \<Rightarrow> env st' = env st
     | Some c \<Rightarrow> if holders st c = {x} then give_back (cb_ptr (the (ctrls st c))) (env st) = (Inr (), env st')
                else env st' = env st"
proof -
  obtain st' where st': "release_ctrl x st = (Inr (), st')" "sinv no_extra st'" "handles st' = (handles st)(x \<mapsto> None)"
    "case r of None \<Rightarrow> env st' = env st
     | Some c \<Rightarrow> if holders st c = {x} \<and> no_extra c = 0 then give_back (cb_ptr (the (ctrls st c))) (env st) = (Inr (), env st')
                else env st' = env st"
    by (rule release_ctrl_ok [OF assms])
  have "sinv no_extra (st'\<lparr>handles := (handles st')(x := None)\<rparr>)"
    by (rule sinv_forget [OF st'(2)]) (simp add: st'(3))
  then show ?thesis using that [of "st'\<lparr>handles := (handles st')(x := None)\<rparr>"] st'(1,3,4)
    by (simp add: shared_destroy_def split: option.splits)
qed

lemma shared_move_assign_ok:
  assumes "sinv no_extra st" "handles st x = Some r" "handles st y = Some r'"
  shows "\<exists>st'. shared_move_assign x y st = (Inr (), st') \<and> sinv no_extra st'"
proof (cases "x = y")
  case True
  then show ?thesis using assms by (simp add: shared_move_assign_def)
next
  case False
  obtain st' where st': "release_ctrl x st = (Inr (), st')" "sinv no_extra st'" "handles st' = (handles st)(x \<mapsto> None)"
    by (rule release_ctrl_ok [OF assms(1,2)])
  have y: "handles st' y = Some r'" using st'(3) assms(3) False by simp
  have "sinv no_extra (set_handle y None (set_handle x r' st'))"
    by (rule sinv_move [OF st'(2) _ _ y False]) (use st'(3) sinv_addr [OF assms(1,2)] in auto)
  then show ?thesis using st'(1) y False by (simp add: shared_move_assign_def)
qed

lemma shared_copy_assign_ok:
  assumes "sinv no_extra st" "handles st x = Some r" "handles st y = Some r'"
  shows "\<exists>st'. shared_copy_assign x y st = (Inr (), st') \<and> sinv no_extra st'"
proof (cases "x = y \<or> r' = None")
  case True
  obtain st' where st': "release_ctrl x st = (Inr (), st')" "sinv no_extra st'" "handles st' = (handles st)(x \<mapsto> None)"
    by (rule release_ctrl_ok [OF assms(1,2)])
  have "sinv no_extra (set_handle x None st')"
    by (rule sinv_null [OF st'(2)]) (use st'(3) sinv_addr [OF assms(1,2)] in auto)
  then show ?thesis using True st'(1) assms by (auto simp: shared_copy_assign_def)
next
  case False
  then obtain c where c: "r' = Some c" "x \<noteq> y" by auto
  have "refs_inv no_extra st" using assms(1) by (simp add: sinv_def)
  then obtain cb where cb: "ctrls st c = Some cb" using refs_invD(3) [of no_extra st y c] assms(3) c by auto
  obtain st1 where st1: "add_ref c st = (Inr (), st1)" "sinv (no_extra(c := 1)) st1" "handles st1 = handles st" "ctrls st1 c \<noteq> None"
    using sinv_add_ref [OF assms(1) cb] by blast
  have x: "handles st1 x = Some r" using st1(3) assms(2) by simp
  obtain st2 where st2: "release_ctrl x st1 = (Inr (), st2)" "sinv (no_extra(c := 1)) st2"
    "handles st2 = (handles st1)(x \<mapsto> None)" "\<forall>d. (no_extra(c := 1)) d \<noteq> 0 \<longrightarrow> ctrls st1 d \<noteq> None \<longrightarrow> ctrls st2 d \<noteq> None"
    by (rule release_ctrl_ok [OF st1(2) x])
  have "sinv no_extra (set_handle x (Some c) st2)"
    by (rule sinv_attach [OF st2(2)]) (use st2(3) spec [OF st2(4), of c] st1(4) sinv_addr [OF assms(1,2)] in auto)
  then show ?thesis using st1(1) st2(1) c assms(3) by (simp add: shared_copy_assign_def)
qed

lemma shared_copy_construct_ok:
  assumes "sinv no_extra st" "fresh_at x st" "handles st y = Some r"
  shows "\<exists>st'. shared_copy_construct x y st = (Inr (), st') \<and> sinv no_extra st'"
proof (cases r)
  case None
  have "sinv no_extra (set_handle x None st)"
    by (rule sinv_null [OF assms(1)]) (use assms(2) in \<open>auto simp: fresh_at_def\<close>)
  then show ?thesis using None assms(3) by (simp add: shared_copy_construct_def)
next
  case (Some c)
  have "refs_inv no_extra st" using assms(1) by (simp add: sinv_def)
  then obtain cb where cb: "ctrls st c = Some cb" using refs_invD(3) [of no_extra st y c] assms(3) Some by auto
  obtain st1 where st1: "add_ref c st = (Inr (), st1)" "sinv (no_extra(c := 1)) st1" "handles st1 = handles st" "ctrls st1 c \<noteq> None"
    using sinv_add_ref [OF assms(1) cb] by blast
  have "sinv no_extra (set_handle x (Some c) st1)"
    by (rule sinv_attach [OF st1(2,4)]) (use assms(2) st1(3) in \<open>auto simp: fresh_at_def\<close>)
  moreover have "add_ref c (set_handle x (Some c) st) = (Inr (), set_handle x (Some c) st1)"
    using st1(1) cb by (auto simp: add_ref_def set_handle_def)
  ultimately show ?thesis using Some assms(3) by (simp add: shared_copy_construct_def)
qed

lemma owned_same:
  "owned S (objs, w) \<Longrightarrow> block_of objs' = block_of objs \<Longrightarrow> deleters_are give_back fits objs' \<Longrightarrow> owned S (objs', w)"
  by (auto simp: owned_def)

lemma sinv_uniq:
  assumes "sinv E st" "owned (ran (cptr st)) (objs, w)"
  shows "sinv E (st\<lparr>uniq := objs, env := w\<rparr>)"
proof -
  have b: "blocks_inv st" and r: "refs_inv E st" using assms(1) by (simp_all add: sinv_def)
  have cp: "cptr (st\<lparr>uniq := objs, env := w\<rparr>) = cptr st" by (simp add: cptr_def fun_eq_iff)
  have "blocks_inv (st\<lparr>uniq := objs, env := w\<rparr>)"
    by (rule blocks_invI) (use assms(2) blocks_invD [OF b] in \<open>simp_all add: cp\<close>)
  moreover have "refs_inv E (st\<lparr>uniq := objs, env := w\<rparr>)"
    by (rule refs_exchange [OF r, where x = 0 and y = 0]) (use refs_invD(4) [OF r] in auto)
  ultimately show ?thesis by (simp add: sinv_def)
qed

lemma blocks_new:
  assumes inv: "blocks_inv st" and own: "owned (insert p (ran (cptr st))) (objs, env st)" and p: "p \<notin> ran (cptr st)" "p \<noteq> nullptr"
    and n: "fits n"
    and st': "uniq st' = objs" "env st' = env st" "next_ctrl st' = Suc (next_ctrl st)"
      "ctrls st' = (ctrls st)(next_ctrl st \<mapsto> new_control_block p n (Some give_back) loc)"
  shows "blocks_inv st'"
proof -
  note b = blocks_invD [OF inv]
  have none: "cptr st (next_ctrl st) = None" using b(4) [of "next_ctrl st"] by (simp add: cptr_def)
  have cp: "cptr st' = (cptr st)(next_ctrl st \<mapsto> p)"
    by (auto simp: cptr_def st'(4) new_control_block_def)
  show ?thesis
    by (rule blocks_invI)
      (use own none p n b(3,4) inj_add [OF b(2) p(1)] in \<open>auto simp: cp st' new_control_block_def split: if_splits\<close>)
qed

text \<open>A \<open>shared_buffer\<close> is made from what the object \<open>y\<close> owned.\<close>

lemma blocks_raw:
  assumes b: "blocks_inv st"
    and y: "block_of (uniq st) y = (if p = nullptr then None else Some p)" "p \<noteq> nullptr \<Longrightarrow> d = Some give_back \<and> fits n"
    and objs: "block_of objs = (block_of (uniq st))(y := None)" "deleters_are give_back fits objs"
  shows "blocks_inv (snd (shared_raw x p n d loc (st\<lparr>uniq := objs\<rparr>)))" "p \<noteq> nullptr \<Longrightarrow> n \<noteq> 0"
proof -
  note own = blocks_invD(1) [OF b]
  show "blocks_inv (snd (shared_raw x p n d loc (st\<lparr>uniq := objs\<rparr>)))"
  proof (cases "p = nullptr")
    case True
    then have "block_of objs = block_of (uniq st)" using y(1) objs(1) by auto
    then have o: "owned (ran (cptr st)) (objs, env st)" by (rule owned_same [OF own _ objs(2)])
    have cp: "cptr (st\<lparr>uniq := objs\<rparr>) = cptr st" by (simp add: cptr_def fun_eq_iff)
    have "blocks_inv (st\<lparr>uniq := objs\<rparr>)"
      by (rule blocks_invI) (use o blocks_invD [OF b] in \<open>simp_all add: cp\<close>)
    then show ?thesis using True by (simp add: shared_raw_def)
  next
    case False
    then have y': "block_of (uniq st) y = Some p" "d = Some give_back" "fits n" using y by auto
    note l = owned_lend [OF own y'(1) objs]
    let ?c = "next_ctrl st"
    have "blocks_inv (set_handle x (Some ?c) (st\<lparr>uniq := objs, ctrls := (ctrls st)(?c \<mapsto> new_control_block p n d loc), next_ctrl := Suc ?c\<rparr>))"
      using y'(2) by (intro blocks_new [OF b l(1,2) False y'(3)]) simp_all
    then show ?thesis using False fits_pos [OF y'(3)] by (simp add: shared_raw_def)
  qed
qed (use y fits_pos in auto)

lemma shared_raw_ok:
  assumes inv: "sinv no_extra st" and x: "fresh_at x st"
    and y: "block_of (uniq st) y = (if p = nullptr then None else Some p)" "p \<noteq> nullptr \<Longrightarrow> d = Some give_back \<and> fits n"
    and objs: "block_of objs = (block_of (uniq st))(y := None)" "deleters_are give_back fits objs"
  shows "\<exists>st'. shared_raw x p n d loc (st\<lparr>uniq := objs\<rparr>) = (Inr (), st') \<and> sinv no_extra st'"
proof -
  have b: "blocks_inv st" and r: "refs_inv no_extra st" using inv by (simp_all add: sinv_def)
  note raw = blocks_raw(1) [where x = x and loc = loc, OF b y objs] blocks_raw(2) [OF b y objs]
  show ?thesis
  proof (cases "p = nullptr")
    case True
    have "refs_inv no_extra (set_handle x None st)"
      by (rule refs_null [OF r not_holder]) (use x in \<open>auto simp: fresh_at_def\<close>)
    then have "refs_inv no_extra (set_handle x None (st\<lparr>uniq := objs\<rparr>))"
      by (rule refs_exchange [where x = 0 and y = 0]) (use refs_invD(4) [OF r] x in \<open>auto simp: fresh_at_def split: if_splits\<close>)
    then show ?thesis using True raw(1) by (simp add: shared_raw_def sinv_def)
  next
    case False
    let ?c = "next_ctrl st"
    let ?st = "set_handle x (Some ?c) (st\<lparr>uniq := objs, ctrls := (ctrls st)(?c \<mapsto> new_control_block p n d loc), next_ctrl := Suc ?c\<rparr>)"
    have "refs_inv no_extra ?st"
      using blocks_invD(4) [OF b, of ?c] by (intro refs_new [where cb = "new_control_block p n d loc", OF r _ _ x])
        (simp_all add: new_control_block_def)
    then show ?thesis using False raw by (simp add: shared_raw_def sinv_def)
  qed
qed

lemma shared_from_unique_ok:
  assumes inv: "sinv no_extra st" and x: "fresh_at x st" and y: "unique_at (uniq st) y = Some b"
  shows "\<exists>st'. shared_from_unique x y st = (Inr (), st') \<and> sinv no_extra st'"
proof -
  have at: "uniq st y = Some (U b)" using y by (simp add: unique_at_Some)
  have d: "deleters_are give_back fits (uniq st)"
    using ownedD(2) blocks_invD(1) inv unfolding sinv_def by blast
  let ?b = "b\<lparr>data_ptr := nullptr, elem_count := 0, mem_location := Host, del_fn := None\<rparr>"
  have "\<exists>st'. shared_raw x (data_ptr b) (elem_count b) (del_fn b) (mem_location b) (st\<lparr>uniq := (uniq st)(y \<mapsto> U ?b)\<rparr>) = (Inr (), st') \<and>
      sinv no_extra st'"
    by (rule shared_raw_ok [OF inv x, where y = y])
      (use deleters_areD [OF d at] at d in \<open>auto simp: block_of_simps intro!: deleters_intro\<close>)
  then show ?thesis using y by (simp add: shared_from_unique_def release_def shared_from_released_def)
qed

lemma shared_from_released_ok:
  assumes inv: "sinv no_extra st" and x: "fresh_at x st" and y: "uniq st y = Some (R rb)"
  shows "\<exists>st'. shared_from_released x rb (st\<lparr>uniq := (uniq st)(y := None)\<rparr>) = (Inr (), st') \<and> sinv no_extra st'"
proof -
  have d: "deleters_are give_back fits (uniq st)"
    using ownedD(2) blocks_invD(1) inv unfolding sinv_def by blast
  show ?thesis unfolding shared_from_released_def
    by (rule shared_raw_ok [OF inv x, where y = y])
      (use deleters_areD [OF d y] y d in \<open>auto simp: block_of_simps intro!: deleters_intro\<close>)
qed

text \<open>\<open>release\<close> succeeds exactly for an object that points to a control block no other object points to.\<close>

lemma shared_release_ok:
  assumes inv: "sinv no_extra st" and x: "handles st x = Some r"
  obtains "shared_release x st = (Inr None, st)" "\<And>c. r = Some c \<Longrightarrow> holders st c \<noteq> {x}"
  | c cb rb where "r = Some c" "holders st c = {x}" "ctrls st c = Some cb"
    "rb = \<lparr>rb_ptr = cb_ptr cb, rb_count = cb_size cb, rb_deleter = cb_deleter cb, rb_location = cb_location cb\<rparr>"
    "shared_release x st = (Inr (Some rb), set_handle x None (st\<lparr>ctrls := (ctrls st)(c := None)\<rparr>))"
proof (cases r)
  case None
  show ?thesis by (rule that(1)) (use None x in \<open>simp_all add: shared_release_def\<close>)
next
  case (Some c)
  have ri: "refs_inv no_extra st" using inv by (simp add: sinv_def)
  have x: "handles st x = Some (Some c)" using x Some by simp
  then obtain cb where cb: "ctrls st c = Some cb" using refs_invD(3) [OF ri] by blast
  show ?thesis
  proof (cases "ref cb = 1")
    case True
    show ?thesis
      by (rule that(2) [OF Some refs_last(1) [OF ri x cb True] cb refl]) (use x cb True in \<open>simp add: shared_release_def\<close>)
  next
    case False
    have "holders st c \<noteq> {x}"
    proof
      assume "holders st c = {x}"
      then have "unat (ref cb) = 1" using refs_invD(1) [OF ri cb] by simp
      then show False using False by (metis unsigned_1 word_unat_eq_iff)
    qed
    then show ?thesis by (intro that(1)) (use x cb False Some in \<open>simp_all add: shared_release_def\<close>)
  qed
qed

lemma sinv_released:
  assumes inv: "sinv no_extra st" and x: "handles st x = Some (Some c)" and only: "holders st c = {x}"
    and cb: "ctrls st c = Some cb" and z: "uniq st z = None"
    and rb: "rb_ptr rb = cb_ptr cb" "rb_count rb = cb_size cb" "rb_deleter rb = cb_deleter cb"
  shows "sinv no_extra ((set_handle x None (st\<lparr>ctrls := (ctrls st)(c := None)\<rparr>))\<lparr>uniq := (uniq st)(z \<mapsto> R rb)\<rparr>)"
    (is "sinv no_extra ?st")
proof -
  have b: "blocks_inv st" and r: "refs_inv no_extra st" using inv by (simp_all add: sinv_def)
  note cbs = blocks_invD(3) [OF b cb] and ran = blocks_ran [OF b cb]
  have "unat (ref cb) = 1" using refs_invD(1) [OF r cb] only by simp
  then have one: "ref cb = 1" by (metis unsigned_1 word_unat_eq_iff)
  have own: "owned (insert (cb_ptr cb) (ran ((cptr st)(c := None)))) (uniq st, env st)"
    using blocks_invD(1) [OF b] unfolding ran(1) .
  have "owned (ran ((cptr st)(c := None))) ((uniq st)(z \<mapsto> R rb), env st)"
    by (rule owned_borrow [OF own ran(2), where x = z])
      (use z rb cbs ownedD(2) [OF own] in \<open>auto simp: block_of_simps block_of_def intro!: deleters_intro\<close>)
  then have "blocks_inv (st\<lparr>uniq := (uniq st)(z \<mapsto> R rb), env := env st, ctrls := (ctrls st)(c := None)\<rparr>)"
    by (rule blocks_delete [OF b cb])
  then have "blocks_inv ?st" by (rule blocks_cong) simp_all
  moreover have "refs_inv no_extra ?st"
    using refs_last(3) [OF r x cb one]
    by (rule refs_exchange [where x = 0 and y = 0]) (use refs_invD(4) [OF refs_last(3) [OF r x cb one]] in auto)
  ultimately show ?thesis by (simp add: sinv_def)
qed

lemma shared_swap_ok:
  assumes "sinv no_extra st" "handles st x = Some r" "handles st y = Some r'"
  shows "sinv no_extra (set_handle y r (set_handle x r' st))"
  using assms refs_swap [of no_extra st x r y r'] by (simp add: sinv_def)

lemma sinv_step: "shared_step acquire st st' \<Longrightarrow> sinv no_extra st \<Longrightarrow> sinv no_extra st'"
proof (induction rule: shared_step.induct)
  case (On_Unique st objs w)
  then have "owned (ran (cptr st)) (uniq st, env st)" using blocks_invD(1) unfolding sinv_def by blast
  then have "owned (ran (cptr st)) (objs, w)" by (rule owned_step [OF On_Unique(1)])
  then show ?case by (rule sinv_uniq [OF On_Unique(2)])
next
  case (Default x st u st')
  then show ?case using sinv_null [OF Default(3), of x] by (auto simp: shared_default_def fresh_at_def)
next
  case (From_Unique x st y u st')
  then obtain b where "unique_at (uniq st) y = Some b" by (auto simp: shared_from_unique_def split: option.splits)
  then show ?case using shared_from_unique_ok [OF From_Unique(3,1)] From_Unique(2) by fastforce
next
  case (From_Released x st y rb u st')
  then show ?case using shared_from_released_ok [OF From_Released(4,1,2)] by fastforce
next
  case (Copy_Construct x st y u st')
  then obtain r where "handles st y = Some r" by (auto simp: shared_copy_construct_def split: option.splits)
  then show ?case using shared_copy_construct_ok [OF Copy_Construct(3,1)] Copy_Construct(2) by fastforce
next
  case (Copy_Assign x y st u st')
  show ?case
  proof (cases "x = y")
    case True
    then show ?thesis using Copy_Assign by (simp add: shared_copy_assign_def)
  next
    case False
    then obtain r r' where "handles st x = Some r" "handles st y = Some r'"
      using Copy_Assign(1) by (auto simp: shared_copy_assign_def and_then_split release_ctrl_def add_ref_def split: option.splits)
    then show ?thesis using shared_copy_assign_ok [OF Copy_Assign(2)] Copy_Assign(1) by fastforce
  qed
next
  case (Move_Construct_S x st y u st')
  then obtain r where r: "handles st y = Some r" by (auto simp: shared_move_construct_def split: option.splits)
  then show ?case using sinv_move [OF Move_Construct_S(4) _ _ r Move_Construct_S(2)] Move_Construct_S(1,3)
    by (auto simp: shared_move_construct_def fresh_at_def)
next
  case (Move_Assign_S x y st u st')
  show ?case
  proof (cases "x = y")
    case True
    then show ?thesis using Move_Assign_S by (simp add: shared_move_assign_def)
  next
    case False
    then obtain r where r: "handles st x = Some r"
      using Move_Assign_S(1) by (auto simp: shared_move_assign_def and_then_split release_ctrl_def split: option.splits)
    obtain st1 where st1: "release_ctrl x st = (Inr (), st1)" "handles st1 = (handles st)(x \<mapsto> None)"
      by (rule release_ctrl_ok [OF Move_Assign_S(2) r])
    then obtain r' where "handles st y = Some r'"
      using Move_Assign_S(1) False by (auto simp: shared_move_assign_def split: option.splits)
    then show ?thesis using shared_move_assign_ok [OF Move_Assign_S(2) r] Move_Assign_S(1) by fastforce
  qed
next
  case (Reset_S x st u st')
  then obtain r where "handles st x = Some r"
    by (auto simp: shared_reset_def and_then_split release_ctrl_def split: option.splits)
  then show ?case using shared_reset_ok [OF Reset_S(2)] Reset_S(1) by fastforce
next
  case (Destroy_S x st u st')
  then obtain r where r: "handles st x = Some r"
    by (auto simp: shared_destroy_def and_then_split release_ctrl_def split: option.splits)
  obtain st1 where "shared_destroy x st = (Inr (), st1)" "sinv no_extra st1"
    by (rule shared_destroy_ok [OF Destroy_S(2) r])
  then show ?case using Destroy_S(1) by simp
next
  case (Swap_S x y st u st')
  then show ?case using shared_swap_ok [OF Swap_S(2)] by (auto simp: shared_swap_def split: option.splits)
next
  case (Release_Fails x st st')
  then obtain r where r: "handles st x = Some r" by (auto simp: shared_release_def split: option.splits)
  show ?case by (rule shared_release_ok [OF Release_Fails(2) r]) (use Release_Fails in auto)
next
  case (Release_S x st rb st' z)
  then obtain r where r: "handles st x = Some r" by (auto simp: shared_release_def split: option.splits)
  show ?case
  proof (rule shared_release_ok [OF Release_S(3) r])
    fix c cb rb'
    assume a: "r = Some c" "holders st c = {x}" "ctrls st c = Some cb"
      "rb' = \<lparr>rb_ptr = cb_ptr cb, rb_count = cb_size cb, rb_deleter = cb_deleter cb, rb_location = cb_location cb\<rparr>"
      "shared_release x st = (Inr (Some rb'), set_handle x None (st\<lparr>ctrls := (ctrls st)(c := None)\<rparr>))"
    then have "sinv no_extra ((set_handle x None (st\<lparr>ctrls := (ctrls st)(c := None)\<rparr>))\<lparr>uniq := (uniq st)(z \<mapsto> R rb)\<rparr>)"
      using r Release_S(1) by (intro sinv_released [OF Release_S(3) _ a(2,3) Release_S(2)]) simp_all
    then show ?thesis using a(5) Release_S(1) by simp
  qed (use Release_S in simp)
qed

lemma sinv_run: "shared_run acquire st st' \<Longrightarrow> sinv no_extra st \<Longrightarrow> sinv no_extra st'"
  by (induction rule: rtranclp_induct) (auto intro: sinv_step)

lemma sinv_start:
  assumes "sound w" "outstanding w = {}"
  shows "sinv no_extra (sb_start w)"
proof -
  have "cptr (sb_start w) = Map.empty" by (simp add: cptr_def sb_start_def fun_eq_iff)
  then show ?thesis using owned_start [OF assms]
    by (simp add: sinv_def blocks_inv_def refs_inv_def sb_start_def)
qed

end

section \<open>Shared buffers over a pool\<close>

interpretation shared_pool: sized_provider "\<lambda>_ :: unit. allocate" release_block "pool_over B" handed_out "\<lambda>n. n \<noteq> 0" for B
  by unfold_locales simp

lemma shared_pool_run:
  assumes "mempool_new resize sizeT bs bc loc = Inr p0" "resize_ok sizeT resize" "sizeT \<noteq> 0" "unat bs * unat bc < 2 ^ 64"
    "shared_run (\<lambda>_ :: unit. allocate) (sb_start p0) st"
  shows "shared_pool.sinv (blocks p0) (\<lambda>_. 0) st"
proof -
  have "pool_sound p0" "handed_out p0 = {}" "block_size p0 \<noteq> 0" using new_pool_sound [OF assms(1-4)] by auto
  then have "shared_pool.sinv (blocks p0) (\<lambda>_. 0) (sb_start p0)"
    by (intro shared_pool.sinv_start) (simp_all add: pool_over_def)
  then show ?thesis by (rule shared_pool.sinv_run [OF assms(5)])
qed

text \<open>What holds of an object that points to a control block.\<close>

lemma shared_pool_handle:
  assumes inv: "shared_pool.sinv B (\<lambda>_. 0) st" and x: "handles st x = Some (Some c)"
  obtains cb where "ctrls st c = Some cb" "unat (ref cb) = card (holders st c)" "cb_deleter cb = Some release_block"
    "cb_size cb \<noteq> 0" "cb_ptr cb \<in> set B" "cb_ptr cb \<notin> set (free_blocks (env st))" "\<not> mtx_held (env st)" "blocks (env st) = B"
proof -
  have b: "shared_pool.blocks_inv B st" and r: "refs_inv (\<lambda>_. 0) st" using inv by (simp_all add: shared_pool.sinv_def)
  obtain cb where cb: "ctrls st c = Some cb" using refs_invD(3) [OF r x] by blast
  note o = pool.ownedD [OF shared_pool.blocks_invD(1) [OF b]]
  have "cb_ptr cb \<in> ran (cptr st)" using shared_pool.blocks_ran(1) [OF b cb] by simp
  then have "cb_ptr cb \<in> handed_out (env st)" using o(5) by blast
  then show ?thesis
    using that [OF cb] refs_invD(1) [OF r cb] shared_pool.blocks_invD(3) [OF b cb] o(1)
    by (auto simp: handed_out_def pool_over_def pool_sound_def)
qed

text \<open>The blocks of the pool: free, owned by a unique or released buffer, or by a control block.\<close>

lemma pool_blocks_split:
  assumes inv: "shared_pool.blocks_inv (blocks p0) st"
  shows "distinct (free_blocks (env st)) \<and>
    length (free_blocks (env st)) + card (dom (block_of (uniq st))) + card (dom (ctrls st)) = unat (block_count p0)"
proof -
  note o = pool.ownedD [OF shared_pool.blocks_invD(1) [OF inv]]
  have p: "pool_sound (env st)" "blocks (env st) = blocks p0" using o(1) by (simp_all add: pool_over_def)
  let ?F = "set (free_blocks (env st))" and ?U = "ran (block_of (uniq st))" and ?S = "ran (cptr st)"
  have fin: "finite (set (blocks p0))" by simp
  have split: "set (blocks p0) = ?F \<union> (?U \<union> ?S)" "?F \<inter> (?U \<union> ?S) = {}" "?U \<inter> ?S = {}"
    using o(3,5) p by (auto simp: handed_out_def pool_sound_def)
  then have "finite (?U \<union> ?S)" using fin by (metis finite_Un)
  then have "card (set (blocks p0)) = card ?F + (card ?U + card ?S)"
    using split by (simp add: card_Un_disjoint)
  moreover have "card ?U = card (dom (block_of (uniq st)))" using card_outstanding [OF o(4)] by simp
  moreover have "dom (cptr st) = dom (ctrls st)" by (auto simp: cptr_def)
  then have "card ?S = card (dom (ctrls st))"
    using card_outstanding [OF shared_pool.blocks_invD(2) [OF inv]] by simp
  moreover have dist: "distinct (free_blocks (env st))" "distinct (blocks p0)" using p by (auto simp: pool_sound_def)
  moreover have "length (blocks p0) = unat (block_count p0)" by (simp add: blocks_def)
  ultimately show ?thesis by (simp add: distinct_card)
qed

text \<open>In every state a program over shared, unique and released buffers of a pool can reach:
  \<open>use_count\<close> of a \<open>shared_buffer\<close> that points to a control block is the number of \<open>shared_buffer\<close>
  objects that point to it, its data is a block of the pool that is not free, and its size is not 0.
  No observer reads a deleted control block.\<close>

theorem shared_use_count:
  assumes "mempool_new resize sizeT bs bc loc = Inr p0" "resize_ok sizeT resize" "sizeT \<noteq> 0" "unat bs * unat bc < 2 ^ 64"
    "shared_run (\<lambda>_ :: unit. allocate) (sb_start p0) st" "handles st x = Some (Some c)"
  shows "use_count x st = Inr (of_nat (card {y. handles st y = Some (Some c)})) \<and>
    (\<exists>q n. shared_data x st = Inr q \<and> q \<in> set (blocks p0) \<and> q \<notin> set (free_blocks (env st)) \<and>
       shared_size x st = Inr n \<and> n \<noteq> 0)"
proof -
  obtain cb where cb: "ctrls st c = Some cb" "unat (ref cb) = card (holders st c)" "cb_size cb \<noteq> 0"
    "cb_ptr cb \<in> set (blocks p0)" "cb_ptr cb \<notin> set (free_blocks (env st))"
    by (rule shared_pool_handle [OF shared_pool_run [OF assms(1-5)] assms(6)])
  have "ref cb = of_nat (card {y. handles st y = Some (Some c)})"
    unfolding holders_def [symmetric] cb(2) [symmetric] by simp
  then show ?thesis using cb assms(6)
    by (simp add: use_count_def shared_data_def shared_size_def read_ctrl_def)
qed

text \<open>C10. In every such state, destroying a \<open>shared_buffer\<close> returns its block to the free list of the
  pool exactly when no other object points to the control block, and leaves the pool alone
  otherwise; and \<open>release\<close> hands the block over with its deleter under exactly the same condition,
  returns \<open>nullopt\<close> and changes nothing otherwise.\<close>

theorem shared_last_owner:
  assumes "mempool_new resize sizeT bs bc loc = Inr p0" "resize_ok sizeT resize" "sizeT \<noteq> 0" "unat bs * unat bc < 2 ^ 64"
    "shared_run (\<lambda>_ :: unit. allocate) (sb_start p0) st" "handles st x = Some (Some c)"
  shows "\<exists>st1 q. shared_destroy x st = (Inr (), st1) \<and> handles st1 x = None \<and> shared_data x st = Inr q \<and>
    (if {y. handles st y = Some (Some c)} = {x}
     then free_blocks (env st1) = free_blocks (env st) @ [q] \<and>
       (\<exists>rb st2. shared_release x st = (Inr (Some rb), st2) \<and> rb_ptr rb = q \<and> rb_deleter rb = Some release_block \<and>
          handles st2 x = Some None \<and> ctrls st2 c = None \<and> env st2 = env st)
     else env st1 = env st \<and> shared_release x st = (Inr None, st))"
proof -
  note inv = shared_pool_run [OF assms(1-5)]
  obtain cb where cb: "ctrls st c = Some cb" "cb_deleter cb = Some release_block" "\<not> mtx_held (env st)"
    by (rule shared_pool_handle [OF inv assms(6)])
  obtain st1 where st1: "shared_destroy x st = (Inr (), st1)" "handles st1 = (handles st)(x := None)"
    "case Some c of None \<Rightarrow> env st1 = env st
     | Some c \<Rightarrow> if holders st c = {x} then release_block (cb_ptr (the (ctrls st c))) (env st) = (Inr (), env st1)
                else env st1 = env st"
    by (rule shared_pool.shared_destroy_ok [OF inv assms(6)])
  have d: "shared_data x st = Inr (cb_ptr cb)" using cb assms(6) by (simp add: shared_data_def read_ctrl_def)
  show ?thesis
  proof (rule shared_pool.shared_release_ok [OF inv assms(6)])
    assume rel: "shared_release x st = (Inr None, st)" and "\<And>d. Some c = Some d \<Longrightarrow> holders st d \<noteq> {x}"
    then have "{y. handles st y = Some (Some c)} \<noteq> {x}" unfolding holders_def by blast
    then show ?thesis using st1 d rel by (simp add: holders_def)
  next
    fix c' cb' rb
    assume a: "Some c = Some c'" "holders st c' = {x}" "ctrls st c' = Some cb'"
      "rb = \<lparr>rb_ptr = cb_ptr cb', rb_count = cb_size cb', rb_deleter = cb_deleter cb', rb_location = cb_location cb'\<rparr>"
      "shared_release x st = (Inr (Some rb), set_handle x None (st\<lparr>ctrls := (ctrls st)(c' := None)\<rparr>))"
    then have "{y. handles st y = Some (Some c)} = {x}" by (simp add: holders_def)
    moreover have e: "(env st)\<lparr>free_blocks := free_blocks (env st) @ [cb_ptr cb]\<rparr> = env st1"
      using st1(3) a cb by (auto simp: release_block_free)
    then have "free_blocks (env st1) = free_blocks (env st) @ [cb_ptr cb]" unfolding e [symmetric] by simp
    ultimately show ?thesis using st1(1,2) d a cb by simp
  qed
qed

text \<open>In every such state each block of the pool is free or owned by exactly one unique or released
  buffer or by exactly one control block, and every control block has an object that points to it; so
  when no object is alive all blocks are free again.\<close>

theorem shared_pool_accounted:
  assumes "mempool_new resize sizeT bs bc loc = Inr p0" "resize_ok sizeT resize" "sizeT \<noteq> 0" "unat bs * unat bc < 2 ^ 64"
    "shared_run (\<lambda>_ :: unit. allocate) (sb_start p0) st"
  shows "distinct (free_blocks (env st)) \<and>
    length (free_blocks (env st)) + card (dom (block_of (uniq st))) + card (dom (ctrls st)) = unat (block_count p0) \<and>
    (\<forall>c \<in> dom (ctrls st). \<exists>x. handles st x = Some (Some c)) \<and>
    ((\<forall>x. handles st x = None) \<and> (\<forall>y. uniq st y = None) \<longrightarrow> length (free_blocks (env st)) = unat (block_count p0))"
proof -
  note inv = shared_pool_run [OF assms]
  have b: "shared_pool.blocks_inv (blocks p0) st" and r: "refs_inv (\<lambda>_. 0) st"
    using inv by (simp_all add: shared_pool.sinv_def)
  have dist: "distinct (free_blocks (env st))"
    and count: "length (free_blocks (env st)) + card (dom (block_of (uniq st))) + card (dom (ctrls st)) = unat (block_count p0)"
    using pool_blocks_split [OF b] by blast+
  have held: "\<exists>x. handles st x = Some (Some c)" if c: "c \<in> dom (ctrls st)" for c
  proof -
    obtain cb where "ctrls st c = Some cb" using c by blast
    then have "0 < card (holders st c)" using refs_invD(2) [OF r] by fastforce
    then have "holders st c \<noteq> {}" by (auto simp: card_gt_0_iff)
    then show ?thesis by (auto simp: holders_def)
  qed
  have "length (free_blocks (env st)) = unat (block_count p0)"
    if none: "(\<forall>x. handles st x = None) \<and> (\<forall>y. uniq st y = None)"
  proof -
    have "dom (ctrls st) = {}" using held none by fastforce
    moreover have "dom (block_of (uniq st)) = {}" using none by (auto simp: block_of_def)
    ultimately show ?thesis using count by simp
  qed
  then show ?thesis using dist count held by blast
qed

section \<open>Concrete inputs\<close>

text \<open>The object at 8 takes a block of the sample pool from the unique buffer at 16 and is copied to 24.\<close>

definition sample_shared :: "pool sb_state" where
  "sample_shared = \<lparr>handles = [8 \<mapsto> Some 0, 24 \<mapsto> Some 0],
     ctrls = [0 \<mapsto> (new_control_block 4096 2 (Some release_block) Device)\<lparr>ref := 2\<rparr>], next_ctrl = 1,
     uniq = [16 \<mapsto> U empty_unique], env = sample_pool\<lparr>free_blocks := [4104, 4112]\<rparr>\<rparr>"

lemma sample_shared_run: "shared_run (\<lambda>_ :: unit. allocate) (sb_start sample_pool) sample_shared"
proof -
  let ?b = "unique_raw 4096 2 (Some release_block) Device"
  let ?p = "sample_pool\<lparr>free_blocks := [4104, 4112]\<rparr>"
  let ?s1 = "(sb_start sample_pool)\<lparr>uniq := (Map.empty)(16 \<mapsto> U ?b), env := ?p\<rparr>"
  let ?s2 = "sample_shared\<lparr>handles := [8 \<mapsto> Some 0], ctrls := [0 \<mapsto> new_control_block 4096 2 (Some release_block) Device]\<rparr>"
  have "buf_step (\<lambda>_ :: unit. allocate) (uniq (sb_start sample_pool), env (sb_start sample_pool)) ((Map.empty)(16 \<mapsto> U ?b), ?p)"
    using Acquire [of Map.empty 16 "\<lambda>_ :: unit. allocate" "()" sample_pool ?b ?p]
    by (simp add: sb_start_def allocate_cases sample_pool_def)
  then have s1: "shared_step (\<lambda>_ :: unit. allocate) (sb_start sample_pool) ?s1" by (rule On_Unique)
  have "shared_from_unique 8 16 ?s1 = (Inr (), ?s2)"
    by (simp add: shared_from_unique_def unique_at_def release_def shared_from_released_def shared_raw_def
        unique_raw_def sample_shared_def sb_start_def set_handle_def empty_unique_def)
  then have s2: "shared_step (\<lambda>_ :: unit. allocate) ?s1 ?s2"
    by (rule From_Unique [rotated]) (simp add: fresh_at_def sb_start_def)
  have "shared_copy_construct 24 8 ?s2 = (Inr (), sample_shared)"
    by (simp add: shared_copy_construct_def add_ref_def set_handle_def sample_shared_def new_control_block_def)
  then have s3: "shared_step (\<lambda>_ :: unit. allocate) ?s2 sample_shared"
    by (rule Copy_Construct [rotated]) (simp add: fresh_at_def)
  show ?thesis using s1 s2 s3 by (meson converse_rtranclp_into_rtranclp rtranclp.rtrancl_refl)
qed

lemma sample_shared_at: "handles sample_shared 8 = Some (Some 0)"
  by (simp add: sample_shared_def)

lemma sample_shared_holders: "{y. handles sample_shared y = Some (Some 0)} = {8, 24}"
  by (auto simp: sample_shared_def)

theorem shared_use_count_witness: "use_count 8 sample_shared = Inr 2 \<and> shared_size 8 sample_shared \<noteq> Inr 0"
proof -
  have "use_count 8 sample_shared = Inr (of_nat (card {y. handles sample_shared y = Some (Some 0)})) \<and>
    (\<exists>q n. shared_data 8 sample_shared = Inr q \<and> q \<in> set (blocks sample_pool) \<and>
       q \<notin> set (free_blocks (env sample_shared)) \<and> shared_size 8 sample_shared = Inr n \<and> n \<noteq> 0)"
    by (rule shared_use_count [OF sample_new sample_resize_ok _ _ sample_shared_run sample_shared_at]) simp_all
  then show ?thesis unfolding sample_shared_holders by auto
qed

theorem shared_last_owner_witness:
  "\<exists>st1. shared_destroy 8 sample_shared = (Inr (), st1) \<and> env st1 = env sample_shared \<and>
     shared_release 8 sample_shared = (Inr None, sample_shared)"
proof -
  have "{8, 24 :: addr} \<noteq> {8}" by auto
  then show ?thesis
    using shared_last_owner [OF sample_new sample_resize_ok _ _ sample_shared_run sample_shared_at]
    unfolding sample_shared_holders by auto
qed

theorem shared_pool_accounted_witness:
  "length (free_blocks (env sample_shared)) + card (dom (block_of (uniq sample_shared))) + card (dom (ctrls sample_shared)) = 3"
proof -
  have "length (free_blocks (env sample_shared)) + card (dom (block_of (uniq sample_shared))) + card (dom (ctrls sample_shared)) =
      unat (block_count sample_pool)"
    using shared_pool_accounted [OF sample_new sample_resize_ok _ _ sample_shared_run] by simp
  then show ?thesis by (simp add: sample_at)
qed

end
