(* ===== verification/Shared_Buffer_Threads.thy ===== *)
theory Shared_Buffer_Threads
  imports Shared_Buffer_Props
begin

text \<open>
  \<open>shared_buffer\<close> used by several threads.  The operations of \<open>Shared_Buffer\<close> are cut into steps, one per access to
  the reference count and one each for calling the deleter and for deleting the control block; accesses to the object itself are part of the step
  beside them, because the class, like \<open>std::shared_ptr\<close>, lets threads share control blocks and not
  objects: while an operation works on an object no other may write it or, where it is written, read it.
  So an operation in progress is named by the object it works on, whatever thread runs it, and any number
  of them may be in progress.
\<close>

section \<open>Where an operation is\<close>

text \<open>What follows \<open>release_ctrl\<close>: nothing (\<open>reset\<close>), \<open>ctrl_ = new_ctrl\<close>, taking the pointer of \<open>other\<close>, or
  the end of the object.\<close>

datatype sb_after = Then_Null | Then_Store "ctrl option" | Then_Move addr | Then_Dispose

datatype sb_pc =
    SB_Idle
  | SB_Lent
  | SB_Add addr
  | SB_Add_New addr ctrl
  | SB_Sub sb_after
  | SB_Close sb_after
  | SB_Delete sb_after
  | SB_CAS
  | SB_Take
  | SB_Error error

record 'w sb_threads =
  sb :: "'w sb_state"
  pcs :: "addr \<Rightarrow> sb_pc"

definition goto :: "addr \<Rightarrow> sb_pc \<Rightarrow> 'w sb_threads \<Rightarrow> 'w sb_threads" where
  "goto x pc s = s\<lparr>pcs := (pcs s)(x := pc)\<rparr>"

text \<open>The operation on \<open>x\<close> goes on when \<open>r\<close> is a value, and ends in an error otherwise.\<close>

fun sb_try :: "unit result \<times> 'w sb_state \<Rightarrow> addr \<Rightarrow> ('w sb_threads \<Rightarrow> 'w sb_threads) \<Rightarrow> 'w sb_threads \<Rightarrow> 'w sb_threads" where
  "sb_try (Inr u, st) x next s = next (s\<lparr>sb := st\<rparr>)"
| "sb_try (Inl e, st) x next s = goto x (SB_Error e) (s\<lparr>sb := st\<rparr>)"

section \<open>Beginning an operation\<close>

text \<open>\<open>release_ctrl\<close> has set \<open>ctrl_\<close> to null and returned.\<close>

fun sb_finish :: "addr \<Rightarrow> sb_after \<Rightarrow> 'w sb_threads \<Rightarrow> 'w sb_threads" where
  "sb_finish x Then_Null s = goto x SB_Idle (s\<lparr>sb := set_handle x None (sb s)\<rparr>)"
| "sb_finish x (Then_Store r) s = goto x SB_Idle (s\<lparr>sb := set_handle x r (sb s)\<rparr>)"
| "sb_finish x (Then_Move y) s =
     (case handles (sb s) y of
        None \<Rightarrow> goto x (SB_Error Ill_Formed) s
      | Some r \<Rightarrow> goto y SB_Idle (goto x SB_Idle (s\<lparr>sb := set_handle y None (set_handle x r (sb s))\<rparr>)))"
| "sb_finish x Then_Dispose s = goto x SB_Idle (s\<lparr>sb := (sb s)\<lparr>handles := (handles (sb s))(x := None)\<rparr>\<rparr>)"

text \<open>\<open>release_ctrl\<close> is called; with no control block it returns at once.\<close>

definition sb_let_go :: "addr \<Rightarrow> sb_after \<Rightarrow> 'w sb_threads \<Rightarrow> 'w sb_threads" where
  "sb_let_go x a s =
     (case handles (sb s) x of
        None \<Rightarrow> goto x (SB_Error Ill_Formed) s
      | Some None \<Rightarrow> sb_finish x a s
      | Some (Some c) \<Rightarrow> goto x (SB_Sub a) s)"

datatype sb_operation = Call_Copy addr | Call_Copy_Assign addr | Call_Move_Assign addr | Call_Reset | Call_Destroy | Call_Release

fun sb_call :: "addr \<Rightarrow> sb_operation \<Rightarrow> 'w sb_threads \<Rightarrow> 'w sb_threads" where
  "sb_call x (Call_Copy y) s =
     (case handles (sb s) y of
        None \<Rightarrow> goto x (SB_Error Ill_Formed) s
      | Some None \<Rightarrow> s\<lparr>sb := set_handle x None (sb s)\<rparr>
      | Some (Some c) \<Rightarrow> goto x (SB_Add y) (s\<lparr>sb := set_handle x (Some c) (sb s)\<rparr>))"
| "sb_call x (Call_Copy_Assign y) s =
     (if x = y then s
      else case handles (sb s) y of
        None \<Rightarrow> goto x (SB_Error Ill_Formed) s
      | Some None \<Rightarrow> sb_let_go x (Then_Store None) s
      | Some (Some c) \<Rightarrow> goto x (SB_Add_New y c) s)"
| "sb_call x (Call_Move_Assign y) s = (if x = y then s else sb_let_go x (Then_Move y) (goto y SB_Lent s))"
| "sb_call x Call_Reset s = sb_let_go x Then_Null s"
| "sb_call x Call_Destroy s = sb_let_go x Then_Dispose s"
| "sb_call x Call_Release s =
     (case handles (sb s) x of
        None \<Rightarrow> goto x (SB_Error Ill_Formed) s
      | Some None \<Rightarrow> s
      | Some (Some c) \<Rightarrow> goto x SB_CAS s)"

section \<open>A step of the operation on an object\<close>

text \<open>The control block of \<open>x\<close>, which must not have been deleted, is accessed.\<close>

definition with_ctrl ::
  "addr \<Rightarrow> (ctrl \<Rightarrow> 'w control_block \<Rightarrow> 'w sb_threads \<Rightarrow> 'w sb_threads) \<Rightarrow> 'w sb_threads \<Rightarrow> 'w sb_threads" where
  "with_ctrl x f s =
     (case handles (sb s) x of
        Some (Some c) \<Rightarrow> (case ctrls (sb s) c of None \<Rightarrow> goto x (SB_Error UB) s | Some cb \<Rightarrow> f c cb s)
      | _ \<Rightarrow> goto x (SB_Error UB) s)"

definition put_ctrl :: "ctrl \<Rightarrow> 'w control_block option \<Rightarrow> 'w sb_threads \<Rightarrow> 'w sb_threads" where
  "put_ctrl c r s = s\<lparr>sb := (sb s)\<lparr>ctrls := (ctrls (sb s))(c := r)\<rparr>\<rparr>"

definition sb_step :: "addr \<Rightarrow> 'w sb_threads \<Rightarrow> 'w sb_threads" where
  "sb_step x s =
     (case pcs s x of
        SB_Add y \<Rightarrow> with_ctrl x (\<lambda>c cb s. goto x SB_Idle (put_ctrl c (Some (cb\<lparr>ref := ref cb + 1\<rparr>)) s)) s
      | SB_Add_New y c \<Rightarrow> sb_try (add_ref c (sb s)) x (sb_let_go x (Then_Store (Some c))) s
      | SB_Sub a \<Rightarrow>
          with_ctrl x (\<lambda>c cb s.
            let prev = ref cb; s = put_ctrl c (Some (cb\<lparr>ref := ref cb - 1\<rparr>)) s in
            if prev = 1 then goto x (SB_Close a) s else sb_finish x a s) s
      | SB_Close a \<Rightarrow>
          with_ctrl x (\<lambda>c cb s.
            case call_deleter (cb_deleter cb) (cb_ptr cb) (env (sb s)) of
              (Inl e, w) \<Rightarrow> goto x (SB_Error e) (s\<lparr>sb := (sb s)\<lparr>env := w\<rparr>\<rparr>)
            | (Inr _, w) \<Rightarrow> goto x (SB_Delete a) (s\<lparr>sb := (sb s)\<lparr>env := w\<rparr>\<rparr>)) s
      | SB_Delete a \<Rightarrow> with_ctrl x (\<lambda>c cb s. sb_finish x a (put_ctrl c None s)) s
      | SB_CAS \<Rightarrow>
          with_ctrl x (\<lambda>c cb s.
            if ref cb = 1 then goto x SB_Take (put_ctrl c (Some (cb\<lparr>ref := 0\<rparr>)) s) else goto x SB_Idle s) s
      | _ \<Rightarrow> s)"

text \<open>The end of a \<open>release\<close> that has consumed the count: the fields are read, the control block is deleted, and
  the caller's object \<open>z\<close> is what \<open>release\<close> returns.\<close>

definition sb_take :: "addr \<Rightarrow> addr \<Rightarrow> 'w sb_threads \<Rightarrow> 'w sb_threads" where
  "sb_take x z s =
     with_ctrl x (\<lambda>c cb s. goto x SB_Idle (put_ctrl c None (s\<lparr>sb := set_handle x None ((sb s)\<lparr>uniq := (uniq (sb s))(z \<mapsto>
       R \<lparr>rb_ptr = cb_ptr cb, rb_count = cb_size cb, rb_deleter = cb_deleter cb, rb_location = cb_location cb\<rparr>)\<rparr>)\<rparr>))) s"

section \<open>Threads\<close>

text \<open>The objects an operation reads while it goes on; and when an object may be read, or written, by a new one.\<close>

fun sb_reads :: "sb_pc \<Rightarrow> addr option" where
  "sb_reads (SB_Add y) = Some y"
| "sb_reads (SB_Add_New y c) = Some y"
| "sb_reads _ = None"

definition readable :: "'w sb_threads \<Rightarrow> addr \<Rightarrow> bool" where
  "readable s y \<longleftrightarrow> handles (sb s) y \<noteq> None \<and> pcs s y = SB_Idle"

definition writable :: "'w sb_threads \<Rightarrow> addr \<Rightarrow> bool" where
  "writable s x \<longleftrightarrow> readable s x \<and> (\<forall>z. sb_reads (pcs s z) \<noteq> Some x)"

fun may_call :: "'w sb_threads \<Rightarrow> addr \<Rightarrow> sb_operation \<Rightarrow> bool" where
  "may_call s x (Call_Copy y) = (fresh_at x (sb s) \<and> readable s y)"
| "may_call s x (Call_Copy_Assign y) = (writable s x \<and> readable s y)"
| "may_call s x (Call_Move_Assign y) = (writable s x \<and> writable s y)"
| "may_call s x call = writable s x"

text \<open>The operations that do not touch a reference count are one step each, as in \<open>Shared_Buffer\<close>.\<close>

inductive sbt_step ::
  "('p \<Rightarrow> 'w \<Rightarrow> 'w unique_buffer result \<times> 'w) \<Rightarrow> 'w sb_threads \<Rightarrow> 'w sb_threads \<Rightarrow> bool" for acquire where
  T_Unique: "buf_step acquire (uniq (sb s), env (sb s)) (objs, w) \<Longrightarrow>
    sbt_step acquire s (s\<lparr>sb := (sb s)\<lparr>uniq := objs, env := w\<rparr>\<rparr>)"
| T_Default: "fresh_at x (sb s) \<Longrightarrow> shared_default x (sb s) = (Inr u, st) \<Longrightarrow> sbt_step acquire s (s\<lparr>sb := st\<rparr>)"
| T_From_Unique: "fresh_at x (sb s) \<Longrightarrow> shared_from_unique x y (sb s) = (Inr u, st) \<Longrightarrow> sbt_step acquire s (s\<lparr>sb := st\<rparr>)"
| T_From_Released: "fresh_at x (sb s) \<Longrightarrow> uniq (sb s) y = Some (R rb) \<Longrightarrow>
    shared_from_released x rb ((sb s)\<lparr>uniq := (uniq (sb s))(y := None)\<rparr>) = (Inr u, st) \<Longrightarrow> sbt_step acquire s (s\<lparr>sb := st\<rparr>)"
| T_Move_Construct: "fresh_at x (sb s) \<Longrightarrow> writable s y \<Longrightarrow> shared_move_construct x y (sb s) = (Inr u, st) \<Longrightarrow>
    sbt_step acquire s (s\<lparr>sb := st\<rparr>)"
| T_Swap: "writable s x \<Longrightarrow> writable s y \<Longrightarrow> shared_swap x y (sb s) = (Inr u, st) \<Longrightarrow> sbt_step acquire s (s\<lparr>sb := st\<rparr>)"
| T_Call: "may_call s x call \<Longrightarrow> sbt_step acquire s (sb_call x call s)"
| T_Step: "sbt_step acquire s (sb_step x s)"
| T_Take: "pcs s x = SB_Take \<Longrightarrow> uniq (sb s) z = None \<Longrightarrow> sbt_step acquire s (sb_take x z s)"

abbreviation sbt_run ::
  "('p \<Rightarrow> 'w \<Rightarrow> 'w unique_buffer result \<times> 'w) \<Rightarrow> 'w sb_threads \<Rightarrow> 'w sb_threads \<Rightarrow> bool" where
  "sbt_run acquire \<equiv> (sbt_step acquire)\<^sup>*\<^sup>*"

definition sbt_start :: "'w \<Rightarrow> 'w sb_threads" where
  "sbt_start w = \<lparr>sb = sb_start w, pcs = \<lambda>_. SB_Idle\<rparr>"

end
