(* ===== verification/Shared_Threads_Props.thy ===== *)
theory Shared_Threads_Props
  imports Shared_Buffer_Threads
begin

text \<open>
  Several threads on shared buffers: the invariant between two steps, whatever operations are in
  progress.  An operation is seen as the operations of \<open>Shared_Buffer\<close> see one that is over or has not begun: the
  object it works on counts as an owner until the reference count says otherwise, and a reference that it
  has taken and not stored counts as one more.
\<close>

section \<open>What the other operations see\<close>

fun counted :: "sb_pc \<Rightarrow> bool" where
  "counted (SB_Add y) = False" | "counted (SB_Close a) = False" | "counted (SB_Delete a) = False"
| "counted SB_Take = False" | "counted _ = True"

text \<open>The count of its control block is 0, so no other operation refers to it; the block it owned is gone.\<close>

fun spent :: "sb_pc \<Rightarrow> bool" where
  "spent (SB_Close a) = True" | "spent (SB_Delete a) = True" | "spent SB_Take = True" | "spent _ = False"

fun deleting :: "sb_pc \<Rightarrow> bool" where
  "deleting (SB_Delete a) = True" | "deleting _ = False"

fun pending :: "sb_after \<Rightarrow> ctrl option" where
  "pending (Then_Store r) = r" | "pending _ = None"

fun extra :: "sb_pc \<Rightarrow> ctrl option" where
  "extra (SB_Sub a) = pending a" | "extra (SB_Close a) = pending a" | "extra (SB_Delete a) = pending a" | "extra _ = None"

definition visible :: "'w sb_threads \<Rightarrow> addr \<Rightarrow> ctrl option option" where
  "visible s x = (if counted (pcs s x) then handles (sb s) x else map_option (\<lambda>_. None) (handles (sb s) x))"

definition hidden :: "(sb_pc \<Rightarrow> bool) \<Rightarrow> 'w sb_threads \<Rightarrow> ctrl \<Rightarrow> bool" where
  "hidden P s c \<longleftrightarrow> (\<exists>x. handles (sb s) x = Some (Some c) \<and> P (pcs s x))"

definition without :: "(sb_pc \<Rightarrow> bool) \<Rightarrow> 'w sb_threads \<Rightarrow> ctrl \<Rightarrow> 'w control_block option" where
  "without P s c = (if hidden P s c then None else ctrls (sb s) c)"

definition seen :: "'w sb_threads \<Rightarrow> 'w sb_state" where
  "seen s = (sb s)\<lparr>handles := visible s, ctrls := without spent s\<rparr>"

text \<open>The references operations other than that on \<open>x\<close> have taken and not stored.\<close>

definition others :: "addr \<Rightarrow> 'w sb_threads \<Rightarrow> ctrl \<Rightarrow> nat" where
  "others x s c = card {z. z \<noteq> x \<and> extra (pcs s z) = Some c}"

definition one_if :: "ctrl option \<Rightarrow> ctrl \<Rightarrow> nat" where
  "one_if r c = (if r = Some c then 1 else 0)"

definition taken :: "'w sb_threads \<Rightarrow> ctrl \<Rightarrow> nat" where
  "taken s c = card {z. extra (pcs s z) = Some c}"

lemma seen_simps [simp]:
  "handles (seen s) = visible s" "ctrls (seen s) = without spent s" "next_ctrl (seen s) = next_ctrl (sb s)"
  "uniq (seen s) = uniq (sb s)" "env (seen s) = env (sb s)"
  by (simp_all add: seen_def)

lemma goto_simps [simp]:
  "sb (goto x pc s) = sb s" "pcs (goto x pc s) = (pcs s)(x := pc)"
  by (simp_all add: goto_def)

lemma put_ctrl_simps [simp]:
  "sb (put_ctrl c r s) = (sb s)\<lparr>ctrls := (ctrls (sb s))(c := r)\<rparr>" "pcs (put_ctrl c r s) = pcs s"
  by (simp_all add: put_ctrl_def)

lemma taken_split: "taken s c = others x s c + one_if (extra (pcs s x)) c"
proof (cases "extra (pcs s x) = Some c")
  case True
  then have "{z. extra (pcs s z) = Some c} = insert x {z. z \<noteq> x \<and> extra (pcs s z) = Some c}" by auto
  then show ?thesis using True by (simp add: taken_def others_def one_if_def)
next
  case False
  then have "{z. extra (pcs s z) = Some c} = {z. z \<noteq> x \<and> extra (pcs s z) = Some c}" by auto
  then show ?thesis using False by (simp add: taken_def others_def one_if_def)
qed

lemma others_cong: "(\<And>z. z \<noteq> x \<Longrightarrow> extra (pcs s' z) = extra (pcs s z)) \<Longrightarrow> others x s' = others x s"
  by (auto simp: others_def fun_eq_iff intro!: arg_cong [where f = card])

lemma one_if_None [simp]: "one_if None c = 0" and one_if_Some: "one_if (Some c) d = (if c = d then 1 else 0)"
  by (simp_all add: one_if_def)

lemma refs_cong:
  assumes "refs_inv E st" "handles st' = handles st" "ctrls st' = ctrls st" "E' = E"
  shows "refs_inv E' st'"
  using assms holders_cong [OF assms(2)] by (simp add: refs_inv_def)

section \<open>Reference counts\<close>

fun mover :: "sb_pc \<Rightarrow> addr option" where
  "mover (SB_Sub (Then_Move y)) = Some y" | "mover (SB_Close (Then_Move y)) = Some y"
| "mover (SB_Delete (Then_Move y)) = Some y" | "mover _ = None"

text \<open>What holds of an object according to the operation on it.\<close>

fun pc_ok :: "'w sb_threads \<Rightarrow> addr \<Rightarrow> sb_pc \<Rightarrow> bool" where
  "pc_ok s x SB_Idle = True"
| "pc_ok s x SB_Lent = (handles (sb s) x \<noteq> None)"
| "pc_ok s x (SB_Add y) = (\<exists>c. handles (sb s) x = Some (Some c) \<and> handles (sb s) y = Some (Some c) \<and> pcs s y = SB_Idle)"
| "pc_ok s x (SB_Add_New y c) = (handles (sb s) x \<noteq> None \<and> handles (sb s) y = Some (Some c) \<and> pcs s y = SB_Idle)"
| "pc_ok s x (SB_Sub a) = (\<exists>c. handles (sb s) x = Some (Some c))"
| "pc_ok s x (SB_Close a) = (\<exists>c. handles (sb s) x = Some (Some c) \<and> ctrls (sb s) c \<noteq> None)"
| "pc_ok s x (SB_Delete a) = (\<exists>c. handles (sb s) x = Some (Some c) \<and> ctrls (sb s) c \<noteq> None)"
| "pc_ok s x SB_CAS = (\<exists>c. handles (sb s) x = Some (Some c))"
| "pc_ok s x SB_Take = (\<exists>c. handles (sb s) x = Some (Some c) \<and> ctrls (sb s) c \<noteq> None)"
| "pc_ok s x (SB_Error e) = False"

definition pcs_inv :: "'w sb_threads \<Rightarrow> bool" where
  "pcs_inv s \<longleftrightarrow>
     (\<forall>x. pc_ok s x (pcs s x)) \<and>
     (\<forall>x y. mover (pcs s x) = Some y \<longrightarrow> pcs s y = SB_Lent) \<and>
     (\<forall>x x' y. mover (pcs s x) = Some y \<longrightarrow> mover (pcs s x') = Some y \<longrightarrow> x = x') \<and>
     (\<forall>x y c. handles (sb s) x = Some (Some c) \<longrightarrow> handles (sb s) y = Some (Some c) \<longrightarrow>
        spent (pcs s x) \<longrightarrow> spent (pcs s y) \<longrightarrow> x = y)"

definition refs_ok :: "'w sb_threads \<Rightarrow> bool" where
  "refs_ok s \<longleftrightarrow> refs_inv (taken s) (seen s) \<and> (\<forall>x c. extra (pcs s x) = Some c \<longrightarrow> without spent s c \<noteq> None)"

lemma refs_okI:
  assumes "refs_inv (\<lambda>c. others x s c + one_if (extra (pcs s x)) c) (seen s)"
    "\<And>z c. z \<noteq> x \<Longrightarrow> extra (pcs s z) = Some c \<Longrightarrow> without spent s c \<noteq> None"
    "\<And>c. extra (pcs s x) = Some c \<Longrightarrow> without spent s c \<noteq> None"
  shows "refs_ok s"
proof -
  have "taken s = (\<lambda>c. others x s c + one_if (extra (pcs s x)) c)" by (rule ext) (rule taken_split)
  moreover have "without spent s c \<noteq> None" if "extra (pcs s z) = Some c" for z c
    using assms(2) [of z c] assms(3) [of c] that by (cases "z = x") auto
  ultimately show ?thesis using assms(1) by (simp add: refs_ok_def)
qed

lemma refs_okD:
  assumes "refs_ok s"
  shows "refs_inv (\<lambda>c. others x s c + one_if (extra (pcs s x)) c) (seen s)"
    "extra (pcs s z) = Some c \<Longrightarrow> without spent s c \<noteq> None"
proof -
  have "taken s = (\<lambda>c. others x s c + one_if (extra (pcs s x)) c)" by (rule ext) (rule taken_split)
  then show "refs_inv (\<lambda>c. others x s c + one_if (extra (pcs s x)) c) (seen s)" using assms by (simp add: refs_ok_def)
qed (use assms in \<open>simp add: refs_ok_def\<close>)

lemma refs_ok_cong:
  assumes "refs_ok s" "visible s' = visible s" "without spent s' = without spent s" "\<And>z. extra (pcs s' z) = extra (pcs s z)"
  shows "refs_ok s'"
proof -
  have "taken s' = taken s" by (simp add: taken_def fun_eq_iff assms(4))
  moreover have "refs_inv (taken s) (seen s')"
    by (rule refs_cong [where st = "seen s" and E = "taken s"]) (use assms in \<open>simp_all add: refs_ok_def\<close>)
  ultimately show ?thesis using assms by (simp add: refs_ok_def)
qed

text \<open>A step changes the object \<open>x\<close>, and \<open>y\<close> where it moves from it.\<close>

lemma without_same:
  assumes "ctrls (sb s') = ctrls (sb s)" "\<And>z. z \<noteq> x \<Longrightarrow> z \<noteq> y \<Longrightarrow> handles (sb s') z = handles (sb s) z \<and> pcs s' z = pcs s z"
    "\<And>z. z = x \<or> z = y \<Longrightarrow> \<not> P (pcs s' z)"
    "\<And>z c. z = x \<or> z = y \<Longrightarrow> P (pcs s z) \<Longrightarrow> handles (sb s) z = Some (Some c) \<Longrightarrow> ctrls (sb s) c = None"
  shows "without P s' = without P s"
proof (rule ext)
  fix c
  show "without P s' c = without P s c"
  proof (cases "ctrls (sb s) c")
    case (Some cb)
    have "handles (sb s') z = Some (Some c) \<and> P (pcs s' z) \<longleftrightarrow> handles (sb s) z = Some (Some c) \<and> P (pcs s z)" for z
      using assms(2) [of z] assms(3) [of z] assms(4) [of z c] Some by (cases "z = x \<or> z = y") auto
    then have "hidden P s' c = hidden P s c" unfolding hidden_def by blast
    then show ?thesis using assms(1) by (simp add: without_def)
  qed (use assms(1) in \<open>simp add: without_def\<close>)
qed

lemma visible_same: "handles (sb s') z = handles (sb s) z \<Longrightarrow> counted (pcs s' z) = counted (pcs s z) \<Longrightarrow> visible s' z = visible s z"
  by (simp add: visible_def)

lemma finish_refs:
  assumes refs: "refs_inv (\<lambda>c. others x s c + one_if (pending a) c) (set_handle x None (seen s))"
    and alive: "\<And>z c. z \<noteq> x \<Longrightarrow> extra (pcs s z) = Some c \<Longrightarrow> without spent s c \<noteq> None"
    and pend: "\<And>c. pending a = Some c \<Longrightarrow> without spent s c \<noteq> None"
    and x: "handles (sb s) x \<noteq> None"
    and gone: "\<And>c. spent (pcs s x) \<Longrightarrow> handles (sb s) x = Some (Some c) \<Longrightarrow> ctrls (sb s) c = None"
    and lent: "\<And>y. a = Then_Move y \<Longrightarrow> y \<noteq> x \<and> handles (sb s) y \<noteq> None \<and> pcs s y = SB_Lent"
  shows "refs_ok (sb_finish x a s)"
proof -
  let ?E = "\<lambda>c. others x s c + one_if (pending a) c"
  have addr: "x \<noteq> nullptr \<and> x AND 7 = 0" using refs_invD(4) [OF refs, of x] by simp
  have oth: "others x (sb_finish x a s) = others x s"
    by (rule others_cong) (cases a; use lent in \<open>auto split: option.splits\<close>)
  have nox: "x \<notin> holders (set_handle x None (seen s)) d" for d by (simp add: holders_def)
  show ?thesis
  proof (cases a)
    case Then_Null
    have w: "without spent (sb_finish x a s) = without spent s"
      by (rule without_same [where x = x and y = x]) (use gone in \<open>auto simp: Then_Null\<close>)
    show ?thesis
    proof (rule refs_okI [where x = x])
      show "refs_inv (\<lambda>c. others x (sb_finish x a s) c + one_if (extra (pcs (sb_finish x a s) x)) c) (seen (sb_finish x a s))"
        by (rule refs_cong [OF refs]) (use w x oth in \<open>auto simp: Then_Null visible_def fun_eq_iff\<close>)
    qed (use w alive in \<open>auto simp: Then_Null\<close>)
  next
    case Then_Dispose
    have w: "without spent (sb_finish x a s) = without spent s"
      by (rule without_same [where x = x and y = x]) (use gone in \<open>auto simp: Then_Dispose\<close>)
    show ?thesis
    proof (rule refs_okI [where x = x])
      have "refs_inv ?E (set_handle x None (seen s)\<lparr>handles := (handles (set_handle x None (seen s)))(x := None)\<rparr>)"
        by (rule refs_exchange [OF refs, where x = x and y = x]) (use refs_invD(4) [OF refs] in \<open>auto split: if_splits\<close>)
      then show "refs_inv (\<lambda>c. others x (sb_finish x a s) c + one_if (extra (pcs (sb_finish x a s) x)) c) (seen (sb_finish x a s))"
        by (rule refs_cong) (use w x oth in \<open>auto simp: Then_Dispose visible_def fun_eq_iff\<close>)
    qed (use w alive in \<open>auto simp: Then_Dispose\<close>)
  next
    case (Then_Store r)
    have w: "without spent (sb_finish x a s) = without spent s"
      by (rule without_same [where x = x and y = x]) (use gone in \<open>auto simp: Then_Store\<close>)
    have "refs_inv (others x s) (set_handle x r (set_handle x None (seen s)))"
    proof (cases r)
      case None
      have "refs_inv ?E (set_handle x None (set_handle x None (seen s)))" by (rule refs_null [OF refs nox addr])
      then show ?thesis using None Then_Store by simp
    next
      case (Some c)
      have "?E = (others x s)(c := others x s c + 1)" using Some Then_Store by (auto simp: fun_eq_iff one_if_def)
      then have "refs_inv ((others x s)(c := others x s c + 1)) (set_handle x None (seen s))" using refs by simp
      then have "refs_inv (others x s) (set_handle x (Some c) (set_handle x None (seen s)))"
        by (rule refs_attach [OF _ _ nox nox addr]) (use pend [of c] Some Then_Store in simp)
      then show ?thesis using Some by simp
    qed
    then have "refs_inv (\<lambda>c. others x (sb_finish x a s) c + one_if (extra (pcs (sb_finish x a s) x)) c) (seen (sb_finish x a s))"
      by (rule refs_cong) (use w x oth in \<open>auto simp: Then_Store visible_def fun_eq_iff\<close>)
    then show ?thesis by (rule refs_okI) (use w alive in \<open>auto simp: Then_Store\<close>)
  next
    case (Then_Move y)
    obtain r where y: "handles (sb s) y = Some r" "y \<noteq> x" "pcs s y = SB_Lent" using lent [OF Then_Move] by auto
    have w: "without spent (sb_finish x a s) = without spent s"
      by (rule without_same [where x = x and y = y]) (use gone y in \<open>auto simp: Then_Move split: if_splits\<close>)
    have "refs_inv ?E (set_handle y None (set_handle x r (set_handle x None (seen s))))"
      by (rule refs_move [OF refs nox addr]) (use y in \<open>auto simp: visible_def\<close>)
    then have "refs_inv (\<lambda>c. others x (sb_finish x a s) c + one_if (extra (pcs (sb_finish x a s) x)) c) (seen (sb_finish x a s))"
      by (rule refs_cong)
        (use w x y oth in \<open>auto simp: Then_Move visible_def fun_eq_iff\<close>)
    then show ?thesis by (rule refs_okI) (use w alive y in \<open>auto simp: Then_Move split: if_splits\<close>)
  qed
qed

text \<open>\<open>release_ctrl\<close> is entered with a reference to spare, if \<open>pending\<close>, and the object still counted.\<close>

lemma let_go_refs:
  assumes refs: "refs_inv (\<lambda>c. others x s c + one_if (pending a) c) (seen s)"
    and alive: "\<And>z c. z \<noteq> x \<Longrightarrow> extra (pcs s z) = Some c \<Longrightarrow> without spent s c \<noteq> None"
    and pend: "\<And>c. pending a = Some c \<Longrightarrow> without spent s c \<noteq> None"
    and x: "handles (sb s) x \<noteq> None" "counted (pcs s x)" "\<not> spent (pcs s x)"
    and lent: "\<And>y. a = Then_Move y \<Longrightarrow> y \<noteq> x \<and> handles (sb s) y \<noteq> None \<and> pcs s y = SB_Lent"
  shows "refs_ok (sb_let_go x a s)"
proof (cases "handles (sb s) x = Some None")
  case True
  have "refs_inv (\<lambda>c. others x s c + one_if (pending a) c) (set_handle x None (seen s))"
    by (rule refs_cong [OF refs]) (use True in \<open>auto simp: visible_def fun_eq_iff\<close>)
  then have "refs_ok (sb_finish x a s)" by (rule finish_refs) (use alive pend x lent in auto)
  then show ?thesis using True by (simp add: sb_let_go_def)
next
  case False
  then obtain c where c: "handles (sb s) x = Some (Some c)" using x by auto
  have "others x (goto x (SB_Sub a) s) = others x s" by (rule others_cong) simp
  moreover have w: "without spent (goto x (SB_Sub a) s) = without spent s"
    by (rule without_same [where x = x and y = x]) (use x in auto)
  ultimately have "refs_ok (goto x (SB_Sub a) s)"
    using alive pend x
    by (intro refs_okI [where x = x] refs_cong [OF refs]) (auto simp: visible_def fun_eq_iff)
  then show ?thesis using c by (simp add: sb_let_go_def)
qed

text \<open>Counting down: others remain, or \<open>x\<close> was the last.\<close>

lemma without_put:
  "without P s c \<noteq> None \<Longrightarrow> without P (put_ctrl c (Some cb) s) = (without P s)(c \<mapsto> cb)"
  by (auto simp: without_def hidden_def fun_eq_iff split: if_splits)

lemma seen_ctrl: "without P s c = Some cb \<Longrightarrow> ctrls (sb s) c = Some cb" "hidden P s c \<Longrightarrow> without P s c = None"
  by (simp_all add: without_def split: if_splits)

lemma counted_ctrl:
  assumes "refs_ok s" "handles (sb s) x = Some (Some c)" "counted (pcs s x)"
  obtains cb where "without spent s c = Some cb" "ctrls (sb s) c = Some cb"
proof -
  have "ctrls (seen s) c \<noteq> None"
    by (rule refs_invD(3) [OF refs_okD(1) [OF assms(1), of x], of x]) (use assms in \<open>simp add: visible_def\<close>)
  then show ?thesis using that seen_ctrl by fastforce
qed

lemma sub_refs:
  assumes ok: "refs_ok s" and x: "handles (sb s) x = Some (Some c)" and pc: "pcs s x = SB_Sub a" and cb: "ctrls (sb s) c = Some cb"
    and more: "ref cb \<noteq> 1" and lent: "\<And>y. a = Then_Move y \<Longrightarrow> y \<noteq> x \<and> handles (sb s) y \<noteq> None \<and> pcs s y = SB_Lent"
  shows "refs_ok (sb_finish x a (put_ctrl c (Some (cb\<lparr>ref := ref cb - 1\<rparr>)) s))"
proof -
  let ?s = "put_ctrl c (Some (cb\<lparr>ref := ref cb - 1\<rparr>)) s"
  note refs = refs_okD(1) [OF ok, of x]
  obtain cb' where "without spent s c = Some cb'" "ctrls (sb s) c = Some cb'"
    by (rule counted_ctrl [OF ok x]) (simp_all add: pc)
  then have w: "without spent s c = Some cb" using cb by simp
  then have put: "without spent ?s = (without spent s)(c \<mapsto> cb\<lparr>ref := ref cb - 1\<rparr>)" by (intro without_put) simp
  have go: "refs_inv (\<lambda>c. others x s c + one_if (extra (pcs s x)) c)
      (set_handle x None ((seen s)\<lparr>ctrls := (ctrls (seen s))(c \<mapsto> cb\<lparr>ref := ref cb - 1\<rparr>)\<rparr>))"
    by (rule refs_let_go [OF refs]) (use x pc w more in \<open>simp_all add: visible_def\<close>)
  have oth: "others x ?s = others x s" by (rule others_cong) simp
  have vis: "visible ?s = visible s" by (simp add: visible_def fun_eq_iff)
  have "refs_inv (\<lambda>c. others x ?s c + one_if (pending a) c) (set_handle x None (seen ?s))"
    by (rule refs_cong [OF go]) (simp_all add: oth vis put pc del: put_ctrl_simps)
  then show ?thesis
  proof (rule finish_refs)
    fix z d assume "extra (pcs ?s z) = Some d"
    then show "without spent ?s d \<noteq> None" using refs_okD(2) [OF ok, of z d] by (simp add: put)
  next
    fix d assume "pending a = Some d"
    then show "without spent ?s d \<noteq> None" using refs_okD(2) [OF ok, of x d] pc by (simp add: put)
  qed (use x pc lent in simp_all)
qed

text \<open>The count of the control block of \<open>x\<close> is taken from 1 to 0, by \<open>fetch_sub\<close> or by the exchange.\<close>

lemma last_refs:
  assumes ok: "refs_ok s" and x: "handles (sb s) x = Some (Some c)" and pc: "counted (pcs s x)" "spent pc" "\<not> counted pc"
    "extra pc = extra (pcs s x)" and cb: "ctrls (sb s) c = Some cb" and one: "ref cb = 1"
  shows "refs_ok (goto x pc (put_ctrl c (Some cb') s))" "\<not> hidden spent s c"
proof -
  let ?s = "goto x pc (put_ctrl c (Some cb') s)"
  note refs = refs_okD(1) [OF ok, of x]
  obtain cb1 where w1: "without spent s c = Some cb1" "ctrls (sb s) c = Some cb1" by (rule counted_ctrl [OF ok x pc(1)])
  then have w: "without spent s c = Some cb" using cb by simp
  then show nh: "\<not> hidden spent s c" by (auto simp: without_def split: if_splits)
  have hx: "handles (seen s) x = Some (Some c)" "ctrls (seen s) c = Some cb" using x pc w by (simp_all add: visible_def)
  note last = refs_last [OF refs hx one]
  have nx: "\<not> spent (pcs s x)" using pc(1) by (cases "pcs s x") auto
  have wo: "without spent ?s = (without spent s)(c := None)"
  proof (rule ext)
    fix d
    have "hidden spent ?s d \<longleftrightarrow> d = c \<or> hidden spent s d" using x pc(2) nx by (auto simp: hidden_def)
    then show "without spent ?s d = ((without spent s)(c := None)) d" by (simp add: without_def)
  qed
  have vis: "visible ?s = (visible s)(x \<mapsto> None)" using x pc(3) by (auto simp: visible_def fun_eq_iff)
  have oth: "others x ?s = others x s" by (rule others_cong) simp
  show "refs_ok ?s"
  proof (rule refs_okI [where x = x])
    show "refs_inv (\<lambda>c. others x ?s c + one_if (extra (pcs ?s x)) c) (seen ?s)"
      by (rule refs_cong [OF last(3)]) (use wo vis oth pc(4) in auto)
  next
    fix z d assume z: "z \<noteq> x" "extra (pcs ?s z) = Some d"
    then have e: "extra (pcs s z) = Some d" by simp
    then have "0 < others x s d" using z(1) by (auto simp: others_def card_gt_0_iff)
    then have "d \<noteq> c" using last(2) by auto
    then show "without spent ?s d \<noteq> None" using refs_okD(2) [OF ok e] by (simp add: wo)
  next
    fix d assume "extra (pcs ?s x) = Some d"
    then have e: "extra (pcs s x) = Some d" using pc(4) by simp
    then have "d \<noteq> c" using last(2) by (auto simp: one_if_def)
    then show "without spent ?s d \<noteq> None" using refs_okD(2) [OF ok e] by (simp add: wo)
  qed
qed

lemma close_refs:
  assumes ok: "refs_ok s" and pc: "pcs s x = SB_Close a"
  shows "refs_ok (goto x (SB_Delete a) (s\<lparr>sb := (sb s)\<lparr>env := w\<rparr>\<rparr>))" (is "refs_ok ?s")
  by (rule refs_ok_cong [OF ok]) (use pc in \<open>auto simp: without_def hidden_def visible_def fun_eq_iff\<close>)

lemma delete_refs:
  assumes ok: "refs_ok s" and x: "handles (sb s) x = Some (Some c)" and pc: "pcs s x = SB_Delete a"
    and lent: "\<And>y. a = Then_Move y \<Longrightarrow> y \<noteq> x \<and> handles (sb s) y \<noteq> None \<and> pcs s y = SB_Lent"
  shows "refs_ok (sb_finish x a (put_ctrl c None s))"
proof -
  let ?s = "put_ctrl c None s"
  have "hidden spent s c" using x pc by (auto simp: hidden_def)
  then have w: "without spent ?s = without spent s" by (auto simp: without_def hidden_def fun_eq_iff)
  have oth: "others x ?s = others x s" by (rule others_cong) simp
  have "refs_inv (\<lambda>c. others x ?s c + one_if (pending a) c) (set_handle x None (seen ?s))"
    by (rule refs_cong [OF refs_okD(1) [OF ok, of x]]) (use w x pc oth in \<open>auto simp: visible_def fun_eq_iff\<close>)
  then show ?thesis
  proof (rule finish_refs)
    fix z d assume "extra (pcs ?s z) = Some d"
    then show "without spent ?s d \<noteq> None" using refs_okD(2) [OF ok, of z d] w by simp
  next
    fix d assume "pending a = Some d"
    then show "without spent ?s d \<noteq> None" using refs_okD(2) [OF ok, of x d] pc w by simp
  qed (use x pc lent in simp_all)
qed

text \<open>Objects are aligned, so there is room to count all of them and one more reference of each.\<close>

lemma card_aligned: "card {x :: addr. x AND 7 = 0} \<le> 2 ^ 61"
proof -
  have mult: "unat x mod 8 = 0" if "x AND 7 = 0" for x :: addr
  proof -
    have "take_bit 3 x = x AND 7" by (simp add: take_bit_eq_mask mask_eq_exp_minus_1)
    then have "take_bit 3 (unat x) = 0" using that by (simp only: unsigned_take_bit_eq [symmetric] unsigned_0)
    then show ?thesis by (simp add: take_bit_eq_mod)
  qed
  have "card {x :: addr. x AND 7 = 0} \<le> card {..<2 ^ 61 :: nat}"
  proof (rule card_inj_on_le [where f = "\<lambda>x. unat x div 8"])
    show "inj_on (\<lambda>x. unat x div 8) {x :: addr. x AND 7 = 0}"
    proof (rule inj_onI)
      fix x y :: addr assume a: "x \<in> {x. x AND 7 = 0}" "y \<in> {x. x AND 7 = 0}" "unat x div 8 = unat y div 8"
      then have "unat x = unat y" using mult [of x] mult [of y] div_mult_mod_eq [of "unat x" 8] div_mult_mod_eq [of "unat y" 8] by simp
      then show "x = y" by (simp add: word_unat_eq_iff)
    qed
    show "(\<lambda>x. unat x div 8) ` {x :: addr. x AND 7 = 0} \<subseteq> {..<2 ^ 61}"
    proof (intro image_subsetI, simp only: lessThan_iff)
      fix x :: addr
      have "unat x < 2 ^ 64" using unat_below_2p [of x] by simp
      then show "unat x div 8 < 2 ^ 61" by simp
    qed
  qed simp
  then show ?thesis by simp
qed

lemma room:
  assumes ok: "refs_ok s" and p: "pcs_inv s"
  shows "card (holders (seen s) c) + (others x s c + one_if (extra (pcs s x)) c) + 1 < 2 ^ 64"
proof -
  note refs = refs_okD(1) [OF ok, of x]
  have aligned: "z AND 7 = 0" if "handles (sb s) z \<noteq> None" for z
    using refs_invD(4) [OF refs, of z] that by (auto simp: visible_def split: if_splits)
  have "card (holders (seen s) c) \<le> card {x :: addr. x AND 7 = 0}"
    by (rule card_mono) (use refs_invD(4) [OF refs] in \<open>auto simp: holders_def\<close>)
  moreover have "{z. extra (pcs s z) = Some c} \<subseteq> {x :: addr. x AND 7 = 0}"
  proof
    fix z assume "z \<in> {z. extra (pcs s z) = Some c}"
    moreover have "pc_ok s z (pcs s z)" using p by (simp add: pcs_inv_def)
    ultimately have "handles (sb s) z \<noteq> None" by (cases "pcs s z") auto
    then show "z \<in> {x. x AND 7 = 0}" using aligned by simp
  qed
  then have "taken s c \<le> card {x :: addr. x AND 7 = 0}" unfolding taken_def by (intro card_mono) simp_all
  moreover have "(2 :: nat) ^ 61 + 2 ^ 61 + 1 < 2 ^ 64" by simp
  ultimately show ?thesis unfolding taken_split [of s c x] using card_aligned by linarith
qed

text \<open>Counting up: for the object under construction, or for the pointer kept aside.\<close>

lemma add_refs:
  assumes ok: "refs_ok s" and p: "pcs_inv s" and x: "handles (sb s) x = Some (Some c)" and pc: "pcs s x = SB_Add y"
    and cb: "ctrls (sb s) c = Some cb"
  shows "refs_ok (goto x SB_Idle (put_ctrl c (Some (cb\<lparr>ref := ref cb + 1\<rparr>)) s))" (is "refs_ok ?s")
proof -
  let ?st = "(seen s)\<lparr>ctrls := (ctrls (seen s))(c \<mapsto> cb\<lparr>ref := ref cb + 1\<rparr>)\<rparr>"
  have "pc_ok s x (pcs s x)" using p by (simp add: pcs_inv_def)
  then have y: "handles (sb s) y = Some (Some c)" "pcs s y = SB_Idle" using x pc by auto
  obtain cb1 where "without spent s c = Some cb1" "ctrls (sb s) c = Some cb1" by (rule counted_ctrl [OF ok y(1)]) (simp add: y)
  then have w: "without spent s c = Some cb" using cb by simp
  have e0: "(\<lambda>c. others x s c + one_if (extra (pcs s x)) c) = others x s" using pc by simp
  note refs = refs_okD(1) [OF ok, of x, unfolded e0]
  have r1: "refs_inv ((others x s)(c := others x s c + 1)) ?st"
    by (rule refs_add_ref [OF refs]) (use w room [OF ok p, of c x] pc in simp_all)
  have nox: "x \<notin> holders ?st d" for d using pc by (auto simp: holders_def visible_def)
  have "refs_inv (others x s) (set_handle x (Some c) ?st)"
    by (rule refs_attach [OF r1 _ nox nox]) (use refs_invD(4) [OF refs, of x] x pc in \<open>auto simp: visible_def\<close>)
  moreover have wo: "without spent ?s = (without spent s)(c \<mapsto> cb\<lparr>ref := ref cb + 1\<rparr>)"
    using w pc x by (auto simp: without_def hidden_def fun_eq_iff split: if_splits)
  moreover have "others x ?s = others x s" by (rule others_cong) simp
  moreover have "visible ?s = (visible s)(x \<mapsto> Some c)" using x by (auto simp: visible_def fun_eq_iff)
  ultimately have "refs_inv (\<lambda>c. others x ?s c + one_if (extra (pcs ?s x)) c) (seen ?s)"
    by (elim refs_cong) simp_all
  then show ?thesis
  proof (rule refs_okI)
    fix z d assume "z \<noteq> x" "extra (pcs ?s z) = Some d"
    then show "without spent ?s d \<noteq> None" using refs_okD(2) [OF ok, of z d] by (simp add: wo)
  qed simp
qed

lemma add_new_refs:
  assumes ok: "refs_ok s" and p: "pcs_inv s" and pc: "pcs s x = SB_Add_New y c" and cb: "ctrls (sb s) c = Some cb"
  shows "refs_ok (sb_let_go x (Then_Store (Some c)) (put_ctrl c (Some (cb\<lparr>ref := ref cb + 1\<rparr>)) s))"
proof -
  let ?s = "put_ctrl c (Some (cb\<lparr>ref := ref cb + 1\<rparr>)) s"
  let ?st = "(seen s)\<lparr>ctrls := (ctrls (seen s))(c \<mapsto> cb\<lparr>ref := ref cb + 1\<rparr>)\<rparr>"
  have "pc_ok s x (pcs s x)" using p by (simp add: pcs_inv_def)
  then have y: "handles (sb s) y = Some (Some c)" "pcs s y = SB_Idle" "handles (sb s) x \<noteq> None" using pc by auto
  obtain cb1 where "without spent s c = Some cb1" "ctrls (sb s) c = Some cb1" by (rule counted_ctrl [OF ok y(1)]) (simp add: y)
  then have w: "without spent s c = Some cb" using cb by simp
  have e0: "(\<lambda>c. others x s c + one_if (extra (pcs s x)) c) = others x s" using pc by simp
  note refs = refs_okD(1) [OF ok, of x, unfolded e0]
  have r1: "refs_inv ((others x s)(c := others x s c + 1)) ?st"
    by (rule refs_add_ref [OF refs]) (use w room [OF ok p, of c x] pc in simp_all)
  have put: "without spent ?s = (without spent s)(c \<mapsto> cb\<lparr>ref := ref cb + 1\<rparr>)" using w by (intro without_put) simp
  have oth: "others x ?s = others x s" by (rule others_cong) simp
  have vis: "visible ?s = visible s" by (simp add: visible_def fun_eq_iff)
  have "refs_inv (\<lambda>d. others x ?s d + one_if (pending (Then_Store (Some c))) d) (seen ?s)"
    by (rule refs_cong [OF r1]) (auto simp: oth vis put one_if_def fun_eq_iff simp del: put_ctrl_simps)
  then show ?thesis
  proof (rule let_go_refs)
    fix z d assume "extra (pcs ?s z) = Some d"
    then show "without spent ?s d \<noteq> None" using refs_okD(2) [OF ok, of z d] by (simp add: put)
  qed (use put y pc in simp_all)
qed

section \<open>Where the operations are\<close>

lemma pcs_invD:
  assumes "pcs_inv s"
  shows "pc_ok s x (pcs s x)" "mover (pcs s x) = Some y \<Longrightarrow> pcs s y = SB_Lent"
    "mover (pcs s x) = Some y \<Longrightarrow> mover (pcs s x') = Some y \<Longrightarrow> x = x'"
    "handles (sb s) x = Some (Some c) \<Longrightarrow> handles (sb s) x' = Some (Some c) \<Longrightarrow> spent (pcs s x) \<Longrightarrow> spent (pcs s x') \<Longrightarrow> x = x'"
  using assms unfolding pcs_inv_def by blast+

lemma pc_ok_frame:
  assumes "pc_ok s z pc" "handles (sb s') z = handles (sb s) z"
    "\<And>w. sb_reads pc = Some w \<Longrightarrow> handles (sb s') w = handles (sb s) w \<and> pcs s' w = pcs s w"
    "\<And>c. spent pc \<Longrightarrow> handles (sb s) z = Some (Some c) \<Longrightarrow> ctrls (sb s) c \<noteq> None \<Longrightarrow> ctrls (sb s') c \<noteq> None"
  shows "pc_ok s' z pc"
  using assms by (cases pc) auto

lemma pcs_step2:
  assumes p: "pcs_inv s" and same: "\<And>z. z \<noteq> x \<Longrightarrow> z \<noteq> y \<Longrightarrow> handles (sb s') z = handles (sb s) z \<and> pcs s' z = pcs s z"
    and ok: "pc_ok s' x (pcs s' x)" "pc_ok s' y (pcs s' y)"
    and unread: "\<And>z. sb_reads (pcs s z) \<noteq> Some x" "\<And>z. sb_reads (pcs s z) \<noteq> Some y"
    and mv: "\<And>z w. mover (pcs s' z) = Some w \<Longrightarrow> pcs s' w = SB_Lent"
      "\<And>z z' w. mover (pcs s' z) = Some w \<Longrightarrow> mover (pcs s' z') = Some w \<Longrightarrow> z = z'"
    and sp: "\<And>z z' c. handles (sb s') z = Some (Some c) \<Longrightarrow> handles (sb s') z' = Some (Some c) \<Longrightarrow>
      spent (pcs s' z) \<Longrightarrow> spent (pcs s' z') \<Longrightarrow> z = z'"
    and ct: "\<And>z c. z \<noteq> x \<Longrightarrow> z \<noteq> y \<Longrightarrow> spent (pcs s z) \<Longrightarrow> handles (sb s) z = Some (Some c) \<Longrightarrow> ctrls (sb s) c \<noteq> None \<Longrightarrow>
      ctrls (sb s') c \<noteq> None"
  shows "pcs_inv s'"
proof -
  have "pc_ok s' z (pcs s' z)" for z
  proof (cases "z = x \<or> z = y")
    case False
    have "pc_ok s' z (pcs s z)"
      by (rule pc_ok_frame [OF pcs_invD(1) [OF p]])
        (use same [of z] False unread same ct [of z] in fastforce)+
    then show ?thesis using same [of z] False by simp
  qed (use ok in auto)
  then show ?thesis unfolding pcs_inv_def using mv sp by blast
qed

lemma unread:
  assumes "pcs_inv s" "pcs s x \<noteq> SB_Idle"
  shows "sb_reads (pcs s z) \<noteq> Some x"
proof
  assume "sb_reads (pcs s z) = Some x"
  then show False using pcs_invD(1) [OF assms(1), of z] assms(2) by (cases "pcs s z") auto
qed

lemma pcs_step1:
  assumes p: "pcs_inv s" and same: "\<And>z. z \<noteq> x \<Longrightarrow> handles (sb s') z = handles (sb s) z \<and> pcs s' z = pcs s z"
    and ok: "pc_ok s' x (pcs s' x)" and unread: "\<And>z. sb_reads (pcs s z) \<noteq> Some x"
    and mv: "\<And>w. mover (pcs s' x) = Some w \<Longrightarrow> mover (pcs s x) = Some w" and lent: "pcs s x \<noteq> SB_Lent"
    and sp: "\<And>c. spent (pcs s' x) \<Longrightarrow> handles (sb s') x = Some (Some c) \<Longrightarrow>
      handles (sb s) x = Some (Some c) \<and> (spent (pcs s x) \<or> \<not> hidden spent s c)"
    and ct: "\<And>z c. z \<noteq> x \<Longrightarrow> spent (pcs s z) \<Longrightarrow> handles (sb s) z = Some (Some c) \<Longrightarrow> ctrls (sb s) c \<noteq> None \<Longrightarrow>
      ctrls (sb s') c \<noteq> None"
  shows "pcs_inv s'"
proof (rule pcs_step2 [OF p, where x = x and y = x])
  have m: "mover (pcs s z) = Some w" if "mover (pcs s' z) = Some w" for z w
    using mv [of w] same [of z] that by (cases "z = x") auto
  show "pcs s' w = SB_Lent" if "mover (pcs s' z) = Some w" for z w
    using pcs_invD(2) [OF p m [OF that]] lent same [of w] by (cases "w = x") auto
  show "z = z'" if "mover (pcs s' z) = Some w" "mover (pcs s' z') = Some w" for z z' w
    by (rule pcs_invD(3) [OF p m [OF that(1)] m [OF that(2)]])
  have other: "z = x" if "handles (sb s') x = Some (Some c)" "spent (pcs s' x)" "handles (sb s') z = Some (Some c)" "spent (pcs s' z)" for z c
  proof (rule ccontr)
    assume z: "z \<noteq> x"
    then have "handles (sb s) z = Some (Some c)" "spent (pcs s z)" using that same [of z] by auto
    moreover from this have "hidden spent s c" by (auto simp: hidden_def)
    ultimately show False using sp [OF that(2,1)] pcs_invD(4) [OF p, of x c z] z by auto
  qed
  show "z = z'" if a: "handles (sb s') z = Some (Some c)" "handles (sb s') z' = Some (Some c)" "spent (pcs s' z)" "spent (pcs s' z')" for z z' c
  proof (cases "z = x \<or> z' = x")
    case True
    then show ?thesis using other a by blast
  next
    case False
    then have e: "handles (sb s) z = Some (Some c)" "handles (sb s) z' = Some (Some c)" "spent (pcs s z)" "spent (pcs s z')"
      using same [of z] same [of z'] a by simp_all
    show ?thesis by (rule pcs_invD(4) [OF p e])
  qed
qed (use same ok unread ct in auto)

lemma finish_pcs:
  assumes p: "pcs_inv s" and x: "handles (sb s) x \<noteq> None" "pcs s x \<noteq> SB_Lent" "\<And>z. sb_reads (pcs s z) \<noteq> Some x"
    and lent: "\<And>y. a = Then_Move y \<Longrightarrow> y \<noteq> x \<and> handles (sb s) y \<noteq> None \<and> pcs s y = SB_Lent \<and>
      (\<forall>z. mover (pcs s z) = Some y \<longrightarrow> z = x)"
  shows "pcs_inv (sb_finish x a s)"
proof (cases a)
  case Then_Null
  show ?thesis by (rule pcs_step1 [OF p, where x = x]) (use x in \<open>simp_all add: Then_Null\<close>)
next
  case (Then_Store r)
  show ?thesis by (rule pcs_step1 [OF p, where x = x]) (use x in \<open>simp_all add: Then_Store\<close>)
next
  case Then_Dispose
  show ?thesis by (rule pcs_step1 [OF p, where x = x]) (use x in \<open>simp_all add: Then_Dispose\<close>)
next
  case a: (Then_Move y)
  note y = lent [OF a]
  obtain r where r: "handles (sb s) y = Some r" using y by auto
  let ?s = "sb_finish x a s"
  have m: "mover (pcs s z) = Some w \<and> w \<noteq> y \<and> w \<noteq> x" if "mover (pcs ?s z) = Some w" for z w
    using that r a y pcs_invD(2) [OF p, of z w] x(2) by (auto split: if_splits)
  have pcs: "pcs ?s = (pcs s)(x := SB_Idle, y := SB_Idle)" using r a by simp
  show ?thesis
  proof (rule pcs_step2 [OF p, where x = x and y = y])
    show "pcs ?s w = SB_Lent" if "mover (pcs ?s z) = Some w" for z w
      using m [OF that] pcs_invD(2) [OF p, of z w] by (simp add: pcs)
    show "z = z'" if "mover (pcs ?s z) = Some w" "mover (pcs ?s z') = Some w" for z z' w
      using m [OF that(1)] m [OF that(2)] pcs_invD(3) [OF p] by blast
    show "z = z'" if "handles (sb ?s) z = Some (Some c)" "handles (sb ?s) z' = Some (Some c)" "spent (pcs ?s z)" "spent (pcs ?s z')" for z z' c
      using that r a pcs_invD(4) [OF p, of z c z'] by (auto split: if_splits)
    show "sb_reads (pcs s z) \<noteq> Some y" for z by (rule unread [OF p]) (simp add: y)
  qed (use x r a y in auto)
qed

lemma finish_put: "sb_finish x a (put_ctrl c r s) = put_ctrl c r (sb_finish x a s)"
  by (cases a) (simp_all add: goto_def put_ctrl_def set_handle_def split: option.splits)

lemma pcs_put:
  assumes "pcs_inv s" "r = None \<Longrightarrow> \<not> hidden spent s c"
  shows "pcs_inv (put_ctrl c r s)"
proof -
  have "pc_ok (put_ctrl c r s) z (pcs s z)" for z
    by (rule pc_ok_frame [OF pcs_invD(1) [OF assms(1)]]) (use assms(2) in \<open>auto simp: hidden_def\<close>)
  then show ?thesis using assms(1) by (simp add: pcs_inv_def)
qed

lemma pc_ok_cong:
  assumes "handles (sb s') = handles (sb s)" "ctrls (sb s') = ctrls (sb s)" "pcs s' = pcs s"
  shows "pc_ok s' z pc = pc_ok s z pc"
  by (cases pc) (simp_all add: assms)

lemma pcs_uniq_env: "pcs_inv (s\<lparr>sb := (sb s)\<lparr>uniq := u, env := w\<rparr>\<rparr>) = pcs_inv s" "pcs_inv (s\<lparr>sb := (sb s)\<lparr>env := w\<rparr>\<rparr>) = pcs_inv s"
proof -
  have "pc_ok (s\<lparr>sb := (sb s)\<lparr>uniq := u, env := w\<rparr>\<rparr>) z pc = pc_ok s z pc"
    "pc_ok (s\<lparr>sb := (sb s)\<lparr>env := w\<rparr>\<rparr>) z pc = pc_ok s z pc" for z pc by (rule pc_ok_cong; simp)+
  then show "pcs_inv (s\<lparr>sb := (sb s)\<lparr>uniq := u, env := w\<rparr>\<rparr>) = pcs_inv s" "pcs_inv (s\<lparr>sb := (sb s)\<lparr>env := w\<rparr>\<rparr>) = pcs_inv s"
    by (simp_all add: pcs_inv_def)
qed

text \<open>A step of the operation on \<open>x\<close> that leaves the objects alone.\<close>

lemma pcs_goto:
  assumes p: "pcs_inv s" and "pc_ok (goto x pc s) x pc" "\<And>z. sb_reads (pcs s z) \<noteq> Some x" "pcs s x \<noteq> SB_Lent"
    "\<And>w. mover pc = Some w \<Longrightarrow> mover (pcs s x) = Some w"
    "\<And>c. spent pc \<Longrightarrow> handles (sb s) x = Some (Some c) \<Longrightarrow> spent (pcs s x) \<or> \<not> hidden spent s c"
  shows "pcs_inv (goto x pc s)"
proof (rule pcs_step1 [OF p, where x = x])
  show "sb_reads (pcs s z) \<noteq> Some x" for z by (rule assms(3))
  show "pc_ok (goto x pc s) x (pcs (goto x pc s) x)" using assms(2) by simp
  show "mover (pcs s x) = Some w" if "mover (pcs (goto x pc s) x) = Some w" for w
    by (rule assms(5)) (use that in simp)
  show "handles (sb s) x = Some (Some c) \<and> (spent (pcs s x) \<or> \<not> hidden spent s c)"
    if "spent (pcs (goto x pc s) x)" "handles (sb (goto x pc s)) x = Some (Some c)" for c
    using assms(6) [of c] that by simp
qed (use assms(4) in simp_all)

lemma after_lent:
  assumes p: "pcs_inv s" and pc: "mover (pcs s x) = Some y"
  shows "y \<noteq> x \<and> handles (sb s) y \<noteq> None \<and> pcs s y = SB_Lent \<and> (\<forall>z. mover (pcs s z) = Some y \<longrightarrow> z = x)"
proof -
  have l: "pcs s y = SB_Lent" by (rule pcs_invD(2) [OF p pc])
  have "handles (sb s) y \<noteq> None" using pcs_invD(1) [OF p, of y] by (simp add: l)
  moreover have "y \<noteq> x" using l pc by auto
  moreover have "z = x" if "mover (pcs s z) = Some y" for z by (rule pcs_invD(3) [OF p that pc])
  ultimately show ?thesis using l by blast
qed

lemma let_go_pcs:
  assumes p: "pcs_inv s" and x: "handles (sb s) x \<noteq> None" "pcs s x \<noteq> SB_Lent" "\<And>z. sb_reads (pcs s z) \<noteq> Some x"
    and lent: "\<And>y. a = Then_Move y \<Longrightarrow> y \<noteq> x \<and> handles (sb s) y \<noteq> None \<and> pcs s y = SB_Lent \<and>
      (\<forall>z. mover (pcs s z) = Some y \<longrightarrow> z = x)"
  shows "pcs_inv (sb_let_go x a s)"
proof (cases "handles (sb s) x = Some None")
  case True
  have "pcs_inv (sb_finish x a s)" by (rule finish_pcs [OF p x]) (rule lent)
  then show ?thesis using True by (simp add: sb_let_go_def)
next
  case False
  then obtain c where c: "handles (sb s) x = Some (Some c)" using x(1) by auto
  let ?s = "goto x (SB_Sub a) s"
  have new: "a = Then_Move w" if "mover (SB_Sub a) = Some w" for w using that by (cases a) auto
  have m: "(if z = x then a = Then_Move w else mover (pcs s z) = Some w)" if "mover (pcs ?s z) = Some w" for z w
    using that new [of w] by (cases "z = x") simp_all
  have "pcs_inv ?s"
  proof (rule pcs_step2 [OF p, where x = x and y = x])
    fix z w assume z: "mover (pcs ?s z) = Some w"
    show "pcs ?s w = SB_Lent"
    proof (cases "z = x")
      case True
      then have "a = Then_Move w" using m [OF z] by simp
      then have "w \<noteq> x" "pcs s w = SB_Lent" using lent by blast+
      then show ?thesis by simp
    next
      case False
      then show ?thesis using pcs_invD(2) [OF p, of z w] m [OF z] x(2) by auto
    qed
    fix z' assume z': "mover (pcs ?s z') = Some w"
    show "z = z'"
    proof (cases "z = x \<or> z' = x")
      case True
      then have "a = Then_Move w" using m [OF z] m [OF z'] by auto
      then have only: "v = x" if "mover (pcs s v) = Some w" for v using lent that by blast
      have "z = x" using m [OF z] only [of z] by (auto split: if_splits)
      moreover have "z' = x" using m [OF z'] only [of z'] by (auto split: if_splits)
      ultimately show ?thesis by simp
    next
      case False
      then show ?thesis using m [OF z] m [OF z'] pcs_invD(3) [OF p, of z w z'] by simp
    qed
  next
    fix z z' d assume a: "handles (sb ?s) z = Some (Some d)" "handles (sb ?s) z' = Some (Some d)" "spent (pcs ?s z)" "spent (pcs ?s z')"
    then have "handles (sb s) z = Some (Some d)" "handles (sb s) z' = Some (Some d)" "spent (pcs s z)" "spent (pcs s z')"
      by (auto split: if_splits)
    then show "z = z'" by (rule pcs_invD(4) [OF p])
  qed (use x c in simp_all)
  then show ?thesis using c by (simp add: sb_let_go_def)
qed

section \<open>Every step keeps both\<close>

definition counts_inv :: "'w sb_threads \<Rightarrow> bool" where
  "counts_inv s \<longleftrightarrow> refs_ok s \<and> pcs_inv s"

lemma counts_ctrl:
  assumes i: "counts_inv s" and x: "pcs s x \<noteq> SB_Idle" "pcs s x \<noteq> SB_Lent" "\<And>y c. pcs s x \<noteq> SB_Add_New y c"
  obtains c cb where "handles (sb s) x = Some (Some c)" "ctrls (sb s) c = Some cb"
proof -
  have r: "refs_ok s" and p: "pcs_inv s" using i by (simp_all add: counts_inv_def)
  have pc: "pc_ok s x (pcs s x)" by (rule pcs_invD(1) [OF p])
  obtain c where c: "handles (sb s) x = Some (Some c)" using pc x by (cases "pcs s x") auto
  have "ctrls (sb s) c \<noteq> None"
  proof (cases "\<exists>y. pcs s x = SB_Add y")
    case True
    then obtain y where y: "handles (sb s) y = Some (Some c)" "pcs s y = SB_Idle" using pc c by auto
    obtain cb where "ctrls (sb s) c = Some cb" by (rule counted_ctrl [OF r y(1)]) (simp add: y)
    then show ?thesis by simp
  next
    case False
    show ?thesis
    proof (cases "counted (pcs s x)")
      case True
      obtain cb where "ctrls (sb s) c = Some cb" by (rule counted_ctrl [OF r c True])
      then show ?thesis by simp
    next
      case nc: False
      then show ?thesis using False pc c by (cases "pcs s x") auto
    qed
  qed
  then show ?thesis using that c by blast
qed

lemma mover_lent:
  assumes "pcs_inv s" "pcs s x = SB_Sub a \<or> pcs s x = SB_Close a \<or> pcs s x = SB_Delete a" "a = Then_Move y"
  shows "y \<noteq> x \<and> handles (sb s) y \<noteq> None \<and> pcs s y = SB_Lent \<and> (\<forall>z. mover (pcs s z) = Some y \<longrightarrow> z = x)"
  by (rule after_lent [OF assms(1)]) (use assms(2,3) in auto)

lemma not_hidden_counted:
  assumes "refs_ok s" "handles (sb s) x = Some (Some c)" "counted (pcs s x)"
  shows "\<not> hidden spent s c"
proof -
  obtain cb where "without spent s c = Some cb" by (rule counted_ctrl [OF assms])
  then show ?thesis by (auto simp: without_def split: if_splits)
qed

lemma step_Add:
  assumes i: "counts_inv s" and pc: "pcs s x = SB_Add y"
  obtains c cb where "ctrls (sb s) c = Some cb" "\<not> hidden spent s c" "sb_step x s = goto x SB_Idle (put_ctrl c (Some (cb\<lparr>ref := ref cb + 1\<rparr>)) s)"
    "counts_inv (sb_step x s)"
proof -
  have r: "refs_ok s" and p: "pcs_inv s" using i by (simp_all add: counts_inv_def)
  obtain c cb where c: "handles (sb s) x = Some (Some c)" "ctrls (sb s) c = Some cb"
    by (rule counts_ctrl [OF i, of x]) (simp_all add: pc)
  let ?s = "put_ctrl c (Some (cb\<lparr>ref := ref cb + 1\<rparr>)) s"
  have "pc_ok s x (pcs s x)" by (rule pcs_invD(1) [OF p])
  then have "handles (sb s) y = Some (Some c)" "pcs s y = SB_Idle" using pc c(1) by auto
  then have nh: "\<not> hidden spent s c" using not_hidden_counted [OF r, of y c] by simp
  have st: "sb_step x s = goto x SB_Idle ?s" using pc c by (simp add: sb_step_def with_ctrl_def)
  have p1: "pcs_inv ?s" by (rule pcs_put [OF p]) simp
  have "pcs_inv (goto x SB_Idle ?s)"
    by (rule pcs_goto [OF p1]) (use pc unread [OF p1, of x] in simp_all)
  then show ?thesis using that c nh add_refs [OF r p c(1) pc c(2)] st by (simp add: counts_inv_def)
qed

lemma step_Add_New:
  assumes i: "counts_inv s" and pc: "pcs s x = SB_Add_New y c"
  obtains cb where "ctrls (sb s) c = Some cb" "\<not> hidden spent s c"
    "sb_step x s = sb_let_go x (Then_Store (Some c)) (put_ctrl c (Some (cb\<lparr>ref := ref cb + 1\<rparr>)) s)" "counts_inv (sb_step x s)"
proof -
  have r: "refs_ok s" and p: "pcs_inv s" using i by (simp_all add: counts_inv_def)
  have "pc_ok s x (pcs s x)" by (rule pcs_invD(1) [OF p])
  then have y: "handles (sb s) y = Some (Some c)" "pcs s y = SB_Idle" and x: "handles (sb s) x \<noteq> None" using pc by auto
  obtain cb where cb: "ctrls (sb s) c = Some cb" by (rule counted_ctrl [OF r y(1)]) (simp add: y)
  have nh: "\<not> hidden spent s c" by (rule not_hidden_counted [OF r y(1)]) (simp add: y)
  let ?s = "put_ctrl c (Some (cb\<lparr>ref := ref cb + 1\<rparr>)) s"
  have st: "sb_step x s = sb_let_go x (Then_Store (Some c)) ?s"
    using pc cb by (simp add: sb_step_def add_ref_def put_ctrl_def)
  have p1: "pcs_inv ?s" by (rule pcs_put [OF p]) simp
  have "pcs_inv (sb_let_go x (Then_Store (Some c)) ?s)"
    by (rule let_go_pcs [OF p1]) (use x pc unread [OF p1, of x] in simp_all)
  then show ?thesis using that cb nh add_new_refs [OF r p pc cb] st by (simp add: counts_inv_def)
qed

lemma step_Sub:
  assumes i: "counts_inv s" and pc: "pcs s x = SB_Sub a"
  obtains c cb where "handles (sb s) x = Some (Some c)" "ctrls (sb s) c = Some cb" "\<not> hidden spent s c"
    "sb_step x s = (let s' = put_ctrl c (Some (cb\<lparr>ref := ref cb - 1\<rparr>)) s in
       if ref cb = 1 then goto x (SB_Close a) s' else sb_finish x a s')" "counts_inv (sb_step x s)"
proof -
  have r: "refs_ok s" and p: "pcs_inv s" using i by (simp_all add: counts_inv_def)
  obtain c cb where c: "handles (sb s) x = Some (Some c)" "ctrls (sb s) c = Some cb"
    by (rule counts_ctrl [OF i, of x]) (simp_all add: pc)
  have nh: "\<not> hidden spent s c" by (rule not_hidden_counted [OF r c(1)]) (simp add: pc)
  let ?s = "put_ctrl c (Some (cb\<lparr>ref := ref cb - 1\<rparr>)) s"
  have st: "sb_step x s = (if ref cb = 1 then goto x (SB_Close a) ?s else sb_finish x a ?s)"
    using pc c by (simp add: sb_step_def with_ctrl_def Let_def)
  have p1: "pcs_inv ?s" by (rule pcs_put [OF p]) simp
  note lent = mover_lent [OF p, of x a]
  have "counts_inv (sb_step x s)"
  proof (cases "ref cb = 1")
    case True
    have "refs_ok (goto x (SB_Close a) ?s)"
      by (rule last_refs(1) [OF r c(1) _ _ _ _ c(2) True]) (simp_all add: pc)
    moreover have "pcs_inv (goto x (SB_Close a) ?s)"
    proof (rule pcs_goto [OF p1])
      show "spent (pcs ?s x) \<or> \<not> hidden spent ?s d" if "handles (sb ?s) x = Some (Some d)" for d
        using that nh c by (simp add: hidden_def)
      show "mover (pcs ?s x) = Some w" if "mover (SB_Close a) = Some w" for w using that pc by (cases a) simp_all
      show "sb_reads (pcs ?s z) \<noteq> Some x" for z by (rule unread [OF p1]) (simp add: pc)
    qed (use pc c in simp_all)
    ultimately show ?thesis using True st by (simp add: counts_inv_def)
  next
    case False
    have "refs_ok (sb_finish x a ?s)" by (rule sub_refs [OF r c(1) pc c(2) False]) (use lent pc in blast)
    moreover have "pcs_inv (sb_finish x a ?s)"
    proof (rule finish_pcs [OF p1])
      show "sb_reads (pcs ?s z) \<noteq> Some x" for z by (rule unread [OF p1]) (simp add: pc)
      show "y \<noteq> x \<and> handles (sb ?s) y \<noteq> None \<and> pcs ?s y = SB_Lent \<and> (\<forall>z. mover (pcs ?s z) = Some y \<longrightarrow> z = x)"
        if "a = Then_Move y" for y
        using lent [of y] that pc by (simp only: put_ctrl_simps) simp
    qed (use pc c in simp_all)
    ultimately show ?thesis using False st by (simp add: counts_inv_def)
  qed
  then show ?thesis using that c nh st by (simp add: Let_def)
qed

lemma step_Close:
  assumes i: "counts_inv s" and pc: "pcs s x = SB_Close a"
  shows "counts_inv (goto x (SB_Delete a) (s\<lparr>sb := (sb s)\<lparr>env := w\<rparr>\<rparr>))"
proof -
  have r: "refs_ok s" and p: "pcs_inv s" using i by (simp_all add: counts_inv_def)
  have p1: "pcs_inv (s\<lparr>sb := (sb s)\<lparr>env := w\<rparr>\<rparr>)" using p by (simp only: pcs_uniq_env)
  have "pcs_inv (goto x (SB_Delete a) (s\<lparr>sb := (sb s)\<lparr>env := w\<rparr>\<rparr>))"
  proof (rule pcs_goto [OF p1])
    show "mover (pcs (s\<lparr>sb := (sb s)\<lparr>env := w\<rparr>\<rparr>) x) = Some v" if "mover (SB_Delete a) = Some v" for v
      using that pc by (cases a) simp_all
    show "sb_reads (pcs (s\<lparr>sb := (sb s)\<lparr>env := w\<rparr>\<rparr>) z) \<noteq> Some x" for z by (rule unread [OF p1]) (simp add: pc)
  qed (use pc pcs_invD(1) [OF p, of x] in simp_all)
  then show ?thesis using close_refs [OF r pc] by (simp add: counts_inv_def)
qed

lemma step_Delete:
  assumes i: "counts_inv s" and pc: "pcs s x = SB_Delete a"
  obtains c cb where "handles (sb s) x = Some (Some c)" "ctrls (sb s) c = Some cb"
    "sb_step x s = sb_finish x a (put_ctrl c None s)" "counts_inv (sb_step x s)"
proof -
  have r: "refs_ok s" and p: "pcs_inv s" using i by (simp_all add: counts_inv_def)
  obtain c cb where c: "handles (sb s) x = Some (Some c)" "ctrls (sb s) c = Some cb"
    by (rule counts_ctrl [OF i, of x]) (simp_all add: pc)
  note lent = mover_lent [OF p, of x a]
  have st: "sb_step x s = sb_finish x a (put_ctrl c None s)" using pc c by (simp add: sb_step_def with_ctrl_def)
  have "refs_ok (sb_step x s)" unfolding st by (rule delete_refs [OF r c(1) pc]) (use lent pc in blast)
  moreover have "pcs_inv (sb_finish x a s)"
  proof (rule finish_pcs [OF p])
    show "sb_reads (pcs s z) \<noteq> Some x" for z by (rule unread [OF p]) (simp add: pc)
    show "y \<noteq> x \<and> handles (sb s) y \<noteq> None \<and> pcs s y = SB_Lent \<and> (\<forall>z. mover (pcs s z) = Some y \<longrightarrow> z = x)"
      if "a = Then_Move y" for y by (rule lent) (use that pc in simp_all)
  qed (use pc c in simp_all)
  then have "pcs_inv (put_ctrl c None (sb_finish x a s))"
  proof (rule pcs_put)
    have "\<not> (handles (sb (sb_finish x a s)) z = Some (Some c) \<and> spent (pcs (sb_finish x a s) z))" for z
    proof
      assume h: "handles (sb (sb_finish x a s)) z = Some (Some c) \<and> spent (pcs (sb_finish x a s) z)"
      then have "z \<noteq> x \<and> handles (sb s) z = Some (Some c) \<and> spent (pcs s z)"
        using lent pc by (cases a) (auto split: if_splits option.splits)
      then show False using pcs_invD(4) [OF p, of z c x] c pc by simp
    qed
    then show "\<not> hidden spent (sb_finish x a s) c" unfolding hidden_def by blast
  qed
  ultimately show ?thesis using that c st by (simp add: counts_inv_def finish_put)
qed

lemma step_CAS:
  assumes i: "counts_inv s" and pc: "pcs s x = SB_CAS"
  obtains c cb where "handles (sb s) x = Some (Some c)" "ctrls (sb s) c = Some cb" "\<not> hidden spent s c"
    "sb_step x s = (if ref cb = 1 then goto x SB_Take (put_ctrl c (Some (cb\<lparr>ref := 0\<rparr>)) s) else goto x SB_Idle s)"
    "counts_inv (sb_step x s)"
proof -
  have r: "refs_ok s" and p: "pcs_inv s" using i by (simp_all add: counts_inv_def)
  obtain c cb where c: "handles (sb s) x = Some (Some c)" "ctrls (sb s) c = Some cb"
    by (rule counts_ctrl [OF i, of x]) (simp_all add: pc)
  have nh: "\<not> hidden spent s c" by (rule not_hidden_counted [OF r c(1)]) (simp add: pc)
  let ?s = "put_ctrl c (Some (cb\<lparr>ref := 0\<rparr>)) s"
  have st: "sb_step x s = (if ref cb = 1 then goto x SB_Take ?s else goto x SB_Idle s)"
    using pc c by (simp add: sb_step_def with_ctrl_def)
  have "counts_inv (goto x SB_Take ?s)" if one: "ref cb = 1"
  proof -
    have p1: "pcs_inv ?s" by (rule pcs_put [OF p]) simp
    have "pcs_inv (goto x SB_Take ?s)"
    proof (rule pcs_goto [OF p1])
      show "spent (pcs ?s x) \<or> \<not> hidden spent ?s d" if "handles (sb ?s) x = Some (Some d)" for d
        using that nh c by (simp add: hidden_def)
      show "sb_reads (pcs ?s z) \<noteq> Some x" for z by (rule unread [OF p1]) (simp add: pc)
    qed (use pc c in simp_all)
    moreover have "refs_ok (goto x SB_Take ?s)"
      by (rule last_refs(1) [OF r c(1) _ _ _ _ c(2) one]) (simp_all add: pc)
    ultimately show ?thesis by (simp add: counts_inv_def)
  qed
  moreover have "counts_inv (goto x SB_Idle s)"
  proof -
    have w: "without spent (goto x SB_Idle s) = without spent s" by (rule without_same [where x = x and y = x]) (auto simp: pc)
    have "refs_ok (goto x SB_Idle s)" by (rule refs_ok_cong [OF r _ w]) (auto simp: visible_def fun_eq_iff pc)
    moreover have "pcs_inv (goto x SB_Idle s)" by (rule pcs_goto [OF p]) (use pc unread [OF p, of x] in simp_all)
    ultimately show ?thesis by (simp add: counts_inv_def)
  qed
  ultimately show ?thesis using that [OF c nh st] st by simp
qed

end
