(* ===== verification/Shared_Threads_Safe.thy ===== *)
theory Shared_Threads_Safe
  imports Shared_Threads_Props
begin

text \<open>
  Several threads on shared buffers: the calls, the operations of one step, the blocks the control
  blocks own, and what follows of every interleaving.
\<close>

section \<open>Objects no operation works on\<close>

lemma unread_fresh:
  assumes "pcs_inv s" "handles (sb s) x = None"
  shows "sb_reads (pcs s z) \<noteq> Some x" "pcs s x = SB_Idle" "mover (pcs s z) \<noteq> Some x"
proof -
  show "sb_reads (pcs s z) \<noteq> Some x" using pcs_invD(1) [OF assms(1), of z] assms(2) by (cases "pcs s z") auto
  show i: "pcs s x = SB_Idle" using pcs_invD(1) [OF assms(1), of x] assms(2) by (cases "pcs s x") auto
  show "mover (pcs s z) \<noteq> Some x" using pcs_invD(2) [OF assms(1), of z x] i by auto
qed

lemma counts_aligned:
  assumes "counts_inv s" "handles (sb s) x \<noteq> None"
  shows "x \<noteq> nullptr \<and> x AND 7 = 0"
proof -
  have r: "refs_inv (taken s) (seen s)" using assms(1) by (simp add: counts_inv_def refs_ok_def)
  have "handles (seen s) x \<noteq> None" using assms(2) by (simp add: visible_def)
  then show ?thesis by (rule refs_invD(4) [OF r])
qed

lemma refs_ok_seen:
  assumes "refs_ok s" "refs_inv (taken s) st" "visible s' = handles st" "without spent s' = ctrls st"
    "\<And>z. extra (pcs s' z) = extra (pcs s z)" "\<And>c. without spent s c \<noteq> None \<Longrightarrow> ctrls st c \<noteq> None"
  shows "refs_ok s'"
proof -
  have "taken s' = taken s" by (simp add: taken_def fun_eq_iff assms(5))
  moreover have "refs_inv (taken s) (seen s')" by (rule refs_cong [OF assms(2)]) (simp_all add: assms(3,4))
  ultimately show ?thesis using assms by (simp add: refs_ok_def)
qed

text \<open>A new object that points nowhere yet.\<close>

lemma counts_new_null:
  assumes i: "counts_inv s" and x: "fresh_at x (sb s)" and s': "sb s' = set_handle x r (sb s)" "pcs s' = (pcs s)(x := pc)"
    and pc: "pc = SB_Idle \<and> r = None \<or> (\<exists>y c. pc = SB_Add y \<and> r = Some c \<and> handles (sb s) y = r' \<and> r' = Some (Some c) \<and> pcs s y = SB_Idle)"
  shows "counts_inv s'"
proof -
  have r: "refs_ok s" and p: "pcs_inv s" using i by (simp_all add: counts_inv_def)
  have fresh: "handles (sb s) x = None" "x \<noteq> nullptr \<and> x AND 7 = 0" using x by (simp_all add: fresh_at_def)
  note un = unread_fresh [OF p fresh(1)]
  have npc: "extra pc = None" "\<not> spent pc" "mover pc = None" "\<not> counted pc \<or> r = None" using pc by auto
  have w: "without spent s' = without spent s"
    by (rule without_same [where x = x and y = x]) (use un npc in \<open>auto simp: s'\<close>)
  have "refs_ok s'"
  proof (rule refs_ok_seen [OF r])
    show "refs_inv (taken s) (set_handle x None (seen s))"
      by (rule refs_null) (use r fresh in \<open>auto simp: refs_ok_def holders_def visible_def\<close>)
    show "visible s' = handles (set_handle x None (seen s))" using npc(4) fresh by (auto simp: visible_def fun_eq_iff s')
  qed (use npc w un in \<open>simp_all add: s'\<close>)
  moreover have "pcs_inv s'"
  proof (rule pcs_step1 [OF p, where x = x])
    have "y \<noteq> x" if "handles (sb s) y = Some (Some c)" for y c using that fresh by auto
    then show "pc_ok s' x (pcs s' x)" using pc by (auto simp: s')
    show "sb_reads (pcs s z) \<noteq> Some x" for z by (rule un)
  qed (use un npc in \<open>simp_all add: s'\<close>)
  ultimately show ?thesis by (simp add: counts_inv_def)
qed

text \<open>Exchanging two objects, or moving to a new one.\<close>

lemma counts_exchange:
  assumes i: "counts_inv s" and x: "handles (sb s) x = None \<or> writable s x" and y: "writable s y"
    and refs: "refs_inv (taken s) (set_handle y r (set_handle x r' (seen s)))"
  shows "counts_inv (s\<lparr>sb := set_handle y r (set_handle x r' (sb s))\<rparr>)" (is "counts_inv ?s")
proof -
  have ok: "refs_ok s" and p: "pcs_inv s" using i by (simp_all add: counts_inv_def)
  have idle: "pcs s x = SB_Idle" "pcs s y = SB_Idle"
    using x y unread_fresh [OF p, where x = x] by (auto simp: writable_def readable_def)
  have un: "sb_reads (pcs s z) \<noteq> Some x" "sb_reads (pcs s z) \<noteq> Some y" for z
    using x y unread_fresh [OF p, where x = x] by (auto simp: writable_def)
  have w: "without spent ?s = without spent s"
    by (rule without_same [where x = x and y = y]) (use idle in auto)
  have "refs_ok ?s"
    by (rule refs_ok_seen [OF ok refs]) (use w idle in \<open>auto simp: visible_def fun_eq_iff\<close>)
  moreover have "pcs_inv ?s"
  proof (rule pcs_step2 [OF p, where x = x and y = y])
    fix z z' c assume a: "handles (sb ?s) z = Some (Some c)" "handles (sb ?s) z' = Some (Some c)" "spent (pcs ?s z)" "spent (pcs ?s z')"
    then have "z \<noteq> x" "z \<noteq> y" "z' \<noteq> x" "z' \<noteq> y" using idle by auto
    then show "z = z'" using a by (intro pcs_invD(4) [OF p, of z c z']) simp_all
  next
    fix z v assume "mover (pcs ?s z) = Some v"
    then show "pcs ?s v = SB_Lent" using pcs_invD(2) [OF p, of z v] by simp
  next
    fix z z' v assume "mover (pcs ?s z) = Some v" "mover (pcs ?s z') = Some v"
    then show "z = z'" by (intro pcs_invD(3) [OF p, of z v z']) simp_all
  qed (use un idle in simp_all)
  ultimately show ?thesis by (simp add: counts_inv_def)
qed

text \<open>A new control block.\<close>

lemma counts_new_ctrl:
  assumes i: "counts_inv s" and x: "fresh_at x (sb s)" and c: "ctrls (sb s) c = None" and one: "ref cb = 1"
    and s': "handles (sb s') = (handles (sb s))(x \<mapsto> Some c)" "ctrls (sb s') = (ctrls (sb s))(c \<mapsto> cb)" "pcs s' = pcs s"
  shows "counts_inv s'"
proof -
  have ok: "refs_ok s" and p: "pcs_inv s" using i by (simp_all add: counts_inv_def)
  have fresh: "handles (sb s) x = None" "x \<noteq> nullptr \<and> x AND 7 = 0" using x by (simp_all add: fresh_at_def)
  note un = unread_fresh [OF p fresh(1)]
  have nh: "\<not> hidden spent s c"
  proof
    assume "hidden spent s c"
    then obtain z where "handles (sb s) z = Some (Some c)" "spent (pcs s z)" by (auto simp: hidden_def)
    then show False using pcs_invD(1) [OF p, of z] c by (cases "pcs s z") auto
  qed
  have w: "without spent s' = (without spent s)(c \<mapsto> cb)"
  proof (rule ext)
    fix d
    have "handles (sb s') z = Some (Some d) \<and> spent (pcs s' z) \<longleftrightarrow> handles (sb s) z = Some (Some d) \<and> spent (pcs s z)" for z
      using un(2) fresh by (cases "z = x") (simp_all add: s')
    then have "hidden spent s' d = hidden spent s d" by (simp add: hidden_def)
    then show "without spent s' d = ((without spent s)(c \<mapsto> cb)) d" using nh by (simp add: without_def s')
  qed
  let ?st = "(seen s)\<lparr>handles := (visible s)(x \<mapsto> Some c), ctrls := (without spent s)(c \<mapsto> cb)\<rparr>"
  have wn: "without spent s c = None" using c by (simp add: without_def)
  have t0: "taken s c = 0"
  proof -
    have "extra (pcs s z) \<noteq> Some c" for z using refs_okD(2) [OF ok, of z c] wn by auto
    then show ?thesis by (simp add: taken_def)
  qed
  have "refs_inv (taken s) ?st"
    by (rule refs_new [where c = c and cb = cb and st = "seen s" and x = x]) (use ok wn one x t0 in \<open>simp_all add: refs_ok_def fresh_at_def visible_def\<close>)
  then have "refs_ok s'"
    by (rule refs_ok_seen [OF ok]) (use w un fresh in \<open>auto simp: visible_def fun_eq_iff s'\<close>)
  moreover have "pcs_inv s'"
  proof (rule pcs_step1 [OF p, where x = x])
    show "sb_reads (pcs s z) \<noteq> Some x" for z by (rule un)
  qed (use un fresh in \<open>simp_all add: s'\<close>)
  ultimately show ?thesis by (simp add: counts_inv_def)
qed

lemma counts_other:
  assumes i: "counts_inv s" and s': "handles (sb s') = handles (sb s)" "ctrls (sb s') = ctrls (sb s)" "pcs s' = pcs s"
  shows "counts_inv s'"
proof -
  have "hidden spent s' c = hidden spent s c" for c by (simp add: hidden_def s')
  then have "visible s' = visible s" "without spent s' = without spent s"
    by (simp_all add: visible_def without_def fun_eq_iff s')
  then have "refs_ok s'" using i by (intro refs_ok_cong [of s s']) (simp_all add: counts_inv_def s')
  moreover have "pc_ok s' z pc = pc_ok s z pc" for z pc by (rule pc_ok_cong) (simp_all add: s')
  then have "pcs_inv s'" using i by (simp add: counts_inv_def pcs_inv_def s')
  ultimately show ?thesis by (simp add: counts_inv_def)
qed

section \<open>Calls\<close>

lemma writable_facts: "writable s x \<Longrightarrow> handles (sb s) x \<noteq> None \<and> pcs s x = SB_Idle \<and> (\<forall>z. sb_reads (pcs s z) \<noteq> Some x)"
  by (auto simp: writable_def readable_def)

lemma counts_let_go:
  assumes i: "counts_inv s" and x: "writable s x" and a: "pending a = None"
    and lent: "\<And>y. a = Then_Move y \<Longrightarrow> y \<noteq> x \<and> handles (sb s) y \<noteq> None \<and> pcs s y = SB_Lent \<and>
      (\<forall>z. mover (pcs s z) = Some y \<longrightarrow> z = x)"
  shows "counts_inv (sb_let_go x a s)"
proof -
  have r: "refs_ok s" and p: "pcs_inv s" using i by (simp_all add: counts_inv_def)
  note w = writable_facts [OF x]
  have "refs_ok (sb_let_go x a s)"
  proof (rule let_go_refs)
    show "refs_inv (\<lambda>c. others x s c + one_if (pending a) c) (seen s)" using refs_okD(1) [OF r, of x] w a by simp
    show "without spent s c \<noteq> None" if "extra (pcs s z) = Some c" for z c by (rule refs_okD(2) [OF r that])
    show "y \<noteq> x \<and> handles (sb s) y \<noteq> None \<and> pcs s y = SB_Lent" if "a = Then_Move y" for y using lent [OF that] by blast
  qed (use w a in simp_all)
  moreover have "pcs_inv (sb_let_go x a s)" by (rule let_go_pcs [OF p]) (use w lent in simp_all)
  ultimately show ?thesis by (simp add: counts_inv_def)
qed

text \<open>The operation on \<open>x\<close> begins, or lends it, and nothing else changes.\<close>

lemma counts_goto:
  assumes i: "counts_inv s" and x: "writable s x" and pc: "counted pc" "\<not> spent pc" "extra pc = None" "mover pc = None"
    "pc_ok (goto x pc s) x pc"
  shows "counts_inv (goto x pc s)"
proof -
  have r: "refs_ok s" and p: "pcs_inv s" using i by (simp_all add: counts_inv_def)
  note w = writable_facts [OF x]
  have "refs_ok (goto x pc s)"
  proof (rule refs_ok_cong [OF r])
    show "without spent (goto x pc s) = without spent s" by (rule without_same [where x = x and y = x]) (use w pc in auto)
  qed (use w pc in \<open>auto simp: visible_def fun_eq_iff\<close>)
  moreover have "pcs_inv (goto x pc s)" by (rule pcs_goto [OF p]) (use w pc in simp_all)
  ultimately show ?thesis by (simp add: counts_inv_def)
qed

lemma call_counts:
  assumes i: "counts_inv s" and ok: "may_call s x call"
  shows "counts_inv (sb_call x call s)"
proof (cases call)
  case (Call_Copy y)
  then have y: "handles (sb s) y \<noteq> None" "pcs s y = SB_Idle" and x: "fresh_at x (sb s)" using ok by (simp_all add: readable_def)
  have "pcs s x = SB_Idle" using unread_fresh(2) [of s x] i x by (simp add: counts_inv_def fresh_at_def)
  then have same: "(pcs s)(x := SB_Idle) = pcs s" by auto
  show ?thesis
  proof (cases "handles (sb s) y")
    case (Some r)
    show ?thesis
    proof (cases r)
      case None
      have "counts_inv (s\<lparr>sb := set_handle x None (sb s)\<rparr>)"
        by (rule counts_new_null [OF i x, where r = None and pc = SB_Idle]) (simp_all add: same)
      then show ?thesis using Call_Copy None Some by simp
    next
      case c: (Some c)
      have "counts_inv (goto x (SB_Add y) (s\<lparr>sb := set_handle x (Some c) (sb s)\<rparr>))"
        by (rule counts_new_null [OF i x, where r = "Some c" and pc = "SB_Add y"]) (use y Some c in simp_all)
      then show ?thesis using Call_Copy Some c by simp
    qed
  qed (use y in simp)
next
  case (Call_Copy_Assign y)
  then have w: "writable s x" and y: "handles (sb s) y \<noteq> None" "pcs s y = SB_Idle" using ok by (simp_all add: readable_def)
  have "counts_inv (sb_let_go x (Then_Store None) s)" by (rule counts_let_go [OF i w]) simp_all
  moreover have "counts_inv (goto x (SB_Add_New y c) s)" if "handles (sb s) y = Some (Some c)" "x \<noteq> y" for c
    by (rule counts_goto [OF i w]) (use that y writable_facts [OF w] in simp_all)
  ultimately show ?thesis using Call_Copy_Assign i y by (auto split: option.splits)
next
  case (Call_Move_Assign y)
  then have w: "writable s x" "writable s y" using ok by simp_all
  note wx = writable_facts [OF w(1)] and wy = writable_facts [OF w(2)]
  show ?thesis
  proof (cases "x = y")
    case False
    let ?s = "goto y SB_Lent s"
    have i1: "counts_inv ?s" by (rule counts_goto [OF i w(2)]) (use wy in simp_all)
    have no: "mover (pcs s z) \<noteq> Some y" for z
      using pcs_invD(2) [of s z y] i wy by (auto simp: counts_inv_def)
    have "counts_inv (sb_let_go x (Then_Move y) ?s)"
    proof (rule counts_let_go [OF i1])
      show "writable ?s x" using w(1) False by (auto simp: writable_def readable_def)
      show "y' \<noteq> x \<and> handles (sb ?s) y' \<noteq> None \<and> pcs ?s y' = SB_Lent \<and> (\<forall>z. mover (pcs ?s z) = Some y' \<longrightarrow> z = x)"
        if "Then_Move y = Then_Move y'" for y' using that False wy no by auto
    qed simp
    then show ?thesis using Call_Move_Assign False by simp
  qed (use Call_Move_Assign i in simp)
next
  case Call_Reset
  then show ?thesis using ok counts_let_go [OF i, of x Then_Null] by simp
next
  case Call_Destroy
  then show ?thesis using ok counts_let_go [OF i, of x Then_Dispose] by simp
next
  case Call_Release
  then have w: "writable s x" using ok by simp
  have "counts_inv (goto x SB_CAS s)" if "handles (sb s) x = Some (Some c)" for c
    by (rule counts_goto [OF i w]) (use that in simp_all)
  then show ?thesis using Call_Release i writable_facts [OF w] by (auto split: option.splits)
qed

text \<open>The end of \<open>release\<close>.\<close>

lemma take_counts:
  assumes i: "counts_inv s" and pc: "pcs s x = SB_Take"
  obtains c cb where "handles (sb s) x = Some (Some c)" "ctrls (sb s) c = Some cb"
    "sb_take x z s = goto x SB_Idle (put_ctrl c None (s\<lparr>sb := set_handle x None ((sb s)\<lparr>uniq := (uniq (sb s))(z \<mapsto>
       R \<lparr>rb_ptr = cb_ptr cb, rb_count = cb_size cb, rb_deleter = cb_deleter cb, rb_location = cb_location cb\<rparr>)\<rparr>)\<rparr>))"
    "counts_inv (sb_take x z s)"
proof -
  have r: "refs_ok s" and p: "pcs_inv s" using i by (simp_all add: counts_inv_def)
  obtain c cb where c: "handles (sb s) x = Some (Some c)" "ctrls (sb s) c = Some cb"
    by (rule counts_ctrl [OF i, of x]) (simp_all add: pc)
  define u where "u = (uniq (sb s))(z \<mapsto>
    R \<lparr>rb_ptr = cb_ptr cb, rb_count = cb_size cb, rb_deleter = cb_deleter cb, rb_location = cb_location cb\<rparr>)"
  let ?s = "goto x SB_Idle (put_ctrl c None (s\<lparr>sb := set_handle x None ((sb s)\<lparr>uniq := u\<rparr>)\<rparr>))"
  have st: "sb_take x z s = ?s" using c by (simp add: sb_take_def with_ctrl_def u_def)
  have only: "y = x" if "handles (sb s) y = Some (Some c)" "spent (pcs s y)" for y
    by (rule pcs_invD(4) [OF p that(1) c(1) that(2)]) (simp add: pc)
  have w: "without spent ?s = without spent s"
  proof (rule ext)
    fix d
    have "hidden spent s c" using c pc by (auto simp: hidden_def)
    moreover have "hidden spent ?s d = hidden spent s d" if "d \<noteq> c"
    proof -
      have "handles (sb ?s) y = Some (Some d) \<and> spent (pcs ?s y) \<longleftrightarrow> handles (sb s) y = Some (Some d) \<and> spent (pcs s y)" for y
        using c that by (cases "y = x") simp_all
      then show ?thesis by (simp add: hidden_def)
    qed
    ultimately show "without spent ?s d = without spent s d" by (cases "d = c") (simp_all add: without_def)
  qed
  have "refs_ok ?s"
    by (rule refs_ok_cong [OF r _ w]) (use c pc in \<open>auto simp: visible_def fun_eq_iff\<close>)
  moreover have "pcs_inv ?s"
  proof (rule pcs_step1 [OF p, where x = x])
    show "sb_reads (pcs s y) \<noteq> Some x" for y by (rule unread [OF p]) (simp add: pc)
    show "ctrls (sb ?s) d \<noteq> None"
      if "y \<noteq> x" "spent (pcs s y)" "handles (sb s) y = Some (Some d)" "ctrls (sb s) d \<noteq> None" for y d
      using that only [of y] by auto
  qed (use pc in simp_all)
  ultimately show ?thesis using that [OF c] st by (simp add: counts_inv_def u_def)
qed

section \<open>The blocks the control blocks own\<close>

text \<open>The block of a control block whose deleter has run is not its own any more.\<close>

definition given :: "'w sb_threads \<Rightarrow> 'w sb_state" where
  "given s = (sb s)\<lparr>ctrls := without deleting s\<rparr>"

lemma given_simps [simp]:
  "ctrls (given s) = without deleting s" "uniq (given s) = uniq (sb s)" "env (given s) = env (sb s)"
  "next_ctrl (given s) = next_ctrl (sb s)"
  by (simp_all add: given_def)

lemma finish_simps [simp]:
  "ctrls (sb (sb_finish x a s)) = ctrls (sb s)" "uniq (sb (sb_finish x a s)) = uniq (sb s)"
  "env (sb (sb_finish x a s)) = env (sb s)" "next_ctrl (sb (sb_finish x a s)) = next_ctrl (sb s)"
  by (cases a; simp split: option.splits)+

lemma let_go_simps [simp]:
  "ctrls (sb (sb_let_go x a s)) = ctrls (sb s)" "uniq (sb (sb_let_go x a s)) = uniq (sb s)"
  "env (sb (sb_let_go x a s)) = env (sb s)" "next_ctrl (sb (sb_let_go x a s)) = next_ctrl (sb s)"
  by (simp_all add: sb_let_go_def split: option.splits)

lemma deleting_finish:
  assumes "\<And>y. a = Then_Move y \<Longrightarrow> y \<noteq> x \<and> pcs s y = SB_Lent"
    "\<And>c. deleting (pcs s x) \<Longrightarrow> handles (sb s) x = Some (Some c) \<Longrightarrow> ctrls (sb s) c = None"
  shows "without deleting (sb_finish x a s) = without deleting s"
proof (cases a)
  case Then_Null
  show ?thesis by (rule without_same [where x = x and y = x]) (use assms(2) in \<open>auto simp: Then_Null\<close>)
next
  case Then_Dispose
  show ?thesis by (rule without_same [where x = x and y = x]) (use assms(2) in \<open>auto simp: Then_Dispose\<close>)
next
  case (Then_Store r)
  show ?thesis by (rule without_same [where x = x and y = x]) (use assms(2) in \<open>auto simp: Then_Store\<close>)
next
  case (Then_Move y)
  show ?thesis
    by (rule without_same [where x = x and y = y])
      (use assms(1) [OF Then_Move] assms(2) in \<open>auto simp: Then_Move split: option.splits if_splits\<close>)
qed

lemma deleting_goto: "\<not> deleting (pcs s x) \<Longrightarrow> \<not> deleting pc \<Longrightarrow> without deleting (goto x pc s) = without deleting s"
  by (rule without_same [where x = x and y = x]) auto

lemma deleting_let_go:
  assumes "\<And>y. a = Then_Move y \<Longrightarrow> y \<noteq> x \<and> pcs s y = SB_Lent" "\<not> deleting (pcs s x)"
  shows "without deleting (sb_let_go x a s) = without deleting s"
  using deleting_finish [of a x s] deleting_goto [of s x] assms by (auto simp: sb_let_go_def split: option.splits)

lemma deleting_let_go_simple:
  "mover (SB_Sub a) = None \<Longrightarrow> \<not> deleting (pcs s x) \<Longrightarrow> without deleting (sb_let_go x a s) = without deleting s"
  by (rule deleting_let_go) auto

lemma hidden_deleting: "hidden deleting s c \<Longrightarrow> hidden spent s c"
  unfolding hidden_def by (metis deleting.elims(2) spent.simps(2))

definition new_ctrls :: "'w sb_threads \<Rightarrow> bool" where
  "new_ctrls s \<longleftrightarrow> (\<forall>c \<ge> next_ctrl (sb s). ctrls (sb s) c = None)"

context sized_provider
begin

definition tinv :: "'w sb_threads \<Rightarrow> bool" where
  "tinv s \<longleftrightarrow> counts_inv s \<and> blocks_inv (given s) \<and> new_ctrls s"

lemma given_cong:
  assumes "blocks_inv (given s)" "without deleting s' = without deleting s" "uniq (sb s') = uniq (sb s)" "env (sb s') = env (sb s)"
    "next_ctrl (sb s') = next_ctrl (sb s)"
  shows "blocks_inv (given s')"
  by (rule blocks_cong [OF assms(1)]) (simp_all add: assms(2-))

lemma given_put:
  assumes "blocks_inv (given s)" "\<not> hidden spent s c" "ctrls (sb s) c = Some cb"
  shows "blocks_inv (given (put_ctrl c (Some (cb\<lparr>ref := v\<rparr>)) s))"
proof -
  have w: "without deleting s c = Some cb" using assms(2,3) hidden_deleting [of s c] by (auto simp: without_def)
  then have "blocks_inv ((given s)\<lparr>ctrls := (ctrls (given s))(c \<mapsto> cb\<lparr>ref := v\<rparr>)\<rparr>)" by (intro blocks_ref [OF assms(1)]) simp
  then show ?thesis by (rule blocks_cong) (use w without_put [of deleting s c "cb\<lparr>ref := v\<rparr>"] in simp_all)
qed

lemma new_ctrls_put: "new_ctrls s \<Longrightarrow> ctrls (sb s) c \<noteq> None \<Longrightarrow> new_ctrls (put_ctrl c r s)"
  by (fastforce simp: new_ctrls_def)

lemma new_ctrls_cong: "new_ctrls s \<Longrightarrow> ctrls (sb s') = ctrls (sb s) \<Longrightarrow> next_ctrl (sb s') = next_ctrl (sb s) \<Longrightarrow> new_ctrls s'"
  by (simp add: new_ctrls_def)

lemma tinvD:
  assumes "tinv s"
  shows "counts_inv s" "blocks_inv (given s)" "new_ctrls s"
  using assms by (simp_all add: tinv_def)

lemma tinv_lent:
  assumes "tinv s" "pcs s x = SB_Sub a \<or> pcs s x = SB_Close a \<or> pcs s x = SB_Delete a" "a = Then_Move y"
  shows "y \<noteq> x \<and> pcs s y = SB_Lent"
  using mover_lent [OF _ assms(2,3)] assms(1) by (auto simp: tinv_def counts_inv_def)

lemma tinv_Add:
  assumes inv: "tinv s" and pc: "pcs s x = SB_Add y"
  shows "tinv (sb_step x s)"
proof -
  note i = tinvD(1) [OF inv] and b = tinvD(2) [OF inv] and n = tinvD(3) [OF inv]
  obtain c cb where st: "ctrls (sb s) c = Some cb" "\<not> hidden spent s c"
    "sb_step x s = goto x SB_Idle (put_ctrl c (Some (cb\<lparr>ref := ref cb + 1\<rparr>)) s)" "counts_inv (sb_step x s)"
    by (rule step_Add [OF i pc])
  let ?s = "put_ctrl c (Some (cb\<lparr>ref := ref cb + 1\<rparr>)) s"
  have "blocks_inv (given (goto x SB_Idle ?s))"
    by (rule given_cong [OF given_put [OF b st(2,1)]]) (simp_all add: deleting_goto pc)
  moreover have "new_ctrls (goto x SB_Idle ?s)" by (rule new_ctrls_cong [OF new_ctrls_put [OF n]]) (use st in simp_all)
  ultimately show ?thesis using st(3,4) by (simp add: tinv_def)
qed

lemma tinv_Add_New:
  assumes inv: "tinv s" and pc: "pcs s x = SB_Add_New y c"
  shows "tinv (sb_step x s)"
proof -
  note i = tinvD(1) [OF inv] and b = tinvD(2) [OF inv] and n = tinvD(3) [OF inv]
  obtain cb where st: "ctrls (sb s) c = Some cb" "\<not> hidden spent s c"
    "sb_step x s = sb_let_go x (Then_Store (Some c)) (put_ctrl c (Some (cb\<lparr>ref := ref cb + 1\<rparr>)) s)" "counts_inv (sb_step x s)"
    by (rule step_Add_New [OF i pc])
  let ?s = "put_ctrl c (Some (cb\<lparr>ref := ref cb + 1\<rparr>)) s"
  have "without deleting (sb_let_go x (Then_Store (Some c)) ?s) = without deleting ?s"
    by (rule deleting_let_go) (simp_all add: pc)
  then have "blocks_inv (given (sb_let_go x (Then_Store (Some c)) ?s))"
    by (rule given_cong [OF given_put [OF b st(2,1)]]) simp_all
  moreover have "new_ctrls (sb_let_go x (Then_Store (Some c)) ?s)" by (rule new_ctrls_cong [OF new_ctrls_put [OF n]]) (use st in simp_all)
  ultimately show ?thesis using st(3,4) by (simp add: tinv_def)
qed

lemma tinv_Sub:
  assumes inv: "tinv s" and pc: "pcs s x = SB_Sub a"
  shows "tinv (sb_step x s)"
proof -
  note i = tinvD(1) [OF inv] and b = tinvD(2) [OF inv] and n = tinvD(3) [OF inv]
  note lent = tinv_lent [OF inv, of x]
  obtain c cb where st: "ctrls (sb s) c = Some cb" "\<not> hidden spent s c"
    "sb_step x s = (let s' = put_ctrl c (Some (cb\<lparr>ref := ref cb - 1\<rparr>)) s in
      if ref cb = 1 then goto x (SB_Close a) s' else sb_finish x a s')" "counts_inv (sb_step x s)"
    by (rule step_Sub [OF i pc])
  define s1 where "s1 = put_ctrl c (Some (cb\<lparr>ref := ref cb - 1\<rparr>)) s"
  have step: "sb_step x s = (if ref cb = 1 then goto x (SB_Close a) s1 else sb_finish x a s1)"
    using st(3) by (simp only: s1_def Let_def)
  have pcs1: "pcs s1 = pcs s" by (simp add: s1_def)
  have b1: "blocks_inv (given s1)" unfolding s1_def by (rule given_put [OF b st(2,1)])
  have n1: "new_ctrls s1" unfolding s1_def by (rule new_ctrls_put [OF n]) (simp add: st)
  have "blocks_inv (given (goto x (SB_Close a) s1))" by (rule given_cong [OF b1]) (simp_all add: deleting_goto pcs1 pc)
  moreover have "without deleting (sb_finish x a s1) = without deleting s1"
    by (rule deleting_finish) (use lent [of a] pc pcs1 in simp_all)
  then have "blocks_inv (given (sb_finish x a s1))" by (rule given_cong [OF b1]) simp_all
  moreover have "new_ctrls (goto x (SB_Close a) s1)" "new_ctrls (sb_finish x a s1)" by (rule new_ctrls_cong [OF n1]; simp)+
  ultimately show ?thesis using st(4) by (simp add: tinv_def step)
qed

lemma tinv_Close:
  assumes inv: "tinv s" and pc: "pcs s x = SB_Close a"
  shows "tinv (sb_step x s)"
proof -
  note i = tinvD(1) [OF inv] and b = tinvD(2) [OF inv] and n = tinvD(3) [OF inv]
  have p: "pcs_inv s" using i by (simp add: counts_inv_def)
  obtain c cb where c: "handles (sb s) x = Some (Some c)" "ctrls (sb s) c = Some cb"
    by (rule counts_ctrl [OF i, of x]) (simp_all add: pc)
  have only: "y = x" if "handles (sb s) y = Some (Some c)" "spent (pcs s y)" for y
    by (rule pcs_invD(4) [OF p that(1) c(1) that(2)]) (simp add: pc)
  have nh: "\<not> hidden deleting s c"
  proof
    assume "hidden deleting s c"
    then obtain y where y: "handles (sb s) y = Some (Some c)" "deleting (pcs s y)" by (auto simp: hidden_def)
    then have "spent (pcs s y)" by (cases "pcs s y") simp_all
    then show False using only [OF y(1)] y(2) pc by simp
  qed
  then have w: "ctrls (given s) c = Some cb" using c by (simp add: without_def)
  obtain v where v: "call_deleter (cb_deleter cb) (cb_ptr cb) (env (given s)) = (Inr (), v)"
    "blocks_inv ((given s)\<lparr>env := v, ctrls := (ctrls (given s))(c := None)\<rparr>)" using blocks_last [OF b w] by blast
  let ?s = "goto x (SB_Delete a) (s\<lparr>sb := (sb s)\<lparr>env := v\<rparr>\<rparr>)"
  have st: "sb_step x s = ?s" using pc c v(1) by (simp add: sb_step_def with_ctrl_def)
  have "without deleting ?s = (without deleting s)(c := None)"
  proof (rule ext)
    fix d
    have h: "handles (sb ?s) y = Some (Some d) \<and> deleting (pcs ?s y) \<longleftrightarrow>
      y = x \<and> c = d \<or> handles (sb s) y = Some (Some d) \<and> deleting (pcs s y)" for y
      by (cases "y = x") (simp_all add: c pc)
    have "hidden deleting ?s d \<longleftrightarrow> c = d \<or> hidden deleting s d"
      by (simp only: hidden_def h ex_disj_distrib) simp
    then show "without deleting ?s d = ((without deleting s)(c := None)) d" by (simp add: without_def)
  qed
  then have "blocks_inv (given ?s)" by (intro blocks_cong [OF v(2)]) simp_all
  moreover have "new_ctrls ?s" by (rule new_ctrls_cong [OF n]) simp_all
  ultimately show ?thesis using step_Close [OF i pc, of v] st by (simp add: tinv_def)
qed

lemma tinv_Delete:
  assumes inv: "tinv s" and pc: "pcs s x = SB_Delete a"
  shows "tinv (sb_step x s)"
proof -
  note i = tinvD(1) [OF inv] and b = tinvD(2) [OF inv] and n = tinvD(3) [OF inv]
  note lent = tinv_lent [OF inv, of x]
  obtain c cb where st: "handles (sb s) x = Some (Some c)" "ctrls (sb s) c = Some cb"
    "sb_step x s = sb_finish x a (put_ctrl c None s)" "counts_inv (sb_step x s)"
    by (rule step_Delete [OF i pc])
  let ?s = "put_ctrl c None s"
  have "hidden deleting s c" using st(1) pc by (auto simp: hidden_def)
  then have w: "without deleting ?s = without deleting s" by (auto simp: without_def hidden_def fun_eq_iff)
  have "without deleting (sb_finish x a ?s) = without deleting ?s"
    by (rule deleting_finish) (use lent [of a] pc st in simp_all)
  then have "blocks_inv (given (sb_finish x a ?s))" by (intro given_cong [OF b]) (simp_all add: w)
  moreover have "new_ctrls (sb_finish x a ?s)" by (rule new_ctrls_cong [OF new_ctrls_put [OF n]]) (use st in simp_all)
  ultimately show ?thesis using st(3,4) by (simp add: tinv_def)
qed

lemma tinv_CAS:
  assumes inv: "tinv s" and pc: "pcs s x = SB_CAS"
  shows "tinv (sb_step x s)"
proof -
  note i = tinvD(1) [OF inv] and b = tinvD(2) [OF inv] and n = tinvD(3) [OF inv]
  obtain c cb where st: "ctrls (sb s) c = Some cb" "\<not> hidden spent s c"
    "sb_step x s = (if ref cb = 1 then goto x SB_Take (put_ctrl c (Some (cb\<lparr>ref := 0\<rparr>)) s) else goto x SB_Idle s)"
    "counts_inv (sb_step x s)"
    by (rule step_CAS [OF i pc])
  let ?s = "put_ctrl c (Some (cb\<lparr>ref := 0\<rparr>)) s"
  have "blocks_inv (given (goto x SB_Take ?s))"
    by (rule given_cong [OF given_put [OF b st(2,1)]]) (simp_all add: deleting_goto pc)
  moreover have "blocks_inv (given (goto x SB_Idle s))" by (rule given_cong [OF b]) (simp_all add: deleting_goto pc)
  moreover have "new_ctrls (goto x SB_Take ?s)" by (rule new_ctrls_cong [OF new_ctrls_put [OF n]]) (use st in simp_all)
  moreover have "new_ctrls (goto x SB_Idle s)" by (rule new_ctrls_cong [OF n]) simp_all
  ultimately show ?thesis using st(3,4) by (simp add: tinv_def)
qed

lemma tinv_step: "tinv s \<Longrightarrow> tinv (sb_step x s)"
  by (cases "pcs s x")
    (fast intro: tinv_Add tinv_Add_New tinv_Sub tinv_Close tinv_Delete tinv_CAS | simp add: sb_step_def)+

lemma tinv_call:
  assumes inv: "tinv s" and ok: "may_call s x call"
  shows "tinv (sb_call x call s)"
proof -
  note i = tinvD(1) [OF inv] and b = tinvD(2) [OF inv] and n = tinvD(3) [OF inv]
  have c: "counts_inv (sb_call x call s)" by (rule call_counts [OF i ok])
  then have "sb_call x call s = s \<or> without deleting (sb_call x call s) = without deleting s"
  proof -
    have idle: "pcs s z = SB_Idle" if "writable s z \<or> fresh_at z (sb s)" for z
      using that unread_fresh(2) [of s z] i by (auto simp: writable_def readable_def fresh_at_def counts_inv_def)
    have x: "pcs s x = SB_Idle" by (rule idle) (use ok in \<open>cases call; simp\<close>)
    show ?thesis
    proof (cases call)
      case (Call_Copy y)
      have "without deleting (s\<lparr>sb := set_handle x None (sb s)\<rparr>) = without deleting s"
        by (rule without_same [where x = x and y = x]) (use x in auto)
      moreover have "without deleting (goto x (SB_Add y) (s\<lparr>sb := set_handle x (Some c) (sb s)\<rparr>)) = without deleting s" for c
        by (rule without_same [where x = x and y = x]) (use x in auto)
      ultimately show ?thesis using Call_Copy x by (simp add: deleting_goto split: option.splits)
    next
      case (Call_Copy_Assign y)
      then show ?thesis using x by (simp add: deleting_goto deleting_let_go_simple split: option.splits)
    next
      case (Call_Move_Assign y)
      have y: "pcs s y = SB_Idle" by (rule idle) (use ok Call_Move_Assign in simp)
      have "without deleting (sb_let_go x (Then_Move y) (goto y SB_Lent s)) = without deleting (goto y SB_Lent s)" if "x \<noteq> y"
        by (rule deleting_let_go) (use that x y in auto)
      then show ?thesis using Call_Move_Assign y by (simp add: deleting_goto)
    qed (use x in \<open>simp_all add: deleting_goto deleting_let_go_simple split: option.splits\<close>)
  qed
  moreover have "ctrls (sb (sb_call x call s)) = ctrls (sb s)" "uniq (sb (sb_call x call s)) = uniq (sb s)"
    "env (sb (sb_call x call s)) = env (sb s)" "next_ctrl (sb (sb_call x call s)) = next_ctrl (sb s)"
    by (cases call; simp split: option.splits)+
  ultimately show ?thesis using c given_cong [OF b] new_ctrls_cong [OF n] inv by (auto simp: tinv_def)
qed

lemma tinv_take:
  assumes inv: "tinv s" and pc: "pcs s x = SB_Take" and z: "uniq (sb s) z = None"
  shows "tinv (sb_take x z s)"
proof -
  note i = tinvD(1) [OF inv] and b = tinvD(2) [OF inv] and n = tinvD(3) [OF inv]
  have p: "pcs_inv s" using i by (simp add: counts_inv_def)
  obtain c cb where st: "handles (sb s) x = Some (Some c)" "ctrls (sb s) c = Some cb"
    "sb_take x z s = goto x SB_Idle (put_ctrl c None (s\<lparr>sb := set_handle x None ((sb s)\<lparr>uniq := (uniq (sb s))(z \<mapsto>
       R \<lparr>rb_ptr = cb_ptr cb, rb_count = cb_size cb, rb_deleter = cb_deleter cb, rb_location = cb_location cb\<rparr>)\<rparr>)\<rparr>))"
    "counts_inv (sb_take x z s)" by (rule take_counts [OF i pc])
  define rb where "rb = \<lparr>rb_ptr = cb_ptr cb, rb_count = cb_size cb, rb_deleter = cb_deleter cb, rb_location = cb_location cb\<rparr>"
  let ?s = "goto x SB_Idle (put_ctrl c None (s\<lparr>sb := set_handle x None ((sb s)\<lparr>uniq := (uniq (sb s))(z \<mapsto> R rb)\<rparr>)\<rparr>))"
  have only: "y = x" if "handles (sb s) y = Some (Some c)" "spent (pcs s y)" for y
    by (rule pcs_invD(4) [OF p that(1) st(1) that(2)]) (simp add: pc)
  have nh: "\<not> hidden deleting s c"
  proof
    assume "hidden deleting s c"
    then obtain y where y: "handles (sb s) y = Some (Some c)" "deleting (pcs s y)" by (auto simp: hidden_def)
    then have "spent (pcs s y)" by (cases "pcs s y") simp_all
    then show False using only [OF y(1)] y(2) pc by simp
  qed
  then have w: "ctrls (given s) c = Some cb" using st by (simp add: without_def)
  note ran = blocks_ran [OF b w] and cbs = blocks_invD(3) [OF b w]
  have own: "owned (insert (cb_ptr cb) (ran ((cptr (given s))(c := None)))) (uniq (sb s), env (sb s))"
    using blocks_invD(1) [OF b] unfolding ran(1) by simp
  have "owned (ran ((cptr (given s))(c := None))) ((uniq (sb s))(z \<mapsto> R rb), env (sb s))"
    by (rule owned_borrow [OF own ran(2), where x = z])
      (use z cbs ownedD(2) [OF own] in \<open>auto simp: rb_def block_of_simps block_of_def intro!: deleters_intro\<close>)
  then have "blocks_inv ((given s)\<lparr>uniq := (uniq (sb s))(z \<mapsto> R rb), env := env (sb s), ctrls := (ctrls (given s))(c := None)\<rparr>)"
    by (rule blocks_delete [OF b w])
  moreover have "without deleting ?s = (without deleting s)(c := None)"
  proof (rule ext)
    fix d
    have h: "handles (sb ?s) y = Some (Some d) \<and> deleting (pcs ?s y) \<longleftrightarrow> handles (sb s) y = Some (Some d) \<and> deleting (pcs s y)" for y
      by (cases "y = x") (simp_all add: pc)
    have "hidden deleting ?s d = hidden deleting s d" by (simp only: hidden_def h)
    then show "without deleting ?s d = ((without deleting s)(c := None)) d" using nh by (simp add: without_def)
  qed
  ultimately have "blocks_inv (given ?s)" by (elim blocks_cong) simp_all
  moreover have "new_ctrls ?s" using n st(2) by (fastforce simp: new_ctrls_def)
  ultimately show ?thesis using st(3,4) by (simp add: tinv_def rb_def)
qed

text \<open>A new object takes what the object \<open>y\<close> owned.\<close>

lemma tinv_raw:
  assumes inv: "tinv s" and x: "fresh_at x (sb s)"
    and y: "block_of (uniq (sb s)) y = (if p = nullptr then None else Some p)" "p \<noteq> nullptr \<Longrightarrow> d = Some give_back \<and> fits n"
    and objs: "block_of objs = (block_of (uniq (sb s)))(y := None)" "deleters_are give_back fits objs"
    and st: "shared_raw x p n d loc ((sb s)\<lparr>uniq := objs\<rparr>) = (Inr u, st)"
  shows "tinv (s\<lparr>sb := st\<rparr>)"
proof -
  note i = tinvD(1) [OF inv] and b = tinvD(2) [OF inv] and n = tinvD(3) [OF inv]
  have "pcs_inv s" using i by (simp add: counts_inv_def)
  then have idle: "pcs s x = SB_Idle" by (rule unread_fresh) (use x in \<open>simp add: fresh_at_def\<close>)
  have raw: "blocks_inv (snd (shared_raw x p n d loc ((given s)\<lparr>uniq := objs\<rparr>)))" "p \<noteq> nullptr \<Longrightarrow> n \<noteq> 0"
    using blocks_raw(1) [where st = "given s" and x = x and loc = loc and y = y and p = p and d = d and n = n and objs = objs]
      blocks_raw(2) [where st = "given s" and y = y and p = p and d = d and n = n and objs = objs] b y objs by simp_all
  show ?thesis
  proof (cases "p = nullptr")
    case True
    then have st: "st = set_handle x None ((sb s)\<lparr>uniq := objs\<rparr>)" using st by (simp add: shared_raw_def)
    have "counts_inv (s\<lparr>sb := (sb s)\<lparr>uniq := objs\<rparr>\<rparr>)" by (rule counts_other [OF i]) simp_all
    then have "counts_inv (s\<lparr>sb := st\<rparr>)"
      by (rule counts_new_null [where x = x and r = None and pc = SB_Idle]) (use x idle in \<open>auto simp: st fresh_at_def fun_eq_iff\<close>)
    moreover have "without deleting (s\<lparr>sb := st\<rparr>) = without deleting s"
      by (rule without_same [where x = x and y = x]) (use idle in \<open>auto simp: st\<close>)
    then have "blocks_inv (given (s\<lparr>sb := st\<rparr>))"
      by (intro blocks_cong [OF raw(1)]) (simp_all add: True shared_raw_def st)
    moreover have "new_ctrls (s\<lparr>sb := st\<rparr>)" by (rule new_ctrls_cong [OF n]) (simp_all add: st)
    ultimately show ?thesis by (simp add: tinv_def)
  next
    case False
    let ?c = "next_ctrl (sb s)" and ?cb = "new_control_block p n d loc"
    have st: "st = set_handle x (Some ?c) ((sb s)\<lparr>uniq := objs, ctrls := (ctrls (sb s))(?c \<mapsto> ?cb), next_ctrl := Suc ?c\<rparr>)"
      using st False raw(2) by (simp add: shared_raw_def)
    have c: "ctrls (sb s) ?c = None" using n by (simp add: new_ctrls_def)
    have "counts_inv (s\<lparr>sb := st\<rparr>)"
      by (rule counts_new_ctrl [OF i x c, where cb = ?cb]) (simp_all add: st new_control_block_def)
    moreover have "without deleting (s\<lparr>sb := st\<rparr>) = (without deleting s)(?c \<mapsto> ?cb)"
    proof (rule ext)
      fix e
      have nh: "\<not> hidden deleting s ?c"
      proof
        assume "hidden deleting s ?c"
        then obtain z where "handles (sb s) z = Some (Some ?c)" "deleting (pcs s z)" by (auto simp: hidden_def)
        then show False using pcs_invD(1) [OF \<open>pcs_inv s\<close>, of z] c by (cases "pcs s z") auto
      qed
      have h: "handles st z = Some (Some e) \<and> deleting (pcs s z) \<longleftrightarrow> handles (sb s) z = Some (Some e) \<and> deleting (pcs s z)" for z
        using idle x by (cases "z = x") (simp_all add: st fresh_at_def)
      have "hidden deleting (s\<lparr>sb := st\<rparr>) e = hidden deleting s e" by (simp add: hidden_def h)
      then show "without deleting (s\<lparr>sb := st\<rparr>) e = ((without deleting s)(?c \<mapsto> ?cb)) e" using nh by (simp add: without_def st)
    qed
    then have "blocks_inv (given (s\<lparr>sb := st\<rparr>))"
      by (intro blocks_cong [OF raw(1)]) (use False raw(2) in \<open>simp_all add: shared_raw_def st\<close>)
    moreover have "new_ctrls (s\<lparr>sb := st\<rparr>)" using n by (simp add: new_ctrls_def st)
    ultimately show ?thesis by (simp add: tinv_def)
  qed
qed

lemma tinv_same_ctrls:
  assumes inv: "tinv s" and c: "counts_inv s'" and s': "ctrls (sb s') = ctrls (sb s)" "uniq (sb s') = uniq (sb s)"
    "env (sb s') = env (sb s)" "next_ctrl (sb s') = next_ctrl (sb s)" and w: "without deleting s' = without deleting s"
  shows "tinv s'"
  using given_cong [OF tinvD(2) [OF inv] w s'(2-4)] new_ctrls_cong [OF tinvD(3) [OF inv] s'(1,4)] c by (simp add: tinv_def)

lemma tinv_new_null:
  assumes inv: "tinv s" and x: "fresh_at x (sb s)"
  shows "tinv (s\<lparr>sb := set_handle x None (sb s)\<rparr>)"
proof -
  have "pcs_inv s" using tinvD(1) [OF inv] by (simp add: counts_inv_def)
  then have idle: "pcs s x = SB_Idle" by (rule unread_fresh) (use x in \<open>simp add: fresh_at_def\<close>)
  show ?thesis
  proof (rule tinv_same_ctrls [OF inv])
    show "counts_inv (s\<lparr>sb := set_handle x None (sb s)\<rparr>)"
      by (rule counts_new_null [OF tinvD(1) [OF inv] x, where r = None and pc = SB_Idle]) (use idle in \<open>auto simp: fun_eq_iff\<close>)
    show "without deleting (s\<lparr>sb := set_handle x None (sb s)\<rparr>) = without deleting s"
      by (rule without_same [where x = x and y = x]) (use idle in auto)
  qed simp_all
qed

lemma tinv_exchange:
  assumes inv: "tinv s" and x: "handles (sb s) x = None \<or> writable s x" and y: "writable s y"
    and refs: "refs_inv (taken s) (set_handle y r (set_handle x r' (seen s)))"
  shows "tinv (s\<lparr>sb := set_handle y r (set_handle x r' (sb s))\<rparr>)"
proof (rule tinv_same_ctrls [OF inv])
  note i = tinvD(1) [OF inv]
  show "counts_inv (s\<lparr>sb := set_handle y r (set_handle x r' (sb s))\<rparr>)" by (rule counts_exchange [OF i x y refs])
  have "pcs s x = SB_Idle" "pcs s y = SB_Idle"
    using x y unread_fresh(2) [of s x] i by (auto simp: writable_def readable_def counts_inv_def)
  then show "without deleting (s\<lparr>sb := set_handle y r (set_handle x r' (sb s))\<rparr>) = without deleting s"
    by (intro without_same [where x = x and y = y]) auto
qed simp_all

lemma tinv_unique:
  assumes inv: "tinv s" and step: "buf_step acquire (uniq (sb s), env (sb s)) (objs, w)"
  shows "tinv (s\<lparr>sb := (sb s)\<lparr>uniq := objs, env := w\<rparr>\<rparr>)"
proof -
  note b = blocks_invD [OF tinvD(2) [OF inv]]
  let ?s = "s\<lparr>sb := (sb s)\<lparr>uniq := objs, env := w\<rparr>\<rparr>"
  have "hidden deleting ?s c = hidden deleting s c" for c by (simp add: hidden_def)
  then have wo: "without deleting ?s = without deleting s" by (simp add: without_def fun_eq_iff)
  then have cp: "cptr (given ?s) = cptr (given s)" by (simp add: cptr_def fun_eq_iff)
  have "owned (ran (cptr (given s))) (objs, w)" using owned_step [OF step] b(1) by simp
  then have "blocks_inv (given ?s)" by (intro blocks_invI) (use b wo in \<open>simp_all add: cp\<close>)
  moreover have "counts_inv ?s" by (rule counts_other [OF tinvD(1) [OF inv]]) simp_all
  moreover have "new_ctrls ?s" by (rule new_ctrls_cong [OF tinvD(3) [OF inv]]) simp_all
  ultimately show ?thesis by (simp add: tinv_def)
qed

lemma tinv_deleters: "tinv s \<Longrightarrow> deleters_are give_back fits (uniq (sb s))"
  using ownedD(2) [OF blocks_invD(1) [OF tinvD(2)]] by simp

lemma tinv_sbt_step: "sbt_step acquire s s' \<Longrightarrow> tinv s \<Longrightarrow> tinv s'"
proof (induction rule: sbt_step.induct)
  case (T_Unique s objs w)
  then show ?case by (intro tinv_unique)
next
  case (T_Default x s u st)
  then show ?case using tinv_new_null [of s x] by (simp add: shared_default_def)
next
  case (T_From_Unique x s y u st)
  note d = tinv_deleters [OF T_From_Unique(3)]
  obtain b where at: "uniq (sb s) y = Some (U b)"
    using T_From_Unique(2) by (auto simp: shared_from_unique_def unique_at_Some split: option.splits)
  let ?b = "b\<lparr>data_ptr := nullptr, elem_count := 0, mem_location := Host, del_fn := None\<rparr>"
  have raw: "shared_raw x (data_ptr b) (elem_count b) (del_fn b) (mem_location b) ((sb s)\<lparr>uniq := (uniq (sb s))(y \<mapsto> U ?b)\<rparr>) = (Inr u, st)"
    using T_From_Unique(2) at unique_at_Some [of "uniq (sb s)" y b] by (simp add: shared_from_unique_def release_def shared_from_released_def)
  show ?case
    by (rule tinv_raw [where y = y, OF T_From_Unique(3,1) _ _ _ _ raw])
      (use deleters_areD [OF d at] at d in \<open>auto simp: block_of_simps intro!: deleters_intro\<close>)
next
  case (T_From_Released x s y rb u st)
  note d = tinv_deleters [OF T_From_Released(4)]
  show ?case
    by (rule tinv_raw [where y = y, OF T_From_Released(4,1) _ _ _ _ T_From_Released(3) [unfolded shared_from_released_def]])
      (use deleters_areD [OF d T_From_Released(2)] T_From_Released(2) d in \<open>auto simp: block_of_simps intro!: deleters_intro\<close>)
next
  case (T_Move_Construct x s y u st)
  obtain r where r: "handles (sb s) y = Some r" and st: "st = set_handle y None (set_handle x r (sb s))"
    using T_Move_Construct(3) by (auto simp: shared_move_construct_def split: option.splits)
  have i: "refs_ok s" using tinvD(1) [OF T_Move_Construct(4)] by (simp add: counts_inv_def)
  have x: "handles (sb s) x = None" "x \<noteq> nullptr \<and> x AND 7 = 0" using T_Move_Construct(1) by (simp_all add: fresh_at_def)
  have "refs_inv (taken s) (set_handle y None (set_handle x r (seen s)))"
    by (rule refs_move) (use i x r T_Move_Construct(2) in \<open>auto simp: refs_ok_def holders_def visible_def writable_def readable_def\<close>)
  then show ?case unfolding st using x(1) T_Move_Construct(2,4) by (intro tinv_exchange) simp_all
next
  case (T_Swap s x y u st)
  obtain r r' where r: "handles (sb s) x = Some r" "handles (sb s) y = Some r'" and st: "st = set_handle y r (set_handle x r' (sb s))"
    using T_Swap(3) by (auto simp: shared_swap_def split: option.splits)
  have i: "refs_ok s" using tinvD(1) [OF T_Swap(4)] by (simp add: counts_inv_def)
  have "refs_inv (taken s) (set_handle y r (set_handle x r' (seen s)))"
    by (rule refs_swap) (use i r T_Swap(1,2) in \<open>auto simp: refs_ok_def visible_def writable_def readable_def\<close>)
  then show ?case unfolding st using T_Swap(1,2,4) by (intro tinv_exchange) simp_all
next
  case (T_Call s x call)
  then show ?case by (intro tinv_call)
next
  case (T_Step s x)
  then show ?case by (intro tinv_step)
next
  case (T_Take s x z)
  then show ?case by (intro tinv_take)
qed

lemma tinv_run: "sbt_run acquire s s' \<Longrightarrow> tinv s \<Longrightarrow> tinv s'"
  by (induction rule: rtranclp_induct) (auto intro: tinv_sbt_step)

lemma tinv_start:
  assumes "sound w" "outstanding w = {}"
  shows "tinv (sbt_start w)"
proof -
  have "seen (sbt_start w) = sb_start w" "given (sbt_start w) = sb_start w" "without spent (sbt_start w) = Map.empty"
    by (simp_all add: seen_def given_def visible_def without_def sbt_start_def sb_start_def fun_eq_iff)
  moreover have "taken (sbt_start w) = no_extra" by (simp add: taken_def sbt_start_def fun_eq_iff)
  ultimately show ?thesis using sinv_start [OF assms]
    by (simp add: tinv_def counts_inv_def refs_ok_def pcs_inv_def sinv_def new_ctrls_def)
      (simp add: sbt_start_def sb_start_def)
qed

end

end
