(* ===== verification/Shared_Threads.thy ===== *)
theory Shared_Threads
  imports Shared_Threads_Safe
begin

text \<open>
  What holds of shared buffers that several threads use: nothing is used after it was deleted, deleted twice or lost; the
  count is the number of owners; operations finish; and one that runs alone is the operation of
  \<open>Shared_Buffer\<close>.
\<close>

section \<open>Every interleaving, over a pool\<close>

lemma threads_pool_run:
  assumes "mempool_new resize sizeT bs bc loc = Inr p0" "resize_ok sizeT resize" "sizeT \<noteq> 0" "unat bs * unat bc < 2 ^ 64"
    "sbt_run (\<lambda>_ :: unit. allocate) (sbt_start p0) s"
  shows "shared_pool.tinv (blocks p0) s"
proof -
  have "pool_sound p0" "handed_out p0 = {}" "block_size p0 \<noteq> 0" using new_pool_sound [OF assms(1-4)] by auto
  then have "shared_pool.tinv (blocks p0) (sbt_start p0)"
    by (intro shared_pool.tinv_start) (simp_all add: pool_over_def)
  then show ?thesis by (rule shared_pool.tinv_run [OF assms(5)])
qed

lemma ctrl_owner:
  assumes "counts_inv s" "ctrls (sb s) c = Some cb"
  shows "\<exists>x. handles (sb s) x = Some (Some c) \<or> extra (pcs s x) = Some c"
proof (cases "hidden spent s c")
  case False
  have r: "refs_inv (taken s) (seen s)" using assms(1) by (simp add: counts_inv_def refs_ok_def)
  have "0 < card (holders (seen s) c) + taken s c"
    by (rule refs_invD(2) [OF r, of c cb]) (use False assms(2) in \<open>simp add: without_def\<close>)
  then have "holders (seen s) c \<noteq> {} \<or> {z. extra (pcs s z) = Some c} \<noteq> {}" by (auto simp: taken_def card_gt_0_iff)
  then show ?thesis by (auto simp: holders_def visible_def split: if_splits)
qed (auto simp: hidden_def)

text \<open>C14. Threads construct, copy, move, swap, reset, release and destroy shared buffers over the blocks of a pool, and the steps of the
  operations interleave in any way: no operation accesses a deleted control block, gives a block
  back twice or fails otherwise; every control block has an object or an operation that refers to
  it; and each block of the pool is free, owned by one unique or released buffer, or by one control
  block whose deleter has not run.\<close>

theorem shared_threads_safe:
  assumes "mempool_new resize sizeT bs bc loc = Inr p0" "resize_ok sizeT resize" "sizeT \<noteq> 0" "unat bs * unat bc < 2 ^ 64"
    "sbt_run (\<lambda>_ :: unit. allocate) (sbt_start p0) s"
  shows "(\<forall>x e. pcs s x \<noteq> SB_Error e) \<and>
    (\<forall>c \<in> dom (ctrls (sb s)). \<exists>x. handles (sb s) x = Some (Some c) \<or> extra (pcs s x) = Some c) \<and>
    distinct (free_blocks (env (sb s))) \<and>
    length (free_blocks (env (sb s))) + card (dom (block_of (uniq (sb s)))) +
      card {c \<in> dom (ctrls (sb s)). \<not> hidden deleting s c} = unat (block_count p0)"
proof -
  note inv = shared_pool.tinvD [OF threads_pool_run [OF assms]]
  have "pc_ok s x (pcs s x)" for x using inv(1) by (simp add: counts_inv_def pcs_inv_def)
  then have "pcs s x \<noteq> SB_Error e" for x e by (metis pc_ok.simps(10))
  moreover have "dom (without deleting s) = {c \<in> dom (ctrls (sb s)). \<not> hidden deleting s c}"
    by (auto simp: without_def split: if_splits)
  ultimately show ?thesis using ctrl_owner [OF inv(1)] pool_blocks_split [OF inv(2)] by auto
qed

text \<open>C15. In every such state, for an object that points to a control block and that no operation writes:
  the observers return, \<open>data\<close> is a block of the pool that is not free, and \<open>use_count\<close> is the number of
  objects and of operations under way that own the control block.  When no operation is under way it is
  the number of objects that point to it.\<close>

theorem shared_threads_use_count:
  assumes "mempool_new resize sizeT bs bc loc = Inr p0" "resize_ok sizeT resize" "sizeT \<noteq> 0" "unat bs * unat bc < 2 ^ 64"
    "sbt_run (\<lambda>_ :: unit. allocate) (sbt_start p0) s" "readable s x" "handles (sb s) x = Some (Some c)"
  shows "\<exists>n q. use_count x (sb s) = Inr n \<and> 0 < n \<and> shared_data x (sb s) = Inr q \<and> q \<in> set (blocks p0) \<and> q \<notin> set (free_blocks (env (sb s))) \<and>
    unat n = card {y. handles (sb s) y = Some (Some c) \<and> counted (pcs s y)} + card {z. extra (pcs s z) = Some c} \<and>
    ((\<forall>y. pcs s y = SB_Idle) \<longrightarrow> unat n = card {y. handles (sb s) y = Some (Some c)})"
proof -
  note inv = shared_pool.tinvD [OF threads_pool_run [OF assms(1-5)]]
  have r: "refs_ok s" using inv(1) by (simp add: counts_inv_def)
  have x: "counted (pcs s x)" using assms(6) by (simp add: readable_def)
  obtain cb where cb: "without spent s c = Some cb" "ctrls (sb s) c = Some cb" by (rule counted_ctrl [OF r assms(7) x])
  have refs: "refs_inv (taken s) (seen s)" using r by (simp add: refs_ok_def)
  have h: "holders (seen s) c = {y. handles (sb s) y = Some (Some c) \<and> counted (pcs s y)}"
    by (auto simp: holders_def visible_def split: if_splits)
  have n: "unat (ref cb) = card (holders (seen s) c) + taken s c" "0 < card (holders (seen s) c) + taken s c"
    using refs_invD(1,2) [OF refs, of c cb] cb by simp_all
  have nh: "\<not> hidden deleting s c" using cb hidden_deleting [of s c] by (auto simp: without_def)
  then have g: "ctrls (given s) c = Some cb" using cb by (simp add: without_def)
  note o = pool.ownedD [OF shared_pool.blocks_invD(1) [OF inv(2)]]
  have "cb_ptr cb \<in> handed_out (env (sb s))" using shared_pool.blocks_ran(1) [OF inv(2) g] o(5) by auto
  then have "cb_ptr cb \<in> set (blocks p0)" "cb_ptr cb \<notin> set (free_blocks (env (sb s)))"
    using o(1) by (auto simp: handed_out_def pool_over_def pool_sound_def)
  moreover have "0 < ref cb" using n by (simp add: word_less_nat_alt)
  ultimately show ?thesis
    using assms(7) cb n(1) unfolding h by (simp add: use_count_def shared_data_def read_ctrl_def taken_def)
qed

section \<open>Operations finish\<close>

text \<open>Steps an operation has yet to take.\<close>

fun sb_rank :: "sb_pc \<Rightarrow> nat" where
  "sb_rank (SB_Add y) = 1"
| "sb_rank (SB_Add_New y c) = 4"
| "sb_rank (SB_Sub a) = 3"
| "sb_rank (SB_Close a) = 2"
| "sb_rank (SB_Delete a) = 1"
| "sb_rank SB_CAS = 2"
| "sb_rank SB_Take = 1"
| "sb_rank _ = 0"

lemma rank_finish: "sb_rank (pcs (sb_finish x a s) x) = 0"
  by (cases a) (simp_all split: option.splits)

lemma rank_step: "0 < sb_rank (pcs s x) \<Longrightarrow> pcs s x \<noteq> SB_Take \<Longrightarrow> sb_rank (pcs (sb_step x s) x) < sb_rank (pcs s x)"
  by (cases "pcs s x")
    (auto simp: sb_step_def with_ctrl_def add_ref_def sb_let_go_def rank_finish Let_def split: option.splits prod.splits sum.splits)

section \<open>An operation that runs alone\<close>

text \<open>The operation as one step; what \<open>release\<close> returns becomes the caller's object \<open>z\<close>.\<close>

fun sequential :: "addr \<Rightarrow> addr \<Rightarrow> sb_operation \<Rightarrow> 'w sb_state \<Rightarrow> unit result \<times> 'w sb_state" where
  "sequential x z (Call_Copy y) st = shared_copy_construct x y st"
| "sequential x z (Call_Copy_Assign y) st = shared_copy_assign x y st"
| "sequential x z (Call_Move_Assign y) st = shared_move_assign x y st"
| "sequential x z Call_Reset st = shared_reset x st"
| "sequential x z Call_Destroy st = shared_destroy x st"
| "sequential x z Call_Release st =
     and_then (shared_release x st) (\<lambda>r st. (Inr (), case r of None \<Rightarrow> st | Some rb \<Rightarrow> st\<lparr>uniq := (uniq st)(z \<mapsto> R rb)\<rparr>))"

text \<open>The next step of the operation on \<open>x\<close>.\<close>

definition alone :: "addr \<Rightarrow> addr \<Rightarrow> 'w sb_threads \<Rightarrow> 'w sb_threads" where
  "alone x z s = (if pcs s x = SB_Take then sb_take x z s else sb_step x s)"

definition idle :: "'w sb_state \<Rightarrow> 'w sb_threads" where
  "idle st = \<lparr>sb = st, pcs = \<lambda>_. SB_Idle\<rparr>"

definition agrees :: "addr \<Rightarrow> 'w sb_threads \<Rightarrow> unit result \<times> 'w sb_state \<Rightarrow> bool" where
  "agrees x s r = (case r of (Inr u, st) \<Rightarrow> s = idle st | (Inl e, st) \<Rightarrow> pcs s x = SB_Error e)"

lemma at_rest: "pcs s x = SB_Idle \<or> (\<exists>e. pcs s x = SB_Error e) \<Longrightarrow> ((sb_step x) ^^ n) s = s"
  by (induction n) (auto simp: sb_step_def)

lemma finish_rest: "pcs (sb_finish x a s) x = SB_Idle \<or> (\<exists>e. pcs (sb_finish x a s) x = SB_Error e)"
  by (cases a) (simp_all split: option.splits)

lemma finish_goto: "sb_finish x a (goto x pc s) = sb_finish x a s"
  by (cases a) (auto simp: goto_def fun_eq_iff split: option.splits)

text \<open>\<open>release_ctrl\<close>, from where it is entered.\<close>

lemma sub_alone:
  assumes pc: "pcs s x = SB_Sub a" and x: "handles (sb s) x = Some (Some c)"
  shows "case release_ctrl x (sb s) of
      (Inl e, st) \<Rightarrow> pcs (((sb_step x) ^^ 3) s) x = SB_Error e
    | (Inr u, st) \<Rightarrow> \<exists>st1. set_handle x None st1 = st \<and> ((sb_step x) ^^ 3) s = sb_finish x a (s\<lparr>sb := st1\<rparr>)"
proof (cases "ctrls (sb s) c")
  case None
  then have "pcs (sb_step x s) x = SB_Error UB" using pc x by (simp add: sb_step_def with_ctrl_def)
  then have "pcs (((sb_step x) ^^ 2) (sb_step x s)) x = SB_Error UB" by (subst at_rest) simp_all
  then show ?thesis using None x by (simp add: release_ctrl_def funpow_swap1 numeral_3_eq_3 numeral_2_eq_2)
next
  case (Some cb)
  let ?s = "put_ctrl c (Some (cb\<lparr>ref := ref cb - 1\<rparr>)) s"
  have three: "((sb_step x) ^^ 3) s = ((sb_step x) ^^ 2) (sb_step x s)" by (simp add: numeral_3_eq_3 numeral_2_eq_2)
  show ?thesis
  proof (cases "ref cb = 1")
    case False
    then have step: "sb_step x s = sb_finish x a ?s" using pc x Some by (simp add: sb_step_def with_ctrl_def Let_def)
    have "((sb_step x) ^^ 3) s = sb_finish x a ?s" unfolding three step by (rule at_rest [OF finish_rest])
    then show ?thesis using False x Some by (auto simp: release_ctrl_def Let_def put_ctrl_def)
  next
    case True
    let ?d = "call_deleter (cb_deleter cb) (cb_ptr cb) (env (sb s))"
    have step: "sb_step x s = goto x (SB_Close a) ?s" using pc x Some True by (simp add: sb_step_def with_ctrl_def Let_def)
    show ?thesis
    proof (cases "fst ?d")
      case (Inl e)
      then obtain w where d: "?d = (Inl e, w)" by (cases ?d) auto
      then have "pcs (sb_step x (goto x (SB_Close a) ?s)) x = SB_Error e"
        using x by (simp add: sb_step_def with_ctrl_def)
      then have "pcs (((sb_step x) ^^ 1) (sb_step x (goto x (SB_Close a) ?s))) x = SB_Error e" by (subst at_rest) simp_all
      then have "pcs (((sb_step x) ^^ 3) s) x = SB_Error e" by (simp add: three step numeral_2_eq_2)
      then show ?thesis using d True x Some by (simp add: release_ctrl_def Let_def)
    next
      case (Inr u)
      define w where "w = snd ?d"
      have d: "?d = (Inr u, w)" using Inr by (simp add: w_def prod_eq_iff)
      let ?s2 = "goto x (SB_Delete a) (goto x (SB_Close a) ?s\<lparr>sb := (sb ?s)\<lparr>env := w\<rparr>\<rparr>)"
      have "sb_step x (goto x (SB_Close a) ?s) = ?s2" using x d by (simp add: sb_step_def with_ctrl_def)
      moreover have "sb_step x ?s2 = sb_finish x a (put_ctrl c None ?s2)" using x by (simp add: sb_step_def with_ctrl_def)
      ultimately have "((sb_step x) ^^ 3) s = sb_finish x a (put_ctrl c None ?s2)" by (simp add: three step numeral_2_eq_2)
      also have "put_ctrl c None ?s2 = goto x (SB_Delete a) (s\<lparr>sb := (sb s)\<lparr>env := w, ctrls := (ctrls (sb s))(c := None)\<rparr>\<rparr>)"
        by (simp add: goto_def put_ctrl_def)
      finally show ?thesis using d True x Some by (auto simp: release_ctrl_def Let_def finish_goto)
    qed
  qed
qed

lemma finish_alone:
  assumes "set_handle x None st1 = st" "x \<notin> S" "pcs s = (\<lambda>z. if z \<in> S then SB_Lent else SB_Idle)"
    "case a of Then_Move y \<Rightarrow> S = {y} | _ \<Rightarrow> S = {}"
  shows "agrees x (sb_finish x a (s\<lparr>sb := st1\<rparr>))
    (case a of
       Then_Null \<Rightarrow> (Inr (), set_handle x None st)
     | Then_Store r \<Rightarrow> (Inr (), set_handle x r st)
     | Then_Move y \<Rightarrow> (case handles st y of None \<Rightarrow> (Inl Ill_Formed, st) | Some r \<Rightarrow> (Inr (), set_handle y None (set_handle x r st)))
     | Then_Dispose \<Rightarrow> (Inr (), st\<lparr>handles := (handles st)(x := None)\<rparr>))"
  using assms by (cases a) (auto simp: agrees_def idle_def goto_def set_handle_def fun_eq_iff split: option.splits)

lemma let_go_alone:
  assumes pcs: "x \<notin> S" "pcs s = (\<lambda>z. if z \<in> S then SB_Lent else SB_Idle)"
    "case a of Then_Move y \<Rightarrow> S = {y} | _ \<Rightarrow> S = {}" and n: "3 \<le> n"
  shows "agrees x (((sb_step x) ^^ n) (sb_let_go x a s))
    (and_then (release_ctrl x (sb s)) (\<lambda>_ st. case a of
       Then_Null \<Rightarrow> (Inr (), set_handle x None st)
     | Then_Store r \<Rightarrow> (Inr (), set_handle x r st)
     | Then_Move y \<Rightarrow> (case handles st y of None \<Rightarrow> (Inl Ill_Formed, st) | Some r \<Rightarrow> (Inr (), set_handle y None (set_handle x r st)))
     | Then_Dispose \<Rightarrow> (Inr (), st\<lparr>handles := (handles st)(x := None)\<rparr>)))"
proof (cases "handles (sb s) x")
  case None
  then have "pcs (sb_let_go x a s) x = SB_Error Ill_Formed" by (simp add: sb_let_go_def)
  then show ?thesis using None by (simp add: at_rest release_ctrl_def agrees_def)
next
  case x: (Some r)
  show ?thesis
  proof (cases r)
    case None
    have "set_handle x None (sb s) = sb s" using x None by (auto simp: set_handle_def fun_upd_idem)
    then show ?thesis using finish_alone [of x "sb s" "sb s" S s a] pcs x None
      by (simp add: at_rest [OF finish_rest] sb_let_go_def release_ctrl_def and_then_split)
  next
    case (Some c)
    let ?s = "goto x (SB_Sub a) s"
    have split: "((sb_step x) ^^ n) ?s = ((sb_step x) ^^ (n - 3)) (((sb_step x) ^^ 3) ?s)"
      using n by (metis add.commute comp_apply funpow_add le_add_diff_inverse2)
    have sub: "case release_ctrl x (sb s) of
        (Inl e, st) \<Rightarrow> pcs (((sb_step x) ^^ 3) ?s) x = SB_Error e
      | (Inr u, st) \<Rightarrow> \<exists>st1. set_handle x None st1 = st \<and> ((sb_step x) ^^ 3) ?s = sb_finish x a (?s\<lparr>sb := st1\<rparr>)"
      using sub_alone [of ?s x a c] x Some by simp
    obtain r' st where rel: "release_ctrl x (sb s) = (r', st)" by (cases "release_ctrl x (sb s)")
    show ?thesis
    proof (cases r')
      case (Inl e)
      then have "pcs (((sb_step x) ^^ 3) ?s) x = SB_Error e" using sub rel by simp
      then have "((sb_step x) ^^ n) ?s = ((sb_step x) ^^ 3) ?s" unfolding split by (intro at_rest) simp
      then show ?thesis using Inl rel \<open>pcs (((sb_step x) ^^ 3) ?s) x = SB_Error e\<close> x Some
        by (simp add: sb_let_go_def and_then_split agrees_def)
    next
      case (Inr u)
      then obtain st1 where st1: "set_handle x None st1 = st" "((sb_step x) ^^ 3) ?s = sb_finish x a (?s\<lparr>sb := st1\<rparr>)"
        using sub rel by auto
      have sub: "?s\<lparr>sb := st1\<rparr> = goto x (SB_Sub a) (s\<lparr>sb := st1\<rparr>)" by (simp add: goto_def)
      have "((sb_step x) ^^ n) ?s = sb_finish x a (s\<lparr>sb := st1\<rparr>)"
        unfolding split st1(2) sub finish_goto by (rule at_rest [OF finish_rest])
      then show ?thesis using finish_alone [OF st1(1) pcs] Inr rel x Some by (simp add: sb_let_go_def and_then_split)
    qed
  qed
qed

lemma goto_goto: "goto x p (goto x q s) = goto x p s"
  by (simp add: goto_def)

lemma let_go_goto: "sb_let_go x a (goto x pc s) = sb_let_go x a s"
  by (auto simp: sb_let_go_def finish_goto goto_goto split: option.splits)

lemma idle_simps [simp]: "sb (idle st) = st" "pcs (idle st) z = SB_Idle"
  by (simp_all add: idle_def)

lemma idle_pcs: "pcs (idle st) = (\<lambda>z. if z \<in> {} then SB_Lent else SB_Idle)"
  by (simp add: idle_def)

lemma step4: "((sb_step x) ^^ 4) s = ((sb_step x) ^^ 3) (sb_step x s)"
  by (simp add: numeral_eq_Suc)

lemma copy_alone:
  "agrees x (((sb_step x) ^^ 4) (sb_call x (Call_Copy y) (idle st))) (shared_copy_construct x y st)"
proof (cases "\<exists>c. handles st y = Some (Some c)")
  case True
  then obtain c where y: "handles st y = Some (Some c)" by blast
  let ?s = "goto x (SB_Add y) (idle (set_handle x (Some c) st))"
  have "sb_call x (Call_Copy y) (idle st) = ?s" using y by (simp add: idle_def goto_def)
  moreover have step: "case ctrls st c of None \<Rightarrow> pcs (sb_step x ?s) x = SB_Error UB
    | Some cb \<Rightarrow> sb_step x ?s = idle ((set_handle x (Some c) st)\<lparr>ctrls := (ctrls st)(c \<mapsto> cb\<lparr>ref := ref cb + 1\<rparr>)\<rparr>)"
    by (auto simp: sb_step_def with_ctrl_def idle_def goto_def put_ctrl_def fun_eq_iff split: option.splits)
  moreover have "((sb_step x) ^^ 3) (sb_step x ?s) = sb_step x ?s"
    by (rule at_rest) (use step in \<open>auto split: option.splits\<close>)
  ultimately show ?thesis using y
    by (auto simp: step4 agrees_def shared_copy_construct_def add_ref_def simp del: sb_call.simps split: option.splits)
next
  case False
  have "pcs (sb_call x (Call_Copy y) (idle st)) x = (if handles st y = None then SB_Error Ill_Formed else SB_Idle)"
    using False by (auto split: option.splits)
  then have "((sb_step x) ^^ 4) (sb_call x (Call_Copy y) (idle st)) = sb_call x (Call_Copy y) (idle st)"
    by (intro at_rest) (auto split: if_splits)
  then show ?thesis using False by (auto simp: agrees_def shared_copy_construct_def idle_def split: option.splits)
qed

lemma copy_assign_alone:
  "agrees x (((sb_step x) ^^ 4) (sb_call x (Call_Copy_Assign y) (idle st))) (shared_copy_assign x y st)"
proof (cases "x = y")
  case True
  then show ?thesis by (simp add: at_rest agrees_def shared_copy_assign_def)
next
  case False
  consider "handles st y = None" | "handles st y = Some None" | c where "handles st y = Some (Some c)"
    by (metis not_Some_eq)
  then show ?thesis
  proof cases
    case 1
    then show ?thesis using False by (simp add: at_rest agrees_def shared_copy_assign_def)
  next
    case 2
    then show ?thesis using False let_go_alone [OF _ idle_pcs, of x "Then_Store None" 4 st] by (simp add: shared_copy_assign_def)
  next
    case (3 c)
    let ?s = "goto x (SB_Add_New y c) (idle st)"
    have call: "sb_call x (Call_Copy_Assign y) (idle st) = ?s" using False 3 by simp
    show ?thesis
    proof (cases "add_ref c st")
      case (Pair r st1)
      show ?thesis
      proof (cases r)
        case (Inl e)
        then have "pcs (sb_step x ?s) x = SB_Error e" using Pair by (simp add: sb_step_def)
        then show ?thesis using False 3 Pair Inl by (simp add: call step4 at_rest agrees_def shared_copy_assign_def del: sb_call.simps)
      next
        case (Inr u)
        have "?s\<lparr>sb := st1\<rparr> = goto x (SB_Add_New y c) (idle st1)" by (simp add: goto_def idle_def)
        then have "sb_step x ?s = sb_let_go x (Then_Store (Some c)) (idle st1)"
          using Pair Inr by (simp add: sb_step_def let_go_goto)
        then show ?thesis using False 3 Pair Inr let_go_alone [OF _ idle_pcs, of x "Then_Store (Some c)" 3 st1]
          by (simp add: call step4 shared_copy_assign_def del: sb_call.simps)
      qed
    qed
  qed
qed

lemma move_assign_alone:
  "agrees x (((sb_step x) ^^ 4) (sb_call x (Call_Move_Assign y) (idle st))) (shared_move_assign x y st)"
proof (cases "x = y")
  case True
  then show ?thesis by (simp add: at_rest agrees_def shared_move_assign_def)
next
  case False
  have "pcs (goto y SB_Lent (idle st)) = (\<lambda>z. if z \<in> {y} then SB_Lent else SB_Idle)" by (auto simp: idle_def goto_def fun_eq_iff)
  from let_go_alone [OF _ this, of x "Then_Move y" 4] show ?thesis using False
    by (simp add: shared_move_assign_def cong: option.case_cong)
qed

text \<open>Only \<open>release\<close> comes to the exchange and to the step that takes the fields.\<close>

fun releasing :: "sb_pc \<Rightarrow> bool" where
  "releasing SB_CAS = True"
| "releasing SB_Take = True"
| "releasing pc = False"

lemma not_releasing_finish: "\<not> releasing (pcs (sb_finish x a s) x)"
  using finish_rest [of x a s] by auto

lemma not_releasing_let_go: "\<not> releasing (pcs (sb_let_go x a s) x)"
  by (simp add: sb_let_go_def not_releasing_finish split: option.split)

lemma not_releasing_step: "\<not> releasing (pcs s x) \<Longrightarrow> \<not> releasing (pcs (sb_step x s) x)"
  by (cases "pcs s x")
    (auto simp: sb_step_def with_ctrl_def add_ref_def Let_def not_releasing_finish not_releasing_let_go
      split: option.splits prod.splits sum.splits)

lemma alone_steps: "\<not> releasing (pcs s x) \<Longrightarrow> ((alone x z) ^^ n) s = ((sb_step x) ^^ n) s \<and> \<not> releasing (pcs (((sb_step x) ^^ n) s) x)"
proof (induction n)
  case (Suc n)
  then have "\<not> releasing (pcs (((sb_step x) ^^ n) s) x)" by simp
  moreover from this have "pcs (((sb_step x) ^^ n) s) x \<noteq> SB_Take" by auto
  ultimately show ?case using Suc by (simp add: alone_def not_releasing_step)
qed simp

lemma not_releasing_call: "call \<noteq> Call_Release \<Longrightarrow> \<not> releasing (pcs (sb_call x call (idle st)) x)"
  by (cases call) (simp_all add: not_releasing_let_go split: option.split)

lemma release_alone:
  "agrees x (((alone x z) ^^ 4) (sb_call x Call_Release (idle st))) (sequential x z Call_Release st)"
proof -
  have rest: "((alone x z) ^^ n) s = s" if "pcs s x = SB_Idle \<or> (\<exists>e. pcs s x = SB_Error e)" for n s
  proof -
    have "\<not> releasing (pcs s x)" using that by auto
    then show ?thesis using alone_steps [of s x n z] at_rest [OF that, of n] by simp
  qed
  have first: "((alone x z) ^^ 4) s = ((alone x z) ^^ 3) (alone x z s)" "((alone x z) ^^ 3) s = ((alone x z) ^^ 2) (alone x z s)" for s
    by (simp_all add: numeral_eq_Suc)
  consider "handles st x = None" | "handles st x = Some None" | c where "handles st x = Some (Some c)" by (metis not_Some_eq)
  then show ?thesis
  proof cases
    case (3 c)
    let ?s = "goto x SB_CAS (idle st)"
    have call: "sb_call x Call_Release (idle st) = ?s" using 3 by simp
    have a: "alone x z ?s = sb_step x ?s" by (simp add: alone_def)
    show ?thesis
    proof (cases "ctrls st c")
      case None
      then have "pcs (sb_step x ?s) x = SB_Error UB" using 3 by (simp add: sb_step_def with_ctrl_def)
      then show ?thesis using 3 None
        by (simp add: call first(1) a rest agrees_def shared_release_def del: sb_call.simps)
    next
      case (Some cb)
      show ?thesis
      proof (cases "ref cb = 1")
        case False
        then have step: "sb_step x ?s = idle st" using 3 Some by (simp add: sb_step_def with_ctrl_def goto_def idle_def fun_eq_iff)
        show ?thesis using 3 Some False
          by (simp add: call first(1) a step rest agrees_def shared_release_def del: sb_call.simps)
      next
        case True
        let ?t = "goto x SB_Take (put_ctrl c (Some (cb\<lparr>ref := 0\<rparr>)) ?s)"
        let ?rb = "\<lparr>rb_ptr = cb_ptr cb, rb_count = cb_size cb, rb_deleter = cb_deleter cb, rb_location = cb_location cb\<rparr>"
        have step: "sb_step x ?s = ?t" using 3 Some True by (simp add: sb_step_def with_ctrl_def)
        let ?st = "(set_handle x None (st\<lparr>ctrls := (ctrls st)(c := None)\<rparr>))\<lparr>uniq := (uniq st)(z \<mapsto> R ?rb)\<rparr>"
        have take: "alone x z ?t = idle ?st" using 3
          by (simp add: alone_def sb_take_def with_ctrl_def goto_def put_ctrl_def idle_def set_handle_def fun_eq_iff)
        have "((alone x z) ^^ 4) (sb_call x Call_Release (idle st)) = idle ?st"
          unfolding call first a step take by (rule rest) simp
        moreover have "sequential x z Call_Release st = (Inr (), ?st)"
          using 3 Some True by (simp add: shared_release_def set_handle_def)
        ultimately show ?thesis by (simp add: agrees_def del: sb_call.simps sequential.simps)
      qed
    qed
  qed (simp_all add: rest agrees_def shared_release_def)
qed

text \<open>C28. Every operation on a shared buffer that no other interrupts, \<open>release\<close> included, takes at most four steps after its call,
  and does what the operation as one step does: the same state and no operation under way, or the same error.\<close>

theorem shared_alone:
  "let s = ((alone x z) ^^ 4) (sb_call x call (idle st)) in
    case sequential x z call st of (Inr u, st') \<Rightarrow> s = idle st' | (Inl e, st') \<Rightarrow> pcs s x = SB_Error e"
proof -
  have steps: "((alone x z) ^^ 4) (sb_call x call (idle st)) = ((sb_step x) ^^ 4) (sb_call x call (idle st))" if "call \<noteq> Call_Release"
    using alone_steps [OF not_releasing_call [OF that]] by blast
  have "agrees x (((alone x z) ^^ 4) (sb_call x call (idle st))) (sequential x z call st)"
  proof (cases call)
    case (Call_Copy y)
    then show ?thesis using copy_alone [of x y st] steps by (simp del: sb_call.simps)
  next
    case (Call_Copy_Assign y)
    then show ?thesis using copy_assign_alone [of x y st] steps by (simp del: sb_call.simps)
  next
    case (Call_Move_Assign y)
    then show ?thesis using move_assign_alone [of x y st] steps by (simp del: sb_call.simps)
  next
    case Call_Reset
    then show ?thesis using let_go_alone [OF _ idle_pcs, of x Then_Null 4 st] steps by (simp add: shared_reset_def)
  next
    case Call_Destroy
    then show ?thesis using let_go_alone [OF _ idle_pcs, of x Then_Dispose 4 st] steps by (simp add: shared_destroy_def)
  next
    case Call_Release
    then show ?thesis using release_alone [of x z st] by (simp del: sb_call.simps sequential.simps)
  qed
  then show ?thesis by (simp add: agrees_def Let_def)
qed

section \<open>Concrete inputs\<close>

text \<open>A block of the sample pool is owned by the object at 8, and the object at 24 is about to count itself.\<close>

definition sample_threads :: "pool sb_threads" where
  "sample_threads = \<lparr>sb = sample_shared\<lparr>ctrls := [0 \<mapsto> new_control_block 4096 2 (Some release_block) Device]\<rparr>,
     pcs = (\<lambda>_. SB_Idle)(24 := SB_Add 8)\<rparr>"

lemma sample_threads_run: "sbt_run (\<lambda>_ :: unit. allocate) (sbt_start sample_pool) sample_threads"
proof -
  let ?b = "unique_raw 4096 2 (Some release_block) Device"
  let ?p = "sample_pool\<lparr>free_blocks := [4104, 4112]\<rparr>"
  let ?s1 = "idle ((sb_start sample_pool)\<lparr>uniq := (Map.empty)(16 \<mapsto> U ?b), env := ?p\<rparr>)"
  let ?s2 = "idle (sample_shared\<lparr>handles := [8 \<mapsto> Some 0], ctrls := [0 \<mapsto> new_control_block 4096 2 (Some release_block) Device]\<rparr>)"
  have "buf_step (\<lambda>_ :: unit. allocate) (uniq (sb (sbt_start sample_pool)), env (sb (sbt_start sample_pool))) ((Map.empty)(16 \<mapsto> U ?b), ?p)"
    using Acquire [of Map.empty 16 "\<lambda>_ :: unit. allocate" "()" sample_pool ?b ?p]
    by (simp add: sbt_start_def sb_start_def allocate_cases sample_pool_def)
  then have "sbt_step (\<lambda>_ :: unit. allocate) (sbt_start sample_pool)
      ((sbt_start sample_pool)\<lparr>sb := (sb (sbt_start sample_pool))\<lparr>uniq := (Map.empty)(16 \<mapsto> U ?b), env := ?p\<rparr>\<rparr>)"
    by (rule T_Unique)
  then have s1: "sbt_step (\<lambda>_ :: unit. allocate) (sbt_start sample_pool) ?s1" by (simp add: sbt_start_def idle_def)
  have "shared_from_unique 8 16 (sb ?s1) = (Inr (), sb ?s2)"
    by (simp add: shared_from_unique_def unique_at_def release_def shared_from_released_def shared_raw_def
        unique_raw_def sample_shared_def sb_start_def set_handle_def empty_unique_def)
  then have "sbt_step (\<lambda>_ :: unit. allocate) ?s1 (?s1\<lparr>sb := sb ?s2\<rparr>)"
    by (rule T_From_Unique [rotated]) (simp add: fresh_at_def sb_start_def)
  then have s2: "sbt_step (\<lambda>_ :: unit. allocate) ?s1 ?s2" by (simp add: idle_def)
  have "sbt_step (\<lambda>_ :: unit. allocate) ?s2 (sb_call 24 (Call_Copy 8) ?s2)"
    by (rule T_Call) (simp add: fresh_at_def readable_def)
  then have s3: "sbt_step (\<lambda>_ :: unit. allocate) ?s2 sample_threads"
    by (simp add: idle_def goto_def set_handle_def sample_threads_def sample_shared_def)
  show ?thesis using s1 s2 s3 by (meson converse_rtranclp_into_rtranclp rtranclp.rtrancl_refl)
qed

theorem shared_threads_safe_witness:
  "pcs sample_threads 24 = SB_Add 8 \<and> (\<forall>x e. pcs sample_threads x \<noteq> SB_Error e)"
proof -
  have "\<forall>x e. pcs sample_threads x \<noteq> SB_Error e"
    using shared_threads_safe [OF sample_new sample_resize_ok _ _ sample_threads_run] by simp
  then show ?thesis by (simp add: sample_threads_def)
qed

theorem shared_threads_use_count_witness: "use_count 8 (sb sample_threads) = Inr 1"
proof -
  have x: "readable sample_threads 8" "handles (sb sample_threads) 8 = Some (Some 0)"
    by (simp_all add: readable_def sample_threads_def sample_shared_def)
  obtain n where n: "use_count 8 (sb sample_threads) = Inr n"
    "unat n = card {y. handles (sb sample_threads) y = Some (Some 0) \<and> counted (pcs sample_threads y)} +
       card {z. extra (pcs sample_threads z) = Some 0}"
    using shared_threads_use_count [OF sample_new sample_resize_ok _ _ sample_threads_run x] by auto
  have "{y. handles (sb sample_threads) y = Some (Some 0) \<and> counted (pcs sample_threads y)} = {8}"
    by (auto simp: sample_threads_def sample_shared_def)
  moreover have "{z. extra (pcs sample_threads z) = Some 0} = {}" by (auto simp: sample_threads_def)
  ultimately have "unat n = 1" using n(2) by simp
  then have "n = 1" by (metis unsigned_1 word_unat_eq_iff)
  then show ?thesis using n(1) by simp
qed

text \<open>Destroying one of two owners, and releasing the other, which is then the only one.\<close>

theorem shared_alone_witness:
  "let st = sample_shared\<lparr>handles := [8 \<mapsto> Some 0], ctrls := [0 \<mapsto> new_control_block 4096 2 (Some release_block) Device]\<rparr> in
   ((alone 24 64) ^^ 4) (sb_call 24 Call_Destroy (idle sample_shared)) = idle st \<and>
   ((alone 8 64) ^^ 4) (sb_call 8 Call_Release (idle st)) = idle (st\<lparr>handles := [8 \<mapsto> None], ctrls := Map.empty,
     uniq := (uniq st)(64 \<mapsto> R \<lparr>rb_ptr = 4096, rb_count = 2, rb_deleter = Some release_block, rb_location = Device\<rparr>)\<rparr>)"
proof -
  let ?st = "sample_shared\<lparr>handles := [8 \<mapsto> Some 0], ctrls := [0 \<mapsto> new_control_block 4096 2 (Some release_block) Device]\<rparr>"
  have "shared_destroy 24 sample_shared = (Inr (), ?st)"
    by (simp add: shared_destroy_def release_ctrl_def sample_shared_def new_control_block_def set_handle_def fun_eq_iff)
  then have 1: "((alone 24 64) ^^ 4) (sb_call 24 Call_Destroy (idle sample_shared)) = idle ?st"
    using shared_alone [of 24 64 Call_Destroy sample_shared] by (simp add: Let_def)
  have "sequential 8 64 Call_Release ?st = (Inr (), ?st\<lparr>handles := [8 \<mapsto> None], ctrls := Map.empty,
     uniq := (uniq ?st)(64 \<mapsto> R \<lparr>rb_ptr = 4096, rb_count = 2, rb_deleter = Some release_block, rb_location = Device\<rparr>)\<rparr>)"
    by (simp add: shared_release_def new_control_block_def set_handle_def)
  then show ?thesis using 1 shared_alone [of 8 64 Call_Release ?st] by (simp add: Let_def)
qed

end
