(* ===== verification/Config.thy ===== *)
theory Config
  imports CPU_Manager
begin

text \<open>
  Configuration values (\<open>src/core/src/utils/config\<close>): the environment, the conversion of a value to the
  type asked for, and the two values \<open>main\<close> reads.  \<open>std::stod\<close> is a parameter; the integer
  parsers are those of \<open>Text_Utils\<close>.
\<close>

section \<open>Types a value can be converted to\<close>

text \<open>\<open>convert\<close> distinguishes \<open>std::string\<close>, the floating point types, the unsigned and the signed integers by
  their width in bits, \<open>bool\<close> (which \<open>std::is_unsigned\<close> counts as unsigned), and everything else, here with
  its type name.\<close>

datatype out_type = OString | OFloat | OBool | OUnsigned nat | OSigned nat | OOther string

datatype 'f cvalue = CString string | CFloat 'f | CBool bool | CInt int | COther

definition convert :: "(string \<Rightarrow> 'f result) \<Rightarrow> out_type \<Rightarrow> string \<Rightarrow> 'f cvalue result" where
  "convert stod OutT value =
     (case OutT of
        OString \<Rightarrow> Inr (CString value)
      | OFloat \<Rightarrow> rmap CFloat (stod value)
      | OBool \<Rightarrow> rmap (\<lambda>v. CBool (v \<noteq> 0)) (stoull value)
      | OUnsigned w \<Rightarrow> rmap (\<lambda>v. CInt (v mod 2 ^ w)) (stoull value)
      | OSigned w \<Rightarrow> rmap (\<lambda>v. CInt (signed_take_bit (w - 1) v)) (stoll value)
      | OOther name \<Rightarrow> Inl (Exn (Runtime_Error (''pt::config doesnt support the type: '' @ name))))"

definition get_env :: "(string \<Rightarrow> 'f result) \<Rightarrow> environment \<Rightarrow> out_type \<Rightarrow> string \<Rightarrow> 'f cvalue option result" where
  "get_env stod getenv OutT key =
     (case getenv key of None \<Rightarrow> Inr None | Some value \<Rightarrow> rmap Some (convert stod OutT value))"

definition get_env_default ::
  "(string \<Rightarrow> 'f result) \<Rightarrow> environment \<Rightarrow> out_type \<Rightarrow> string \<Rightarrow> 'f cvalue \<Rightarrow> 'f cvalue result" where
  "get_env_default stod getenv OutT key default_val =
     rmap (\<lambda>value. case value of Some v \<Rightarrow> v | None \<Rightarrow> default_val) (get_env stod getenv OutT key)"

definition config_get :: "(string \<Rightarrow> 'f result) \<Rightarrow> environment \<Rightarrow> out_type \<Rightarrow> string \<Rightarrow> 'f cvalue option result" where
  "config_get stod getenv OutT key = get_env stod getenv OutT key"

definition config_get_default ::
  "(string \<Rightarrow> 'f result) \<Rightarrow> environment \<Rightarrow> out_type \<Rightarrow> string \<Rightarrow> 'f cvalue \<Rightarrow> 'f cvalue result" where
  "config_get_default stod getenv OutT key default_val = get_env_default stod getenv OutT key default_val"

section \<open>The values \<open>main\<close> reads\<close>

text \<open>The type of a value is that of its default: \<open>const char*\<close>, which is no \<open>std::string\<close>, for the host,
  \<open>int\<close> for the port, which is read from the same variable.\<close>

definition main_host :: "(string \<Rightarrow> 'f result) \<Rightarrow> environment \<Rightarrow> 'f cvalue result" where
  "main_host stod getenv =
     config_get_default stod getenv (OOther ''PKc'') ''PT_API_HOST'' (CString ''0.0.0.0'')"

definition main_port :: "(string \<Rightarrow> 'f result) \<Rightarrow> environment \<Rightarrow> 'f cvalue result" where
  "main_port stod getenv = config_get_default stod getenv (OSigned 32) ''PT_API_HOST'' (CInt 8081)"

section \<open>Lemmas\<close>

lemma stoull_show_nat: "int n < 2 ^ 64 \<Longrightarrow> stoull (show_nat n) = Inr (int n)"
  by (simp add: stoull_def scan_show_nat digits_val_show_nat)

lemma convert_unsigned_show:
  "int n < 2 ^ 64 \<Longrightarrow> convert stod (OUnsigned w) (show_nat n) = Inr (CInt (int n mod 2 ^ w))"
  by (simp add: convert_def stoull_show_nat)

lemma convert_signed_show:
  "int n < 2 ^ (w - 1) \<Longrightarrow> w \<le> 64 \<Longrightarrow> convert stod (OSigned w) (show_nat n) = Inr (CInt (int n))"
proof -
  assume n: "int n < 2 ^ (w - 1)" and w: "w \<le> 64"
  have "(2::int) ^ (w - 1) \<le> 2 ^ 63" using w by (intro power_increasing) auto
  then have "int n < 2 ^ 63" using n by linarith
  moreover have "- (2 ^ (w - 1)) \<le> int n" by (rule order_trans [of _ 0]) simp_all
  then have "signed_take_bit (w - 1) (int n) = int n" using n by (intro signed_take_bit_int_eq_self)
  ultimately show ?thesis by (simp add: convert_def stoll_show_nat)
qed

section \<open>Properties\<close>

text \<open>A number written to the environment in decimal is read back: as an unsigned integer of any width
  it is the number when it fits and the number modulo \<open>2 ^ w\<close>, without an error, when it does
  not; as a signed one of up to 64 bits it is the number when it fits; and the default counts only when
  the variable is not set.\<close>

theorem config_number_roundtrip:
  assumes "getenv key = Some (show_nat n)" "int n < 2 ^ 64"
  shows "config_get_default stod getenv (OUnsigned w) key d = Inr (CInt (int n mod 2 ^ w)) \<and>
    (int n < 2 ^ w \<longrightarrow> config_get_default stod getenv (OUnsigned w) key d = Inr (CInt (int n))) \<and>
    (int n < 2 ^ (v - 1) \<longrightarrow> v \<le> 64 \<longrightarrow> config_get_default stod getenv (OSigned v) key d = Inr (CInt (int n))) \<and>
    (\<forall>other. getenv other = None \<longrightarrow> config_get_default stod getenv (OUnsigned w) other d = Inr d)"
  using assms convert_unsigned_show [OF assms(2), of stod w] convert_signed_show [of n v stod]
  by (simp add: config_get_default_def get_env_default_def get_env_def)

theorem config_number_roundtrip_witness:
  "config_get_default (\<lambda>_. Inr ()) [''PORT'' \<mapsto> show_nat 70000] (OUnsigned 16) ''PORT'' (CInt 80) = Inr (CInt 4464)"
  using config_number_roundtrip [of "[''PORT'' \<mapsto> show_nat 70000]" "''PORT''" 70000 "\<lambda>_. Inr ()" 16 "CInt 80" 16] by simp

lemma main_host_cases:
  "main_host stod getenv =
     (if getenv ''PT_API_HOST'' = None then Inr (CString ''0.0.0.0'')
      else Inl (Exn (Runtime_Error ''pt::config doesnt support the type: PKc'')))"
  by (auto simp: main_host_def config_get_default_def get_env_default_def get_env_def convert_def)

lemma main_port_default: "getenv ''PT_API_HOST'' = None \<Longrightarrow> main_port stod getenv = Inr (CInt 8081)"
  by (simp add: main_port_def config_get_default_def get_env_default_def get_env_def)

end
