(* ===== verification/Server.thy ===== *)
theory Server
  imports Config "HOL-Library.RBT" "HOL-Library.List_Lexorder"
begin

text \<open>
  The web server (\<open>server/src/server\<close>), \<open>main.cpp\<close> and the endpoints of the example mission.
  \<open>httplib\<close> and \<open>nlohmann::json\<close> are third-party: what the code does to their objects is kept as
  the list of the calls made on them, in order.  A route is a method, a pattern and a handler; a
  response is the list of the calls on it; a JSON object is the list of the assignments
  \<open>json[k1]...[kn] = v\<close> made to it.  Of the standard library, \<open>std::map\<close> is a red-black tree, iterated in key
  order.
\<close>

section \<open>Endpoint metadata\<close>

datatype ParameterLocation = URL_QUERY | PATH | BODY

fun enum_value :: "ParameterLocation \<Rightarrow> nat" where
  "enum_value URL_QUERY = 0"
| "enum_value PATH = 1"
| "enum_value BODY = 2"

instantiation ParameterLocation :: linorder
begin

definition less_eq_ParameterLocation :: "ParameterLocation \<Rightarrow> ParameterLocation \<Rightarrow> bool" where
  "less_eq_ParameterLocation a b = (enum_value a \<le> enum_value b)"

definition less_ParameterLocation :: "ParameterLocation \<Rightarrow> ParameterLocation \<Rightarrow> bool" where
  "less_ParameterLocation a b = (enum_value a < enum_value b)"

instance
proof
  fix a b :: ParameterLocation
  show "a \<le> b \<Longrightarrow> b \<le> a \<Longrightarrow> a = b"
    by (cases a; cases b) (simp_all add: less_eq_ParameterLocation_def)
qed (auto simp: less_eq_ParameterLocation_def less_ParameterLocation_def)

end

definition parameterLocationMap :: "(ParameterLocation, string) rbt" where
  "parameterLocationMap =
     RBT.insert URL_QUERY ''query'' (RBT.insert PATH ''path'' (RBT.insert BODY ''body'' RBT.empty))"

record Parameter =
  p_name :: string
  p_in :: ParameterLocation
  p_type :: string
  p_required :: bool

record Response =
  description :: string

record EndpointMetadata =
  summary :: string
  parameters :: "Parameter list"
  responses :: "(size_t, Response) rbt"

definition metadata_new :: "string \<Rightarrow> Parameter list \<Rightarrow> (size_t, Response) rbt \<Rightarrow> EndpointMetadata" where
  "metadata_new s ps rs = \<lparr>summary = s, parameters = ps, responses = rs\<rparr>"

text \<open>The adders change the object and return a new one: (returned, this).\<close>

definition add_parameter :: "Parameter \<Rightarrow> EndpointMetadata \<Rightarrow> EndpointMetadata \<times> EndpointMetadata" where
  "add_parameter p this =
     (let this = this\<lparr>parameters := parameters this @ [p]\<rparr> in
      (metadata_new (summary this) (parameters this) (responses this), this))"

definition add_response :: "size_t \<Rightarrow> Response \<Rightarrow> EndpointMetadata \<Rightarrow> EndpointMetadata \<times> EndpointMetadata" where
  "add_response code res this =
     (let this = this\<lparr>responses := RBT.insert code res (responses this)\<rparr> in
      (metadata_new (summary this) (parameters this) (responses this), this))"

definition add_parameter_fields ::
  "string \<Rightarrow> ParameterLocation \<Rightarrow> string \<Rightarrow> bool \<Rightarrow> EndpointMetadata \<Rightarrow> EndpointMetadata \<times> EndpointMetadata" where
  "add_parameter_fields name loc type required =
     add_parameter \<lparr>p_name = name, p_in = loc, p_type = type, p_required = required\<rparr>"

definition add_response_fields :: "size_t \<Rightarrow> string \<Rightarrow> EndpointMetadata \<Rightarrow> EndpointMetadata \<times> EndpointMetadata" where
  "add_response_fields code desc = add_response code \<lparr>description = desc\<rparr>"

section \<open>Requests, responses and routes\<close>

record request =
  req_method :: string
  req_path :: string
  req_params :: "(string \<times> string) list"
  req_version :: string
  req_remote :: "string \<times> int"

datatype response_call = Set_Header string string | Set_Status nat | Set_Content string string

type_synonym response = "response_call list"

text \<open>The status a response has: the last one set.\<close>

fun last_status :: "response \<Rightarrow> nat option" where
  "last_status [] = None"
| "last_status (c # cs) =
     (case last_status cs of Some s \<Rightarrow> Some s | None \<Rightarrow> (case c of Set_Status s \<Rightarrow> Some s | _ \<Rightarrow> None))"

type_synonym files = "string \<Rightarrow> string option"
type_synonym handler = "files \<Rightarrow> request \<Rightarrow> response \<Rightarrow> unit result \<times> response"

record request_log =
  log_remote :: "string \<times> int"
  log_method :: string
  log_path :: string
  log_version :: string
  log_status :: "nat option"

text \<open>\<open>query\<close> is \<open>httplib::detail::params_to_query_str\<close>.\<close>

type_synonym query_str = "(string \<times> string) list \<Rightarrow> string"

definition log_request :: "query_str \<Rightarrow> request \<Rightarrow> response \<Rightarrow> request_log" where
  "log_request query req res =
     \<lparr>log_remote = req_remote req, log_method = req_method req,
      log_path = req_path req @ (if req_params req \<noteq> [] then ''?'' @ query (req_params req) else []),
      log_version = req_version req, log_status = last_status res\<rparr>"

text \<open>The lambda of \<open>HANDLE_REQUEST\<close> around a handler, which is what the server calls; an exception of the handler
  leaves it.\<close>

type_synonym route_handler = "files \<Rightarrow> request \<Rightarrow> response \<Rightarrow> unit result \<times> response \<times> request_log list"

definition wrapped :: "query_str \<Rightarrow> handler \<Rightarrow> route_handler" where
  "wrapped query h fs req res =
     (let res = res @ [Set_Header ''Access-Control-Allow-Origin'' ''*'',
            Set_Header ''Access-Control-Allow-Methods'' (req_method req),
            Set_Header ''Access-Control-Allow-Headers'' ''Content-Type, Authorization'',
            Set_Status 200] in
      case h fs req res of
        (Inl e, res) \<Rightarrow> (Inl e, res, [])
      | (Inr _, res) \<Rightarrow> (Inr (), res, [log_request query req res]))"

record route =
  route_method :: string
  route_path :: string
  route_calls :: route_handler

text \<open>What a register handler changes: the routes of the server and the endpoints of the generator.\<close>

record api =
  routes :: "route list"
  endpoints :: "(string \<times> string \<times> EndpointMetadata) list"

definition handle_request :: "query_str \<Rightarrow> string \<Rightarrow> string \<Rightarrow> handler \<Rightarrow> api \<Rightarrow> api" where
  "handle_request query m p h a =
     a\<lparr>routes := routes a @ [\<lparr>route_method = m, route_path = p, route_calls = wrapped query h\<rparr>]\<rparr>"

definition add_endpoint :: "string \<Rightarrow> string \<Rightarrow> EndpointMetadata \<Rightarrow> api \<Rightarrow> api" where
  "add_endpoint p m e a = a\<lparr>endpoints := endpoints a @ [(p, m, e)]\<rparr>"

definition declare_endpoint :: "query_str \<Rightarrow> string \<Rightarrow> string \<Rightarrow> EndpointMetadata \<Rightarrow> handler \<Rightarrow> api \<Rightarrow> api" where
  "declare_endpoint query m p e h a = add_endpoint p m e (handle_request query m p h a)"

section \<open>The swagger document\<close>

datatype json = JString string | JBool bool | JArray "json list" | JObject "(string list \<times> json) list"

fun traverse :: "('a \<Rightarrow> 'b result) \<Rightarrow> 'a list \<Rightarrow> 'b list result" where
  "traverse f [] = Inr []"
| "traverse f (x # xs) = rbind (f x) (\<lambda>y. rmap (\<lambda>ys. y # ys) (traverse f xs))"

text \<open>A location that is not in the map would be a null pointer.\<close>

definition param_json :: "Parameter \<Rightarrow> json result" where
  "param_json p =
     (case RBT.lookup parameterLocationMap (p_in p) of
        None \<Rightarrow> Inl UB
      | Some loc \<Rightarrow> Inr (JObject [([''name''], JString (p_name p)), ([''in''], JString loc),
          ([''required''], JBool (p_required p)), ([''schema'', ''type''], JString (p_type p))]))"

definition op_json :: "EndpointMetadata \<Rightarrow> json result" where
  "op_json e =
     rmap (\<lambda>params. JObject ([([''summary''], JString (summary e)), ([''parameters''], JArray params)] @
         map (\<lambda>(code, res). ([''responses'', show_nat (unat code), ''description''], JString (description res)))
           (RBT.entries (responses e))))
       (traverse param_json (parameters e))"

definition endpoint_json :: "string \<times> string \<times> EndpointMetadata \<Rightarrow> (string list \<times> json) result" where
  "endpoint_json = (\<lambda>(path, method, e). rmap (\<lambda>op. ([''paths'', path, stolower method], op)) (op_json e))"

definition swagger_json :: "string \<Rightarrow> string \<Rightarrow> api \<Rightarrow> json result" where
  "swagger_json title version a =
     rmap (\<lambda>paths. JObject ([([''openapi''], JString ''3.0.0''), ([''info'', ''title''], JString title),
         ([''info'', ''version''], JString version), ([''paths''], JObject [])] @ paths))
       (traverse endpoint_json (endpoints a))"

text \<open>The handler of \<open>/swagger.json\<close> sends the file as it is when the request comes.\<close>

definition swagger_handler :: "string \<Rightarrow> handler" where
  "swagger_handler SWAGGER_JSON_PATH fs req res =
     (Inr (), res @ [Set_Content (case fs SWAGGER_JSON_PATH of Some c \<Rightarrow> c | None \<Rightarrow> []) ''application/json''])"

text \<open>What writing files depends on: which paths can be opened for writing, and how much of a text reaches the file.\<close>

record disk =
  can_open :: "string \<Rightarrow> bool"
  stored :: "string \<Rightarrow> string"

text \<open>Opening the file empties it; the stream is never asked whether it could be opened or written, and \<open>dump(4)\<close>, which may
  throw, comes after.\<close>

definition swagger_generate ::
  "query_str \<Rightarrow> (json \<Rightarrow> string result) \<Rightarrow> disk \<Rightarrow> string \<Rightarrow> string \<Rightarrow> string \<Rightarrow> api \<Rightarrow> files \<Rightarrow>
     unit result \<times> api \<times> files" where
  "swagger_generate query dump d SWAGGER_JSON_PATH title version a fs =
     (case swagger_json title version a of
        Inl e \<Rightarrow> (Inl e, a, fs)
      | Inr doc \<Rightarrow>
          let fs = (if can_open d SWAGGER_JSON_PATH then fs(SWAGGER_JSON_PATH \<mapsto> []) else fs) in
          case dump doc of
            Inl e \<Rightarrow> (Inl e, a, fs)
          | Inr text \<Rightarrow>
              let fs = (if can_open d SWAGGER_JSON_PATH then fs(SWAGGER_JSON_PATH \<mapsto> stored d text) else fs) in
              (Inr (), handle_request query ''Get'' ''/swagger.json'' (swagger_handler SWAGGER_JSON_PATH) a, fs))"

text \<open>\<open>schemas\<close> is a map of strings, the schema a JSON value: \<open>to_string\<close> is its conversion, which throws
  when the value is not a string.\<close>

definition add_schema ::
  "('j \<Rightarrow> string result) \<Rightarrow> string \<Rightarrow> 'j \<Rightarrow> (string, string) rbt \<Rightarrow> unit result \<times> (string, string) rbt" where
  "add_schema to_string name schema schemas =
     (if RBT.lookup schemas name \<noteq> None then (Inl (Exn (Runtime_Error (''Schema '' @ name @ '' already exists''))), schemas)
      else case to_string schema of
        Inl e \<Rightarrow> (Inl e, schemas)
      | Inr s \<Rightarrow> (Inr (), RBT.insert name s schemas))"

section \<open>The registry\<close>

record server_state =
  s_api :: api
  registry :: "(api \<Rightarrow> api) list"
  s_files :: files

text \<open>What the registry does to the outside, in order: the lines it logs, and the call \<open>svr.listen\<close>.\<close>

datatype server_event = Registering nat | Started_Listening string nat | Listen string nat | Cannot_Bind nat | Closing

definition register_endpoint :: "(api \<Rightarrow> api) \<Rightarrow> server_state \<Rightarrow> server_state" where
  "register_endpoint f st = st\<lparr>registry := registry st @ [f]\<rparr>"

text \<open>The constructor of \<open>RegisterEndpoint\<close>, whose static objects register the endpoints.\<close>

definition RegisterEndpoint :: "(api \<Rightarrow> api) \<Rightarrow> server_state \<Rightarrow> server_state" where [simp]:
  "RegisterEndpoint f st = register_endpoint f st"

definition register_all :: "server_state \<Rightarrow> server_event list \<times> server_state" where
  "register_all st = ([Registering (length (registry st))], st\<lparr>s_api := fold (\<lambda>f a. f a) (registry st) (s_api st)\<rparr>)"

text \<open>\<open>listen\<close>: whether \<open>svr.listen\<close> returns true.\<close>

definition registry_start ::
  "query_str \<Rightarrow> (json \<Rightarrow> string result) \<Rightarrow> disk \<Rightarrow> string \<Rightarrow> (string \<Rightarrow> nat \<Rightarrow> bool) \<Rightarrow> string \<Rightarrow> nat \<Rightarrow> server_state \<Rightarrow>
     unit result \<times> server_event list \<times> server_state" where
  "registry_start query dump d SWAGGER_JSON_PATH listen bind_addr port st =
     (case register_all st of
        (l1, st) \<Rightarrow>
          (case swagger_generate query dump d SWAGGER_JSON_PATH ''web playground'' ''1.0.0'' (s_api st) (s_files st) of
             (Inl e, a, fs) \<Rightarrow> (Inl e, l1, st\<lparr>s_api := a, s_files := fs\<rparr>)
           | (Inr _, a, fs) \<Rightarrow>
               let status = listen bind_addr port in
               (Inr (), l1 @ [Started_Listening bind_addr port, Listen bind_addr port] @
                  (if status = False then [Cannot_Bind port] else [Closing]),
                st\<lparr>s_api := a, s_files := fs\<rparr>)))"

section \<open>The program\<close>

text \<open>The handlers of \<open>/\<close> and of the example mission answer \<open>true\<close>.\<close>

definition true_handler :: handler where
  "true_handler fs req res = (Inr (), res @ [Set_Status 200, Set_Content ''true'' ''application/json''])"

definition status_endpoint :: "string \<Rightarrow> EndpointMetadata" where
  "status_endpoint s = fst (add_response_fields 200 ''OK'' (metadata_new s [] RBT.empty))"

definition register_main :: "query_str \<Rightarrow> api \<Rightarrow> api" where
  "register_main query = declare_endpoint query ''Get'' ''/'' (status_endpoint ''System Status'') true_handler"

definition register_example :: "query_str \<Rightarrow> api \<Rightarrow> api" where
  "register_example query =
     declare_endpoint query ''Post'' ''/api/missions/example'' (status_endpoint ''Start Example Mission'') true_handler \<circ>
     declare_endpoint query ''Get'' ''/api/missions/example'' (status_endpoint ''Example Mission Status'') true_handler"

text \<open>\<open>main\<close>, with the registry as the static registrations of the missions left it.  The port is
  converted to \<open>uint16_t\<close>.\<close>

definition main_program ::
  "(string \<Rightarrow> unit result) \<Rightarrow> (string \<Rightarrow> 'f result) \<Rightarrow> environment \<Rightarrow> query_str \<Rightarrow> (json \<Rightarrow> string result) \<Rightarrow> disk \<Rightarrow> string \<Rightarrow>
     (string \<Rightarrow> nat \<Rightarrow> bool) \<Rightarrow> server_state \<Rightarrow> unit result \<times> server_event list \<times> server_state" where
  "main_program init stod getenv query dump d SWAGGER_JSON_PATH listen st =
     (case initialize_dawglogger init getenv of
        Inl e \<Rightarrow> (Inl e, [], st)
      | Inr _ \<Rightarrow>
          (let st = RegisterEndpoint (register_main query) st in
           case (main_host stod getenv, main_port stod getenv) of
             (Inl e, _) \<Rightarrow> (Inl e, [], st)
           | (_, Inl e) \<Rightarrow> (Inl e, [], st)
           | (Inr (CString host), Inr (CInt port)) \<Rightarrow>
               registry_start query dump d SWAGGER_JSON_PATH listen host (nat (port mod 2 ^ 16)) st
           | _ \<Rightarrow> (Inl Ill_Formed, [], st)))"

end
