(* ===== verification/Server_Props.thy ===== *)
theory Server_Props
  imports Server
begin

text \<open>
  What the server promises: every endpoint a register handler declares is routed and documented, the
  document is what \<open>/swagger.json\<close> serves, and which address and port the program listens on.
\<close>

section \<open>Lemmas\<close>

lemma traverse_total:
  "(\<And>x. x \<in> set xs \<Longrightarrow> \<exists>y. f x = Inr y) \<Longrightarrow>
     \<exists>ys. traverse f xs = Inr ys \<and> length ys = length xs \<and> (\<forall>i < length xs. f (xs ! i) = Inr (ys ! i))"
proof (induction xs)
  case (Cons x xs)
  then obtain y ys where "f x = Inr y" "traverse f xs = Inr ys" "length ys = length xs"
    "\<forall>i < length xs. f (xs ! i) = Inr (ys ! i)" by (meson list.set_intros)
  then show ?case by (auto simp: nth_Cons split: nat.split)
qed simp

fun location_name :: "ParameterLocation \<Rightarrow> string" where
  "location_name URL_QUERY = ''query''"
| "location_name PATH = ''path''"
| "location_name BODY = ''body''"

lemma param_json_eq:
  "param_json p = Inr (JObject [([''name''], JString (p_name p)), ([''in''], JString (location_name (p_in p))),
     ([''required''], JBool (p_required p)), ([''schema'', ''type''], JString (p_type p))])"
  by (cases "p_in p") (simp_all add: param_json_def parameterLocationMap_def)

lemma traverse_Inr: "traverse (\<lambda>x. Inr (f x)) xs = Inr (map f xs)"
  by (induction xs) simp_all

lemma op_json_eq:
  "op_json e = Inr (JObject ([([''summary''], JString (summary e)),
      ([''parameters''], JArray (map (\<lambda>p. JObject [([''name''], JString (p_name p)), ([''in''], JString (location_name (p_in p))),
         ([''required''], JBool (p_required p)), ([''schema'', ''type''], JString (p_type p))]) (parameters e)))] @
    map (\<lambda>(code, res). ([''responses'', show_nat (unat code), ''description''], JString (description res))) (RBT.entries (responses e))))"
  by (simp add: op_json_def param_json_eq [abs_def] traverse_Inr)

lemma op_json_total: "\<exists>j. op_json e = Inr j"
  by (simp add: op_json_eq)

lemma endpoint_json_total: "\<exists>j. endpoint_json x = Inr j"
  using op_json_total by (auto simp: endpoint_json_def split: prod.split) (metis rmap.simps(2))

text \<open>Declarations: method, path, metadata, handler.\<close>

type_synonym decl = "string \<times> string \<times> EndpointMetadata \<times> handler"

fun declare_one :: "query_str \<Rightarrow> decl \<Rightarrow> api \<Rightarrow> api" where
  "declare_one query (m, p, e, h) = declare_endpoint query m p e h"

definition declare_all :: "query_str \<Rightarrow> decl list \<Rightarrow> api \<Rightarrow> api" where
  "declare_all query ds = fold (declare_one query) ds"

fun route_of :: "query_str \<Rightarrow> decl \<Rightarrow> route" where
  "route_of query (m, p, e, h) = \<lparr>route_method = m, route_path = p, route_calls = wrapped query h\<rparr>"

fun endpoint_of :: "decl \<Rightarrow> string \<times> string \<times> EndpointMetadata" where
  "endpoint_of (m, p, e, h) = (p, m, e)"

fun key_of :: "decl \<Rightarrow> string list" where
  "key_of (m, p, e, h) = [''paths'', p, stolower m]"

fun metadata_of :: "decl \<Rightarrow> EndpointMetadata" where
  "metadata_of (m, p, e, h) = e"

fun handler_of :: "decl \<Rightarrow> handler" where
  "handler_of (m, p, e, h) = h"

lemma declare_all_api:
  "declare_all query ds a = a\<lparr>routes := routes a @ map (route_of query) ds, endpoints := endpoints a @ map endpoint_of ds\<rparr>"
proof (induction ds arbitrary: a)
  case (Cons d ds)
  then show ?case by (cases d) (simp add: declare_all_def declare_endpoint_def add_endpoint_def handle_request_def)
qed (simp add: declare_all_def)

lemma run_registry:
  "fold (\<lambda>f a. f a) (map (declare_all query) dss) a = declare_all query (concat dss) a"
  by (induction dss arbitrary: a) (simp_all add: declare_all_api)

text \<open>The value at a list of keys of an object: the last one assigned there.\<close>

fun json_at :: "json \<Rightarrow> string list \<Rightarrow> json option" where
  "json_at (JObject assigns) ks = map_option snd (find (\<lambda>a. fst a = ks) (rev assigns))"
| "json_at _ ks = None"

lemma find_append: "find P (xs @ ys) = (case find P xs of None \<Rightarrow> find P ys | Some x \<Rightarrow> Some x)"
  by (induction xs) simp_all

lemma find_last:
  assumes "i < length xs" "xs ! i = (k, v)" "\<And>j. i < j \<Longrightarrow> j < length xs \<Longrightarrow> fst (xs ! j) \<noteq> k"
  shows "find (\<lambda>a. fst a = k) (rev xs) = Some (k, v)"
  using assms
proof (induction xs rule: rev_induct)
  case (snoc x xs)
  show ?case
  proof (cases "i = length xs")
    case True
    then show ?thesis using snoc.prems(2) by simp
  next
    case False
    then have i: "i < length xs" using snoc.prems(1) by simp
    have "fst x \<noteq> k" using snoc.prems(3) [of "length xs"] i by simp
    moreover have "find (\<lambda>a. fst a = k) (rev xs) = Some (k, v)"
    proof (rule snoc.IH)
      show "xs ! i = (k, v)" using snoc.prems(2) i by (simp add: nth_append)
      fix j assume "i < j" "j < length xs"
      then show "fst (xs ! j) \<noteq> k" using snoc.prems(3) [of j] by (simp add: nth_append)
    qed (rule i)
    ultimately show ?thesis by simp
  qed
qed simp

text \<open>The operation of an endpoint says what its metadata says.\<close>

lemma show_nat_inject: "show_nat m = show_nat n \<longleftrightarrow> m = n"
  by (metis digits_val_show_nat of_nat_eq_iff)

lemma find_key:
  assumes "(k, v) \<in> set xs" "\<And>v'. (k, v') \<in> set xs \<Longrightarrow> v' = v"
  shows "find (\<lambda>a. fst a = k) xs = Some (k, v)"
  using assms
proof (induction xs)
  case (Cons x xs)
  obtain k' v' where x: "x = (k', v')" by (cases x)
  show ?case
  proof (cases "k' = k")
    case True
    then have "v' = v" using Cons.prems(2) x by simp
    then show ?thesis using True x by simp
  next
    case False
    then have "(k, v) \<in> set xs" using Cons.prems(1) x by auto
    then have "find (\<lambda>a. fst a = k) xs = Some (k, v)" by (rule Cons.IH) (rule Cons.prems(2), simp)
    then show ?thesis using False x by simp
  qed
qed simp

lemma op_json_documents:
  assumes "op_json e = Inr op"
  shows "json_at op [''summary''] = Some (JString (summary e))"
    "json_at op [''parameters''] = Some (JArray (map (\<lambda>p. JObject [([''name''], JString (p_name p)),
       ([''in''], JString (location_name (p_in p))), ([''required''], JBool (p_required p)), ([''schema'', ''type''], JString (p_type p))])
       (parameters e)))"
    "RBT.lookup (responses e) code = Some r \<Longrightarrow>
       json_at op [''responses'', show_nat (unat code), ''description''] = Some (JString (description r))"
proof -
  define f where "f = (\<lambda>(code :: size_t, res :: Response). ([''responses'', show_nat (unat code), ''description''], JString (description res)))"
  define hd where "hd = [([''summary''], JString (summary e)),
      ([''parameters''], JArray (map (\<lambda>p. JObject [([''name''], JString (p_name p)), ([''in''], JString (location_name (p_in p))),
         ([''required''], JBool (p_required p)), ([''schema'', ''type''], JString (p_type p))]) (parameters e)))]"
  have op: "op = JObject (hd @ map f (RBT.entries (responses e)))" using assms by (simp add: op_json_eq f_def hd_def)
  have three: "length (fst (f x)) = 3" for x by (simp add: f_def split: prod.split)
  then have none: "find (\<lambda>a. fst a = k) (rev (map f xs)) = None" if "length k \<noteq> 3" for k xs
    using that by (force simp: find_None_iff)
  show "json_at op [''summary''] = Some (JString (summary e))"
    using none [of "[''summary'']"] by (simp add: op find_append hd_def)
  show "json_at op [''parameters''] = Some (JArray (map (\<lambda>p. JObject [([''name''], JString (p_name p)),
       ([''in''], JString (location_name (p_in p))), ([''required''], JBool (p_required p)), ([''schema'', ''type''], JString (p_type p))])
       (parameters e)))"
    using none [of "[''parameters'']"] by (simp add: op find_append hd_def)
  show "json_at op [''responses'', show_nat (unat code), ''description''] = Some (JString (description r))"
    if "RBT.lookup (responses e) code = Some r"
  proof -
    let ?k = "[''responses'', show_nat (unat code), ''description'']"
    have "(code, r) \<in> set (RBT.entries (responses e))" using that by (simp add: lookup_in_tree)
    then have "find (\<lambda>a. fst a = ?k) (rev (map f (RBT.entries (responses e)))) = Some (?k, JString (description r))"
    proof (intro find_key)
      fix v' assume "(?k, v') \<in> set (rev (map f (RBT.entries (responses e))))"
      then obtain r' where r': "(code, r') \<in> set (RBT.entries (responses e))" "v' = JString (description r')"
        by (auto simp: f_def show_nat_inject word_unat_eq_iff [symmetric])
      then have "r' = r" using that by (simp add: lookup_in_tree [symmetric])
      then show "v' = JString (description r)" using r'(2) by simp
    qed (force simp: f_def)
    then show ?thesis by (simp add: op find_append)
  qed
qed

section \<open>Starting the registry\<close>

lemma swagger_doc:
  assumes "endpoints a = map endpoint_of ds"
  obtains doc where "swagger_json title version a = Inr doc"
    "\<And>i. i < length ds \<Longrightarrow> (\<And>j. i < j \<Longrightarrow> j < length ds \<Longrightarrow> key_of (ds ! j) \<noteq> key_of (ds ! i)) \<Longrightarrow>
       \<exists>op. op_json (metadata_of (ds ! i)) = Inr op \<and> json_at doc (key_of (ds ! i)) = Some op"
proof -
  obtain paths where paths: "traverse endpoint_json (map endpoint_of ds) = Inr paths" "length paths = length ds"
    "\<forall>i < length ds. endpoint_json (endpoint_of (ds ! i)) = Inr (paths ! i)"
    using traverse_total [of "map endpoint_of ds" endpoint_json] endpoint_json_total by auto
  define head where "head = [([''openapi''], JString ''3.0.0''), ([''info'', ''title''], JString title),
         ([''info'', ''version''], JString version), ([''paths''], JObject [])]"
  let ?doc = "JObject (head @ paths)"
  have entry: "paths ! i = (key_of (ds ! i), op) \<and> op_json (metadata_of (ds ! i)) = Inr op"
    if "i < length ds" "op = snd (paths ! i)" for i op
    using paths(3) [rule_format, OF that(1)] that(2) by (cases "ds ! i") (auto simp: endpoint_json_def rmap_Inr_conv)
  have key: "fst (paths ! i) = key_of (ds ! i)" if "i < length ds" for i
    by (subst conjunct1 [OF entry [OF that refl]]) simp
  show ?thesis
  proof (rule that)
    show "swagger_json title version a = Inr ?doc" using assms paths(1) by (simp add: swagger_json_def head_def)
    fix i assume i: "i < length ds" and last: "\<And>j. i < j \<Longrightarrow> j < length ds \<Longrightarrow> key_of (ds ! j) \<noteq> key_of (ds ! i)"
    let ?op = "snd (paths ! i)"
    have "find (\<lambda>a. fst a = key_of (ds ! i)) (rev paths) = Some (key_of (ds ! i), ?op)"
      by (rule find_last [of i]) (use i last paths(2) key conjunct1 [OF entry [OF i refl]] in simp_all)
    then have "json_at ?doc (key_of (ds ! i)) = Some ?op" by (simp add: find_append)
    then show "\<exists>op. op_json (metadata_of (ds ! i)) = Inr op \<and> json_at ?doc (key_of (ds ! i)) = Some op"
      using entry [OF i refl] by blast
  qed
qed

text \<open>The outcome of starting the registry, by what the JSON library makes of the document.\<close>

lemma registry_start_eq:
  assumes "s_api st = \<lparr>routes = [], endpoints = []\<rparr>" "registry st = map (declare_all query) dss" "ds = concat dss"
    "swagger_json ''web playground'' ''1.0.0'' \<lparr>routes = map (route_of query) ds, endpoints = map endpoint_of ds\<rparr> = Inr doc"
  shows "registry_start query dump d dest listen addr port st =
    (case dump doc of
       Inl e \<Rightarrow> (Inl e, [Registering (length dss)], st\<lparr>s_api := \<lparr>routes = map (route_of query) ds, endpoints = map endpoint_of ds\<rparr>,
         s_files := (if can_open d dest then (s_files st)(dest \<mapsto> []) else s_files st)\<rparr>)
     | Inr text \<Rightarrow>
         (Inr (), [Registering (length dss), Started_Listening addr port, Listen addr port,
            if listen addr port then Closing else Cannot_Bind port],
          st\<lparr>s_api := \<lparr>routes = map (route_of query) ds @
              [\<lparr>route_method = ''Get'', route_path = ''/swagger.json'', route_calls = wrapped query (swagger_handler dest)\<rparr>],
              endpoints = map endpoint_of ds\<rparr>,
            s_files := (if can_open d dest then (s_files st)(dest \<mapsto> stored d text) else s_files st)\<rparr>))"
proof -
  have "register_all st = ([Registering (length dss)], st\<lparr>s_api := \<lparr>routes = map (route_of query) ds, endpoints = map endpoint_of ds\<rparr>\<rparr>)"
    using assms(1-3) run_registry [of query dss "s_api st"] by (simp add: register_all_def declare_all_api)
  then show ?thesis
    using assms(4) by (simp add: registry_start_def swagger_generate_def handle_request_def Let_def split: sum.split)
qed

section \<open>Properties\<close>

text \<open>C23. Starting the registry with handlers that declare endpoints, in any number of handlers.  There is a document in which
  every declared endpoint has its operation under its path and its method in lower case, unless a later
  declaration has the same: with the summary, the parameters in order (name, location, whether required, type),
  and under each response code the description.  When the JSON library cannot print it the start throws, with no
  route for the document and an empty file (where it can be opened).  Otherwise the registry logs and
  listens, on the address and port given; the routes are the declared ones in order, each calling its handler
  with the headers and the status 200 set before and the request logged after, followed by \<open>/swagger.json\<close>; what
  was stored of the printed document is in the file, and a request to \<open>/swagger.json\<close> gets the file; when the file
  cannot be opened nothing is said about it, and the request gets whatever was there before.\<close>

theorem server_serves_and_documents:
  assumes "s_api st = \<lparr>routes = [], endpoints = []\<rparr>" "registry st = map (declare_all query) dss" "ds = concat dss"
  shows "\<exists>doc.
    (\<forall>i < length ds. (\<forall>j. i < j \<longrightarrow> j < length ds \<longrightarrow> key_of (ds ! j) \<noteq> key_of (ds ! i)) \<longrightarrow>
       (\<exists>op. json_at doc (key_of (ds ! i)) = Some op \<and>
          json_at op [''summary''] = Some (JString (summary (metadata_of (ds ! i)))) \<and>
          json_at op [''parameters''] = Some (JArray (map (\<lambda>p. JObject [([''name''], JString (p_name p)),
            ([''in''], JString (location_name (p_in p))), ([''required''], JBool (p_required p)),
            ([''schema'', ''type''], JString (p_type p))]) (parameters (metadata_of (ds ! i))))) \<and>
          (\<forall>code r. RBT.lookup (responses (metadata_of (ds ! i))) code = Some r \<longrightarrow>
             json_at op [''responses'', show_nat (unat code), ''description''] = Some (JString (description r))))) \<and>
    (case registry_start query dump d dest listen addr port st of
       (Inl e, events, st') \<Rightarrow> dump doc = Inl e \<and> events = [Registering (length dss)] \<and>
         routes (s_api st') = map (route_of query) ds \<and>
         s_files st' = (if can_open d dest then (s_files st)(dest \<mapsto> []) else s_files st)
     | (Inr _, events, st') \<Rightarrow>
         events = [Registering (length dss), Started_Listening addr port, Listen addr port,
           if listen addr port then Closing else Cannot_Bind port] \<and>
         length (routes (s_api st')) = Suc (length ds) \<and>
         (\<forall>i < length ds. routes (s_api st') ! i = route_of query (ds ! i) \<and>
            (\<forall>fs req res. let (r, res') = handler_of (ds ! i) fs req (res @ [Set_Header ''Access-Control-Allow-Origin'' ''*'',
                 Set_Header ''Access-Control-Allow-Methods'' (req_method req),
                 Set_Header ''Access-Control-Allow-Headers'' ''Content-Type, Authorization'', Set_Status 200]) in
               route_calls (routes (s_api st') ! i) fs req res = (r, res', if r = Inr () then [log_request query req res'] else []))) \<and>
         route_method (last (routes (s_api st'))) = ''Get'' \<and> route_path (last (routes (s_api st'))) = ''/swagger.json'' \<and>
         (\<exists>text. dump doc = Inr text \<and> s_files st' = (if can_open d dest then (s_files st)(dest \<mapsto> stored d text) else s_files st)) \<and>
         (\<forall>req. \<exists>log. route_calls (last (routes (s_api st'))) (s_files st') req [] =
            (Inr (), [Set_Header ''Access-Control-Allow-Origin'' ''*'', Set_Header ''Access-Control-Allow-Methods'' (req_method req),
               Set_Header ''Access-Control-Allow-Headers'' ''Content-Type, Authorization'', Set_Status 200,
               Set_Content (case s_files st' dest of Some content \<Rightarrow> content | None \<Rightarrow> []) ''application/json''], [log]) \<and>
            log_status log = Some 200 \<and> log_method log = req_method req))"
proof -
  let ?a = "\<lparr>routes = map (route_of query) ds, endpoints = map endpoint_of ds\<rparr>"
  obtain doc where doc: "swagger_json ''web playground'' ''1.0.0'' ?a = Inr doc"
    "\<And>i. i < length ds \<Longrightarrow> (\<And>j. i < j \<Longrightarrow> j < length ds \<Longrightarrow> key_of (ds ! j) \<noteq> key_of (ds ! i)) \<Longrightarrow>
       \<exists>op. op_json (metadata_of (ds ! i)) = Inr op \<and> json_at doc (key_of (ds ! i)) = Some op"
    by (rule swagger_doc [of ?a ds "''web playground''" "''1.0.0''"]) simp_all
  note start = registry_start_eq [OF assms doc(1)]
  have calls: "let (r, res') = handler_of x fs req (res @ [Set_Header ''Access-Control-Allow-Origin'' ''*'',
        Set_Header ''Access-Control-Allow-Methods'' (req_method req),
        Set_Header ''Access-Control-Allow-Headers'' ''Content-Type, Authorization'', Set_Status 200]) in
      route_calls (route_of query x) fs req res = (r, res', if r = Inr () then [log_request query req res'] else [])" for x fs req res
    by (cases x) (auto simp: wrapped_def Let_def split: prod.split sum.split)
  show ?thesis
  proof (rule exI [of _ doc], rule conjI, goal_cases)
    case 1
    show ?case
    proof (intro allI impI, goal_cases)
      case (1 i)
      then obtain op where op: "op_json (metadata_of (ds ! i)) = Inr op" "json_at doc (key_of (ds ! i)) = Some op"
        using doc(2) by blast
      show ?case by (intro exI [of _ op] conjI allI impI op(2) op_json_documents [OF op(1)])
    qed
  next
    case 2
    show ?case
    proof (cases "dump doc")
      case (Inl e)
      then show ?thesis using start by simp
    next
      case (Inr doc_text)
      then show ?thesis using start calls
        by (auto simp: nth_append wrapped_def swagger_handler_def log_request_def Let_def)
    qed
  qed
qed

lemma register_main_declares: "register_main query = declare_all query [(''Get'', ''/'', status_endpoint ''System Status'', true_handler)]"
  by (simp add: register_main_def declare_all_def fun_eq_iff)

definition example_decls :: "decl list" where
  "example_decls =
     [(''Get'', ''/api/missions/example'', status_endpoint ''Example Mission Status'', true_handler),
      (''Post'', ''/api/missions/example'', status_endpoint ''Start Example Mission'', true_handler)]"

lemma register_example_declares: "register_example query = declare_all query example_decls"
  by (simp add: register_example_def declare_all_def example_decls_def fun_eq_iff)


section \<open>Concrete inputs\<close>

text \<open>\<open>httplib\<close>'s query string of a single parameter, and a disk on which everything can be written.\<close>

fun sample_query :: query_str where
  "sample_query ((k, v) # ps) = k @ ''='' @ v"
| "sample_query [] = []"

definition sample_disk :: disk where
  "sample_disk = \<lparr>can_open = (\<lambda>_. True), stored = (\<lambda>text. text)\<rparr>"

definition sample_server :: server_state where
  "sample_server = \<lparr>s_api = \<lparr>routes = [], endpoints = []\<rparr>, registry = [register_example sample_query], s_files = Map.empty\<rparr>"

lemma sample_server_at:
  "s_api sample_server = \<lparr>routes = [], endpoints = []\<rparr>" "registry sample_server = map (declare_all sample_query) [example_decls]"
  "example_decls = concat [example_decls]"
  by (simp_all add: sample_server_def register_example_declares)

theorem server_serves_and_documents_witness:
  "\<exists>events st' doc op. registry_start sample_query (\<lambda>_. Inr ''document'') sample_disk ''swagger.json'' (\<lambda>_ _. True) ''::'' 80 sample_server =
       (Inr (), events, st') \<and>
     length (routes (s_api st')) = 3 \<and> s_files st' ''swagger.json'' = Some ''document'' \<and> Listen ''::'' 80 \<in> set events \<and>
     json_at doc [''paths'', ''/api/missions/example'', ''post''] = Some op \<and>
     json_at op [''summary''] = Some (JString ''Start Example Mission'') \<and>
     json_at op [''responses'', ''200'', ''description''] = Some (JString ''OK'')"
proof -
  note served = server_serves_and_documents [OF sample_server_at, where dump = "\<lambda>_. Inr ''document''" and d = sample_disk and dest = "''swagger.json''" and
      listen = "\<lambda>_ _. True" and addr = "''::''" and port = 80]
  then obtain doc where doc: "\<forall>i < length example_decls. (\<forall>j. i < j \<longrightarrow> j < length example_decls \<longrightarrow> key_of (example_decls ! j) \<noteq> key_of (example_decls ! i)) \<longrightarrow>
       (\<exists>op. json_at doc (key_of (example_decls ! i)) = Some op \<and>
          json_at op [''summary''] = Some (JString (summary (metadata_of (example_decls ! i)))) \<and>
          (\<forall>code r. RBT.lookup (responses (metadata_of (example_decls ! i))) code = Some r \<longrightarrow>
             json_at op [''responses'', show_nat (unat code), ''description''] = Some (JString (description r))))"
    by blast
  obtain r events st' where run: "registry_start sample_query (\<lambda>_. Inr ''document'') sample_disk ''swagger.json'' (\<lambda>_ _. True) ''::'' 80 sample_server =
    (r, events, st')" by (metis surj_pair)
  have out: "r = Inr () \<and> events = [Registering 1, Started_Listening ''::'' 80, Listen ''::'' 80, Closing] \<and>
     length (routes (s_api st')) = Suc (length example_decls) \<and> s_files st' = (s_files sample_server)(''swagger.json'' \<mapsto> ''document'')"
    using served unfolding run prod.case by (cases r) (auto simp: sample_disk_def)
  have two: "length example_decls = 2" by (simp add: example_decls_def)
  have key: "key_of (example_decls ! 1) = [''paths'', ''/api/missions/example'', ''post'']"
    by (simp add: example_decls_def stolower_def char_tolower_def Let_def char_of_def bit_0)
  have meta: "metadata_of (example_decls ! 1) = status_endpoint ''Start Example Mission''" by (simp add: example_decls_def)
  obtain op where op: "json_at doc [''paths'', ''/api/missions/example'', ''post''] = Some op"
    "json_at op [''summary''] = Some (JString (summary (status_endpoint ''Start Example Mission'')))"
    "\<And>code r. RBT.lookup (responses (status_endpoint ''Start Example Mission'')) code = Some r \<Longrightarrow>
       json_at op [''responses'', show_nat (unat code), ''description''] = Some (JString (description r))"
    using doc [rule_format, of 1] two unfolding key meta by fastforce
  have st: "summary (status_endpoint s) = s" "RBT.lookup (responses (status_endpoint s)) 200 = Some \<lparr>description = ''OK''\<rparr>" for s
    by (simp_all add: status_endpoint_def add_response_fields_def add_response_def metadata_new_def Let_def)
  have "show_nat (unat (200 :: size_t)) = ''200''" by code_simp
  then have "json_at op [''responses'', ''200'', ''description''] = Some (JString ''OK'')"
    using op(3) [OF st(2)] by simp
  then show ?thesis using out op(1,2) st(1) run two by auto
qed


end
