(* ===== verification/Rmq.thy ===== *)
theory Rmq
  imports Prelude
begin

text \<open>
  RabbitMQ (\<open>src/core/src/utils/ipc/rmq\<close>) and the two flow objects over it
  (\<open>src/core/src/modules/io/ipc/rmq\<close>).  \<open>AmqpClient::Channel\<close> is a parameter: a record of its calls on
  the state \<open>'w\<close> of the broker; so is \<open>nlohmann::json\<close>, through how a type is written and read
  (\<open>codec\<close>).
\<close>

section \<open>Options and the channel\<close>

record rmq_options =
  uri :: string
  username :: string
  password :: string
  exchange_name :: string
  exchange_type :: string
  exchange_passive :: bool
  exchange_durable :: bool
  exchange_auto_delete :: bool
  queue_name :: string
  queue_passive :: bool
  queue_durable :: bool
  queue_exclusive :: bool
  queue_auto_delete :: bool

definition default_options :: rmq_options where
  "default_options =
     \<lparr>uri = [], username = [], password = [], exchange_name = [], exchange_type = ''direct'', exchange_passive = False,
      exchange_durable = False, exchange_auto_delete = False, queue_name = [], queue_passive = False, queue_durable = False,
      queue_exclusive = False, queue_auto_delete = False\<rparr>"

record message =
  content_type :: "string option"
  body :: string

record 'w channel =
  ch_open :: "string \<Rightarrow> string \<Rightarrow> string \<Rightarrow> 'w \<Rightarrow> unit result \<times> 'w"
  ch_check_exchange :: "string \<Rightarrow> 'w \<Rightarrow> bool result \<times> 'w"
  ch_declare_exchange :: "string \<Rightarrow> string \<Rightarrow> bool \<Rightarrow> bool \<Rightarrow> bool \<Rightarrow> 'w \<Rightarrow> unit result \<times> 'w"
  ch_check_queue :: "string \<Rightarrow> 'w \<Rightarrow> bool result \<times> 'w"
  ch_declare_queue :: "string \<Rightarrow> bool \<Rightarrow> bool \<Rightarrow> bool \<Rightarrow> bool \<Rightarrow> 'w \<Rightarrow> unit result \<times> 'w"
  ch_consume :: "string \<Rightarrow> 'w \<Rightarrow> string result \<times> 'w"
  ch_consume_message :: "string \<Rightarrow> int \<Rightarrow> 'w \<Rightarrow> message option result \<times> 'w"
  ch_publish :: "string \<Rightarrow> string \<Rightarrow> message \<Rightarrow> bool \<Rightarrow> bool \<Rightarrow> 'w \<Rightarrow> unit result \<times> 'w"
  ch_cancel :: "string \<Rightarrow> 'w \<Rightarrow> unit result \<times> 'w"

text \<open>\<open>catch (std::exception)\<close>: an exception of the program's own need not be one.\<close>

fun std_exception :: "error \<Rightarrow> bool" where
  "std_exception (Exn (User_Exn n)) = False"
| "std_exception (Exn x) = True"
| "std_exception _ = False"

text \<open>\<open>try { r = call; } catch (std::exception) { r = v; }\<close> and \<open>try { call; } catch { throw runtime_error }\<close>.\<close>

definition try_default :: "'r \<Rightarrow> 'r result \<times> 'w \<Rightarrow> 'r result \<times> 'w" where
  "try_default v r = (case r of (Inl e, w) \<Rightarrow> if std_exception e then (Inr v, w) else (Inl e, w) | _ \<Rightarrow> r)"

definition try_rethrow :: "string \<Rightarrow> 'r result \<times> 'w \<Rightarrow> 'r result \<times> 'w" where
  "try_rethrow msg r =
     (case r of (Inl e, w) \<Rightarrow> (Inl (if std_exception e then Exn (Runtime_Error msg) else e), w) | _ \<Rightarrow> r)"

definition mq_entity_new :: "'w channel \<Rightarrow> rmq_options \<Rightarrow> 'w \<Rightarrow> unit result \<times> 'w" where
  "mq_entity_new ch opts w =
     try_rethrow ''Error in channel initialization'' (ch_open ch (uri opts) (username opts) (password opts) w)"

definition ensure_exchange :: "'w channel \<Rightarrow> rmq_options \<Rightarrow> 'w \<Rightarrow> unit result \<times> 'w" where
  "ensure_exchange ch opts w =
     and_then (try_default False (ch_check_exchange ch (exchange_name opts) w)) (\<lambda>exists w.
       if \<not> exists
       then ch_declare_exchange ch (exchange_name opts) (exchange_type opts) (exchange_passive opts)
         (exchange_durable opts) (exchange_auto_delete opts) w
       else (Inr (), w))"

definition ensure_queue :: "'w channel \<Rightarrow> rmq_options \<Rightarrow> 'w \<Rightarrow> unit result \<times> 'w" where
  "ensure_queue ch opts w =
     and_then (try_default False (ch_check_queue ch (queue_name opts) w)) (\<lambda>exists w.
       if \<not> exists
       then ch_declare_queue ch (queue_name opts) (queue_passive opts) (queue_durable opts) (queue_exclusive opts)
         (queue_auto_delete opts) w
       else (Inr (), w))"

section \<open>Serialisation\<close>

text \<open>The types that can be sent: one with a JSON or a string representation of its own, \<open>nlohmann::json\<close>
  and \<open>std::string\<close>.  \<open>dump\<close> and \<open>parse\<close> are those of the JSON library; both may throw.\<close>

datatype ('t, 'j) codec =
    Json_Serialized "'t \<Rightarrow> 'j" "'j \<Rightarrow> 't result"
  | String_Serialized "'t \<Rightarrow> string" "string \<Rightarrow> 't result"
  | Json_Value "'t \<Rightarrow> 'j" "'j \<Rightarrow> 't"
  | String_Value "'t \<Rightarrow> string" "string \<Rightarrow> 't"

fun encode :: "('j \<Rightarrow> string result) \<Rightarrow> ('t, 'j) codec \<Rightarrow> 't \<Rightarrow> message result" where
  "encode dump (Json_Serialized ser of_j) v =
     rmap (\<lambda>s. \<lparr>content_type = Some ''application/json'', body = s\<rparr>) (dump (ser v))"
| "encode dump (String_Serialized ser of_s) v = Inr \<lparr>content_type = None, body = ser v\<rparr>"
| "encode dump (Json_Value as_j of_j) v =
     rmap (\<lambda>s. \<lparr>content_type = Some ''application/json'', body = s\<rparr>) (dump (as_j v))"
| "encode dump (String_Value as_s of_s) v = Inr \<lparr>content_type = None, body = as_s v\<rparr>"

fun decode :: "(string \<Rightarrow> 'j result) \<Rightarrow> ('t, 'j) codec \<Rightarrow> string \<Rightarrow> 't result" where
  "decode parse (Json_Serialized ser of_j) s = rbind (parse s) of_j"
| "decode parse (String_Serialized ser of_s) s = of_s s"
| "decode parse (Json_Value as_j of_j) s = rmap of_j (parse s)"
| "decode parse (String_Value as_s of_s) s = Inr (of_s s)"

section \<open>Publisher\<close>

text \<open>A publisher has a member \<open>options\<close> of its own, which its constructor leaves as it is by default.\<close>

record publisher =
  pub_options :: rmq_options
  pub_routing_key :: string

definition publisher_new :: "'w channel \<Rightarrow> rmq_options \<Rightarrow> string \<Rightarrow> 'w \<Rightarrow> publisher result \<times> 'w" where
  "publisher_new ch opts key w =
     and_then (mq_entity_new ch opts w) (\<lambda>_ w.
     and_then (ensure_exchange ch opts w) (\<lambda>_ w.
     and_then (ensure_queue ch opts w) (\<lambda>_ w.
       (Inr \<lparr>pub_options = default_options, pub_routing_key = (if key = [] then queue_name opts else key)\<rparr>, w))))"

text \<open>Serialisation is not inside the \<open>try\<close>.\<close>

definition publish ::
  "('j \<Rightarrow> string result) \<Rightarrow> ('t, 'j) codec \<Rightarrow> 'w channel \<Rightarrow> publisher \<Rightarrow> 't \<Rightarrow> bool \<Rightarrow> bool \<Rightarrow> 'w \<Rightarrow> unit result \<times> 'w" where
  "publish dump cod ch p v mandatory immediate w =
     (case encode dump cod v of
        Inl e \<Rightarrow> (Inl e, w)
      | Inr m \<Rightarrow>
          try_rethrow ''Producer failed to publish''
            (ch_publish ch (exchange_name (pub_options p)) (pub_routing_key p) m mandatory immediate w))"

section \<open>Consumer\<close>

record consumer =
  consumer_tag :: string
  channel_set :: bool

definition consumer_new :: "'w channel \<Rightarrow> rmq_options \<Rightarrow> 'w \<Rightarrow> consumer result \<times> 'w" where
  "consumer_new ch opts w =
     and_then (mq_entity_new ch opts w) (\<lambda>_ w.
     and_then (ensure_queue ch opts w) (\<lambda>_ w.
     and_then (ch_consume ch (queue_name opts) w) (\<lambda>tag w. (Inr \<lparr>consumer_tag = tag, channel_set = True\<rparr>, w))))"

definition consume ::
  "(string \<Rightarrow> 'j result) \<Rightarrow> ('t, 'j) codec \<Rightarrow> 'w channel \<Rightarrow> consumer \<Rightarrow> int \<Rightarrow> 'w \<Rightarrow> 't option result \<times> 'w" where
  "consume parse cod ch c timeout w =
     (if \<not> channel_set c then (Inl UB, w)
      else and_then (ch_consume_message ch (consumer_tag c) timeout w) (\<lambda>envelope w.
        (case envelope of
           None \<Rightarrow> (Inr None, w)
         | Some m \<Rightarrow> (rmap Some (decode parse cod (body m)), w))))"

definition consumer_stop :: "'w channel \<Rightarrow> consumer \<Rightarrow> 'w \<Rightarrow> (unit result \<times> consumer) \<times> 'w" where
  "consumer_stop ch c w =
     (if channel_set c then
        (case ch_cancel ch (consumer_tag c) w of
           (Inl e, w) \<Rightarrow> ((Inl e, c), w)
         | (Inr _, w) \<Rightarrow> ((Inr (), c\<lparr>channel_set := False\<rparr>), w))
      else ((Inr (), c), w))"

text \<open>The destructor calls \<open>stop\<close>; an exception must not leave a destructor, so one that does terminates the program.\<close>

definition consumer_destroy :: "'w channel \<Rightarrow> consumer \<Rightarrow> 'w \<Rightarrow> unit result \<times> 'w" where
  "consumer_destroy ch c w =
     (case consumer_stop ch c w of
        ((Inl (Exn e), c), w) \<Rightarrow> (Inl Assert_Fail, w)
      | ((r, c), w) \<Rightarrow> (r, w))"

text \<open>A consumer that was stopped is destroyed without a call; one that was not cancels its subscription, and aborts
  where the broker cannot be reached.\<close>

lemma consumer_destroy_cases:
  "consumer_stop ch c w = ((Inr (), c'), w') \<Longrightarrow> consumer_destroy ch c' w' = (Inr (), w')"
  "channel_set c \<Longrightarrow> ch_cancel ch (consumer_tag c) w = (Inl (Exn e), w') \<Longrightarrow> consumer_destroy ch c w = (Inl Assert_Fail, w')"
  by (auto simp: consumer_stop_def consumer_destroy_def split: if_splits prod.splits sum.splits)

section \<open>The flow objects\<close>

record rmq_source =
  src_consumer :: consumer
  consume_timeout :: int

definition rmq_source_new :: "'w channel \<Rightarrow> rmq_options \<Rightarrow> int \<Rightarrow> 'w \<Rightarrow> rmq_source result \<times> 'w" where
  "rmq_source_new ch opts timeout w =
     and_then (consumer_new ch opts w) (\<lambda>c w. (Inr \<lparr>src_consumer = c, consume_timeout = timeout\<rparr>, w))"

definition rmq_source_process ::
  "(string \<Rightarrow> 'j result) \<Rightarrow> ('t, 'j) codec \<Rightarrow> 'w channel \<Rightarrow> rmq_source \<Rightarrow> 'w \<Rightarrow> 't option result \<times> 'w" where
  "rmq_source_process parse cod ch s w = consume parse cod ch (src_consumer s) (consume_timeout s) w"

record rmq_sink =
  sink_publisher :: publisher
  sink_routing_key :: string
  sink_mandatory :: bool
  sink_immediate :: bool

definition rmq_sink_new :: "'w channel \<Rightarrow> rmq_options \<Rightarrow> string \<Rightarrow> bool \<Rightarrow> bool \<Rightarrow> 'w \<Rightarrow> rmq_sink result \<times> 'w" where
  "rmq_sink_new ch opts key mandatory immediate w =
     and_then (publisher_new ch opts key w) (\<lambda>p w.
       (Inr \<lparr>sink_publisher = p, sink_routing_key = key, sink_mandatory = mandatory, sink_immediate = immediate\<rparr>, w))"

text \<open>\<open>process\<close> calls \<open>publish\<close>, which takes a value and two flags, with four arguments.\<close>

definition rmq_sink_process :: "rmq_sink \<Rightarrow> 't \<Rightarrow> 'w \<Rightarrow> unit result \<times> 'w" where
  "rmq_sink_process s input w = (Inl Ill_Formed, w)"

section \<open>What the libraries promise\<close>

text \<open>
  \<open>queued w q\<close> are the messages of the queue \<open>q\<close> that no call of the program has returned yet, \<open>tag_of w t\<close> the queue the
  consumer tag \<open>t\<close> reads.  As AMQP documents it: a message published with neither \<open>mandatory\<close> nor \<open>immediate\<close>
  to the default exchange, the one without a name, goes to the end of the queue whose name is the routing
  key, if there is one; a call that consumes returns the first message of the queue, or nothing when the
  timeout was over first.  Either call may fail instead.
\<close>

definition broker_laws ::
  "'w channel \<Rightarrow> ('w \<Rightarrow> string \<Rightarrow> message list option) \<Rightarrow> ('w \<Rightarrow> string \<Rightarrow> string option) \<Rightarrow> bool" where
  "broker_laws ch queued tag_of \<longleftrightarrow>
     (\<forall>w q m ms w'. queued w q = Some ms \<longrightarrow> ch_publish ch [] q m False False w = (Inr (), w') \<longrightarrow>
        queued w' = (queued w)(q \<mapsto> ms @ [m]) \<and> tag_of w' = tag_of w) \<and>
     (\<forall>w t q ms timeout r w'. tag_of w t = Some q \<longrightarrow> queued w q = Some ms \<longrightarrow> ch_consume_message ch t timeout w = (Inr r, w') \<longrightarrow>
        (case r of
           None \<Rightarrow> queued w' = queued w
         | Some m \<Rightarrow> \<exists>ms'. ms = m # ms' \<and> queued w' = (queued w)(q \<mapsto> ms')) \<and> tag_of w' = tag_of w)"

text \<open>A broker that hands out what it has before the timeout is over.\<close>

definition prompt ::
  "'w channel \<Rightarrow> ('w \<Rightarrow> string \<Rightarrow> message list option) \<Rightarrow> ('w \<Rightarrow> string \<Rightarrow> string option) \<Rightarrow> bool" where
  "prompt ch queued tag_of \<longleftrightarrow>
     (\<forall>w t q m ms timeout w'. tag_of w t = Some q \<longrightarrow> queued w q = Some (m # ms) \<longrightarrow>
        ch_consume_message ch t timeout w \<noteq> (Inr None, w'))"

text \<open>The JSON library can print the document of this value and reads what it printed as that document, and the type's own
  functions are inverse to each other on it.\<close>

fun sendable :: "('j \<Rightarrow> string result) \<Rightarrow> (string \<Rightarrow> 'j result) \<Rightarrow> ('t, 'j) codec \<Rightarrow> 't \<Rightarrow> bool" where
  "sendable dump parse (Json_Serialized ser of_j) v =
     (rbind (dump (ser v)) parse = Inr (ser v) \<and> of_j (ser v) = Inr v)"
| "sendable dump parse (String_Serialized ser of_s) v = (of_s (ser v) = Inr v)"
| "sendable dump parse (Json_Value as_j of_j) v = (rbind (dump (as_j v)) parse = Inr (as_j v) \<and> of_j (as_j v) = v)"
| "sendable dump parse (String_Value as_s of_s) v = (of_s (as_s v) = v)"

lemma encode_decode:
  assumes "sendable dump parse cod v"
  obtains m where "encode dump cod v = Inr m" "decode parse cod (body m) = Inr v"
  using assms by (cases cod) (auto simp: rbind_Inr_conv)

section \<open>Many calls\<close>

fun publish_all ::
  "('j \<Rightarrow> string result) \<Rightarrow> ('t, 'j) codec \<Rightarrow> 'w channel \<Rightarrow> publisher \<Rightarrow> 't list \<Rightarrow> 'w \<Rightarrow> unit result \<times> 'w" where
  "publish_all dump cod ch p [] w = (Inr (), w)"
| "publish_all dump cod ch p (v # vs) w =
     and_then (publish dump cod ch p v False False w) (\<lambda>_. publish_all dump cod ch p vs)"

fun consume_n ::
  "(string \<Rightarrow> 'j result) \<Rightarrow> ('t, 'j) codec \<Rightarrow> 'w channel \<Rightarrow> rmq_source \<Rightarrow> nat \<Rightarrow> 'w \<Rightarrow> 't option list result \<times> 'w" where
  "consume_n parse cod ch s 0 w = (Inr [], w)"
| "consume_n parse cod ch s (Suc n) w =
     and_then (rmq_source_process parse cod ch s w) (\<lambda>v w.
       and_then (consume_n parse cod ch s n w) (\<lambda>vs w. (Inr (v # vs), w)))"

text \<open>The values among the results of \<open>process\<close>.\<close>

definition received :: "'t option list \<Rightarrow> 't list" where
  "received rs = map the (filter (\<lambda>r. r \<noteq> None) rs)"

lemma received_simps [simp]: "received [] = []" "received (None # rs) = received rs" "received (Some v # rs) = v # received rs"
  by (simp_all add: received_def)

lemma publisher_new_options:
  "publisher_new ch opts key w = (Inr p, w') \<Longrightarrow>
     pub_options p = default_options \<and> pub_routing_key p = (if key = [] then queue_name opts else key)"
  by (auto simp: publisher_new_def and_then_split split: prod.splits sum.splits)

text \<open>The messages that stand for the values.\<close>

abbreviation carry :: "('j \<Rightarrow> string result) \<Rightarrow> ('t, 'j) codec \<Rightarrow> message list \<Rightarrow> 't list \<Rightarrow> bool" where
  "carry dump cod \<equiv> list_all2 (\<lambda>m v. encode dump cod v = Inr m)"

lemma publish_queue:
  assumes "broker_laws ch queued tag_of" "pub_options p = default_options" "sendable dump parse cod v"
    "queued w (pub_routing_key p) = Some ms" "publish dump cod ch p v False False w = (Inr (), w')"
  shows "\<exists>m. encode dump cod v = Inr m \<and> queued w' (pub_routing_key p) = Some (ms @ [m]) \<and> tag_of w' = tag_of w"
proof -
  obtain m where m: "encode dump cod v = Inr m" using encode_decode [OF assms(3)] by metis
  have "ch_publish ch [] (pub_routing_key p) m False False w = (Inr (), w')"
    using assms(2,5) m by (auto simp: publish_def try_rethrow_def default_options_def split: prod.splits sum.splits if_splits)
  then have "queued w' = (queued w)(pub_routing_key p \<mapsto> ms @ [m]) \<and> tag_of w' = tag_of w"
    by (rule assms(1) [unfolded broker_laws_def, THEN conjunct1, rule_format, OF assms(4)])
  then show ?thesis using m by simp
qed

lemma publish_fails:
  assumes "sendable dump parse cod v" "pub_options p = default_options" "publish dump cod ch p v False False w = (Inl e, w')"
  shows "\<exists>m w e. fst (ch_publish ch [] (pub_routing_key p) m False False w) = Inl e"
proof -
  obtain m where m: "encode dump cod v = Inr m" using encode_decode [OF assms(1)] by metis
  then have "\<exists>e. fst (ch_publish ch [] (pub_routing_key p) m False False w) = Inl e"
    using assms(2,3) by (auto simp: publish_def try_rethrow_def default_options_def split: prod.splits sum.splits)
  then show ?thesis by blast
qed

lemma publish_all_queue:
  assumes "broker_laws ch queued tag_of" "pub_options p = default_options"
  shows "\<forall>v \<in> set vs. sendable dump parse cod v \<Longrightarrow> queued w (pub_routing_key p) = Some ms \<Longrightarrow>
    case publish_all dump cod ch p vs w of
      (Inl e, w') \<Rightarrow> \<exists>m w e. fst (ch_publish ch [] (pub_routing_key p) m False False w) = Inl e
    | (Inr _, w') \<Rightarrow> \<exists>ms'. queued w' (pub_routing_key p) = Some (ms @ ms') \<and> carry dump cod ms' vs \<and> tag_of w' = tag_of w"
proof (induction vs arbitrary: w ms)
  case (Cons v vs)
  obtain r w1 where x: "publish dump cod ch p v False False w = (r, w1)" by fastforce
  have v: "sendable dump parse cod v" using Cons.prems(1) by simp
  show ?case
  proof (cases r)
    case (Inl e)
    then show ?thesis using publish_fails [OF v assms(2)] x by simp
  next
    case (Inr u)
    then obtain m where m: "encode dump cod v = Inr m" "queued w1 (pub_routing_key p) = Some (ms @ [m])" "tag_of w1 = tag_of w"
      using publish_queue [OF assms v Cons.prems(2)] x by auto
    have IH: "case publish_all dump cod ch p vs w1 of
      (Inl e, w') \<Rightarrow> \<exists>m w e. fst (ch_publish ch [] (pub_routing_key p) m False False w) = Inl e
    | (Inr _, w') \<Rightarrow> \<exists>ms'. queued w' (pub_routing_key p) = Some ((ms @ [m]) @ ms') \<and> carry dump cod ms' vs \<and> tag_of w' = tag_of w1"
      by (rule Cons.IH [OF _ m(2)]) (use Cons.prems(1) in simp)
    obtain r2 w2 where y: "publish_all dump cod ch p vs w1 = (r2, w2)" by fastforce
    show ?thesis
    proof (cases r2)
      case (Inl e)
      then show ?thesis using IH x y Inr by simp
    next
      case (Inr u)
      then obtain ms' where "queued w2 (pub_routing_key p) = Some (ms @ m # ms')" "carry dump cod ms' vs" "tag_of w2 = tag_of w"
        using IH y m(3) by auto
      then have "queued w2 (pub_routing_key p) = Some (ms @ m # ms') \<and> carry dump cod (m # ms') (v # vs) \<and> tag_of w2 = tag_of w"
        using m(1) by simp
      then show ?thesis using x y Inr \<open>r = Inr _\<close> by auto
    qed
  qed
qed simp

text \<open>One call of \<open>process\<close>: it fails only where the channel does, has nothing, or has the first value.\<close>

lemma process_queue:
  assumes "broker_laws ch queued tag_of" "channel_set (src_consumer s)" "\<forall>v \<in> set vs. sendable dump parse cod v"
    "tag_of w (consumer_tag (src_consumer s)) = Some q" "queued w q = Some ms" "carry dump cod ms vs"
    "rmq_source_process parse cod ch s w = (r, w')"
  shows "(\<exists>e w. r = Inl e \<and> fst (ch_consume_message ch (consumer_tag (src_consumer s)) (consume_timeout s) w) = Inl e) \<or>
    tag_of w' = tag_of w \<and>
      (r = Inr None \<and> queued w' q = Some ms \<and> (prompt ch queued tag_of \<longrightarrow> vs = []) \<or>
       (\<exists>v vs' m ms'. vs = v # vs' \<and> ms = m # ms' \<and> r = Inr (Some v) \<and> queued w' q = Some ms' \<and> carry dump cod ms' vs'))"
proof -
  let ?t = "consumer_tag (src_consumer s)"
  obtain x w1 where c: "ch_consume_message ch ?t (consume_timeout s) w = (x, w1)" by fastforce
  show ?thesis
  proof (cases x)
    case (Inl e)
    then have "r = Inl e" using assms(2,7) c by (simp add: rmq_source_process_def consume_def)
    moreover have "fst (ch_consume_message ch ?t (consume_timeout s) w) = Inl e" using Inl c by simp
    ultimately show ?thesis by blast
  next
    case (Inr env)
    have law: "(case env of None \<Rightarrow> queued w1 = queued w | Some m \<Rightarrow> \<exists>ms'. ms = m # ms' \<and> queued w1 = (queued w)(q \<mapsto> ms')) \<and>
        tag_of w1 = tag_of w"
      by (rule assms(1) [unfolded broker_laws_def, THEN conjunct2, rule_format, OF assms(4,5)]) (use c Inr in simp)
    show ?thesis
    proof (cases env)
      case None
      then have "r = Inr None" "w' = w1" using assms(2,7) c Inr by (simp_all add: rmq_source_process_def consume_def)
      moreover have "vs = []" if "prompt ch queued tag_of"
      proof (rule ccontr)
        assume "vs \<noteq> []"
        then obtain m ms' where "ms = m # ms'" using assms(6) by (cases ms; cases vs) auto
        then have "ch_consume_message ch ?t (consume_timeout s) w \<noteq> (Inr None, w1)"
          using that assms(4,5) by (simp add: prompt_def)
        then show False using c Inr None by simp
      qed
      ultimately show ?thesis using law assms(5) None by simp
    next
      case (Some m)
      then obtain ms' where ms: "ms = m # ms'" "queued w1 = (queued w)(q \<mapsto> ms')" "tag_of w1 = tag_of w" using law by auto
      then obtain v vs' where vs: "vs = v # vs'" "encode dump cod v = Inr m" "carry dump cod ms' vs'"
        using assms(6) by (auto simp: list_all2_Cons1)
      then have "decode parse cod (body m) = Inr v" using assms(3) encode_decode [of dump parse cod v] by auto
      then have "r = Inr (Some v)" "w' = w1" using assms(2,7) c Inr Some by (simp_all add: rmq_source_process_def consume_def)
      then show ?thesis using ms vs by simp
    qed
  qed
qed

lemma consume_n_queue:
  assumes "broker_laws ch queued tag_of" "channel_set (src_consumer s)"
  shows "\<forall>v \<in> set vs. sendable dump parse cod v \<Longrightarrow> tag_of w (consumer_tag (src_consumer s)) = Some q \<Longrightarrow>
    queued w q = Some ms \<Longrightarrow> carry dump cod ms vs \<Longrightarrow> consume_n parse cod ch s n w = (r, w') \<Longrightarrow>
    (\<exists>e w. r = Inl e \<and> fst (ch_consume_message ch (consumer_tag (src_consumer s)) (consume_timeout s) w) = Inl e) \<or>
    (\<exists>rs k ms'. r = Inr rs \<and> length rs = n \<and> received rs = take k vs \<and> queued w' q = Some ms' \<and> carry dump cod ms' (drop k vs) \<and>
       (prompt ch queued tag_of \<longrightarrow> n \<le> k \<or> length vs \<le> k))"
proof (induction n arbitrary: w vs ms r w')
  case 0
  then show ?case by (intro disjI2 exI [of _ "[]"] exI [of _ 0] exI [of _ ms]) simp
next
  case (Suc n)
  obtain r1 w1 where x: "rmq_source_process parse cod ch s w = (r1, w1)" by fastforce
  obtain r2 w2 where y: "consume_n parse cod ch s n w1 = (r2, w2)" by fastforce
  have first: "(\<exists>e w. r1 = Inl e \<and> fst (ch_consume_message ch (consumer_tag (src_consumer s)) (consume_timeout s) w) = Inl e) \<or>
    tag_of w1 = tag_of w \<and>
      (r1 = Inr None \<and> queued w1 q = Some ms \<and> (prompt ch queued tag_of \<longrightarrow> vs = []) \<or>
       (\<exists>v vs' m ms'. vs = v # vs' \<and> ms = m # ms' \<and> r1 = Inr (Some v) \<and> queued w1 q = Some ms' \<and> carry dump cod ms' vs'))"
    by (rule process_queue [OF assms Suc.prems(1-4) x])
  show ?case
  proof (cases r1)
    case (Inl e)
    then show ?thesis using first x Suc.prems(5) by auto
  next
    case (Inr o1)
    obtain vs1 ms1 where 1: "tag_of w1 = tag_of w" "queued w1 q = Some ms1" "carry dump cod ms1 vs1"
      "o1 = None \<and> vs1 = vs \<and> (prompt ch queued tag_of \<longrightarrow> vs = []) \<or> (\<exists>v. o1 = Some v \<and> vs = v # vs1)"
      using first Inr Suc.prems(4) by auto
    have sub: "\<forall>v \<in> set vs1. sendable dump parse cod v" using 1(4) Suc.prems(1) by auto
    have t: "tag_of w1 (consumer_tag (src_consumer s)) = Some q" using 1(1) Suc.prems(2) by simp
    note IH = Suc.IH [OF sub t 1(2,3) y]
    show ?thesis
    proof (cases r2)
      case (Inl e)
      then show ?thesis using IH x y Inr Suc.prems(5) by auto
    next
      case r2: (Inr rs')
      then obtain k ms' where 2: "length rs' = n" "received rs' = take k vs1" "queued w2 q = Some ms'"
        "carry dump cod ms' (drop k vs1)" "prompt ch queued tag_of \<longrightarrow> n \<le> k \<or> length vs1 \<le> k" using IH by auto
      have r: "r = Inr (o1 # rs')" "w' = w2" using Suc.prems(5) x y Inr r2 by simp_all
      from 1(4) show ?thesis
      proof (elim disjE exE conjE)
        assume "o1 = None" "vs1 = vs" "prompt ch queued tag_of \<longrightarrow> vs = []"
        then show ?thesis using 2 r by (intro disjI2 exI [of _ "o1 # rs'"] exI [of _ k] exI [of _ ms']) auto
      next
        fix v assume "o1 = Some v" "vs = v # vs1"
        then show ?thesis using 2 r by (intro disjI2 exI [of _ "o1 # rs'"] exI [of _ "Suc k"] exI [of _ ms']) auto
      qed
    qed
  qed
qed

section \<open>Properties\<close>

text \<open>C34. What a publisher made for a queue sends, an \<open>RMQSource\<close> reading that queue receives: the values its calls of
  \<open>process\<close> return are the values sent, decoded, from the first on and in order, and the messages of all the others
  are still in the queue, whichever of the calls run into the timeout; with a broker that delivers before the
  timeout is over they are all of them once there were as many calls.  Publishing and consuming fail only where a
  call of the channel fails.  All this whatever exchange the options name, since the publisher always publishes to
  the default exchange, and for every kind of codec, where the JSON library reads what it printed and the type's own
  functions are inverse to each other on the values sent.\<close>

theorem rmq_roundtrip:
  assumes "broker_laws ch queued tag_of" "\<forall>v \<in> set vs. sendable dump parse cod v"
    "publisher_new ch opts [] w0 = (Inr p, w)" "queued w (queue_name opts) = Some []"
    "tag_of w (consumer_tag (src_consumer s)) = Some (queue_name opts)" "channel_set (src_consumer s)"
  shows "case publish_all dump cod ch p vs w of
      (Inl _, _) \<Rightarrow> \<exists>m w e. fst (ch_publish ch [] (queue_name opts) m False False w) = Inl e
    | (Inr _, w1) \<Rightarrow>
        (case consume_n parse cod ch s n w1 of
           (Inl e, _) \<Rightarrow> \<exists>w. fst (ch_consume_message ch (consumer_tag (src_consumer s)) (consume_timeout s) w) = Inl e
         | (Inr rs, w2) \<Rightarrow> length rs = n \<and>
             (\<exists>k ms. received rs = take k vs \<and> queued w2 (queue_name opts) = Some ms \<and>
                list_all2 (\<lambda>m v. encode dump cod v = Inr m) ms (drop k vs) \<and>
                (prompt ch queued tag_of \<longrightarrow> n \<le> k \<or> length vs \<le> k)))"
proof -
  have p: "pub_options p = default_options" "pub_routing_key p = queue_name opts" using publisher_new_options [OF assms(3)] by simp_all
  obtain r w1 where x: "publish_all dump cod ch p vs w = (r, w1)" by fastforce
  have pub: "case publish_all dump cod ch p vs w of
      (Inl e, w') \<Rightarrow> \<exists>m w e. fst (ch_publish ch [] (pub_routing_key p) m False False w) = Inl e
    | (Inr _, w') \<Rightarrow> \<exists>ms'. queued w' (pub_routing_key p) = Some ([] @ ms') \<and> carry dump cod ms' vs \<and> tag_of w' = tag_of w"
    by (rule publish_all_queue [OF assms(1) p(1) assms(2)]) (simp add: p(2) assms(4))
  show ?thesis
  proof (cases r)
    case (Inl e)
    then show ?thesis using pub x p(2) by simp
  next
    case (Inr u)
    then obtain ms where ms: "queued w1 (queue_name opts) = Some ms" "carry dump cod ms vs" "tag_of w1 = tag_of w"
      using pub x p(2) by auto
    have t: "tag_of w1 (consumer_tag (src_consumer s)) = Some (queue_name opts)" using ms(3) assms(5) by simp
    obtain r2 w2 where y: "consume_n parse cod ch s n w1 = (r2, w2)" by fastforce
    show ?thesis using consume_n_queue [OF assms(1,6,2) t ms(1,2) y] x y Inr by (cases r2) auto
  qed
qed

section \<open>Concrete inputs\<close>

text \<open>A broker that is its queues; the tag of a consumer is the name of its queue.  A consumer that waits for no time at all
  gets nothing.\<close>

definition sample_channel :: "(string \<Rightarrow> message list option) channel" where
  "sample_channel =
     \<lparr>ch_open = (\<lambda>_ _ _ w. (Inr (), w)), ch_check_exchange = (\<lambda>_ w. (Inl (Exn (Runtime_Error ''no exchange'')), w)),
      ch_declare_exchange = (\<lambda>_ _ _ _ _ w. (Inr (), w)), ch_check_queue = (\<lambda>q w. (Inr (w q \<noteq> None), w)),
      ch_declare_queue = (\<lambda>q _ _ _ _ w. (Inr (), w(q \<mapsto> []))), ch_consume = (\<lambda>q w. (Inr q, w)),
      ch_consume_message = (\<lambda>t timeout w. case w t of None \<Rightarrow> (Inl (Exn (Runtime_Error ''no queue'')), w)
        | Some [] \<Rightarrow> (Inr None, w)
        | Some (m # ms) \<Rightarrow> if timeout = 0 then (Inr None, w) else (Inr (Some m), w(t \<mapsto> ms))),
      ch_publish = (\<lambda>ex q m _ _ w. if ex = [] then (Inr (), case w q of None \<Rightarrow> w | Some ms \<Rightarrow> w(q \<mapsto> ms @ [m]))
        else (Inl (Exn (Runtime_Error ''no exchange'')), w)),
      ch_cancel = (\<lambda>_ w. (Inr (), w))\<rparr>"

lemma sample_broker_laws: "broker_laws sample_channel (\<lambda>w. w) (\<lambda>w t. Some t)"
  by (auto simp: broker_laws_def sample_channel_def fun_upd_idem split: option.splits list.splits if_splits)

text \<open>A type with a JSON representation; the documents are numbers in unary notation.\<close>

definition nat_codec :: "(int, nat) codec" where
  "nat_codec = Json_Serialized (\<lambda>i. nat i + 1) (\<lambda>j. Inr (int j - 1))"

definition unary :: "nat \<Rightarrow> string result" where
  "unary j = Inr (replicate j CHR ''I'')"

definition sample_options :: rmq_options where
  "sample_options = default_options\<lparr>queue_name := ''jobs'', exchange_name := ''orders''\<rparr>"

theorem rmq_roundtrip_witness:
  "\<exists>p w w1 rs w2. publisher_new sample_channel sample_options [] Map.empty = (Inr p, w) \<and>
     publish_all unary nat_codec sample_channel p [0, 2] w = (Inr (), w1) \<and>
     consume_n (\<lambda>s. Inr (length s)) nat_codec sample_channel
       \<lparr>src_consumer = \<lparr>consumer_tag = ''jobs'', channel_set = True\<rparr>, consume_timeout = 100\<rparr> 3 w1 = (Inr rs, w2) \<and>
     length rs = 3 \<and> (\<exists>k. received rs = take k [0, 2])"
proof -
  let ?p = "\<lparr>pub_options = default_options, pub_routing_key = ''jobs''\<rparr>"
  let ?s = "\<lparr>src_consumer = \<lparr>consumer_tag = ''jobs'', channel_set = True\<rparr>, consume_timeout = 100\<rparr>"
  let ?parse = "\<lambda>s. Inr (length s)"
  have new: "publisher_new sample_channel sample_options [] Map.empty = (Inr ?p, [''jobs'' \<mapsto> []])"
    by (simp add: publisher_new_def mq_entity_new_def try_rethrow_def ensure_exchange_def ensure_queue_def try_default_def
        sample_channel_def sample_options_def default_options_def)
  have cod: "\<forall>v \<in> set [0, 2 :: int]. sendable unary ?parse nat_codec v" by (simp add: nat_codec_def unary_def)
  have q: "[''jobs'' \<mapsto> []] (queue_name sample_options) = Some ([] :: message list)"
    "Some (consumer_tag (src_consumer ?s)) = Some (queue_name sample_options)" "channel_set (src_consumer ?s)"
    by (simp_all add: sample_options_def)
  let ?json = "\<lambda>s. \<lparr>content_type = Some ''application/json'', body = s\<rparr>"
  let ?w = "[''jobs'' \<mapsto> [?json ''I'', ?json ''III'']]"
  have w1: "publish_all unary nat_codec sample_channel ?p [0, 2] [''jobs'' \<mapsto> []] = (Inr (), ?w)"
    by (simp add: publish_def nat_codec_def unary_def sample_channel_def default_options_def try_rethrow_def numeral_3_eq_3)
  obtain rs w2 where r: "consume_n ?parse nat_codec sample_channel ?s 3 ?w = (Inr rs, w2)"
    by (simp add: nat_codec_def sample_channel_def rmq_source_process_def consume_def numeral_3_eq_3)
  note c = rmq_roundtrip [where queued = "\<lambda>w. w" and tag_of = "\<lambda>w t. Some t" and s = ?s and n = 3, OF sample_broker_laws cod new q]
  have "length rs = 3 \<and> (\<exists>k. received rs = take k [0, 2])" using c unfolding w1 prod.case sum.case r by blast
  then show ?thesis using new w1 r by blast
qed

end
