(* ===== verification/Modules.thy ===== *)
theory Modules
  imports Pipeline
begin

text \<open>
  The ready-made flow objects of \<open>src/core/src/modules\<close> that need nothing from outside:
  \<open>ConstantSource\<close>, \<open>AdditionModule\<close>, \<open>SumAggregator\<close> and \<open>PrintSink\<close>, for \<open>int\<close>.  What
  \<open>PrintSink\<close> logs is the list of values logged.  They are then the override points of a pipeline.
\<close>

section \<open>The objects\<close>

text \<open>Addition of \<open>int\<close>; an overflow has no meaning.\<close>

definition int_add :: "int \<Rightarrow> int \<Rightarrow> int result" where
  "int_add a b = (if INT_MIN \<le> a + b \<and> a + b \<le> INT_MAX then Inr (a + b) else Inl UB)"

definition constant_source_process :: "int \<Rightarrow> int option result" where
  "constant_source_process constant = Inr (Some constant)"

definition addition_module_process :: "int \<Rightarrow> int \<Rightarrow> int option result" where
  "addition_module_process addition input = rmap Some (int_add input addition)"

fun sum_loop :: "int \<Rightarrow> int list \<Rightarrow> int result" where
  "sum_loop acc [] = Inr acc"
| "sum_loop acc (v # inputs) = rbind (int_add acc v) (\<lambda>acc. sum_loop acc inputs)"

definition sum_aggregator_process :: "int list \<Rightarrow> int option result" where
  "sum_aggregator_process inputs = rmap Some (sum_loop 0 inputs)"

definition print_sink_process :: "int \<Rightarrow> int list \<Rightarrow> int list" where
  "print_sink_process input log = log @ [input]"

text \<open>The sum is right as long as every partial sum fits, and undefined from the first that does not.\<close>

lemma sum_loop_eq:
  "INT_MIN \<le> acc \<and> acc \<le> INT_MAX \<Longrightarrow>
     sum_loop acc inputs =
       (if \<forall>n \<le> length inputs. INT_MIN \<le> acc + sum_list (take n inputs) \<and> acc + sum_list (take n inputs) \<le> INT_MAX
        then Inr (acc + sum_list inputs) else Inl UB)"
proof (induction inputs arbitrary: acc)
  case (Cons v inputs)
  have all: "(\<forall>n \<le> length (v # inputs). P (sum_list (take n (v # inputs)))) \<longleftrightarrow>
      P 0 \<and> (\<forall>n \<le> length inputs. P (v + sum_list (take n inputs)))" for P
    by (auto simp: take_Cons' split: if_splits)
  show ?case
  proof (cases "INT_MIN \<le> acc + v \<and> acc + v \<le> INT_MAX")
    case True
    then show ?thesis
      using Cons.IH [OF True] Cons.prems all [of "\<lambda>t. INT_MIN \<le> acc + t \<and> acc + t \<le> INT_MAX"]
      by (simp add: int_add_def add.assoc)
  next
    case False
    have "\<not> (\<forall>n \<le> length inputs. INT_MIN \<le> acc + (v + sum_list (take n inputs)) \<and> acc + (v + sum_list (take n inputs)) \<le> INT_MAX)"
      using False by (intro notI) (drule spec [of _ 0], simp)
    then show ?thesis using False all [of "\<lambda>t. INT_MIN \<le> acc + t \<and> acc + t \<le> INT_MAX"]
      by (auto simp: int_add_def)
  qed
qed simp

lemma sum_aggregator_spec:
  "sum_aggregator_process inputs =
     (if \<forall>n \<le> length inputs. INT_MIN \<le> sum_list (take n inputs) \<and> sum_list (take n inputs) \<le> INT_MAX
      then Inr (Some (sum_list inputs)) else Inl UB)"
  using sum_loop_eq [of 0 inputs] by (simp add: sum_aggregator_process_def INT_MIN_def INT_MAX_def)

section \<open>As override points of a pipeline\<close>

datatype module_obj = ConstantSource int | AdditionModule int | SumAggregator | PrintSink

fun int_of :: "int val \<Rightarrow> int" where
  "int_of (Scalar c i) = i"
| "int_of _ = 0"

definition out_val :: "int option result \<Rightarrow> int val option result" where
  "out_val r = rmap (map_option vint) r"

text \<open>Which object is which; an object that is none of these, or called as another kind, does not type
  check.\<close>

definition modules_rt :: "(nid \<Rightarrow> module_obj option) \<Rightarrow> (int val option, int, int list) runtime" where
  "modules_rt obj =
     \<lparr>any_empty = None, any_make = Some, any_has_value = (\<lambda>a. a \<noteq> None),
      any_type = (\<lambda>a. case a of None \<Rightarrow> TVoid | Some v \<Rightarrow> typeof v), any_cast = opt_any_cast,
      source_process = (\<lambda>n log. (case obj n of Some (ConstantSource c) \<Rightarrow> out_val (constant_source_process c)
        | _ \<Rightarrow> Inl Ill_Formed, log)),
      module_process = (\<lambda>n v log. (case obj n of Some (AdditionModule a) \<Rightarrow> out_val (addition_module_process a (int_of v))
        | _ \<Rightarrow> Inl Ill_Formed, log)),
      aggregator_process = (\<lambda>n vs log. (case obj n of Some SumAggregator \<Rightarrow> out_val (sum_aggregator_process (map int_of vs))
        | _ \<Rightarrow> Inl Ill_Formed, log)),
      sink_process = (\<lambda>n v log. case obj n of Some PrintSink \<Rightarrow> (Inr (), print_sink_process (int_of v) log)
        | _ \<Rightarrow> (Inl Ill_Formed, log)),
      flow_process_any = (\<lambda>_ _ _ log. (Inl Ill_Formed, log)), um_order = (\<lambda>xs. xs), implicit_conv = (\<lambda>_ v. v)\<rparr>"

lemma any_laws_modules: "any_laws (modules_rt obj)"
  by (simp add: any_laws_def modules_rt_def opt_any_cast_def)

lemma chain_additions:
  assumes "list_all2 (\<lambda>m a. obj m = Some (AdditionModule a) \<and> kd m = Some (KModule (TClass ''int'') (TClass ''int''))) ms as"
    "obj k = Some PrintSink" "kd k = Some (KSink (TClass ''int''))"
  shows "(\<And>n. n \<le> length as \<Longrightarrow> INT_MIN \<le> i + sum_list (take n as) \<and> i + sum_list (take n as) \<le> INT_MAX) \<Longrightarrow>
    chain (modules_rt obj) kd ms k (vint i) log = Some (log @ [i + sum_list as])"
  using assms(1)
proof (induction ms "as" arbitrary: i rule: list_all2_induct)
  case Nil
  then show ?case using assms(2,3) by (simp add: modules_rt_def print_sink_process_def)
next
  case (Cons m ms a as)
  have "INT_MIN \<le> i + a \<and> i + a \<le> INT_MAX" using Cons.prems [of 1] by simp
  then have "int_add i a = Inr (i + a)" by (simp add: int_add_def)
  moreover have "INT_MIN \<le> (i + a) + sum_list (take n as) \<and> (i + a) + sum_list (take n as) \<le> INT_MAX" if "n \<le> length as" for n
    using Cons.prems [of "Suc n"] that by (simp add: add.assoc)
  then have "chain (modules_rt obj) kd ms k (vint (i + a)) log = Some (log @ [(i + a) + sum_list as])" by (rule Cons.IH)
  ultimately show ?case using Cons.hyps(1)
    by (simp add: modules_rt_def addition_module_process_def out_val_def add.assoc)
qed

section \<open>Properties\<close>

text \<open>A pipeline of a \<open>ConstantSource\<close>, any number of \<open>AdditionModule\<close>s and a \<open>PrintSink\<close>, built by adding
  them in order, logs the constant plus all the additions, once per execution, as long as no
  partial sum leaves \<open>int\<close>.\<close>

theorem addition_pipeline_prints:
  assumes "distinct (s # ms @ [k])" "\<forall>m. succs st m = []"
    "kind_of st s = Some (KSource (TClass ''int''))" "obj s = Some (ConstantSource c)"
    "list_all2 (\<lambda>m a. obj m = Some (AdditionModule a) \<and> kind_of st m = Some (KModule (TClass ''int'') (TClass ''int''))) ms as"
    "obj k = Some PrintSink" "kind_of st k = Some (KSink (TClass ''int''))"
    "\<forall>m \<in> set (s # ms). policy_of st m = Some Fanout"
    "\<forall>n \<le> length as. INT_MIN \<le> c + sum_list (take n as) \<and> c + sum_list (take n as) \<le> INT_MAX"
  shows "\<exists>p st'. pipeline_add_all (s # ms @ [k]) (empty_pipeline, st) = (Inr (), p, st') \<and>
    pipeline_execute (length ms + 2) (modules_rt obj) p st' = (Inr (), st'\<lparr>world := world st @ [c + sum_list as]\<rparr>)"
proof (rule pipeline_chain_run [OF any_laws_modules assms(1,2) _ _ _ assms(8)])
  show "has_kind is_source st s" "has_kind is_sink st k" using assms(3,7) by (simp_all add: has_kind_def)
  show "\<forall>m \<in> set ms. has_kind is_node st m"
    using assms(5) by (auto simp: has_kind_def list_all2_conv_all_nth in_set_conv_nth)
  show "source_process (modules_rt obj) s (world st) = (Inr (Some (vint c)), world st)"
    using assms(4) by (simp add: modules_rt_def constant_source_process_def out_val_def)
  show "chain (modules_rt obj) (kind_of st) ms k (vint c) (world st) = Some (world st @ [c + sum_list as])"
    by (rule chain_additions [OF assms(5-7)]) (use assms(9) in simp)
qed

definition int_line :: "(int, int list) flow_state" where
  "int_line = \<lparr>objs = [0 \<mapsto> new_node (KSource (TClass ''int'')) Fanout,
     1 \<mapsto> new_node (KModule (TClass ''int'') (TClass ''int'')) Fanout,
     2 \<mapsto> new_node (KSink (TClass ''int'')) Fanout], world = []\<rparr>"

theorem addition_pipeline_prints_witness:
  "\<exists>p st'. pipeline_add_all (0 # [1] @ [2]) (empty_pipeline, int_line) = (Inr (), p, st') \<and>
     pipeline_execute (length [1 :: nid] + 2) (modules_rt [0 \<mapsto> ConstantSource 40, 1 \<mapsto> AdditionModule 2, 2 \<mapsto> PrintSink]) p st' =
       (Inr (), st'\<lparr>world := world int_line @ [40 + sum_list [2]]\<rparr>)"
proof (rule addition_pipeline_prints)
  show "\<forall>n \<le> length [2]. INT_MIN \<le> 40 + sum_list (take n [2]) \<and> 40 + sum_list (take n [2]) \<le> INT_MAX"
    by (auto simp: INT_MIN_def INT_MAX_def take_Cons' split: if_splits)
qed (auto simp: int_line_def succs_def kind_of_def policy_of_def new_node_def)

end
