(* ===== verification/Spec2Isabelle.thy ===== *)
theory Spec2Isabelle
  imports RW_Queue_Races Blocking_SPSC_Props Semaphore_Posix Queue_Moves Worker_Threads_Props Mission_Run Flow_Types Shared_Threads Server_Props Rmq Modules
begin

text \<open>
  A verification development of Pipeline Tools, a C++ framework in which an application is built
  from flow objects (sources, modules, aggregators and sinks) wired into pipelines.  This theory
  imports the others and says how they correspond to the code; it proves nothing itself.

  \<^bold>\<open>The program.\<close>  A \<open>Flow\<close> object holds its consumers and runs them on what it produces; a
  \<open>Pipeline\<close> wires the objects added to it; a \<open>Mission\<close> holds several pipelines, connects the last
  object of one to the first of the next through a queue, and runs each pipeline in a \<open>Worker\<close> thread
  on cores the \<open>CPUManager\<close> hands out.  Beside them stand the queues, the buffers and the memory
  pool the objects exchange data in, a RabbitMQ connection, and a web server with a generated
  description of its endpoints, which \<open>main\<close> starts.

  \<^bold>\<open>Theories and code\<close> (paths under \<open>src/\<close>):

  \<^item> \<open>Prelude\<close>: results, exceptions, state passing, mutexes, addresses and the general lemmas.
    \<open>Text_Utils\<close>: \<open>core/src/utils/string_utils.cpp\<close>, \<open>misc_utils.cpp\<close> and the library parsers they call.
  \<^item> \<open>Any_Value\<close>: the type erased values and \<open>any_cast_with_info\<close>.  \<open>Flow_State\<close>: the fields of the flow
    objects and the heap of objects.  \<open>Blocks\<close>: \<open>core/src/flow/blocks\<close>.  \<open>Flow\<close>: \<open>core/src/flow/Flow.hpp\<close>
    and \<open>Producer.hpp\<close>.  \<open>Flow_Props\<close> and \<open>Flow_Delivery\<close>: what is proved of them; \<open>Flow_Types\<close>: which graphs
    never meet an exception of the engine.
  \<^item> \<open>Pipeline\<close>: \<open>core/src/flow/Pipeline.hpp\<close>.  \<open>Mission\<close>: \<open>core/src/flow/Mission.hpp\<close>; \<open>Mission_Run\<close>: a
    mission of two pipelines from \<open>add_pipeline\<close> to the output of the second.  \<open>Modules\<close>: the
    ready-made objects of \<open>core/src/modules\<close>.
  \<^item> \<open>IQueue\<close>: the interface of the queues as a locale, and its clients \<open>QueueSource\<close> and \<open>QueueSink\<close>.
    \<open>Std_Queue\<close>: \<open>StdQueue.hpp\<close>.  \<open>RW_Queue\<close>: \<open>ReaderWriterQueue\<close> of \<open>moodycamel/readerwriterqueue.h\<close>;
    \<open>RW_Queue_Props\<close>, \<open>RW_Queue_Capacity\<close> and \<open>RW_Queue_Walk\<close>: its representation, its constructor and
    its loops.  \<open>RW_Queue_SPSC\<close> and \<open>RW_Queue_SPSC_Props\<close>: \<open>inner_enqueue\<close> and \<open>try_dequeue\<close> cut into the steps two threads
    interleave.  \<open>RW_Queue_Races\<close>: the plain memory each step accesses.  \<open>Blocking_Queue\<close>: \<open>BlockingReaderWriterQueue\<close> and the semaphores of \<open>atomicops.h\<close>;
    \<open>Blocking_SPSC\<close> and \<open>Blocking_SPSC_Props\<close>: the steps of its producer and its consumer.
    \<open>Semaphore_Posix\<close>: the class \<open>Semaphore\<close> of \<open>atomicops.h\<close>, system call by system call.  \<open>Queue_Moves\<close>: the layout
    of a block in memory, the re-entrancy guards, and moving a queue.
    \<open>Queue_Factory\<close>: \<open>MoodycamelQueue.hpp\<close> and \<open>QueueFactory.hpp\<close>.  \<open>Queue_Props\<close>: what is proved of them all.
  \<^item> \<open>Buffers\<close>: \<open>core/src/utils/memory/smart_buffers\<close> but for \<open>shared_buffer\<close>.  \<open>Mem_Pool\<close>: \<open>MemPool.hpp\<close>
    and the heap.  \<open>Shared_Buffer\<close> and \<open>Shared_Buffer_Props\<close>: \<open>shared_buffer.hpp\<close>;
    \<open>Shared_Buffer_Threads\<close>: the steps of its operations, between which other threads run; \<open>Shared_Threads_Props\<close>,
    \<open>Shared_Threads_Safe\<close> and \<open>Shared_Threads\<close>: their invariant and what follows.
  \<^item> \<open>CPU_Manager\<close> and \<open>CPU_Manager_Props\<close>: \<open>core/src/utils/threads/CPUManager.cpp\<close>, \<open>ThreadPolicy.h\<close>, the
    singleton and the logger's set-up.  \<open>Worker\<close>: \<open>Worker.cpp\<close> and \<open>core/src/flow/Mission.cpp\<close>, one call after
    the other; \<open>Worker_Threads\<close> and \<open>Worker_Threads_Props\<close>: the steps of the owner of a worker and of its threads.
  \<^item> \<open>Config\<close>: \<open>core/src/utils/config\<close>.  \<open>Server\<close> and \<open>Server_Props\<close>: \<open>server/src/server\<close>, \<open>main.cpp\<close> and
    \<open>missions/example\<close>.  \<open>Rmq\<close>: \<open>core/src/utils/ipc/rmq\<close> and \<open>core/src/modules/io/ipc/rmq\<close>.

  \<^bold>\<open>State.\<close>  Objects that other objects refer to live in a store: a function from references to
  records with the fields of the class.  So flow objects refer to their consumers, blocks of a queue to
  the next block, and shared buffers to their control block.  Errors are values: a \<open>result\<close> is an
  \<open>error\<close> or a value, and an \<open>error\<close> is a C++ exception, a failed assertion, undefined behaviour, a
  deadlock, or that the fuel was used up.

  \<^bold>\<open>What is proved.\<close>  Of the engine: that running an object of a graph without cycles ends, in a return or an exception
  where every object has consumers; that it keeps the wiring and the aggregators consistent whatever the user's code
  does, and executes the consumers the production policy names, each with its value and its id; and that the bit mask of the aggregator implements its contract, one input of
  every producer per call of \<open>process\<close>; and that where connected types fit and the user's code keeps to
  its types, no cast fails.  Of pipelines and missions: how the objects are wired, what a linear
  pipeline computes, that neighbouring pipelines get a queue of their own, and that of two such pipelines
  the sink is given what the source made, in order, however their workers take turns.  Of the queues: every
  class meets the locale \<open>iqueue\<close> (\<open>bounded_queue\<close> or \<open>unbounded_queue\<close>), so all are first in, first out; the
  ring of blocks keeps the room it reserved, and its destructor frees everything once.  Of two threads on
  one \<open>ReaderWriterQueue\<close>: whatever the interleaving, no step fails, elements come out in the order they went
  in, a negative answer is right at some moment of the call, every call returns, and they never
  race for plain memory.  Of two
  threads on one \<open>BlockingReaderWriterQueue\<close>, in fewer than \<open>2 ^ 61\<close> actions, so that \<open>m_count\<close> does not wrap:
  no assertion fails, first in is first out, and a consumer that waits is woken; the semaphore they use is
  refined by the loops around the system calls.  Of the
  memory: the locale \<open>block_provider\<close> says what the buffers need of the heap or the pool, and under it
  every block has one owner; a shared buffer gives its block back with its last owner,
  also when threads interleave between the accesses to its reference count.  Of the cores:
  none is lost or handed out twice.  Of a worker and its owner, whatever the interleaving: how many threads
  run, when exactly a step fails and how, that a stopped thread ends unless the worker is started again or destroyed, and that a
  restart may never return.  Of the server: every declared endpoint is routed and described, and where it listens.
  Of RabbitMQ: what is published is received in order, as far as the broker delivers it.

  \<^bold>\<open>Fuel.\<close>  \<open>execute\<close> recurses over a graph of objects that may have cycles and takes the depth of the
  recursion as fuel; \<open>Flow_Delivery.execute_acyclic_returns\<close> shows that the height of the object is
  enough, and that more changes nothing.  The loops around the ring of a queue take the number of blocks
  (and of the slots of a block) as fuel, shown to be enough in \<open>RW_Queue_Walk\<close>; the loop that takes back
  a reservation of the semaphore needs one round while no other operation runs; the system calls are
  repeated at most as often as signals interrupt the thread; a mission of two pipelines, each a line of objects, runs
  with fuel for its length and two more; and \<open>worker_loop\<close> runs over
  the values the stop flag is read to have.  All other recursion is structural or has a measure.

  \<^bold>\<open>Parameters.\<close>  The user's \<open>process\<close> methods; \<open>nstd::any\<close> (with the laws of \<open>std::any\<close>); the iteration order
  of \<open>std::unordered_map\<close> (a permutation of its entries); whether \<open>malloc\<close> succeeds; the storage \<open>std::vector::resize\<close> gives; whether the
  calls of \<open>pthread\<close> succeed; the files of \<open>/sys\<close>; the environment; \<open>std::stod\<close>; the logging library; the AMQP
  channel (a message published goes to the end of its queue, consuming returns the first one or runs into the timeout);
  how \<open>nlohmann::json\<close> prints and parses a document and the user's types convert themselves (inverse to each other on
  the values sent); which files can be opened and how much of a text is stored; and the query string of
  \<open>httplib\<close>.  \<open>httplib\<close> and \<open>nlohmann::json\<close> objects are kept as
  the list of calls made on them.

  \<^bold>\<open>Not modelled.\<close>  Memory orders and fences: threads interleave with sequentially consistent memory.  The
  platforms of \<open>atomicops.h\<close> other than Linux, for which the project is not built.  \<open>emplace\<close> of the queues, which is
  \<open>enqueue\<close> with the construction of the element inside.  The elements of buffers, which no operation of theirs reads;
  the text of log messages; and concepts, which are checked at compile time.  Threads interleave
  within the operations of \<open>ReaderWriterQueue\<close>, \<open>BlockingReaderWriterQueue\<close>, \<open>shared_buffer\<close> and \<open>Worker\<close>; the workers of
  \<open>Mission_Run\<close> take turns by whole executions of their pipelines; the operations of every other object
  are modelled one at a time.
\<close>

end
